(* ===== verification/Prelude.thy ===== *)
theory Prelude
  imports Main "HOL-Library.Word" "HOL-Library.Monad_Syntax"
begin

text \<open>
  What every component theory shares: the names of the C integer types, the checked
  signed arithmetic that turns undefined behaviour of C into the value \<open>None\<close>,
  bounds-checked access to buffers, and the collections of simplification rules.

  A C function whose execution is undefined (a signed overflow, a read outside a buffer,
  a failing \<open>assert\<close>) is modelled with a result in \<open>option\<close>: \<open>None\<close> is the undefined
  execution, and the theorems that the function is defined say that the result is \<open>Some\<close>.
\<close>

unbundle bit_operations_syntax

section \<open>C integer types\<close>

type_synonym u8 = "8 word"
type_synonym u16 = "16 word"
type_synonym u32 = "32 word"
type_synonym u64 = "64 word"

text \<open>Signed integers are read as mathematical integers together with their range.\<close>

abbreviation LARGEST_INT64 :: int where
  "LARGEST_INT64 \<equiv> 9223372036854775807"

abbreviation SMALLEST_INT64 :: int where
  "SMALLEST_INT64 \<equiv> - 9223372036854775808"

definition in_i64 :: "int \<Rightarrow> bool" where
  "in_i64 x \<longleftrightarrow> SMALLEST_INT64 \<le> x \<and> x \<le> LARGEST_INT64"

definition in_i32 :: "int \<Rightarrow> bool" where
  "in_i32 x \<longleftrightarrow> - 2147483648 \<le> x \<and> x \<le> 2147483647"

text \<open>The value of a signed 64-bit or 32-bit C expression: undefined when out of range.\<close>

definition i64 :: "int \<Rightarrow> int option" where
  "i64 x = (if in_i64 x then Some x else None)"

definition i32 :: "int \<Rightarrow> int option" where
  "i32 x = (if in_i32 x then Some x else None)"

text \<open>C division truncates towards zero; division by zero is undefined.\<close>

definition cdiv :: "int \<Rightarrow> int \<Rightarrow> int" where
  "cdiv a b = sgn a * sgn b * (\<bar>a\<bar> div \<bar>b\<bar>)"

definition cmod :: "int \<Rightarrow> int \<Rightarrow> int" where
  "cmod a b = a - b * cdiv a b"

definition i64_div :: "int \<Rightarrow> int \<Rightarrow> int option" where
  "i64_div a b = (if b = 0 then None else i64 (cdiv a b))"

section \<open>Buffers\<close>

text \<open>Reading and writing one cell of a buffer; outside the buffer is undefined.\<close>

definition rd :: "'a list \<Rightarrow> nat \<Rightarrow> 'a option" where
  "rd xs i = (if i < length xs then Some (xs ! i) else None)"

definition wr :: "'a list \<Rightarrow> nat \<Rightarrow> 'a \<Rightarrow> 'a list option" where
  "wr xs i x = (if i < length xs then Some (xs[i := x]) else None)"

section \<open>Result codes\<close>

text \<open>The result codes of \<^verbatim>\<open>src/sqlite.h.in\<close> that the modelled functions return.\<close>

abbreviation (input) SQLITE_OK :: nat where "SQLITE_OK \<equiv> 0"
abbreviation (input) SQLITE_ERROR :: nat where "SQLITE_ERROR \<equiv> 1"
abbreviation (input) SQLITE_BUSY :: nat where "SQLITE_BUSY \<equiv> 5"
abbreviation (input) SQLITE_NOMEM :: nat where "SQLITE_NOMEM \<equiv> 7"
abbreviation (input) SQLITE_READONLY :: nat where "SQLITE_READONLY \<equiv> 8"
abbreviation (input) SQLITE_IOERR :: nat where "SQLITE_IOERR \<equiv> 10"
abbreviation (input) SQLITE_CORRUPT :: nat where "SQLITE_CORRUPT \<equiv> 11"
abbreviation (input) SQLITE_NOTFOUND :: nat where "SQLITE_NOTFOUND \<equiv> 12"
abbreviation (input) SQLITE_FULL :: nat where "SQLITE_FULL \<equiv> 13"
abbreviation (input) SQLITE_IOERR_SHORT_READ :: nat where "SQLITE_IOERR_SHORT_READ \<equiv> 522"
abbreviation (input) SQLITE_IOERR_WRITE :: nat where "SQLITE_IOERR_WRITE \<equiv> 778"
abbreviation (input) SQLITE_IOERR_NOMEM :: nat where "SQLITE_IOERR_NOMEM \<equiv> 3082"

section \<open>Collections of rules\<close>

named_theorems ck \<open>checked arithmetic and buffer access\<close>
named_theorems bytes \<open>lengths and contents of encoded values\<close>

lemma i64_Some [ck]: "in_i64 x \<Longrightarrow> i64 x = Some x"
  by (simp add: i64_def)

lemma i64_eq_Some [ck]: "i64 x = Some y \<longleftrightarrow> in_i64 x \<and> y = x"
  by (auto simp: i64_def)

lemma i32_Some [ck]: "in_i32 x \<Longrightarrow> i32 x = Some x"
  by (simp add: i32_def)

lemma rd_Some [ck]: "i < length xs \<Longrightarrow> rd xs i = Some (xs ! i)"
  by (simp add: rd_def)

lemma rd_eq_Some [ck]: "rd xs i = Some x \<longleftrightarrow> i < length xs \<and> x = xs ! i"
  by (auto simp: rd_def)

lemma rd_eq_None [ck]: "rd xs i = None \<longleftrightarrow> length xs \<le> i"
  by (auto simp: rd_def)

lemma rd_Cons_0 [simp]: "rd (x # xs) 0 = Some x"
  by (simp add: rd_def)

lemma rd_Cons_Suc [simp]: "rd (x # xs) (Suc i) = rd xs i"
  by (simp add: rd_def)

lemma rd_Cons_numeral [simp]: "rd (x # xs) (numeral n) = rd xs (pred_numeral n)"
  by (simp add: rd_def)

lemma wr_Some [ck]: "i < length xs \<Longrightarrow> wr xs i x = Some (xs[i := x])"
  by (simp add: wr_def)

lemma wr_eq_Some [ck]: "wr xs i x = Some ys \<longleftrightarrow> i < length xs \<and> ys = xs[i := x]"
  by (auto simp: wr_def)

lemma cdiv_pos: "0 \<le> a \<Longrightarrow> 0 < b \<Longrightarrow> cdiv a b = a div b"
  by (cases "a = 0") (auto simp: cdiv_def sgn_if)

lemma cdiv_neg_pos: "a < 0 \<Longrightarrow> 0 < b \<Longrightarrow> cdiv a b = - ((- a) div b)"
  by (auto simp: cdiv_def sgn_if)

lemma cdiv_zero [simp]: "cdiv 0 b = 0"
  by (simp add: cdiv_def)

end
