(* ===== verification/UtilInt.thy ===== *)
theory UtilInt
  imports Prelude
begin

text \<open>
  Overflow-checked 64-bit arithmetic and logarithmic estimates of
  \<^verbatim>\<open>src/util.c\<close>: \<open>sqlite3AddInt64\<close>, \<open>sqlite3SubInt64\<close> and
  \<open>sqlite3MulInt64\<close> in both their compilations, \<open>sqlite3AbsInt32\<close>, and the \<open>LogEst\<close> routines of the query planner.

  Every intermediate signed expression of the source goes through \<open>i64\<close>, so a result other
  than \<open>None\<close> says that no signed overflow happens on the way.
\<close>

section \<open>Overflow-checked addition, subtraction, multiplication\<close>

text \<open>
  The pair of a result is the C return value (\<open>True\<close> for 1, overflow) and the contents
  of \<open>*pA\<close> afterwards. Each function has two bodies, chosen by the preprocessor: with GCC from
  5.4 on and its relatives (\<open>gcc\<close> is \<open>True\<close>) the body is one call of \<open>__builtin_add_overflow\<close>
  and its like, which compute as if with unbounded integers, store the result reduced to the
  64 bits of \<open>*pA\<close> and return whether the reduction changed it; otherwise it is portable C.
\<close>

definition wrap_i64 :: "int \<Rightarrow> int" where
  "wrap_i64 x = sint (word_of_int x :: 64 word)"

definition builtin_overflow :: "int \<Rightarrow> bool \<times> int" where
  "builtin_overflow exact = (wrap_i64 exact \<noteq> exact, wrap_i64 exact)"

definition sqlite3AddInt64 :: "bool \<Rightarrow> int \<Rightarrow> int \<Rightarrow> (bool \<times> int) option" where
  "sqlite3AddInt64 gcc iA iB =
     (if gcc then Some (builtin_overflow (iA + iB))
      else if iB \<ge> 0 then
        do {
          over \<leftarrow> (if iA > 0 then do { d \<leftarrow> i64 (LARGEST_INT64 - iA); Some (d < iB) }
                  else Some False);
          if over then Some (True, iA)
          else do { s \<leftarrow> i64 (iA + iB); Some (False, s) }
        }
      else
        do {
          over \<leftarrow> (if iA < 0 then
                    do { t \<leftarrow> i64 (iA + LARGEST_INT64);
                         m \<leftarrow> i64 (- t);
                         b \<leftarrow> i64 (iB + 1);
                         Some (m > b) }
                  else Some False);
          if over then Some (True, iA)
          else do { s \<leftarrow> i64 (iA + iB); Some (False, s) }
        })"

definition sqlite3SubInt64 :: "bool \<Rightarrow> int \<Rightarrow> int \<Rightarrow> (bool \<times> int) option" where
  "sqlite3SubInt64 gcc pA iB =
     (if gcc then Some (builtin_overflow (pA - iB))
      else if iB = SMALLEST_INT64 then
        (if pA \<ge> 0 then Some (True, pA)
         else do { s \<leftarrow> i64 (pA - iB); Some (False, s) })
      else do { m \<leftarrow> i64 (- iB); sqlite3AddInt64 gcc pA m })"

definition mul_overflows :: "int \<Rightarrow> int \<Rightarrow> bool option" where
  "mul_overflows iA iB =
     (if iB > 0 then
        do {
          q \<leftarrow> i64_div LARGEST_INT64 iB;
          if iA > q then Some True
          else do { q' \<leftarrow> i64_div SMALLEST_INT64 iB; Some (iA < q') }
        }
      else if iB < 0 then
        (if iA > 0 then do { q \<leftarrow> i64_div SMALLEST_INT64 iA; Some (iB < q) }
         else if iA < 0 then
           (if iB = SMALLEST_INT64 then Some True
            else if iA = SMALLEST_INT64 then Some True
            else do { na \<leftarrow> i64 (- iA); nb \<leftarrow> i64 (- iB);
                      q \<leftarrow> i64_div LARGEST_INT64 nb; Some (na > q) })
         else Some False)
      else Some False)"

definition sqlite3MulInt64 :: "bool \<Rightarrow> int \<Rightarrow> int \<Rightarrow> (bool \<times> int) option" where
  "sqlite3MulInt64 gcc iA iB =
     (if gcc then Some (builtin_overflow (iA * iB))
      else do {
       over \<leftarrow> mul_overflows iA iB;
       if over then Some (True, iA)
       else do { p \<leftarrow> i64 (iA * iB); Some (False, p) }
     })"

text \<open>
  What the three routines promise: the exact result, or 1. What \<open>*pA\<close> holds after an overflow
  depends on the compilation: the old operand in the portable one, the result modulo
  \<open>2 ^ 64\<close> with the built-in functions.
\<close>

definition checked_result :: "bool \<Rightarrow> int \<Rightarrow> int \<Rightarrow> bool \<times> int" where
  "checked_result gcc old exact =
     (if in_i64 exact then (False, exact) else (True, if gcc then wrap_i64 exact else old))"

lemma in_i64_wrap: "in_i64 (wrap_i64 x)"
  using sint_range_size [of "word_of_int x :: 64 word"]
  by (simp add: wrap_i64_def in_i64_def word_size)

lemma wrap_i64_id: "in_i64 x \<Longrightarrow> wrap_i64 x = x"
  by (simp add: wrap_i64_def in_i64_def int_word_sint)

lemma builtin_overflow_eq: "builtin_overflow x = checked_result True old x"
  using in_i64_wrap [of x] wrap_i64_id [of x]
  by (auto simp: builtin_overflow_def checked_result_def)

lemma AddInt64_eq:
  "in_i64 a \<Longrightarrow> in_i64 b \<Longrightarrow> sqlite3AddInt64 gcc a b = Some (checked_result gcc a (a + b))"
  by (cases gcc) (auto simp: sqlite3AddInt64_def builtin_overflow_eq [of _ a]
    checked_result_def [of False] i64_def in_i64_def)

lemma SubInt64_eq:
  "in_i64 a \<Longrightarrow> in_i64 b \<Longrightarrow> sqlite3SubInt64 gcc a b = Some (checked_result gcc a (a - b))"
proof (cases gcc)
  case True
  then show ?thesis by (simp add: sqlite3SubInt64_def builtin_overflow_eq [of _ a])
next
  case [simp]: False
  assume ab: "in_i64 a" "in_i64 b"
  show ?thesis
  proof (cases "b = SMALLEST_INT64")
    case True
    with ab show ?thesis
      by (auto simp: sqlite3SubInt64_def checked_result_def i64_def in_i64_def)
  next
    case False
    with ab have "in_i64 (- b)"
      by (auto simp: in_i64_def)
    with ab False show ?thesis
      using AddInt64_eq [of a "- b" gcc] by (simp add: sqlite3SubInt64_def ck)
  qed
qed

text \<open>A bound on one factor through a truncated quotient is a bound on the product.\<close>

lemma gt_div_iff:
  fixes a b m :: int
  assumes "0 < b"
  shows "m div b < a \<longleftrightarrow> m < a * b"
proof
  have m: "m = m div b * b + m mod b"
    by simp
  have r: "0 \<le> m mod b" "m mod b < b"
    using assms by simp_all
  show "m < a * b" if "m div b < a"
  proof -
    from that assms have "(m div b + 1) * b \<le> a * b"
      by (intro mult_right_mono) auto
    then have "m div b * b + b \<le> a * b" by (simp only: distrib_right mult_1)
    with m r show ?thesis by linarith
  qed
  show "m div b < a" if "m < a * b"
  proof (rule ccontr)
    assume "\<not> m div b < a"
    with assms have "a * b \<le> m div b * b"
      by (intro mult_right_mono) auto
    with m r that show False by linarith
  qed
qed

lemma lt_neg_div_iff: "0 < b \<Longrightarrow> a < - (m div b) \<longleftrightarrow> a * b < - m" for a b m :: int
  using gt_div_iff [of b m "- a"] by auto

lemma i64_div_pos [ck]:
  "0 < b \<Longrightarrow> 0 \<le> m \<Longrightarrow> m \<le> LARGEST_INT64 \<Longrightarrow> i64_div m b = Some (m div b)"
  using zdiv_mono2 [of m 1 b] pos_imp_zdiv_nonneg_iff [of b m]
  by (auto simp: i64_div_def cdiv_pos i64_def in_i64_def)

lemma i64_div_neg [ck]:
  "0 < b \<Longrightarrow> i64_div SMALLEST_INT64 b = Some (- (9223372036854775808 div b))"
  using zdiv_mono2 [of 9223372036854775808 1 b]
    pos_imp_zdiv_nonneg_iff [of b 9223372036854775808]
  by (auto simp: i64_div_def cdiv_neg_pos i64_def in_i64_def)

lemma mul_overflows_eq:
  assumes "in_i64 a" "in_i64 b"
  shows "mul_overflows a b = Some (\<not> in_i64 (a * b))"
proof -
  consider "b > 0" | "b < 0" "a > 0" | "b < 0" "a < 0" | "b = 0 \<or> (b < 0 \<and> a = 0)"
    by linarith
  then show ?thesis
  proof cases
    case 1
    then show ?thesis
      using gt_div_iff [of b LARGEST_INT64 a] lt_neg_div_iff [of b a 9223372036854775808]
      by (auto simp: mul_overflows_def ck in_i64_def)
  next
    case 2
    then have "a * b < 0"
      by (simp add: mult_pos_neg)
    with 2 show ?thesis
      using lt_neg_div_iff [of a b 9223372036854775808]
      by (auto simp: mul_overflows_def ck in_i64_def mult.commute)
  next
    case 3
    then have pos: "0 < a * b"
      by (simp add: mult_neg_neg)
    consider "a = SMALLEST_INT64 \<or> b = SMALLEST_INT64"
      | "a \<noteq> SMALLEST_INT64" "b \<noteq> SMALLEST_INT64"
      by blast
    then show ?thesis
    proof cases
      case 1
      with 3 have "LARGEST_INT64 < a * b" by auto
      with 1 3 show ?thesis
        by (auto simp: mul_overflows_def in_i64_def)
    next
      case 2
      with 3 assms pos show ?thesis
        using gt_div_iff [of "- b" LARGEST_INT64 "- a"]
        by (auto simp: mul_overflows_def ck in_i64_def i64_def)
    qed
  next
    case 4
    then show ?thesis by (auto simp: mul_overflows_def in_i64_def)
  qed
qed

lemma MulInt64_eq:
  "in_i64 a \<Longrightarrow> in_i64 b \<Longrightarrow> sqlite3MulInt64 gcc a b = Some (checked_result gcc a (a * b))"
  by (cases gcc) (auto simp: sqlite3MulInt64_def builtin_overflow_eq [of _ a] mul_overflows_eq
    checked_result_def [of False] ck)

lemma wrap_add_changes:
  assumes "in_i64 a" "in_i64 b" "\<not> in_i64 (a + b)"
  shows "wrap_i64 (a + b) \<noteq> a"
proof
  assume w: "wrap_i64 (a + b) = a"
  then have "wrap_i64 (a + b) = wrap_i64 a"
    using assms(1) by (simp add: wrap_i64_id)
  then have "(word_of_int (a + b) :: 64 word) = word_of_int a"
    by (simp only: wrap_i64_def signed_word_eqI)
  then have "(word_of_int b :: 64 word) = 0"
    by (metis add.right_neutral add_left_cancel wi_hom_add)
  then have "wrap_i64 b = 0"
    by (simp add: wrap_i64_def)
  with assms show False
    using wrap_i64_id [of b] by simp
qed

section \<open>Absolute value of a 32-bit integer\<close>

definition sqlite3AbsInt32 :: "int \<Rightarrow> int option" where
  "sqlite3AbsInt32 x =
     (if x \<ge> 0 then Some x
      else if x = - 2147483648 then Some 2147483647
      else i32 (- x))"

lemma AbsInt32_eq:
  "in_i32 x \<Longrightarrow> sqlite3AbsInt32 x = Some (min \<bar>x\<bar> 2147483647)"
  by (auto simp: sqlite3AbsInt32_def in_i32_def i32_def)

section \<open>Logarithmic estimates\<close>

text \<open>
  A \<open>LogEst\<close> is a 16-bit signed integer that stands for \<open>10 * log2\<close> of a quantity. A value
  returned or assigned as \<open>LogEst\<close> is converted to 16 bits, which \<open>to_i16\<close> writes out.
\<close>

definition to_i16 :: "int \<Rightarrow> int" where
  "to_i16 x = (x + 32768) mod 65536 - 32768"

lemma to_i16_id [simp]: "- 32768 \<le> x \<Longrightarrow> x \<le> 32767 \<Longrightarrow> to_i16 x = x"
  by (simp add: to_i16_def)

definition logest_add_tab :: "int list" where
  "logest_add_tab =
     [10, 10, 9, 9, 8, 8, 7, 7, 7, 6, 6, 6, 5, 5, 5, 4, 4, 4, 4,
      3, 3, 3, 3, 3, 3, 2, 2, 2, 2, 2, 2, 2]"

definition sqlite3LogEstAdd :: "int \<Rightarrow> int \<Rightarrow> int option" where
  "sqlite3LogEstAdd a b =
     (if a \<ge> b then
        (if a > b + 49 then Some a
         else if a > b + 31 then Some (to_i16 (a + 1))
         else map_option (\<lambda>t. to_i16 (a + t)) (rd logest_add_tab (nat (a - b))))
      else
        (if b > a + 49 then Some b
         else if b > a + 31 then Some (to_i16 (b + 1))
         else map_option (\<lambda>t. to_i16 (b + t)) (rd logest_add_tab (nat (b - a)))))"

lemma length_logest_add_tab [simp]: "length logest_add_tab = 32"
  by (simp add: logest_add_tab_def)

lemma logest_add_tab_bounds: "i < 32 \<Longrightarrow> 2 \<le> logest_add_tab ! i \<and> logest_add_tab ! i \<le> 10"
proof -
  assume "i < 32"
  then have "logest_add_tab ! i \<in> set logest_add_tab"
    by simp
  moreover have "\<forall>t \<in> set logest_add_tab. 2 \<le> t \<and> t \<le> 10"
    by (simp add: logest_add_tab_def)
  ultimately show ?thesis by blast
qed

lemma LogEstAdd_commute: "sqlite3LogEstAdd a b = sqlite3LogEstAdd b a"
  by (cases "a = b") (auto simp: sqlite3LogEstAdd_def)

text \<open>
  The sum of two estimates lies between the larger one and the larger one plus 10
  (twice the larger quantity), and no table access is out of bounds.
\<close>

lemma LogEstAdd_bounds:
  assumes "- 32768 \<le> a" "a \<le> 32757" "- 32768 \<le> b" "b \<le> 32757"
  shows "\<exists>r. sqlite3LogEstAdd a b = Some r \<and> max a b \<le> r \<and> r \<le> max a b + 10"
proof -
  have *: "\<exists>r. sqlite3LogEstAdd a b = Some r \<and> max a b \<le> r \<and> r \<le> max a b + 10"
    if "b \<le> a" "- 32768 \<le> a" "a \<le> 32757" for a b
  proof (cases "a > b + 31")
    case True
    with that show ?thesis by (auto simp: sqlite3LogEstAdd_def)
  next
    case False
    with that have "nat (a - b) < 32" by auto
    then have t: "2 \<le> logest_add_tab ! nat (a - b)" "logest_add_tab ! nat (a - b) \<le> 10"
      using logest_add_tab_bounds by auto
    with that False show ?thesis
      by (simp add: sqlite3LogEstAdd_def ck)
  qed
  show ?thesis
  proof (cases "b \<le> a")
    case True
    with assms show ?thesis by (intro *) auto
  next
    case False
    with assms show ?thesis
      using * [of a b] LogEstAdd_commute [of a b] by (auto simp: max.commute)
  qed
qed

text \<open>
  \<open>sqlite3LogEst\<close>: the three loops of the portable branch. The running estimate \<open>y\<close> stays
  between 0 and 640 (\<open>LogEst_range\<close> below), far inside 16 bits.
\<close>

function logest_shl :: "nat \<Rightarrow> int \<Rightarrow> nat \<times> int" where
  "logest_shl x y = (if 0 < x \<and> x < 8 then logest_shl (x * 2) (y - 10) else (x, y))"
  by pat_completeness auto
termination
  by (relation "measure (\<lambda>(x, y). 8 - x)") auto

fun logest_shr4 :: "nat \<Rightarrow> int \<Rightarrow> nat \<times> int" where
  "logest_shr4 x y = (if x > 255 then logest_shr4 (x div 16) (y + 40) else (x, y))"

fun logest_shr1 :: "nat \<Rightarrow> int \<Rightarrow> nat \<times> int" where
  "logest_shr1 x y = (if x > 15 then logest_shr1 (x div 2) (y + 10) else (x, y))"

declare logest_shl.simps [simp del] logest_shr4.simps [simp del] logest_shr1.simps [simp del]

definition logest_a :: "int list" where
  "logest_a = [0, 2, 3, 5, 6, 7, 8, 9]"

definition sqlite3LogEst :: "nat \<Rightarrow> int" where
  "sqlite3LogEst x =
     (if x < 8 \<and> x < 2 then 0
      else
        let (x', y) = (if x < 8 then logest_shl x 40
                       else case logest_shr4 x 40 of (x1, y1) \<Rightarrow> logest_shr1 x1 y1)
        in to_i16 (logest_a ! (x' mod 8) + y - 10))"

text \<open>
  \<open>sqlite3LogEstToInt\<close>: \<open>n\<close> is an unsigned 64-bit value, so a negative remainder of \<open>x\<close>
  becomes a huge number; a shift by 64 or more is undefined.
\<close>

definition sqlite3LogEstToInt :: "int \<Rightarrow> int option" where
  "sqlite3LogEstToInt x =
     (let n = cmod x 10 mod 2 ^ 64;
          x' = cdiv x 10;
          n' = (if n \<ge> 5 then n - 2 else if n \<ge> 1 then n - 1 else n)
      in if x' > 60 then Some LARGEST_INT64
         else if x' \<ge> 3 then Some ((n' + 8) mod 2 ^ 64 * 2 ^ nat (x' - 3) mod 2 ^ 64)
         else if 3 - x' \<ge> 64 then None
         else Some ((n' + 8) mod 2 ^ 64 div 2 ^ nat (3 - x')))"

text \<open>
  What the shift loops compute: the four leading bits \<open>m\<close> of \<open>x\<close> and the number \<open>k\<close> of
  bits dropped.
\<close>

lemma logest_shr1_spec:
  "8 \<le> x \<Longrightarrow> \<exists>k m. logest_shr1 x y = (m, y + 10 * int k) \<and> 8 \<le> m \<and> m < 16 \<and> m = x div 2 ^ k"
proof (induction x y rule: logest_shr1.induct)
  case (1 x y)
  show ?case
  proof (cases "x > 15")
    case True
    then have "8 \<le> x div 2" by auto
    with True "1.IH" obtain k m where *:
      "logest_shr1 (x div 2) (y + 10) = (m, y + 10 + 10 * int k)"
      "8 \<le> m" "m < 16" "m = x div 2 div 2 ^ k"
      by auto
    with True have "logest_shr1 x y = (m, y + 10 * int (Suc k)) \<and> m = x div 2 ^ Suc k"
      by (simp add: logest_shr1.simps [of x y] div_mult2_eq)
    with * show ?thesis by blast
  next
    case False
    with "1.prems" show ?thesis
      by (intro exI [of _ 0] exI [of _ x]) (simp add: logest_shr1.simps [of x y])
  qed
qed

lemma logest_shr4_spec:
  "8 \<le> x \<Longrightarrow> \<exists>k m. logest_shr4 x y = (m, y + 10 * int k) \<and> 8 \<le> m \<and> m = x div 2 ^ k"
proof (induction x y rule: logest_shr4.induct)
  case (1 x y)
  show ?case
  proof (cases "x > 255")
    case True
    then have "8 \<le> x div 16" by auto
    with True "1.IH" obtain k m where *:
      "logest_shr4 (x div 16) (y + 40) = (m, y + 40 + 10 * int k)"
      "8 \<le> m" "m = x div 16 div 2 ^ k"
      by auto
    with True have "logest_shr4 x y = (m, y + 10 * int (k + 4)) \<and> m = x div 2 ^ (k + 4)"
      by (simp add: logest_shr4.simps [of x y] power_add div_mult2_eq [symmetric] mult.commute)
    with * show ?thesis by blast
  next
    case False
    with "1.prems" show ?thesis
      by (intro exI [of _ 0] exI [of _ x]) (simp add: logest_shr4.simps [of x y])
  qed
qed

lemma LogEst_large:
  assumes "8 \<le> x"
  shows "\<exists>k m. m = x div 2 ^ k \<and> 8 \<le> m \<and> m < 16 \<and>
    sqlite3LogEst x = to_i16 (logest_a ! (m - 8) + 10 * int k + 30)"
proof -
  obtain k1 m1 where 1: "logest_shr4 x 40 = (m1, 40 + 10 * int k1)" "8 \<le> m1" "m1 = x div 2 ^ k1"
    using logest_shr4_spec [OF assms] by blast
  obtain k2 m where 2: "logest_shr1 m1 (40 + 10 * int k1) = (m, 40 + 10 * int k1 + 10 * int k2)"
    "8 \<le> m" "m < 16" "m = m1 div 2 ^ k2"
    using logest_shr1_spec [OF 1(2)] by blast
  have "m = x div 2 ^ (k1 + k2)"
    using 1(3) 2(4) by (simp add: power_add div_mult2_eq)
  moreover have "m mod 8 = m - 8"
    using 2(2,3) by (simp add: le_mod_geq)
  then have "sqlite3LogEst x = to_i16 (logest_a ! (m - 8) + 10 * int (k1 + k2) + 30)"
    using assms 1(1) 2(1) by (simp add: sqlite3LogEst_def algebra_simps)
  ultimately show ?thesis
    using 2(2,3) by blast
qed

lemma logest_a_decode:
  assumes "8 \<le> m" "m < 16"
  shows "\<exists>d. logest_a ! (m - 8) = d \<and> 0 \<le> d \<and> d < 10 \<and>
    (if d \<ge> 5 then d - 2 else if d \<ge> 1 then d - 1 else d) = int m - 8"
proof -
  from assms consider "m = 8" | "m = 9" | "m = 10" | "m = 11" | "m = 12" | "m = 13" | "m = 14"
    | "m = 15" by linarith
  then show ?thesis by cases (simp_all add: logest_a_def)
qed

text \<open>Decoding an estimate \<open>10 * q + d\<close> whose digit \<open>d\<close> stands for the leading bits \<open>m\<close>.\<close>

lemma LogEstToInt_digits:
  assumes "0 \<le> d" "d < 10" "3 \<le> q" "q \<le> 60" "8 \<le> m" "m < 16"
    and "(if d \<ge> 5 then d - 2 else if d \<ge> 1 then d - 1 else d) = int m - 8"
    and "m * 2 ^ nat (q - 3) < 2 ^ 64"
  shows "sqlite3LogEstToInt (10 * q + d) = Some (int (m * 2 ^ nat (q - 3)))"
proof -
  have x: "cdiv (10 * q + d) 10 = q" "cmod (10 * q + d) 10 = d"
    using assms(1-4) by (simp_all add: cdiv_pos cmod_def)
  have d: "d mod 2 ^ 64 = d"
    using assms(1,2) by simp
  have m: "(int m - 8 + 8) mod 2 ^ 64 = int m"
    using assms(5,6) by simp
  have "int (m * 2 ^ nat (q - 3)) < int (2 ^ 64)"
    using assms(8) by (simp only: of_nat_less_iff)
  then have r: "int m * 2 ^ nat (q - 3) mod 2 ^ 64 = int m * 2 ^ nat (q - 3)"
    by (intro mod_pos_pos_trivial) (simp_all only: of_nat_mult of_nat_power of_nat_numeral
        mult_nonneg_nonneg of_nat_0_le_iff zero_le_power zero_le_numeral)
  have q: "\<not> 60 < q" "3 \<le> q"
    using assms(3,4) by auto
  show ?thesis
    unfolding sqlite3LogEstToInt_def Let_def x d assms(7) m r
    using q by simp
qed

text \<open>
  Converting a number to an estimate and back keeps its four leading bits: the result is
  at most the number and less than an eighth of it smaller.
\<close>

lemma LogEst_roundtrip:
  assumes "1 \<le> x" "x < 2 ^ 61"
  shows "\<exists>r. sqlite3LogEstToInt (sqlite3LogEst x) = Some (int r) \<and> r \<le> x \<and> 8 * (x - r) < x"
proof (cases "x < 8")
  case True
  with assms(1) consider "x = 1" | "x = 2" | "x = 3" | "x = 4" | "x = 5" | "x = 6" | "x = 7"
    by linarith
  then have "sqlite3LogEstToInt (sqlite3LogEst x) = Some (int x)"
    by cases (simp_all add: sqlite3LogEst_def sqlite3LogEstToInt_def logest_shl.simps
        logest_a_def cdiv_def cmod_def)
  with assms(1) show ?thesis by auto
next
  case False
  then obtain k m where km: "m = x div 2 ^ k" "8 \<le> m" "m < 16"
      "sqlite3LogEst x = to_i16 (logest_a ! (m - 8) + 10 * int k + 30)"
    using LogEst_large [of x] by auto
  have le: "m * 2 ^ k \<le> x" and lt: "x < m * 2 ^ k + 2 ^ k"
    unfolding km(1) using dividend_less_div_times [of "2 ^ k" x] by (simp_all add: add.commute)
  have "8 * 2 ^ k \<le> m * (2::nat) ^ k"
    using km(2) by (rule mult_right_mono) simp
  have m64: "m * 2 ^ k < 2 ^ 64"
    using le assms(2) by (simp add: le_less_trans)
  from \<open>8 * 2 ^ k \<le> m * 2 ^ k\<close> le have k8: "8 * 2 ^ k \<le> x" by linarith
  with assms(2) have "(2::nat) ^ (k + 3) < 2 ^ 61" by (simp add: power_add)
  then have k: "k < 58"
    using power_less_imp_less_exp [of "2::nat" "k + 3" 61] by simp
  obtain d where d: "logest_a ! (m - 8) = d" "0 \<le> d" "d < 10"
      "(if d \<ge> 5 then d - 2 else if d \<ge> 1 then d - 1 else d) = int m - 8"
    using logest_a_decode [OF km(2,3)] by blast
  have e: "sqlite3LogEst x = 10 * (int k + 3) + d"
    using km(4) d k by simp
  have "sqlite3LogEstToInt (sqlite3LogEst x) = Some (int (m * 2 ^ nat (int k + 3 - 3)))"
    unfolding e using d km(2,3) k m64 by (intro LogEstToInt_digits) simp_all
  with le lt k8 show ?thesis by (intro exI [of _ "m * 2 ^ k"]) simp
qed

lemma LogEst_range:
  assumes "x < 2 ^ 64"
  shows "0 \<le> sqlite3LogEst x \<and> sqlite3LogEst x \<le> 640"
proof (cases "x < 8")
  case True
  then consider "x < 2" | "x = 2" | "x = 3" | "x = 4" | "x = 5" | "x = 6" | "x = 7"
    by linarith
  then show ?thesis
    by cases (simp_all add: sqlite3LogEst_def logest_shl.simps logest_a_def)
next
  case False
  then obtain k m where km: "m = x div 2 ^ k" "8 \<le> m" "m < 16"
      "sqlite3LogEst x = to_i16 (logest_a ! (m - 8) + 10 * int k + 30)"
    using LogEst_large [of x] by auto
  have "8 * 2 ^ k \<le> m * (2::nat) ^ k"
    using km(2) by (rule mult_right_mono) simp
  also have "\<dots> \<le> x"
    by (simp add: km(1))
  finally have "(2::nat) ^ (k + 3) < 2 ^ 64"
    using assms by (simp add: power_add)
  then have "k \<le> 60"
    using power_less_imp_less_exp [of "2::nat" "k + 3" 64] by simp
  moreover obtain d where "logest_a ! (m - 8) = d" "0 \<le> d" "d < 10"
    using logest_a_decode [OF km(2,3)] by blast
  ultimately show ?thesis
    using km(4) by simp
qed

section \<open>Properties\<close>

text \<open>
  C17: In both compilations the overflow-checked operations return 0 and the exact result when
  it fits in 64 bits, and 1 otherwise; on no input does an intermediate expression overflow.
  After an overflow the portable code has left \<open>*pA\<close> alone, as the comment of the functions
  promises, but the built-in functions have stored the wrapped result, which is never the
  operand again when a non-zero number was added or subtracted.
\<close>
theorem checked_arithmetic:
  assumes "in_i64 a" "in_i64 b"
  shows "sqlite3AddInt64 gcc a b = Some (checked_result gcc a (a + b)) \<and>
    sqlite3SubInt64 gcc a b = Some (checked_result gcc a (a - b)) \<and>
    sqlite3MulInt64 gcc a b = Some (checked_result gcc a (a * b)) \<and>
    (\<not> in_i64 (a + b) \<longrightarrow> sqlite3AddInt64 True a b = Some (True, wrap_i64 (a + b)) \<and>
       wrap_i64 (a + b) \<noteq> a \<and> sqlite3AddInt64 False a b = Some (True, a))"
  using assms wrap_add_changes [of a b]
  by (auto simp: AddInt64_eq SubInt64_eq MulInt64_eq checked_result_def)

theorem checked_arithmetic_witness:
  "in_i64 SMALLEST_INT64 \<and> in_i64 (- 1) \<and>
   sqlite3MulInt64 False SMALLEST_INT64 (- 1) = Some (True, SMALLEST_INT64) \<and>
   sqlite3AddInt64 True SMALLEST_INT64 (- 1) = Some (True, LARGEST_INT64) \<and>
   sqlite3AddInt64 False SMALLEST_INT64 (- 1) = Some (True, SMALLEST_INT64)"
  using checked_arithmetic [of SMALLEST_INT64 "- 1" False]
    checked_arithmetic [of SMALLEST_INT64 "- 1" True]
  by (simp add: in_i64_def checked_result_def wrap_i64_def)

text \<open>Turning a row count into a logarithmic estimate and back loses less than an eighth of
  it and never exceeds it.
\<close>
theorem logest_precision:
  assumes "1 \<le> x" "x < 2 ^ 61"
  shows "\<exists>r. sqlite3LogEstToInt (sqlite3LogEst x) = Some (int r) \<and> r \<le> x \<and> 8 * (x - r) < x"
  using assms by (rule LogEst_roundtrip)

theorem logest_precision_witness:
  "\<exists>r. sqlite3LogEstToInt (sqlite3LogEst 1000) = Some (int r) \<and> r \<le> 1000 \<and> 8 * (1000 - r) < 1000"
  using logest_precision [of 1000] by simp

text \<open>
  Adding two estimates is commutative, reads its table within bounds, and gives a result
  between the larger estimate and twice it (plus 10).
\<close>
theorem logest_add_bounds:
  assumes "- 32768 \<le> a" "a \<le> 32757" "- 32768 \<le> b" "b \<le> 32757"
  shows "sqlite3LogEstAdd a b = sqlite3LogEstAdd b a \<and>
    (\<exists>r. sqlite3LogEstAdd a b = Some r \<and> max a b \<le> r \<and> r \<le> max a b + 10)"
  using LogEstAdd_bounds [OF assms] LogEstAdd_commute by blast

theorem logest_add_bounds_witness:
  "sqlite3LogEstAdd 33 40 = sqlite3LogEstAdd 40 33 \<and>
    (\<exists>r. sqlite3LogEstAdd 33 40 = Some r \<and> max 33 40 \<le> r \<and> r \<le> max 33 40 + 10)"
  by (rule logest_add_bounds) simp_all

end
