(* ===== verification/Codec.thy ===== *)
theory Codec
  imports Prelude
begin

text \<open>
  The interface between the integer encodings and the formats built from them: a writer
  \<open>enc\<close>, a reader \<open>dec\<close> that returns the value and the number of bytes consumed, and the law
  that reading what was written gives it back whatever follows.
\<close>

fun dec_seq :: "(u8 list \<Rightarrow> ('v \<times> nat) option) \<Rightarrow> nat \<Rightarrow> u8 list \<Rightarrow> ('v list \<times> u8 list) option" where
  "dec_seq dec 0 p = Some ([], p)"
| "dec_seq dec (Suc n) p =
     do { (v, k) \<leftarrow> dec p; (vs, r) \<leftarrow> dec_seq dec n (drop k p); Some (v # vs, r) }"

locale codec =
  fixes enc :: "'v \<Rightarrow> u8 list"
    and dec :: "u8 list \<Rightarrow> ('v \<times> nat) option"
  assumes dec_enc: "dec (enc v @ r) = Some (v, length (enc v))"
begin

lemma prefix_free: "enc v @ r = enc w @ s \<Longrightarrow> v = w \<and> r = s"
  using dec_enc [of v r] dec_enc [of w s] by auto

lemma enc_inject: "enc v = enc w \<longleftrightarrow> v = w"
  using prefix_free [of v "[]" w "[]"] by auto

lemma dec_seq_enc: "dec_seq dec (length vs) (concat (map enc vs) @ r) = Some (vs, r)"
  by (induction vs) (simp_all add: dec_enc)

lemma seq_inject: "length vs = length ws \<Longrightarrow> concat (map enc vs) = concat (map enc ws) \<Longrightarrow> vs = ws"
  using dec_seq_enc [of vs "[]"] dec_seq_enc [of ws "[]"] by auto

end

end
