(* ===== verification/UtilVarint.thy ===== *)
theory UtilVarint
  imports Codec
begin

text \<open>
  The variable-length integer encoding and the big-endian 4-byte integers of
  \<^verbatim>\<open>src/util.c\<close>: \<open>putVarint64\<close>, \<open>sqlite3PutVarint\<close>, \<open>sqlite3GetVarint\<close>,
  \<open>sqlite3GetVarint32\<close>, \<open>sqlite3VarintLen\<close>, \<open>sqlite3Get4byte\<close>, \<open>sqlite3Put4byte\<close>.

  A writer returns the bytes that it stores from \<open>p[0]\<close> on (their number is its C return
  value). A reader gets the bytes from \<open>p[0]\<close> to the end of the buffer; a read past that
  end is \<open>None\<close>.
\<close>

section \<open>Writing\<close>

fun put9_loop :: "nat \<Rightarrow> u64 \<Rightarrow> u8 list \<Rightarrow> u8 list" where
  "put9_loop 0 v p = p"
| "put9_loop (Suc i) v p = put9_loop i (drop_bit 7 v) (ucast ((v AND 0x7f) OR 0x80) # p)"

function varint_buf :: "u64 \<Rightarrow> u8 list" where
  "varint_buf v =
     ucast ((v AND 0x7f) OR 0x80) #
       (if drop_bit 7 v \<noteq> 0 then varint_buf (drop_bit 7 v) else [])"
  by pat_completeness auto
termination
proof (relation "measure unat")
  show "wf (measure (unat :: u64 \<Rightarrow> nat))" by simp
next
  fix v :: u64
  assume "drop_bit 7 v \<noteq> 0"
  then have "unat v div 2 ^ 7 \<noteq> 0"
    by (metis drop_bit_eq_div unat_div unsigned_0 unat_drop_bit_eq unsigned_eq_0_iff)
  then have "unat v div 2 ^ 7 < unat v"
    by (simp add: div_less_dividend)
  then show "(drop_bit 7 v, v) \<in> measure unat"
    by (simp add: drop_bit_eq_div unat_div)
qed

declare varint_buf.simps [simp del]

definition putVarint64 :: "u64 \<Rightarrow> u8 list" where
  "putVarint64 v =
     (if v AND (0xff000000 * 2 ^ 32) \<noteq> 0 then put9_loop 8 (drop_bit 8 v) [ucast v]
      else case varint_buf v of
        b # bs \<Rightarrow> rev ((b AND 0x7f) # bs))"

definition sqlite3PutVarint :: "u64 \<Rightarrow> u8 list" where
  "sqlite3PutVarint v =
     (if v \<le> 0x7f then [ucast (v AND 0x7f)]
      else if v \<le> 0x3fff then
        [ucast ((drop_bit 7 v AND 0x7f) OR 0x80), ucast (v AND 0x7f)]
      else putVarint64 v)"

section \<open>Reading\<close>

abbreviation SLOT_2_0 :: u32 where
  "SLOT_2_0 \<equiv> 0x001fc07f"

abbreviation SLOT_4_2_0 :: u32 where
  "SLOT_4_2_0 \<equiv> 0xf01fc07f"

abbreviation join64 :: "u32 \<Rightarrow> u32 \<Rightarrow> u64" where
  "join64 s a \<equiv> push_bit 32 (ucast s) OR ucast a"

definition sqlite3GetVarint :: "u8 list \<Rightarrow> (u64 \<times> nat) option" where
  "sqlite3GetVarint p =
     do {
       p0 \<leftarrow> rd p 0;
       if \<not> bit p0 7 then Some (ucast p0, 1) else do {
       p1 \<leftarrow> rd p 1;
       if \<not> bit p1 7 then Some (ucast (push_bit 7 (ucast (p0 AND 0x7f) :: u32) OR ucast p1), 2) else do {
       p2 \<leftarrow> rd p 2;
       let a = push_bit 14 (ucast p0 :: u32); b = ucast p1 :: u32;
           a = a OR ucast p2
       in if a AND 0x80 = 0 then
            let a = a AND SLOT_2_0; b = b AND 0x7f; b = push_bit 7 b; a = a OR b
            in Some (ucast a, 3)
          else do {
       p3 \<leftarrow> rd p 3;
       let a = a AND SLOT_2_0; b = push_bit 14 b; b = b OR ucast p3
       in if b AND 0x80 = 0 then
            let b = b AND SLOT_2_0; a = push_bit 7 a; a = a OR b
            in Some (ucast a, 4)
          else do {
       p4 \<leftarrow> rd p 4;
       let b = b AND SLOT_2_0; s = a; a = push_bit 14 a; a = a OR ucast p4
       in if a AND 0x80 = 0 then
            let b = push_bit 7 b; a = a OR b; s = drop_bit 18 s
            in Some (join64 s a, 5)
          else do {
       p5 \<leftarrow> rd p 5;
       let s = push_bit 7 s; s = s OR b; b = push_bit 14 b; b = b OR ucast p5
       in if b AND 0x80 = 0 then
            let a = a AND SLOT_2_0; a = push_bit 7 a; a = a OR b; s = drop_bit 18 s
            in Some (join64 s a, 6)
          else do {
       p6 \<leftarrow> rd p 6;
       let a = push_bit 14 a; a = a OR ucast p6
       in if a AND 0x80 = 0 then
            let a = a AND SLOT_4_2_0; b = b AND SLOT_2_0; b = push_bit 7 b; a = a OR b;
                s = drop_bit 11 s
            in Some (join64 s a, 7)
          else do {
       p7 \<leftarrow> rd p 7;
       let a = a AND SLOT_2_0; b = push_bit 14 b; b = b OR ucast p7
       in if b AND 0x80 = 0 then
            let b = b AND SLOT_4_2_0; a = push_bit 7 a; a = a OR b; s = drop_bit 4 s
            in Some (join64 s a, 8)
          else do {
       p8 \<leftarrow> rd p 8;
       let a = push_bit 15 a; a = a OR ucast p8;
           b = b AND SLOT_2_0; b = push_bit 8 b; a = a OR b;
           s = push_bit 4 s; b = ucast p4; b = b AND 0x7f; b = drop_bit 3 b; s = s OR b
       in Some (join64 s a, 9)
     }}}}}}}}}"

text \<open>
  The decoder as the comment above the source describes it: seven bits a byte, most
  significant first, and all eight bits of the ninth.
\<close>

fun varint_ref :: "nat \<Rightarrow> u64 \<Rightarrow> u8 list \<Rightarrow> (u64 \<times> nat) option" where
  "varint_ref i acc [] = None"
| "varint_ref i acc (b # bs) =
     (if i = 8 then Some (push_bit 8 acc OR ucast b, 9)
      else if \<not> bit b 7 then Some (push_bit 7 acc OR ucast b, Suc i)
      else varint_ref (Suc i) (push_bit 7 acc OR ucast (b AND 0x7f)) bs)"

lemma u8_bit_out [simp]: "8 \<le> n \<Longrightarrow> \<not> bit (b :: u8) n"
  using bit_imp_le_length [of b n] by auto

lemma u64_bit_out [simp]: "64 \<le> n \<Longrightarrow> \<not> bit (b :: u64) n"
  using bit_imp_le_length [of b n] by auto

lemma upt_8: "[0..<8] = [0,1,2,3,4,5,6,7]"
  by (simp add: upt_conv_Cons)

lemma word8_eq_bits:
  "(v :: u8) = w \<longleftrightarrow> list_all (\<lambda>n. bit v n = bit w n) [0,1,2,3,4,5,6,7]"
proof -
  have "v = w \<longleftrightarrow> list_all (\<lambda>n. bit v n = bit w n) [0..<8]"
    by (auto simp: bit_eq_iff list_all_iff atLeast0LessThan dest: bit_imp_le_length)
  then show ?thesis by (simp add: upt_8)
qed

lemma word64_eq_bits:
  "(v :: u64) = w \<longleftrightarrow> list_all (\<lambda>n. bit v n = bit w n) [0..<64]"
  by (auto simp: bit_eq_iff list_all_iff atLeast0LessThan dest: bit_imp_le_length)

lemma and_80_eq_0 [simp]: "(w :: u32) AND 0x80 = 0 \<longleftrightarrow> \<not> bit w 7"
  using and_exp_eq_0_iff_not_bit [of w 7] by simp

lemma upt_64: "[0..<64] = [0,1,2,3,4,5,6,7,8,9,10,11,12,13,14,15,16,17,18,19,20,21,22,23,24,25,26,
   27,28,29,30,31,32,33,34,35,36,37,38,39,40,41,42,43,44,45,46,47,48,49,50,51,52,53,54,55,56,57,
   58,59,60,61,62,63]"
  by (simp add: upt_conv_Cons)

lemmas blast_bits = word64_eq_bits upt_64 bit_simps

text \<open>
  The unrolled decoder agrees with the reference after every number of continuation bytes;
  each branch of the source is one equation of 64-bit words, checked bit by bit.
\<close>

lemma byte_cases [case_names Nil Cont Last]:
  fixes q :: "u8 list"
  assumes "q = [] \<Longrightarrow> P" "\<And>b r. q = b # r \<Longrightarrow> bit b 7 \<Longrightarrow> P" "\<And>b r. q = b # r \<Longrightarrow> \<not> bit b 7 \<Longrightarrow> P"
  shows P
  using assms by (cases q) auto

lemmas get_unfold = sqlite3GetVarint_def Let_def bit_simps rd_def

lemma varint_step_8:
  "bit p0 7 \<Longrightarrow> bit p1 7 \<Longrightarrow> bit p2 7 \<Longrightarrow> bit p3 7 \<Longrightarrow> bit p4 7 \<Longrightarrow> bit p5 7 \<Longrightarrow> bit p6 7 \<Longrightarrow> bit p7 7 \<Longrightarrow> sqlite3GetVarint (p0 # p1 # p2 # p3 # p4 # p5 # p6 # p7 # q) =
     varint_ref 0 0 (p0 # p1 # p2 # p3 # p4 # p5 # p6 # p7 # q)"
  by (cases q) (simp_all add: get_unfold blast_bits)

lemma varint_step_7:
  "bit p0 7 \<Longrightarrow> bit p1 7 \<Longrightarrow> bit p2 7 \<Longrightarrow> bit p3 7 \<Longrightarrow> bit p4 7 \<Longrightarrow> bit p5 7 \<Longrightarrow> bit p6 7 \<Longrightarrow> sqlite3GetVarint (p0 # p1 # p2 # p3 # p4 # p5 # p6 # q) =
     varint_ref 0 0 (p0 # p1 # p2 # p3 # p4 # p5 # p6 # q)"
  by (cases q rule: byte_cases)
    (simp add: get_unfold, simp add: varint_step_8 del: varint_ref.simps,
     simp add: get_unfold, simp add: blast_bits)

lemma varint_step_6:
  "bit p0 7 \<Longrightarrow> bit p1 7 \<Longrightarrow> bit p2 7 \<Longrightarrow> bit p3 7 \<Longrightarrow> bit p4 7 \<Longrightarrow> bit p5 7 \<Longrightarrow> sqlite3GetVarint (p0 # p1 # p2 # p3 # p4 # p5 # q) =
     varint_ref 0 0 (p0 # p1 # p2 # p3 # p4 # p5 # q)"
  by (cases q rule: byte_cases)
    (simp add: get_unfold, simp add: varint_step_7 del: varint_ref.simps,
     simp add: get_unfold, simp add: blast_bits)

lemma varint_step_5:
  "bit p0 7 \<Longrightarrow> bit p1 7 \<Longrightarrow> bit p2 7 \<Longrightarrow> bit p3 7 \<Longrightarrow> bit p4 7 \<Longrightarrow> sqlite3GetVarint (p0 # p1 # p2 # p3 # p4 # q) =
     varint_ref 0 0 (p0 # p1 # p2 # p3 # p4 # q)"
  by (cases q rule: byte_cases)
    (simp add: get_unfold, simp add: varint_step_6 del: varint_ref.simps,
     simp add: get_unfold, simp add: blast_bits)

lemma varint_step_4:
  "bit p0 7 \<Longrightarrow> bit p1 7 \<Longrightarrow> bit p2 7 \<Longrightarrow> bit p3 7 \<Longrightarrow> sqlite3GetVarint (p0 # p1 # p2 # p3 # q) =
     varint_ref 0 0 (p0 # p1 # p2 # p3 # q)"
  by (cases q rule: byte_cases)
    (simp add: get_unfold, simp add: varint_step_5 del: varint_ref.simps,
     simp add: get_unfold, simp add: blast_bits)

lemma varint_step_3:
  "bit p0 7 \<Longrightarrow> bit p1 7 \<Longrightarrow> bit p2 7 \<Longrightarrow> sqlite3GetVarint (p0 # p1 # p2 # q) =
     varint_ref 0 0 (p0 # p1 # p2 # q)"
  by (cases q rule: byte_cases)
    (simp add: get_unfold, simp add: varint_step_4 del: varint_ref.simps,
     simp add: get_unfold, simp add: blast_bits)

lemma varint_step_2:
  "bit p0 7 \<Longrightarrow> bit p1 7 \<Longrightarrow> sqlite3GetVarint (p0 # p1 # q) =
     varint_ref 0 0 (p0 # p1 # q)"
  by (cases q rule: byte_cases)
    (simp add: get_unfold, simp add: varint_step_3 del: varint_ref.simps,
     simp add: get_unfold, simp add: blast_bits)

lemma varint_step_1:
  "bit p0 7 \<Longrightarrow> sqlite3GetVarint (p0 # q) =
     varint_ref 0 0 (p0 # q)"
  by (cases q rule: byte_cases)
    (simp add: get_unfold, simp add: varint_step_2 del: varint_ref.simps,
     simp add: get_unfold, simp add: blast_bits)

lemma GetVarint_eq_ref: "sqlite3GetVarint p = varint_ref 0 0 p"
  by (cases p rule: byte_cases)
    (simp add: get_unfold, simp add: varint_step_1 del: varint_ref.simps,
     simp add: get_unfold)

section \<open>The encoding\<close>

text \<open>A run of continuation bytes is folded into the accumulator.\<close>

definition fold7 :: "u64 \<Rightarrow> u8 list \<Rightarrow> u64" where
  "fold7 acc bs = foldl (\<lambda>a b. push_bit 7 a OR ucast (b AND 0x7f)) acc bs"

lemma ref_conts:
  "list_all (\<lambda>b. bit b 7) bs \<Longrightarrow> i + length bs \<le> 8 \<Longrightarrow>
   varint_ref i acc (bs @ r) = varint_ref (i + length bs) (fold7 acc bs) r"
  by (induction bs arbitrary: i acc) (auto simp: fold7_def)

lemma buf_conts: "list_all (\<lambda>b. bit b 7) (varint_buf v)"
proof (induction v rule: varint_buf.induct)
  case (1 v)
  then show ?case by (simp add: varint_buf.simps [of v] bit_simps)
qed

lemma split7: "push_bit 7 (drop_bit 7 v) OR (v AND 0x7f) = (v :: u64)"
  by (simp add: blast_bits)

lemma low7: "ucast (ucast ((v AND 0x7f) OR 0x80) AND (0x7f :: u8)) = (v :: u64) AND 0x7f"
  by (simp add: blast_bits)

lemma fold7_buf:
  "fold7 acc (rev (varint_buf v)) = push_bit (7 * length (varint_buf v)) acc OR v"
proof (induction v rule: varint_buf.induct)
  case (1 v)
  have "fold7 acc (rev (varint_buf v)) =
      push_bit 7 (fold7 acc (rev (if drop_bit 7 v \<noteq> 0 then varint_buf (drop_bit 7 v) else []))) OR (v AND 0x7f)"
    by (simp add: varint_buf.simps [of v] fold7_def low7)
  also have "\<dots> = push_bit (7 * length (varint_buf v)) acc OR v"
  proof (cases "drop_bit 7 v = 0")
    case True
    then have "v AND 0x7f = v" using split7 [of v] by simp
    with True show ?thesis by (simp add: varint_buf.simps [of v] fold7_def)
  next
    case False
    with 1 show ?thesis
      using split7 [of v]
      by (simp add: varint_buf.simps [of v] push_bit_or push_bit_push_bit or.assoc)
  qed
  finally show ?case .
qed

fun sqlite3VarintLen_loop :: "nat \<Rightarrow> u64 \<Rightarrow> nat \<Rightarrow> nat option" where
  "sqlite3VarintLen_loop 0 v i = None"
| "sqlite3VarintLen_loop (Suc fuel) v i =
     (let v' = drop_bit 7 v
      in if v' \<noteq> 0 then (if i < 10 then sqlite3VarintLen_loop fuel v' (i + 1) else None)
         else Some i)"

text \<open>
  Ten rounds are enough for 64 bits (\<open>VarintLen_defined\<close>); a failing \<open>assert( i<10 )\<close>
  would be \<open>None\<close> as well.
\<close>

definition sqlite3VarintLen :: "u64 \<Rightarrow> nat option" where
  "sqlite3VarintLen v = sqlite3VarintLen_loop 10 v 1"

lemma drop_bit_0_iff: "n < 64 \<Longrightarrow> drop_bit n (v :: u64) = 0 \<longleftrightarrow> unat v < 2 ^ n"
  by (metis div_eq_0_iff drop_bit_eq_div power_not_zero unat_drop_bit_eq unsigned_0 unsigned_eq_0_iff
      zero_neq_numeral)

lemma length_buf:
  "0 < n \<Longrightarrow> 7 * n < 64 \<Longrightarrow> drop_bit (7 * n) v = 0 \<Longrightarrow> length (varint_buf v) \<le> n"
proof (induction v arbitrary: n rule: varint_buf.induct)
  case (1 v)
  show ?case
  proof (cases "drop_bit 7 v = 0")
    case True
    with "1.prems" show ?thesis by (simp add: varint_buf.simps [of v])
  next
    case False
    then have "n \<noteq> 1" using "1.prems" by auto
    with "1.prems" have n: "0 < n - 1" "7 * (n - 1) < 64" "drop_bit (7 * (n - 1)) (drop_bit 7 v) = 0"
      by (auto simp: drop_bit_drop_bit algebra_simps)
    with False 1 have "length (varint_buf (drop_bit 7 v)) \<le> n - 1" by blast
    with False n show ?thesis by (simp add: varint_buf.simps [of v])
  qed
qed

lemma high_mask_0: "v AND 0xff00000000000000 = 0 \<longleftrightarrow> drop_bit 56 (v :: u64) = 0"
  by (simp add: blast_bits)

lemma putVarint64_small:
  assumes "drop_bit 56 v = 0"
  shows "varint_ref 0 0 (putVarint64 v @ r) = Some (v, length (putVarint64 v))"
    and "length (putVarint64 v) = length (varint_buf v)"
proof -
  define bs where "bs = (if drop_bit 7 v \<noteq> 0 then varint_buf (drop_bit 7 v) else [])"
  have buf: "varint_buf v = ucast ((v AND 0x7f) OR 0x80) # bs"
    by (simp add: bs_def varint_buf.simps [of v])
  have put: "putVarint64 v = rev bs @ [ucast ((v AND 0x7f) OR 0x80) AND 0x7f]"
    using assms by (simp add: putVarint64_def high_mask_0 buf)
  then show "length (putVarint64 v) = length (varint_buf v)"
    by (simp add: buf)
  have len: "length bs \<le> 7"
    using length_buf [of 8 v] assms by (simp add: buf)
  have conts: "list_all (\<lambda>b. bit b 7) (rev bs)"
    using buf_conts [of v] by (simp add: buf)
  have "fold7 0 (rev (varint_buf v)) = v"
    by (simp add: fold7_buf)
  then have "push_bit 7 (fold7 0 (rev bs)) OR (v AND 0x7f) = v"
    by (simp add: buf fold7_def low7)
  moreover have "\<not> bit (ucast ((v AND 0x7f) OR 0x80) AND (0x7f :: u8)) 7"
    by (simp add: bit_simps)
  ultimately show "varint_ref 0 0 (putVarint64 v @ r) = Some (v, length (putVarint64 v))"
    using ref_conts [OF conts, of 0 0] len by (simp add: put low7)
qed

lemma put9_bytes:
  "put9_loop 8 w [c] =
     [ucast ((drop_bit 49 w AND 0x7f) OR 0x80), ucast ((drop_bit 42 w AND 0x7f) OR 0x80),
      ucast ((drop_bit 35 w AND 0x7f) OR 0x80), ucast ((drop_bit 28 w AND 0x7f) OR 0x80),
      ucast ((drop_bit 21 w AND 0x7f) OR 0x80), ucast ((drop_bit 14 w AND 0x7f) OR 0x80),
      ucast ((drop_bit 7 w AND 0x7f) OR 0x80), ucast ((w AND 0x7f) OR 0x80), c]"
  by (simp add: numeral_eq_Suc drop_bit_drop_bit)

lemma putVarint64_large:
  assumes "drop_bit 56 v \<noteq> 0"
  shows "varint_ref 0 0 (putVarint64 v @ r) = Some (v, 9)"
    and "length (putVarint64 v) = 9"
proof -
  have put: "putVarint64 v = put9_loop 8 (drop_bit 8 v) [ucast v]"
    using assms by (simp add: putVarint64_def high_mask_0)
  show "length (putVarint64 v) = 9"
    by (simp add: put put9_bytes)
  show "varint_ref 0 0 (putVarint64 v @ r) = Some (v, 9)"
    by (simp add: put put9_bytes bit_simps) (simp add: blast_bits)
qed

lemma last_byte: "ucast ((v AND 0x7f) OR 0x80) AND (0x7f :: u8) = ucast ((v :: u64) AND 0x7f)"
  by (simp add: word8_eq_bits bit_simps)

text \<open>The two fast paths of \<open>sqlite3PutVarint\<close> write what \<open>putVarint64\<close> would write.\<close>

lemma PutVarint_eq_putVarint64: "sqlite3PutVarint v = putVarint64 v"
proof -
  consider "v \<le> 0x7f" | "0x7f < v" "v \<le> 0x3fff" | "0x3fff < v"
    by force
  then show ?thesis
  proof cases
    case 1
    then have "drop_bit 7 v = 0" "drop_bit 56 v = 0"
      by (auto simp: drop_bit_0_iff word_le_nat_alt)
    with 1 show ?thesis
      by (simp add: sqlite3PutVarint_def putVarint64_def high_mask_0 varint_buf.simps [of v]
          last_byte)
  next
    case 2
    then have "drop_bit 7 v \<noteq> 0" "drop_bit 14 v = 0" "drop_bit 56 v = 0"
      by (auto simp: drop_bit_0_iff word_le_nat_alt word_less_nat_alt)
    moreover from this have "drop_bit 7 (drop_bit 7 v) = 0"
      by (simp add: drop_bit_drop_bit)
    ultimately show ?thesis
      using 2 by (simp add: sqlite3PutVarint_def putVarint64_def high_mask_0
          varint_buf.simps [of v] varint_buf.simps [of "drop_bit 7 v"] last_byte)
  next
    case 3
    then have "\<not> v \<le> 0x3fff" "\<not> v \<le> 0x7f"
      by (auto simp: word_le_nat_alt word_less_nat_alt)
    then show ?thesis by (simp add: sqlite3PutVarint_def)
  qed
qed

lemma GetVarint_PutVarint:
  "sqlite3GetVarint (sqlite3PutVarint v @ r) = Some (v, length (sqlite3PutVarint v))"
  by (cases "drop_bit 56 v = 0")
    (simp_all add: GetVarint_eq_ref PutVarint_eq_putVarint64 putVarint64_small putVarint64_large)

lemma length_PutVarint:
  "length (sqlite3PutVarint v) = (if drop_bit 56 v = 0 then length (varint_buf v) else 9)"
  by (simp add: PutVarint_eq_putVarint64 putVarint64_small putVarint64_large)

lemma VarintLen_loop:
  "0 < n \<Longrightarrow> i + n \<le> 11 \<Longrightarrow> n \<le> fuel \<Longrightarrow> length (varint_buf v) \<le> n \<Longrightarrow>
   sqlite3VarintLen_loop fuel v i = Some (i + length (varint_buf v) - 1)"
proof (induction fuel arbitrary: n v i)
  case (Suc fuel)
  show ?case
  proof (cases "drop_bit 7 v = 0")
    case True
    then show ?thesis by (simp add: varint_buf.simps [of v])
  next
    case False
    then have len: "length (varint_buf v) = Suc (length (varint_buf (drop_bit 7 v)))"
      by (simp add: varint_buf.simps [of v])
    moreover have "0 < length (varint_buf (drop_bit 7 v))"
      by (subst varint_buf.simps) simp
    ultimately show ?thesis
      using False Suc.IH [of "n - 1" "i + 1" "drop_bit 7 v"] Suc.prems
      by (cases "length (varint_buf (drop_bit 7 v))") (auto simp: Let_def)
  qed
qed simp


text \<open>
  \<open>sqlite3VarintLen\<close> is defined on every 64-bit value. It counts groups of seven bits, while
  the encoding is capped at nine bytes.
\<close>

lemma varint_buf_pos: "0 < length (varint_buf v)"
  by (simp add: varint_buf.simps [of v])

lemma varint_buf_le10: "length (varint_buf v) \<le> 10"
proof (cases "drop_bit 7 v = 0")
  case True
  then show ?thesis by (simp add: varint_buf.simps [of v])
next
  case False
  moreover have "drop_bit 63 (drop_bit 7 v) = 0"
    by (simp add: blast_bits)
  then have "length (varint_buf (drop_bit 7 v)) \<le> 9"
    using length_buf [of 9 "drop_bit 7 v"] by simp
  ultimately show ?thesis by (simp add: varint_buf.simps [of v])
qed

lemma VarintLen_eq: "sqlite3VarintLen v = Some (length (varint_buf v))"
  using VarintLen_loop [of 10 1 10 v] varint_buf_le10 [of v] varint_buf_pos [of v]
  by (simp add: sqlite3VarintLen_def)

lemma varint_buf_long: "drop_bit (7 * n) v \<noteq> 0 \<Longrightarrow> n < length (varint_buf v)"
proof (induction n arbitrary: v)
  case 0
  then show ?case by (simp add: varint_buf.simps [of v])
next
  case (Suc n)
  then have "drop_bit (7 * n) (drop_bit 7 v) \<noteq> 0"
    by (simp add: drop_bit_drop_bit add.commute)
  moreover from this have "drop_bit 7 v \<noteq> 0"
    by (metis drop_bit_of_0)
  ultimately show ?case
    using Suc.IH by (simp add: varint_buf.simps [of v])
qed

text \<open>The number of bytes of the buffer is the number of groups of seven bits of the value.\<close>

lemma varint_buf_holds: "unat v < 2 ^ (7 * length (varint_buf v))"
proof (cases "length (varint_buf v) \<le> 9")
  case True
  moreover have "drop_bit (7 * length (varint_buf v)) v = 0"
    using varint_buf_long [of "length (varint_buf v)" v] by blast
  ultimately show ?thesis by (simp add: drop_bit_0_iff)
next
  case False
  then have "length (varint_buf v) = 10" using varint_buf_le10 [of v] by simp
  then show ?thesis using unsigned_less [of v, where ?'a = nat] by simp
qed

lemma varint_buf_least: "length (varint_buf v) = 1 \<or> 2 ^ (7 * (length (varint_buf v) - 1)) \<le> unat v"
proof (cases "length (varint_buf v) = 1")
  case False
  then have "1 \<le> length (varint_buf v) - 1" using varint_buf_pos [of v] by linarith
  then have "drop_bit (7 * (length (varint_buf v) - 1)) v \<noteq> 0"
    using length_buf [of "length (varint_buf v) - 1" v] varint_buf_le10 [of v] by fastforce
  moreover have "7 * (length (varint_buf v) - 1) < 64" using varint_buf_le10 [of v] by simp
  ultimately have "\<not> unat v < 2 ^ (7 * (length (varint_buf v) - 1))" by (simp only: drop_bit_0_iff not_False_eq_True)
  then show ?thesis by simp
qed simp

lemma PutVarint_length:
  "map_option (min 9) (sqlite3VarintLen v) = Some (length (sqlite3PutVarint v))"
  using length_buf [of 8 v] varint_buf_long [of 8 v]
  by (auto simp: VarintLen_eq length_PutVarint)

section \<open>32-bit varints\<close>

definition sqlite3GetVarint32 :: "u8 list \<Rightarrow> (u32 \<times> nat) option" where
  "sqlite3GetVarint32 p =
     do {
       p0 \<leftarrow> rd p 0;
       if p0 AND 0x80 = 0 then None else do {
       p1 \<leftarrow> rd p 1;
       if p1 AND 0x80 = 0 then Some (push_bit 7 (ucast (p0 AND 0x7f)) OR ucast p1, 2) else do {
       p2 \<leftarrow> rd p 2;
       if p2 AND 0x80 = 0 then
         Some (push_bit 14 (ucast (p0 AND 0x7f)) OR push_bit 7 (ucast (p1 AND 0x7f)) OR ucast p2, 3)
       else do {
       (v64, n) \<leftarrow> sqlite3GetVarint p;
       if \<not> (n > 3 \<and> n \<le> 9) then None
       else if v64 AND 0xffffffff \<noteq> v64 then Some (0xffffffff, n)
       else Some (ucast v64, n)
     }}}}"

text \<open>The macros of \<^verbatim>\<open>src/sqliteInt.h\<close>.\<close>

definition getVarint32 :: "u8 list \<Rightarrow> (u32 \<times> nat) option" where
  "getVarint32 p =
     do { p0 \<leftarrow> rd p 0; if p0 < 0x80 then Some (ucast p0, 1) else sqlite3GetVarint32 p }"

definition putVarint32 :: "u32 \<Rightarrow> u8 list" where
  "putVarint32 v = (if v < 0x80 then [ucast v] else sqlite3PutVarint (ucast v))"

lemma and_80_u8 [simp]: "(w :: u8) AND 0x80 = 0 \<longleftrightarrow> \<not> bit w 7"
  using and_exp_eq_0_iff_not_bit [of w 7] by simp

lemma u8_less_80: "(b :: u8) < 0x80 \<longleftrightarrow> \<not> bit b 7"
proof -
  have "\<not> bit b 7 \<longleftrightarrow> drop_bit 7 b = 0"
    by (simp add: word8_eq_bits bit_simps)
  also have "\<dots> \<longleftrightarrow> unat b < 2 ^ 7"
    by (metis div_eq_0_iff drop_bit_eq_div power_not_zero unat_drop_bit_eq unsigned_0
        unsigned_eq_0_iff zero_neq_numeral)
  finally show ?thesis by (simp add: word_less_nat_alt)
qed

text \<open>What reading into a 32-bit variable does to a 64-bit varint: it saturates.\<close>

definition saturate32 :: "u64 \<Rightarrow> u32" where
  "saturate32 v = (if v \<le> 0xffffffff then ucast v else 0xffffffff)"

lemma and_u32_max: "(v :: u64) AND 0xffffffff = v \<longleftrightarrow> v \<le> 0xffffffff"
proof -
  have "v AND 0xffffffff = v \<longleftrightarrow> drop_bit 32 v = 0"
    by (simp add: blast_bits)
  then show ?thesis
    by (simp add: drop_bit_0_iff word_le_nat_alt) arith
qed

lemma saturate32_and: "saturate32 v = (if v AND 0xffffffff = v then ucast v else 0xffffffff)"
  by (simp add: saturate32_def and_u32_max)

lemma upt_32: "[0..<32] = [0,1,2,3,4,5,6,7,8,9,10,11,12,13,14,15,16,17,18,19,20,21,22,23,24,25,26,
   27,28,29,30,31]"
  by (simp add: upt_conv_Cons)

lemma word32_eq_bits:
  "(v :: u32) = w \<longleftrightarrow> list_all (\<lambda>n. bit v n = bit w n) [0..<32]"
  by (auto simp: bit_eq_iff list_all_iff atLeast0LessThan dest: bit_imp_le_length)

lemmas blast32 = word32_eq_bits upt_32 bit_simps

lemma varint_ref_size:
  "varint_ref i acc p = Some (v, n) \<Longrightarrow> i \<le> 8 \<Longrightarrow> i < n \<and> n \<le> 9"
  by (induction i acc p rule: varint_ref.induct) (auto split: if_splits)

lemma saturate32_small: "v AND 0xffffffff = v \<Longrightarrow> saturate32 v = ucast v"
  by (simp add: saturate32_and)

lemma saturate32_short:
  "saturate32 (ucast (b :: u8)) = ucast b"
  "saturate32 (push_bit 7 (ucast (b AND 0x7f)) OR ucast (c :: u8)) = push_bit 7 (ucast (b AND 0x7f)) OR ucast c"
  "saturate32 ((push_bit 14 (ucast (b AND 0x7f)) OR push_bit 7 (ucast (c AND 0x7f))) OR ucast (d :: u8)) =
   push_bit 14 (ucast (b AND 0x7f)) OR push_bit 7 (ucast (c AND 0x7f)) OR ucast d"
  by ((rule saturate32_small [THEN trans], simp add: blast_bits, simp add: blast32)+)

lemma getVarint32_eq:
  "getVarint32 p = map_option (\<lambda>(v, n). (saturate32 v, n)) (sqlite3GetVarint p)"
proof (cases p rule: byte_cases)
  case Nil
  then show ?thesis by (simp add: getVarint32_def GetVarint_eq_ref rd_def)
next
  case (Last b0 r0)
  then show ?thesis
    by (simp add: getVarint32_def u8_less_80 GetVarint_eq_ref saturate32_short)
next
  case b0: (Cont b0 r0)
  note defs = getVarint32_def sqlite3GetVarint32_def u8_less_80 GetVarint_eq_ref saturate32_short
  show ?thesis
  proof (cases r0 rule: byte_cases)
    case b1: (Cont b1 r1)
    show ?thesis
    proof (cases r1 rule: byte_cases)
      case b2: (Cont b2 r2)
      show ?thesis
      proof (cases "varint_ref 0 0 p")
        case None
        with b0 b1 b2 show ?thesis by (simp add: defs)
      next
        case (Some vn)
        with b0 b1 b2 have "3 < snd vn" "snd vn \<le> 9"
          using varint_ref_size [of "Suc (Suc (Suc 0))" _ r2 "fst vn" "snd vn"] by (auto simp: numeral_eq_Suc)
        with Some b0 b1 b2 show ?thesis
          by (cases vn) (auto simp: defs saturate32_and rd_def simp del: varint_ref.simps)
      qed
    qed (use b0 b1 in \<open>simp_all add: defs rd_def\<close>)
  qed (use b0 in \<open>simp_all add: defs rd_def\<close>)
qed

section \<open>Four-byte big-endian integers\<close>

definition sqlite3Get4byte :: "u8 list \<Rightarrow> u32 option" where
  "sqlite3Get4byte p =
     do { p0 \<leftarrow> rd p 0; p1 \<leftarrow> rd p 1; p2 \<leftarrow> rd p 2; p3 \<leftarrow> rd p 3;
          Some (push_bit 24 (ucast p0) OR push_bit 16 (ucast p1) OR push_bit 8 (ucast p2) OR ucast p3) }"

definition sqlite3Put4byte :: "u32 \<Rightarrow> u8 list" where
  "sqlite3Put4byte v =
     [ucast (drop_bit 24 v), ucast (drop_bit 16 v), ucast (drop_bit 8 v), ucast v]"


lemma Get4byte_Put4byte: "sqlite3Get4byte (sqlite3Put4byte v @ r) = Some v"
  by (simp add: sqlite3Get4byte_def sqlite3Put4byte_def) (simp add: blast32)

lemma Put4byte_Get4byte:
  "sqlite3Get4byte p = Some v \<Longrightarrow> sqlite3Put4byte v = take 4 p"
proof -
  assume get: "sqlite3Get4byte p = Some v"
  then have "4 \<le> length p"
    by (auto simp: sqlite3Get4byte_def bind_eq_Some_conv rd_eq_Some)
  then obtain a b c d r where p: "p = a # b # c # d # r"
    by (auto simp: numeral_eq_Suc Suc_le_length_iff)
  with get show ?thesis
    by (auto simp: sqlite3Get4byte_def sqlite3Put4byte_def word8_eq_bits bit_simps)
qed

section \<open>The encodings as codecs\<close>

interpretation varint: codec sqlite3PutVarint sqlite3GetVarint
  by unfold_locales (rule GetVarint_PutVarint)

interpretation be4: codec sqlite3Put4byte "\<lambda>p. map_option (\<lambda>v. (v, 4)) (sqlite3Get4byte p)"
  by unfold_locales (simp add: Get4byte_Put4byte, simp add: sqlite3Put4byte_def)

section \<open>Properties\<close>

text \<open>
  C8: Reading a varint gives back the value that was written, whatever bytes follow it, and
  consumes exactly the bytes written: between one and nine.
\<close>
theorem varint_roundtrip:
  "sqlite3GetVarint (sqlite3PutVarint v @ r) = Some (v, length (sqlite3PutVarint v)) \<and>
   1 \<le> length (sqlite3PutVarint v) \<and> length (sqlite3PutVarint v) \<le> 9"
proof -
  have "varint_ref 0 0 (sqlite3PutVarint v) = Some (v, length (sqlite3PutVarint v))"
    using GetVarint_PutVarint [of v "[]"] by (simp add: GetVarint_eq_ref)
  from varint_ref_size [OF this] show ?thesis
    by (simp add: GetVarint_PutVarint Suc_le_eq)
qed

text \<open>
  C14: The unrolled 32-bit decoder computes, on every buffer, what the byte-by-byte decoder
  computes that the comment describes; it reads past the end of the buffer exactly when the
  varint is cut off.
\<close>
theorem varint_decoder_reference: "sqlite3GetVarint p = varint_ref 0 0 p"
  by (rule GetVarint_eq_ref)

text \<open>
  A sequence of varints written one after the other is read back in order, and the
  reader stops at the byte after the last one.
\<close>
theorem varint_sequence_roundtrip:
  "dec_seq sqlite3GetVarint (length vs) (concat (map sqlite3PutVarint vs) @ r) = Some (vs, r)"
  by (rule varint.dec_seq_enc)

text \<open>
  The length that \<open>sqlite3VarintLen\<close> reports is the number of bytes that
  \<open>sqlite3PutVarint\<close> writes for every value below 2 to the 63rd; its assertion never fails.
\<close>
theorem varint_len_exact:
  assumes "unat v < 2 ^ 63"
  shows "sqlite3VarintLen v = Some (length (sqlite3PutVarint v))"
proof -
  have "drop_bit 63 v = 0"
    using assms by (simp add: drop_bit_0_iff)
  then have "length (varint_buf v) \<le> 9"
    using length_buf [of 9 v] by simp
  then show ?thesis
    using PutVarint_length [of v] by (simp add: VarintLen_eq)
qed

theorem varint_len_exact_witness:
  "unat (16383 :: u64) < 2 ^ 63 \<and> sqlite3VarintLen 16383 = Some (length (sqlite3PutVarint 16383))"
  using varint_len_exact [of 16383] by simp

text \<open>
  C19: For every value \<open>sqlite3VarintLen\<close> reports the number of groups of seven bits that hold it
  (at least one), and \<open>sqlite3PutVarint\<close> writes that many bytes but never more than nine. So the
  reported length is the number of bytes needed, as its comment says, below 2 to the 63rd, and is
  ten instead of nine from there on.
\<close>
theorem varint_len_groups:
  "\<exists>n. sqlite3VarintLen v = Some n \<and> length (sqlite3PutVarint v) = min n 9 \<and>
     unat v < 2 ^ (7 * n) \<and> n = (if unat v < 128 then 1 else (LEAST k. unat v < 2 ^ (7 * k))) \<and>
     (n = 10 \<longleftrightarrow> 2 ^ 63 \<le> unat v)"
proof (intro exI conjI)
  let ?n = "length (varint_buf v)"
  show "sqlite3VarintLen v = Some ?n" by (rule VarintLen_eq)
  show "length (sqlite3PutVarint v) = min ?n 9"
    using PutVarint_length [of v] by (simp add: VarintLen_eq min.commute)
  show lt: "unat v < 2 ^ (7 * ?n)" by (rule varint_buf_holds)
  have gt: "?n = 1 \<or> 2 ^ (7 * (?n - 1)) \<le> unat v" by (rule varint_buf_least)
  show "?n = (if unat v < 128 then 1 else (LEAST k. unat v < 2 ^ (7 * k)))"
  proof (cases "unat v < 128")
    case True
    then have "length (varint_buf v) \<le> 1" using length_buf [of 1 v] by (simp add: drop_bit_0_iff)
    moreover have "1 \<le> length (varint_buf v)" using varint_buf_pos [of v] by linarith
    ultimately show ?thesis using True by simp
  next
    case False
    then have "?n \<noteq> 1" using lt by auto
    then have ge: "2 ^ (7 * (?n - 1)) \<le> unat v" using gt by blast
    have "(LEAST k. unat v < 2 ^ (7 * k)) = ?n"
    proof (rule Least_equality)
      show "unat v < 2 ^ (7 * ?n)" by (rule lt)
    next
      fix k assume k: "unat v < 2 ^ (7 * k)"
      then have "(2::nat) ^ (7 * (?n - 1)) < 2 ^ (7 * k)" using ge by linarith
      then show "?n \<le> k" by simp
    qed
    with False show ?thesis by simp
  qed
  show "?n = 10 \<longleftrightarrow> 2 ^ 63 \<le> unat v"
  proof
    show "2 ^ 63 \<le> unat v" if ten: "?n = 10"
    proof (rule ccontr)
      assume "\<not> 2 ^ 63 \<le> unat v"
      then have "drop_bit (7 * 9) v = 0" using drop_bit_0_iff [of 63 v] by simp
      from length_buf [OF _ _ this] ten show False by simp
    qed
    show "?n = 10" if big: "2 ^ 63 \<le> unat v"
    proof (rule ccontr)
      assume "?n \<noteq> 10"
      then have "7 * ?n \<le> 63" using varint_buf_le10 [of v] by simp
      then have "(2::nat) ^ (7 * ?n) \<le> 2 ^ 63" by (rule power_increasing) simp
      with lt big show False by linarith
    qed
  qed
qed

text \<open>Reading a varint into a 32-bit variable saturates: the fast path, the one to three byte
  cases and the fallback agree with the 64-bit reader on every buffer.
\<close>
theorem getVarint32_saturates:
  "getVarint32 p = map_option (\<lambda>(v, n). (saturate32 v, n)) (sqlite3GetVarint p)"
  by (rule getVarint32_eq)

text \<open>
  The four-byte big-endian integers of the file format are read back as written, and
  what was read is written back as it was.
\<close>
theorem byte4_roundtrip:
  "sqlite3Get4byte (sqlite3Put4byte v @ r) = Some v \<and>
   (case sqlite3Get4byte p of None \<Rightarrow> length p < 4 | Some w \<Rightarrow> sqlite3Put4byte w = take 4 p)"
proof (cases "sqlite3Get4byte p")
  case None
  then have "length p < 4"
    by (rule contrapos_pp) (cases p, auto simp: sqlite3Get4byte_def rd_def)
  with None show ?thesis by (simp add: Get4byte_Put4byte)
next
  case (Some w)
  then show ?thesis by (simp add: Get4byte_Put4byte Put4byte_Get4byte)
qed

end
