(* ===== verification/VarintFts.thy ===== *)
theory VarintFts
  imports UtilVarint
begin

text \<open>
  The integer encodings of the full-text search extensions. \<^verbatim>\<open>ext/fts3/fts3.c\<close> has its own
  little-endian encoding of up to ten bytes (\<open>sqlite3Fts3PutVarint\<close>,
  \<open>sqlite3Fts3GetVarintU\<close>, \<open>sqlite3Fts3GetVarint\<close>, \<open>sqlite3Fts3GetVarintBounded\<close>,
  \<open>sqlite3Fts3GetVarint32\<close>, \<open>sqlite3Fts3VarintLen\<close>) and delta-encoded lists over it;
  \<^verbatim>\<open>ext/fts5/fts5_varint.c\<close> has a copy of the routines of \<^verbatim>\<open>src/util.c\<close>.
\<close>

section \<open>FTS3: writing\<close>

text \<open>
  The \<open>do\<close> loop writes the same groups as the one of \<open>putVarint64\<close>, without reversing
  them; the high bit of the final byte is turned off afterwards.
\<close>

definition sqlite3Fts3PutVarint :: "u64 \<Rightarrow> u8 list" where
  "sqlite3Fts3PutVarint v =
     (let q = varint_buf v in q[length q - 1 := (q ! (length q - 1)) AND 0x7f])"

fun fts3_len_loop :: "nat \<Rightarrow> nat \<Rightarrow> u64 \<Rightarrow> nat option" where
  "fts3_len_loop 0 i v = None"
| "fts3_len_loop (Suc fuel) i v =
     (let i = i + 1; v = drop_bit 7 v
      in if v \<noteq> 0 then fts3_len_loop fuel i v else Some i)"

definition sqlite3Fts3VarintLen :: "u64 \<Rightarrow> nat option" where
  "sqlite3Fts3VarintLen v = fts3_len_loop 10 0 v"

section \<open>FTS3: reading\<close>

text \<open>
  The \<open>for\<close> loop over \<open>shift\<close>; \<open>i\<close> is the index of the byte to read. Ten bytes are read at
  most.
\<close>

function fts3_get_loop :: "u8 list \<Rightarrow> nat \<Rightarrow> nat \<Rightarrow> u64 \<Rightarrow> (u64 \<times> nat) option" where
  "fts3_get_loop p i shift b =
     (if shift \<le> 63 then
        do { x \<leftarrow> rd p i;
             let c = ucast x :: u64; b = b + push_bit shift (c AND 0x7f)
             in if c AND 0x80 = 0 then Some (b, i + 1)
                else fts3_get_loop p (i + 1) (shift + 7) b }
      else Some (b, i))"
  by pat_completeness auto
termination by (relation "measure (\<lambda>(p, i, shift, b). 64 - shift)") auto

declare fts3_get_loop.simps [simp del]

definition sqlite3Fts3GetVarintU :: "u8 list \<Rightarrow> (u64 \<times> nat) option" where
  "sqlite3Fts3GetVarintU p =
     do {
       p0 \<leftarrow> rd p 0;
       let a = ucast p0 :: u32
       in if a AND 0x80 = 0 then Some (ucast a, 1) else do {
       p1 \<leftarrow> rd p 1;
       let a = (a AND 0x7f) OR push_bit 7 (ucast p1)
       in if a AND 0x4000 = 0 then Some (ucast a, 2) else do {
       p2 \<leftarrow> rd p 2;
       let a = (a AND 0x3fff) OR push_bit 14 (ucast p2)
       in if a AND 0x200000 = 0 then Some (ucast a, 3) else do {
       p3 \<leftarrow> rd p 3;
       let a = (a AND 0x1fffff) OR push_bit 21 (ucast p3)
       in if a AND 0x10000000 = 0 then Some (ucast a, 4)
          else fts3_get_loop p 4 28 (ucast (a AND 0x0fffffff)) }}}}"

definition sqlite3Fts3GetVarint :: "u8 list \<Rightarrow> (int \<times> nat) option" where
  "sqlite3Fts3GetVarint p = map_option (\<lambda>(v, n). (sint v, n)) (sqlite3Fts3GetVarintU p)"

text \<open>The bounded reader takes 0 for every byte from \<open>pEnd\<close> on, so it always returns.\<close>

function fts3_bounded_loop :: "u8 list \<Rightarrow> nat \<Rightarrow> nat \<Rightarrow> u64 \<Rightarrow> u64 \<times> nat" where
  "fts3_bounded_loop p i shift b =
     (if shift \<le> 63 then
        let c = (if i < length p then ucast (p ! i) else 0) :: u64;
            b = b + push_bit shift (c AND 0x7f)
        in if c AND 0x80 = 0 then (b, i + 1)
           else fts3_bounded_loop p (i + 1) (shift + 7) b
      else (b, i))"
  by pat_completeness auto
termination by (relation "measure (\<lambda>(p, i, shift, b). 64 - shift)") auto

declare fts3_bounded_loop.simps [simp del]

definition sqlite3Fts3GetVarintBounded :: "u8 list \<Rightarrow> int \<times> nat" where
  "sqlite3Fts3GetVarintBounded p = (case fts3_bounded_loop p 0 0 0 of (b, n) \<Rightarrow> (sint b, n))"

definition sqlite3Fts3GetVarint32 :: "u8 list \<Rightarrow> (u32 \<times> nat) option" where
  "sqlite3Fts3GetVarint32 p =
     do {
       p0 \<leftarrow> rd p 0;
       let a = ucast p0 :: u32
       in if a AND 0x80 = 0 then Some (a, 1) else do {
       p1 \<leftarrow> rd p 1;
       let a = (a AND 0x7f) OR push_bit 7 (ucast p1)
       in if a AND 0x4000 = 0 then Some (a, 2) else do {
       p2 \<leftarrow> rd p 2;
       let a = (a AND 0x3fff) OR push_bit 14 (ucast p2)
       in if a AND 0x200000 = 0 then Some (a, 3) else do {
       p3 \<leftarrow> rd p 3;
       let a = (a AND 0x1fffff) OR push_bit 21 (ucast p3)
       in if a AND 0x10000000 = 0 then Some (a, 4)
          else do {
       p4 \<leftarrow> rd p 4;
       let a = a AND 0x0fffffff; pi = a OR push_bit 28 (ucast p4 AND 0x07)
       in if pi AND 0x80000000 = 0 then Some (pi, 5) else None }}}}}"

section \<open>FTS3: lists of deltas\<close>

text \<open>A call appends bytes to the list (\<open>*pp\<close>) and updates the previous value.\<close>

definition fts3PutDeltaVarint :: "u8 list \<Rightarrow> int \<Rightarrow> int \<Rightarrow> (u8 list \<times> int) option" where
  "fts3PutDeltaVarint pp iPrev iVal =
     do { d \<leftarrow> i64 (iVal - iPrev); Some (pp @ sqlite3Fts3PutVarint (word_of_int d), iVal) }"

definition fts3GetDeltaVarint :: "u8 list \<Rightarrow> int \<Rightarrow> (u8 list \<times> int) option" where
  "fts3GetDeltaVarint pp pVal =
     do { (iVal, n) \<leftarrow> sqlite3Fts3GetVarint pp; s \<leftarrow> i64 (pVal + iVal); Some (drop n pp, s) }"

text \<open>The backwards scan of \<open>fts3GetReverseVarint\<close>: \<open>buf\<close> starts at \<open>pStart\<close>.\<close>

function fts3_rev_scan :: "u8 list \<Rightarrow> int \<Rightarrow> int" where
  "fts3_rev_scan buf p =
     (if p \<ge> 0 \<and> buf ! nat p AND 0x80 \<noteq> 0 then fts3_rev_scan buf (p - 1) else p)"
  by pat_completeness auto
termination by (relation "measure (\<lambda>(buf, p). nat (p + 1))") auto

declare fts3_rev_scan.simps [simp del]

definition fts3GetReverseVarint :: "u8 list \<Rightarrow> nat \<Rightarrow> (nat \<times> int) option" where
  "fts3GetReverseVarint buf pp =
     (let p = fts3_rev_scan buf (int pp - 2) + 1
      in if pp \<le> length buf \<and> 0 \<le> p then
           map_option (\<lambda>(v, n). (nat p, v)) (sqlite3Fts3GetVarint (drop (nat p) buf))
         else None)"

section \<open>FTS3: correctness\<close>

text \<open>The reader as one loop from \<open>shift\<close> 0, with \<open>OR\<close> for the sum of disjoint groups.\<close>

fun fts3_ref :: "nat \<Rightarrow> u64 \<Rightarrow> u8 list \<Rightarrow> (u64 \<times> nat) option" where
  "fts3_ref i b [] = (if 7 * i \<le> 63 then None else Some (b, i))"
| "fts3_ref i b (x # xs) =
     (if 7 * i \<le> 63 then
        if \<not> bit x 7 then Some (b OR push_bit (7 * i) (ucast x), i + 1)
        else fts3_ref (i + 1) (b OR push_bit (7 * i) (ucast (x AND 0x7f))) xs
      else Some (b, i))"

lemma and_80_u64 [simp]: "(w :: u64) AND 0x80 = 0 \<longleftrightarrow> \<not> bit w 7"
  using and_exp_eq_0_iff_not_bit [of w 7] by simp

lemma and_bits_u32 [simp]:
  "(w :: u32) AND 0x4000 = 0 \<longleftrightarrow> \<not> bit w 14"
  "(w :: u32) AND 0x200000 = 0 \<longleftrightarrow> \<not> bit w 21"
  "(w :: u32) AND 0x10000000 = 0 \<longleftrightarrow> \<not> bit w 28"
  "(w :: u32) AND 0x80000000 = 0 \<longleftrightarrow> \<not> bit w 31"
  using and_exp_eq_0_iff_not_bit [of w 14] and_exp_eq_0_iff_not_bit [of w 21]
    and_exp_eq_0_iff_not_bit [of w 28] and_exp_eq_0_iff_not_bit [of w 31] by simp_all

lemma bit_masks [simp]: "bit (127 :: int) n \<longleftrightarrow> n < 7" "bit (268435455 :: int) n \<longleftrightarrow> n < 28"
proof -
  have "(127 :: int) = mask 7" "(268435455 :: int) = mask 28"
    by (simp_all add: mask_eq_exp_minus_1)
  then show "bit (127 :: int) n \<longleftrightarrow> n < 7" "bit (268435455 :: int) n \<longleftrightarrow> n < 28"
    by (simp_all only: bit_mask_iff possible_bit_int) simp_all
qed

lemma group_disjoint:
  assumes "\<And>n. k \<le> n \<Longrightarrow> \<not> bit (b :: u64) n"
  shows "b + push_bit k c = b OR push_bit k c"
proof -
  have "b AND push_bit k c = 0"
    using assms by (auto simp: bit_eq_iff bit_simps)
  then show ?thesis by (rule disjunctive_add_eq_or)
qed

lemma group_high:
  assumes "\<And>n. k \<le> n \<Longrightarrow> \<not> bit b n" "k + 7 \<le> n"
  shows "\<not> bit (b OR push_bit k ((c :: u64) AND 0x7f)) n"
  using assms by (auto simp: bit_or_iff bit_push_bit_iff bit_and_iff)

lemma mask_clear: "\<not> bit (x :: u8) 7 \<Longrightarrow> x AND 0x7f = x"
  by (simp add: word8_eq_bits bit_simps)

lemma mask_ucast: "ucast (x :: u8) AND 0x7f = (ucast (x AND 0x7f) :: u64)"
  by (simp add: blast_bits)

lemma bit_ucast_u8: "bit (ucast (x :: u8) :: u64) 7 \<longleftrightarrow> bit x 7"
  by (simp add: bit_simps)

lemma drop_ConsD: "drop i p = x # q \<Longrightarrow> i < length p \<and> p ! i = x \<and> drop (Suc i) p = q"
  by (metis Cons_nth_drop_Suc drop_all leI list.distinct(1) list.inject)

lemma get_loop_ref:
  "drop i p = q \<Longrightarrow> (\<And>n. 7 * i \<le> n \<Longrightarrow> \<not> bit b n) \<Longrightarrow>
   fts3_get_loop p i (7 * i) b = fts3_ref i b q"
proof (induction q arbitrary: i b)
  case Nil
  then show ?case by (simp add: fts3_get_loop.simps [of p i] rd_def)
next
  case (Cons x q)
  then have x: "rd p i = Some x" and q: "drop (Suc i) p = q"
    using drop_ConsD [OF Cons.prems(1)] by (auto simp: rd_def)
  have "fts3_get_loop p (Suc i) (7 * i + 7) (b OR push_bit (7 * i) (ucast x AND 0x7f)) =
      fts3_ref (Suc i) (b OR push_bit (7 * i) (ucast x AND 0x7f)) q"
    using Cons.IH [OF q, of "b OR push_bit (7 * i) (ucast x AND 0x7f)"]
      group_high [OF Cons.prems(2)] by (simp add: add.commute)
  with x show ?case
    using group_disjoint [OF Cons.prems(2)]
    by (auto simp: fts3_get_loop.simps [of p i] Let_def bit_ucast_u8 mask_clear mask_ucast simp del: push_bit_and)
qed

lemma bounded_loop_ref:
  "drop i p = q \<Longrightarrow> (\<And>n. 7 * i \<le> n \<Longrightarrow> \<not> bit b n) \<Longrightarrow> fts3_ref i b q = Some r \<Longrightarrow>
   fts3_bounded_loop p i (7 * i) b = r"
proof (induction q arbitrary: i b)
  case Nil
  then show ?case by (simp add: fts3_bounded_loop.simps [of p i] split: if_splits)
next
  case (Cons x q)
  then have x: "i < length p" "p ! i = x" and q: "drop (Suc i) p = q"
    using drop_ConsD [OF Cons.prems(1)] by auto
  have "fts3_bounded_loop p (Suc i) (7 * i + 7) (b OR push_bit (7 * i) (ucast x AND 0x7f)) = r"
    if "fts3_ref (Suc i) (b OR push_bit (7 * i) (ucast x AND 0x7f)) q = Some r"
    using Cons.IH [OF q, of "b OR push_bit (7 * i) (ucast x AND 0x7f)"] that
      group_high [OF Cons.prems(2)] by (simp add: add.commute)
  with x Cons.prems(3) show ?case
    using group_disjoint [OF Cons.prems(2)]
    by (auto simp: fts3_bounded_loop.simps [of p i] Let_def bit_ucast_u8 mask_clear mask_ucast
        simp del: push_bit_and split: if_splits)
qed

lemma GetVarintU_ref: "sqlite3Fts3GetVarintU p = fts3_ref 0 0 p"
proof -
  note defs = sqlite3Fts3GetVarintU_def Let_def rd_def
  show ?thesis
  proof (cases p rule: byte_cases)
    case p0: (Cont b0 r0)
    show ?thesis
    proof (cases r0 rule: byte_cases)
      case p1: (Cont b1 r1)
      show ?thesis
      proof (cases r1 rule: byte_cases)
        case p2: (Cont b2 r2)
        show ?thesis
        proof (cases r2 rule: byte_cases)
          case p3: (Cont b3 r3)
          let ?b = "ucast (((((ucast b0 AND 0x7f) OR push_bit 7 (ucast b1)) AND 0x3fff OR push_bit 14 (ucast b2)) AND 0x1fffff OR
              push_bit 21 (ucast b3)) AND (0x0fffffff :: u32)) :: u64"
          have b: "?b = ((ucast (b0 AND 0x7f) OR push_bit 7 (ucast (b1 AND 0x7f))) OR
              push_bit 14 (ucast (b2 AND 0x7f))) OR push_bit 21 (ucast (b3 AND 0x7f))"
            by (simp add: blast_bits)
          have "\<not> bit ?b n" if "28 \<le> n" for n
            using that by (simp only: b bit_or_iff bit_push_bit_iff bit_unsigned_iff bit_and_iff) auto
          then have "fts3_get_loop p 4 28 ?b = fts3_ref 4 ?b r3"
            using get_loop_ref [of 4 p r3 ?b] p0 p1 p2 p3 by simp
          then have loop: "fts3_get_loop p 4 28 ?b = fts3_ref 4 (((ucast (b0 AND 0x7f) OR
              push_bit 7 (ucast (b1 AND 0x7f))) OR push_bit 14 (ucast (b2 AND 0x7f))) OR
              push_bit 21 (ucast (b3 AND 0x7f))) r3"
            by (simp only: b)
          have get: "sqlite3Fts3GetVarintU p = fts3_get_loop p 4 28 ?b"
            using p0 p1 p2 p3 by (simp add: defs bit_simps)
          show ?thesis
            unfolding get loop using p0 p1 p2 p3 by (simp add: eval_nat_numeral)
        qed (use p0 p1 p2 in \<open>simp add: defs bit_simps\<close>, use p0 p1 p2 in \<open>simp add: defs blast_bits\<close>)
      qed (use p0 p1 in \<open>simp add: defs bit_simps\<close>, use p0 p1 in \<open>simp add: defs blast_bits\<close>)
    qed (use p0 in \<open>simp add: defs bit_simps\<close>, use p0 in \<open>simp add: defs blast_bits\<close>)
  qed (simp add: defs, simp add: defs bit_simps, simp add: blast_bits)
qed

lemma Fts3Put_unfold:
  "sqlite3Fts3PutVarint v =
     (if drop_bit 7 v = 0 then [ucast (v AND 0x7f)]
      else ucast ((v AND 0x7f) OR 0x80) # sqlite3Fts3PutVarint (drop_bit 7 v))"
proof (cases "drop_bit 7 v = 0")
  case True
  then show ?thesis
    by (simp add: sqlite3Fts3PutVarint_def varint_buf.simps [of v] last_byte)
next
  case False
  obtain x xs where "varint_buf (drop_bit 7 v) = x # xs"
    using varint_buf.simps [of "drop_bit 7 v"] by blast
  with False show ?thesis
    by (simp add: sqlite3Fts3PutVarint_def varint_buf.simps [of v] Let_def split: nat.split)
qed

lemma group_ucast:
  "\<not> bit (ucast ((v AND 0x7f) OR 0x80 :: u64) AND (0x7f :: u8)) 7"
  "ucast (ucast ((v AND 0x7f) OR 0x80 :: u64) AND (0x7f :: u8)) = v AND 0x7f"
  "ucast (ucast (v AND 0x7f :: u64) :: u8) = v AND 0x7f"
  by (simp_all add: blast_bits)

lemma split_group:
  "push_bit k (drop_bit k v AND 0x7f) OR push_bit (k + 7) (drop_bit (k + 7) v) = push_bit k (drop_bit k (v :: u64))"
proof (rule bit_word_eqI)
  fix n
  show "bit (push_bit k (drop_bit k v AND 0x7f) OR push_bit (k + 7) (drop_bit (k + 7) v)) n \<longleftrightarrow>
      bit (push_bit k (drop_bit k v)) n" if "n < LENGTH(64)"
    using that by (cases "k + 7 \<le> n")
      (auto simp: bit_or_iff bit_push_bit_iff bit_and_iff bit_drop_bit_eq)
qed

lemma Fts3Put_ref:
  "i \<le> 9 \<Longrightarrow> fts3_ref i b (sqlite3Fts3PutVarint (drop_bit (7 * i) v) @ r) =
     Some (b OR push_bit (7 * i) (drop_bit (7 * i) v), i + length (sqlite3Fts3PutVarint (drop_bit (7 * i) v)))"
proof (induction "9 - i" arbitrary: i b)
  case 0
  then have i: "i = 9" by simp
  have "drop_bit 7 (drop_bit 63 v) = 0" "drop_bit 63 v AND 0x7f = drop_bit 63 v"
    "\<not> bit (ucast (drop_bit 63 v AND 0x7f) :: u8) 7"
    by (simp_all add: blast_bits)
  then show ?case
    using group_ucast(3) [of "drop_bit 63 v"] by (simp add: i Fts3Put_unfold [of "drop_bit 63 v"])
next
  case (Suc n)
  let ?w = "drop_bit (7 * i) v"
  show ?case
  proof (cases "drop_bit 7 ?w = 0")
    case True
    moreover from this have "?w AND 0x7f = ?w"
      using split7 [of ?w] by simp
    moreover have "\<not> bit (ucast (?w AND 0x7f) :: u8) 7"
      by (simp add: bit_simps)
    ultimately show ?thesis
      using Suc group_ucast(3) [of ?w] by (simp add: Fts3Put_unfold [of ?w])
  next
    case False
    have nxt: "drop_bit 7 ?w = drop_bit (7 * (i + 1)) v"
      by (simp add: drop_bit_drop_bit add.commute)
    have "bit (ucast ((?w AND 0x7f) OR 0x80) :: u8) 7"
      by (simp add: bit_simps)
    with False Suc show ?thesis
      using Suc.hyps(1) [of "i + 1" "b OR push_bit (7 * i) (?w AND 0x7f)"] split_group [of "7 * i" v]
      by (simp add: Fts3Put_unfold [of ?w] group_ucast nxt or.assoc add.commute)
  qed
qed

lemma Fts3_roundtrip:
  "sqlite3Fts3GetVarintU (sqlite3Fts3PutVarint v @ r) = Some (v, length (sqlite3Fts3PutVarint v))"
  using Fts3Put_ref [of 0 0 v r] by (simp add: GetVarintU_ref)

interpretation fts3: codec sqlite3Fts3PutVarint sqlite3Fts3GetVarintU
  by unfold_locales (rule Fts3_roundtrip)

lemma length_Fts3Put: "length (sqlite3Fts3PutVarint v) = length (varint_buf v)"
  by (simp add: sqlite3Fts3PutVarint_def Let_def)

lemma fts3_ref_len:
  "fts3_ref i b q = Some (v, n) \<Longrightarrow> i \<le> 10 \<Longrightarrow> i \<le> n \<and> (i \<le> 9 \<longrightarrow> i < n) \<and> n \<le> 10"
proof (induction i b q rule: fts3_ref.induct)
  case (2 i b x xs)
  then show ?case by (auto split: if_splits)
qed (auto split: if_splits)

lemma fts3_len_loop_eq:
  "n + fuel \<le> 10 \<Longrightarrow> length (varint_buf v) \<le> fuel \<Longrightarrow>
   fts3_len_loop fuel n v = Some (n + length (varint_buf v))"
proof (induction fuel n v rule: fts3_len_loop.induct)
  case (1 n v)
  then show ?case by (simp add: varint_buf.simps [of v])
next
  case (2 fuel n v)
  then show ?case by (auto simp: Let_def varint_buf.simps [of v])
qed

lemma length_varint_buf: "length (varint_buf v) \<le> 10"
  using fts3_ref_len [of 0 0 "sqlite3Fts3PutVarint v" v] Fts3_roundtrip [of v "[]"]
  by (simp add: GetVarintU_ref length_Fts3Put)

lemma Fts3VarintLen_eq: "sqlite3Fts3VarintLen v = Some (length (sqlite3Fts3PutVarint v))"
  using fts3_len_loop_eq [of 0 10 v] length_varint_buf [of v]
  by (simp add: sqlite3Fts3VarintLen_def length_Fts3Put)

lemma Fts3_signed:
  assumes "in_i64 x"
  shows "sqlite3Fts3GetVarint (sqlite3Fts3PutVarint (word_of_int x) @ r) =
    Some (x, length (sqlite3Fts3PutVarint (word_of_int x)))"
proof -
  have "sint (word_of_int x :: u64) = x"
    using assms by (simp add: in_i64_def signed_of_int signed_take_bit_int_eq_self)
  then show ?thesis by (simp add: sqlite3Fts3GetVarint_def Fts3_roundtrip)
qed

text \<open>Writing and reading a list of deltas.\<close>

fun fts3_put_list :: "u8 list \<Rightarrow> int \<Rightarrow> int list \<Rightarrow> u8 list option" where
  "fts3_put_list pp prev [] = Some pp"
| "fts3_put_list pp prev (v # vs) =
     do { (pp, prev) \<leftarrow> fts3PutDeltaVarint pp prev v; fts3_put_list pp prev vs }"

fun fts3_get_list :: "nat \<Rightarrow> u8 list \<Rightarrow> int \<Rightarrow> (int list \<times> u8 list) option" where
  "fts3_get_list 0 pp val = Some ([], pp)"
| "fts3_get_list (Suc n) pp val =
     do { (pp, val) \<leftarrow> fts3GetDeltaVarint pp val;
          (vs, pp) \<leftarrow> fts3_get_list n pp val; Some (val # vs, pp) }"

lemma put_list_app:
  "fts3_put_list pp prev vs = Some out \<Longrightarrow>
   \<exists>bs. out = pp @ bs \<and> (list_all in_i64 vs \<longrightarrow> fts3_get_list (length vs) (bs @ r) prev = Some (vs, r))"
proof (induction vs arbitrary: pp prev)
  case (Cons v vs)
  then obtain d where d: "in_i64 d" "d = v - prev"
      "fts3_put_list (pp @ sqlite3Fts3PutVarint (word_of_int d)) v vs = Some out"
    by (auto simp: fts3PutDeltaVarint_def bind_eq_Some_conv i64_eq_Some)
  then obtain bs where bs: "out = pp @ sqlite3Fts3PutVarint (word_of_int d) @ bs"
      "list_all in_i64 vs \<longrightarrow> fts3_get_list (length vs) (bs @ r) v = Some (vs, r)"
    using Cons.IH by fastforce
  have "prev + d = v" using d(2) by simp
  then have "fts3GetDeltaVarint (sqlite3Fts3PutVarint (word_of_int d) @ bs @ r) prev = Some (bs @ r, v)"
    if "in_i64 v"
    using that Fts3_signed [OF d(1), of "bs @ r"] by (simp add: fts3GetDeltaVarint_def i64_Some)
  with bs show ?case
    by (intro exI [of _ "sqlite3Fts3PutVarint (word_of_int d) @ bs"]) auto
qed simp

text \<open>Every byte of an encoded integer but the last has its high bit set.\<close>

lemma Fts3Put_bytes:
  "\<exists>q x. sqlite3Fts3PutVarint v = q @ [x] \<and> \<not> bit x 7 \<and> list_all (\<lambda>y. bit y 7) q"
proof -
  obtain q x where q: "varint_buf v = q @ [x]"
    using varint_buf.simps [of v] by (metis list.distinct(1) rev_exhaust)
  then have "list_all (\<lambda>y. bit y 7) q"
    using buf_conts [of v] by simp
  moreover have "sqlite3Fts3PutVarint v = q @ [x AND 0x7f]"
    by (simp add: sqlite3Fts3PutVarint_def q Let_def)
  moreover have "\<not> bit (x AND 0x7f) 7"
    by (simp add: bit_simps)
  ultimately show ?thesis by blast
qed

lemma rev_scan_back:
  "list_all (\<lambda>y. bit y 7) q \<Longrightarrow> pre = [] \<or> \<not> bit (last pre) 7 \<Longrightarrow>
   fts3_rev_scan (pre @ q @ r) (int (length pre + length q) - 1) = int (length pre) - 1"
proof (induction q arbitrary: r rule: rev_induct)
  case Nil
  then show ?case
    by (cases pre rule: rev_cases) (simp_all add: fts3_rev_scan.simps nth_append)
next
  case (snoc x q)
  then have "fts3_rev_scan (pre @ q @ x # r) (int (length pre + length q) - 1) = int (length pre) - 1"
    by simp
  with snoc.prems(1) show ?case
    by (subst fts3_rev_scan.simps) (simp add: nth_append nat_int_add)
qed

lemma GetReverse_ok:
  assumes "in_i64 x" "pre = [] \<or> \<not> bit (last pre) 7"
  shows "fts3GetReverseVarint (pre @ sqlite3Fts3PutVarint (word_of_int x) @ r)
    (length pre + length (sqlite3Fts3PutVarint (word_of_int x))) = Some (length pre, x)"
proof -
  obtain q y where q: "sqlite3Fts3PutVarint (word_of_int x) = q @ [y]" "list_all (\<lambda>y. bit y 7) q"
    using Fts3Put_bytes by blast
  have "fts3_rev_scan (pre @ sqlite3Fts3PutVarint (word_of_int x) @ r)
      (int (length pre + length (sqlite3Fts3PutVarint (word_of_int x))) - 2) = int (length pre) - 1"
    using rev_scan_back [OF q(2) assms(2), of "y # r"] by (simp add: q(1))
  then show ?thesis
    by (simp add: fts3GetReverseVarint_def Let_def Fts3_signed [OF assms(1)])
qed

text \<open>The 32-bit reader, on varints that it consumes whole.\<close>

lemma trunc31: "\<not> bit a 31 \<Longrightarrow> ucast (ucast a :: u64) AND 0x7fffffff = (a :: u32)"
  by (simp add: blast32)

lemma trunc31_5:
  "\<not> bit (b4 :: u8) 7 \<Longrightarrow> \<not> bit (a :: u32) 28 \<Longrightarrow> \<not> bit a 29 \<Longrightarrow> \<not> bit a 30 \<Longrightarrow> \<not> bit a 31 \<Longrightarrow>
   ucast ((ucast a :: u64) OR push_bit 28 (ucast b4)) AND 0x7fffffff = a OR push_bit 28 (ucast b4 AND 0x07)"
  by (simp add: blast32)

lemma Fts3_32_cases:
  assumes "sqlite3Fts3GetVarintU p \<noteq> None"
  obtains (1) b0 r where "p = b0 # r" "\<not> bit b0 7"
    | (2) b0 b1 r where "p = b0 # b1 # r" "bit b0 7" "\<not> bit b1 7"
    | (3) b0 b1 b2 r where "p = b0 # b1 # b2 # r" "bit b0 7" "bit b1 7" "\<not> bit b2 7"
    | (4) b0 b1 b2 b3 r where "p = b0 # b1 # b2 # b3 # r" "bit b0 7" "bit b1 7" "bit b2 7" "\<not> bit b3 7"
    | (5) b0 b1 b2 b3 b4 r where "p = b0 # b1 # b2 # b3 # b4 # r" "bit b0 7" "bit b1 7" "bit b2 7" "bit b3 7"
proof -
  obtain b0 q0 where p: "p = b0 # q0"
    using assms by (cases p) (auto simp: GetVarintU_ref)
  show thesis
  proof (cases "bit b0 7")
    case c0: True
    then obtain b1 q1 where q0: "q0 = b1 # q1"
      using assms p by (cases q0) (auto simp: GetVarintU_ref)
    show thesis
    proof (cases "bit b1 7")
      case c1: True
      then obtain b2 q2 where q1: "q1 = b2 # q2"
        using assms p q0 c0 by (cases q1) (auto simp: GetVarintU_ref)
      show thesis
      proof (cases "bit b2 7")
        case c2: True
        then obtain b3 q3 where q2: "q2 = b3 # q3"
          using assms p q0 q1 c0 c1 by (cases q2) (auto simp: GetVarintU_ref)
        show thesis
        proof (cases "bit b3 7")
          case c3: True
          then obtain b4 q4 where q3: "q3 = b4 # q4"
            using assms p q0 q1 q2 c0 c1 c2 by (cases q3) (auto simp: GetVarintU_ref)
          show thesis
            by (rule 5 [of b0 b1 b2 b3 b4 q4]) (use p q0 q1 q2 q3 c0 c1 c2 c3 in auto)
        qed (use p q0 q1 q2 c0 c1 c2 4 in auto)
      qed (use p q0 q1 c0 c1 3 in auto)
    qed (use p q0 c0 2 in auto)
  qed (use p 1 in auto)
qed

lemma Fts3GetVarint32_eq:
  assumes get: "sqlite3Fts3GetVarintU p = Some (v, n)" and n: "n \<le> 5"
  shows "sqlite3Fts3GetVarint32 p = Some (ucast v AND 0x7fffffff, n)"
proof -
  note defs = sqlite3Fts3GetVarintU_def sqlite3Fts3GetVarint32_def Let_def rd_def
  from get have "sqlite3Fts3GetVarintU p \<noteq> None" by simp
  then show ?thesis
  proof (cases rule: Fts3_32_cases)
    case (1 b0 r)
    with get have v: "v = ucast (ucast b0 :: u32)" "n = 1" by (simp_all add: defs bit_simps)
    show ?thesis unfolding v trunc31 using 1 by (subst trunc31) (simp_all add: defs bit_simps)
  next
    case (2 b0 b1 r)
    with get have v: "v = ucast ((ucast b0 AND 0x7f) OR push_bit 7 (ucast b1) :: u32)" "n = 2"
      by (simp_all add: defs bit_simps)
    show ?thesis unfolding v using 2 by (subst trunc31) (simp_all add: defs bit_simps)
  next
    case (3 b0 b1 b2 r)
    with get have v: "v = ucast (((ucast b0 AND 0x7f) OR push_bit 7 (ucast b1)) AND 0x3fff OR
        push_bit 14 (ucast b2) :: u32)" "n = 3"
      by (simp_all add: defs bit_simps)
    show ?thesis unfolding v using 3 by (subst trunc31) (simp_all add: defs bit_simps)
  next
    case (4 b0 b1 b2 b3 r)
    with get have v: "v = ucast ((((ucast b0 AND 0x7f) OR push_bit 7 (ucast b1)) AND 0x3fff OR
        push_bit 14 (ucast b2)) AND 0x1fffff OR push_bit 21 (ucast b3) :: u32)" "n = 4"
      by (simp_all add: defs bit_simps)
    show ?thesis unfolding v using 4 by (subst trunc31) (simp_all add: defs bit_simps)
  next
    case (5 b0 b1 b2 b3 b4 r)
    let ?a = "((((ucast b0 AND 0x7f) OR push_bit 7 (ucast b1)) AND 0x3fff OR
        push_bit 14 (ucast b2)) AND 0x1fffff OR push_bit 21 (ucast b3)) AND 0x0fffffff :: u32"
    have loop: "sqlite3Fts3GetVarintU p = fts3_get_loop p 4 28 (ucast ?a)"
      using 5 by (simp add: defs bit_simps)
    have b: "ucast ?a + push_bit 28 (ucast b4 AND 0x7f) = ucast ?a OR push_bit 28 (ucast b4 AND 0x7f :: u64)"
      by (rule group_disjoint) (auto simp: bit_simps)
    have "\<not> bit b4 7"
    proof
      assume c4: "bit b4 7"
      have "fts3_ref 5 (((((ucast (b0 AND 0x7f)) OR push_bit 7 (ucast (b1 AND 0x7f))) OR
          push_bit 14 (ucast (b2 AND 0x7f))) OR push_bit 21 (ucast (b3 AND 0x7f))) OR
          push_bit 28 (ucast (b4 AND 0x7f))) r = Some (v, n)"
        using get 5 c4 by (simp add: GetVarintU_ref eval_nat_numeral)
      from fts3_ref_len [OF this] n show False by simp
    qed
    moreover from this have "fts3_get_loop p 4 28 (ucast ?a) = Some (ucast ?a OR push_bit 28 (ucast b4), 5)"
      using 5 b by (subst fts3_get_loop.simps)
        (simp add: Let_def bit_ucast_u8 mask_clear mask_ucast del: push_bit_and)
    with get loop have v: "v = ucast ?a OR push_bit 28 (ucast b4)" "n = 5"
      by simp_all
    ultimately show ?thesis
      unfolding v using 5 by (subst trunc31_5) (simp_all add: defs bit_simps)
  qed
qed

section \<open>FTS5: the copy of the core routines\<close>

definition sqlite3Fts5GetVarint :: "u8 list \<Rightarrow> (u64 \<times> nat) option" where
  "sqlite3Fts5GetVarint p =
     do {
       p0 \<leftarrow> rd p 0;
       let a = ucast p0 :: u32
       in if a AND 0x80 = 0 then Some (ucast a, 1) else do {
       p1 \<leftarrow> rd p 1;
       let b = ucast p1
       in if b AND 0x80 = 0 then
            let a = a AND 0x7f; a = push_bit 7 a; a = a OR b
            in Some (ucast a, 2)
          else do {
       p2 \<leftarrow> rd p 2;
       let a = push_bit 14 (ucast p0 :: u32); b = ucast p1 :: u32;
           a = a OR ucast p2
       in if a AND 0x80 = 0 then
            let a = a AND SLOT_2_0; b = b AND 0x7f; b = push_bit 7 b; a = a OR b
            in Some (ucast a, 3)
          else do {
       p3 \<leftarrow> rd p 3;
       let a = a AND SLOT_2_0; b = push_bit 14 b; b = b OR ucast p3
       in if b AND 0x80 = 0 then
            let b = b AND SLOT_2_0; a = push_bit 7 a; a = a OR b
            in Some (ucast a, 4)
          else do {
       p4 \<leftarrow> rd p 4;
       let b = b AND SLOT_2_0; s = a; a = push_bit 14 a; a = a OR ucast p4
       in if a AND 0x80 = 0 then
            let b = push_bit 7 b; a = a OR b; s = drop_bit 18 s
            in Some (join64 s a, 5)
          else do {
       p5 \<leftarrow> rd p 5;
       let s = push_bit 7 s; s = s OR b; b = push_bit 14 b; b = b OR ucast p5
       in if b AND 0x80 = 0 then
            let a = a AND SLOT_2_0; a = push_bit 7 a; a = a OR b; s = drop_bit 18 s
            in Some (join64 s a, 6)
          else do {
       p6 \<leftarrow> rd p 6;
       let a = push_bit 14 a; a = a OR ucast p6
       in if a AND 0x80 = 0 then
            let a = a AND SLOT_4_2_0; b = b AND SLOT_2_0; b = push_bit 7 b; a = a OR b;
                s = drop_bit 11 s
            in Some (join64 s a, 7)
          else do {
       p7 \<leftarrow> rd p 7;
       let a = a AND SLOT_2_0; b = push_bit 14 b; b = b OR ucast p7
       in if b AND 0x80 = 0 then
            let b = b AND SLOT_4_2_0; a = push_bit 7 a; a = a OR b; s = drop_bit 4 s
            in Some (join64 s a, 8)
          else do {
       p8 \<leftarrow> rd p 8;
       let a = push_bit 15 a; a = a OR ucast p8;
           b = b AND SLOT_2_0; b = push_bit 8 b; a = a OR b;
           s = push_bit 4 s; b = ucast p4; b = b AND 0x7f; b = drop_bit 3 b; s = s OR b
       in Some (join64 s a, 9)
     }}}}}}}}}"

definition sqlite3Fts5GetVarint32 :: "u8 list \<Rightarrow> (u32 \<times> nat) option" where
  "sqlite3Fts5GetVarint32 p =
     do {
       p0 \<leftarrow> rd p 0;
       let a = ucast p0 :: u32
       in if a AND 0x80 = 0 then Some (a, 1) else do {
       p1 \<leftarrow> rd p 1;
       let b = ucast p1
       in if b AND 0x80 = 0 then
            let a = a AND 0x7f; a = push_bit 7 a
            in Some (a OR b, 2)
          else do {
       p2 \<leftarrow> rd p 2;
       let a = push_bit 14 a; a = a OR ucast p2
       in if a AND 0x80 = 0 then
            let a = a AND (push_bit 14 0x7f OR 0x7f); b = b AND 0x7f; b = push_bit 7 b
            in Some (a OR b, 3)
          else do {
       (v64, n) \<leftarrow> sqlite3Fts5GetVarint p;
       if n > 3 \<and> n \<le> 9 then Some (ucast v64 AND 0x7FFFFFFF, n) else None
     }}}}"

definition fts5PutVarint64 :: "u64 \<Rightarrow> u8 list" where
  "fts5PutVarint64 v =
     (if v AND (0xff000000 * 2 ^ 32) \<noteq> 0 then put9_loop 8 (drop_bit 8 v) [ucast v]
      else case varint_buf v of
        b # bs \<Rightarrow> rev ((b AND 0x7f) # bs))"

definition sqlite3Fts5PutVarint :: "u64 \<Rightarrow> u8 list" where
  "sqlite3Fts5PutVarint v =
     (if v \<le> 0x7f then [ucast (v AND 0x7f)]
      else if v \<le> 0x3fff then
        [ucast ((drop_bit 7 v AND 0x7f) OR 0x80), ucast (v AND 0x7f)]
      else fts5PutVarint64 v)"

definition sqlite3Fts5GetVarintLen :: "u32 \<Rightarrow> nat option" where
  "sqlite3Fts5GetVarintLen iVal =
     (if \<not> iVal \<ge> 2 ^ 7 then None
      else if iVal < 2 ^ 14 then Some 2
      else if iVal < 2 ^ 21 then Some 3
      else if iVal < 2 ^ 28 then Some 4
      else Some 5)"

lemma bit7_u32 [simp]: "bit (ucast (x :: u8) :: u32) 7 \<longleftrightarrow> bit x 7"
  by (simp add: bit_simps)

lemma ucast_u8_u32_u64 [simp]: "ucast (ucast (x :: u8) :: u32) = (ucast x :: u64)"
  by (simp add: blast_bits)

lemma Fts5Get_eq: "sqlite3Fts5GetVarint p = sqlite3GetVarint p"
proof (cases p rule: byte_cases)
  case p0: (Cont b0 r0)
  have m: "ucast b0 AND 0x7f = (ucast (b0 AND 0x7f) :: u32)"
    by (simp add: blast32)
  show ?thesis
  proof (cases r0 rule: byte_cases)
    case (Cont b1 r1)
    with p0 show ?thesis
      unfolding sqlite3Fts5GetVarint_def sqlite3GetVarint_def by (simp add: rd_def)
  qed (use p0 in \<open>simp_all add: sqlite3Fts5GetVarint_def sqlite3GetVarint_def rd_def m del: push_bit_and\<close>)
qed (simp_all add: sqlite3Fts5GetVarint_def sqlite3GetVarint_def rd_def)

lemma Fts5Put_eq: "sqlite3Fts5PutVarint v = sqlite3PutVarint v"
  by (simp add: sqlite3Fts5PutVarint_def sqlite3PutVarint_def fts5PutVarint64_def putVarint64_def)

lemma trunc_short:
  "ucast (ucast (b :: u8) :: u64) AND 0x7FFFFFFF = (ucast b :: u32)"
  "ucast ((push_bit 7 (ucast (b AND 0x7f)) OR ucast (c :: u8)) :: u64) AND 0x7FFFFFFF =
     push_bit 7 (ucast b AND 0x7f) OR (ucast c :: u32)"
  "\<not> bit d 7 \<Longrightarrow>
   ucast (((push_bit 14 (ucast (b AND 0x7f)) OR push_bit 7 (ucast (c AND 0x7f))) OR ucast (d :: u8)) :: u64) AND 0x7FFFFFFF =
     (((push_bit 14 (ucast b) OR ucast d) AND (push_bit 14 0x7f OR 0x7f)) OR push_bit 7 (ucast c AND 0x7f) :: u32)"
  by (simp_all add: blast32)

lemma Fts5Get32_eq:
  "sqlite3Fts5GetVarint32 p = map_option (\<lambda>(v, n). (ucast v AND 0x7FFFFFFF, n)) (sqlite3GetVarint p)"
proof (cases p rule: byte_cases)
  case Nil
  then show ?thesis by (simp add: sqlite3Fts5GetVarint32_def GetVarint_eq_ref rd_def)
next
  case (Last b0 r0)
  then show ?thesis
    by (simp add: sqlite3Fts5GetVarint32_def GetVarint_eq_ref trunc_short)
next
  case b0: (Cont b0 r0)
  note defs = sqlite3Fts5GetVarint32_def Fts5Get_eq GetVarint_eq_ref rd_def Let_def
  show ?thesis
  proof (cases r0 rule: byte_cases)
    case b1: (Cont b1 r1)
    show ?thesis
    proof (cases r1 rule: byte_cases)
      case b2: (Cont b2 r2)
      show ?thesis
      proof (cases "varint_ref 0 0 p")
        case None
        with b0 b1 b2 show ?thesis by (simp add: defs bit_simps)
      next
        case (Some vn)
        with b0 b1 b2 have "3 < snd vn" "snd vn \<le> 9"
          using varint_ref_size [of "Suc (Suc (Suc 0))" _ r2 "fst vn" "snd vn"] by (auto simp: numeral_eq_Suc)
        with Some b0 b1 b2 show ?thesis
          by (cases vn) (auto simp: defs bit_simps simp del: varint_ref.simps)
      qed
    next
      case b2: (Last b2 r2)
      have "\<not> bit (push_bit 14 (ucast b0) OR ucast b2 :: u32) 7"
        using b2 by (simp add: bit_simps)
      with b0 b1 b2 show ?thesis
        by (simp add: defs trunc_short del: push_bit_and)
    qed (use b0 b1 in \<open>simp add: defs\<close>)
  next
    case (Last b1 r1)
    with b0 show ?thesis by (simp add: defs trunc_short del: push_bit_and)
  qed (use b0 in \<open>simp add: defs\<close>)
qed

lemma length_buf_exact:
  "drop_bit (7 * n) v = 0 \<Longrightarrow> drop_bit (7 * (n - 1)) v \<noteq> 0 \<Longrightarrow> 0 < n \<Longrightarrow> 7 * n < 64 \<Longrightarrow>
   length (varint_buf v) = n"
  using length_buf [of n v] varint_buf_long [of "n - 1" v] by simp

lemma Fts5GetVarintLen_eq:
  assumes "2 ^ 7 \<le> unat v"
  shows "sqlite3Fts5GetVarintLen v = Some (length (sqlite3PutVarint (ucast v)))"
proof -
  have u: "unat (ucast v :: u64) = unat v" "unat v < 2 ^ 32"
    using unsigned_less [of v, where 'a=nat] by (simp_all add: unsigned_ucast_eq take_bit_nat_eq_self)
  have d: "drop_bit n (ucast v :: u64) = 0 \<longleftrightarrow> unat v < 2 ^ n" if "n < 64" for n
    using drop_bit_0_iff [OF that, of "ucast v"] u by simp
  have le: "2 ^ 7 \<le> v" using assms by (simp add: word_le_nat_alt)
  have lt: "v < 0x4000 \<longleftrightarrow> unat v < 0x4000" "v < 0x200000 \<longleftrightarrow> unat v < 0x200000"
    "v < 0x10000000 \<longleftrightarrow> unat v < 0x10000000"
    by (simp_all add: word_less_nat_alt)
  have "length (varint_buf (ucast v :: u64)) =
     (if unat v < 2 ^ 14 then 2 else if unat v < 2 ^ 21 then 3 else if unat v < 2 ^ 28 then 4 else 5)"
    using assms u(2) length_buf_exact [of 2 "ucast v"] length_buf_exact [of 3 "ucast v"]
      length_buf_exact [of 4 "ucast v"] length_buf_exact [of 5 "ucast v"] by (simp add: d)
  then show ?thesis
    using le lt d [of 56] u(2)
    by (simp add: sqlite3Fts5GetVarintLen_def length_PutVarint)
qed

section \<open>Properties\<close>

text \<open>
  An FTS3 varint is read back as written for every 64-bit value, whatever follows, has at
  most ten bytes, and \<open>sqlite3Fts3VarintLen\<close> reports its exact length.
\<close>
theorem fts3_varint_roundtrip:
  "sqlite3Fts3GetVarintU (sqlite3Fts3PutVarint v @ r) = Some (v, length (sqlite3Fts3PutVarint v)) \<and>
   sqlite3Fts3VarintLen v = Some (length (sqlite3Fts3PutVarint v)) \<and>
   length (sqlite3Fts3PutVarint v) \<le> 10"
  by (simp add: Fts3_roundtrip Fts3VarintLen_eq) (simp add: length_Fts3Put length_varint_buf)

text \<open>
  On a buffer that holds a whole varint the bounded reader and the 32-bit reader agree with
  the unrolled 64-bit reader: the former always, the latter on varints of up to five bytes,
  where it returns the low 31 bits.
\<close>
theorem fts3_readers_agree:
  assumes "sqlite3Fts3GetVarintU p = Some (v, n)"
  shows "sqlite3Fts3GetVarintBounded p = (sint v, n) \<and>
    (n \<le> 5 \<longrightarrow> sqlite3Fts3GetVarint32 p = Some (ucast v AND 0x7fffffff, n))"
proof -
  have "fts3_bounded_loop p 0 (7 * 0) 0 = (v, n)"
    using assms by (intro bounded_loop_ref) (simp_all add: GetVarintU_ref)
  with assms Fts3GetVarint32_eq show ?thesis
    by (simp add: sqlite3Fts3GetVarintBounded_def)
qed

theorem fts3_readers_agree_witness:
  "sqlite3Fts3GetVarintU [0x85, 0x01] = Some (0x85, 2) \<and>
   sqlite3Fts3GetVarintBounded [0x85, 0x01] = (0x85, 2)"
proof -
  have "sqlite3Fts3GetVarintU [0x85, 0x01] = Some (0x85, 2)"
    by (simp add: GetVarintU_ref)
  with fts3_readers_agree [of "[0x85, 0x01]"] show ?thesis by simp
qed

text \<open>
  A delta-encoded list that \<open>fts3PutDeltaVarint\<close> wrote without overflow is read back by
  \<open>fts3GetDeltaVarint\<close> started from the same previous value.
\<close>
theorem fts3_delta_list_roundtrip:
  assumes "fts3_put_list [] prev vs = Some out" "list_all in_i64 vs"
  shows "fts3_get_list (length vs) (out @ r) prev = Some (vs, r)"
  using put_list_app [OF assms(1), of r] assms(2) by auto

theorem fts3_delta_list_roundtrip_witness:
  "\<exists>out. fts3_put_list [] 0 [5, 300] = Some out \<and> fts3_get_list 2 out 0 = Some ([5, 300], [])"
proof -
  obtain out where "fts3_put_list [] 0 [5, 300] = Some out"
    by (simp add: fts3PutDeltaVarint_def i64_def in_i64_def)
  with fts3_delta_list_roundtrip [of 0 "[5, 300]" out "[]"] show ?thesis
    by (simp add: in_i64_def eval_nat_numeral)
qed

text \<open>Reading a list of FTS3 varints backwards: from the byte after a varint that starts the
  list or follows another one, \<open>fts3GetReverseVarint\<close> finds its first byte and its value.
\<close>
theorem fts3_reverse_varint:
  assumes "in_i64 x" "pre = concat (map sqlite3Fts3PutVarint us)"
  shows "fts3GetReverseVarint (pre @ sqlite3Fts3PutVarint (word_of_int x) @ r)
    (length pre + length (sqlite3Fts3PutVarint (word_of_int x))) = Some (length pre, x)"
proof (rule GetReverse_ok [OF assms(1)])
  show "pre = [] \<or> \<not> bit (last pre) 7"
  proof (cases us rule: rev_cases)
    case (snoc ws w)
    obtain q y where "sqlite3Fts3PutVarint w = q @ [y]" "\<not> bit y 7"
      using Fts3Put_bytes by blast
    with snoc assms(2) show ?thesis by simp
  qed (simp add: assms(2))
qed

theorem fts3_reverse_varint_witness:
  "fts3GetReverseVarint (concat (map sqlite3Fts3PutVarint [300, 7]) @ sqlite3Fts3PutVarint (word_of_int (-1)) @ [])
     (length (concat (map sqlite3Fts3PutVarint [300, 7])) + length (sqlite3Fts3PutVarint (word_of_int (-1)))) =
   Some (length (concat (map sqlite3Fts3PutVarint [300, 7])), -1)"
  using fts3_reverse_varint [of "- 1" _ "[300, 7]" "[]", OF _ refl] by (simp add: in_i64_def)

text \<open>
  The copies in FTS5 are the core routines: same bytes written, same values and lengths read
  on every buffer; the 32-bit reader differs in what it does to large values, of which it keeps
  the low 31 bits; the length routine is exact.
\<close>
theorem fts5_copies_agree:
  "sqlite3Fts5GetVarint p = sqlite3GetVarint p \<and>
   sqlite3Fts5PutVarint v = sqlite3PutVarint v \<and>
   sqlite3Fts5GetVarint32 p = map_option (\<lambda>(v, n). (ucast v AND 0x7FFFFFFF, n)) (sqlite3GetVarint p) \<and>
   sqlite3Fts5GetVarintLen w =
     (if w \<ge> 2 ^ 7 then Some (length (sqlite3PutVarint (ucast w))) else None)"
proof -
  have "sqlite3Fts5GetVarintLen w =
     (if w \<ge> 2 ^ 7 then Some (length (sqlite3PutVarint (ucast w))) else None)"
  proof (cases "w \<ge> 2 ^ 7")
    case True
    then have "2 ^ 7 \<le> unat w" by (simp add: word_le_nat_alt)
    with True Fts5GetVarintLen_eq [of w] show ?thesis by simp
  qed (simp add: sqlite3Fts5GetVarintLen_def)
  then show ?thesis
    by (simp only: Fts5Get_eq Fts5Put_eq Fts5Get32_eq simp_thms)
qed

end
