(* ===== verification/VarintLsm.thy ===== *)
theory VarintLsm
  imports UtilVarint
begin

text \<open>
  The variable-length integers of the LSM storage engine, \<^verbatim>\<open>ext/lsm1/lsm_varint.c\<close>: the first
  byte tells the length, and small values are stored with an offset.

  The C expressions of type \<open>int\<close> that assemble four bytes are read modulo 2 to the 32nd.
\<close>

section \<open>Definitions\<close>

definition lsm_be32 :: "u8 \<Rightarrow> u8 \<Rightarrow> u8 \<Rightarrow> u8 \<Rightarrow> u32" where
  "lsm_be32 a b c d = push_bit 24 (ucast a) + push_bit 16 (ucast b) + push_bit 8 (ucast c) + ucast d"

definition lsmSqlite4GetVarint64 :: "u8 list \<Rightarrow> (u64 \<times> nat) option" where
  "lsmSqlite4GetVarint64 z =
     do {
       z0 \<leftarrow> rd z 0;
       if z0 \<le> 240 then Some (ucast z0, 1) else do {
       z1 \<leftarrow> rd z 1;
       if z0 \<le> 248 then Some ((ucast z0 - 241) * 256 + ucast z1 + 240, 2) else do {
       z2 \<leftarrow> rd z 2;
       if z0 = 249 then Some (2288 + 256 * ucast z1 + ucast z2, 3) else do {
       z3 \<leftarrow> rd z 3;
       if z0 = 250 then Some (push_bit 16 (ucast z1) + push_bit 8 (ucast z2) + ucast z3, 4) else do {
       z4 \<leftarrow> rd z 4;
       let x = lsm_be32 z1 z2 z3 z4
       in if z0 = 251 then Some (ucast x, 5) else do {
       z5 \<leftarrow> rd z 5;
       if z0 = 252 then Some (push_bit 8 (ucast x) + ucast z5, 6) else do {
       z6 \<leftarrow> rd z 6;
       if z0 = 253 then Some (push_bit 16 (ucast x) + push_bit 8 (ucast z5) + ucast z6, 7) else do {
       z7 \<leftarrow> rd z 7;
       if z0 = 254 then
         Some (push_bit 24 (ucast x) + push_bit 16 (ucast z5) + push_bit 8 (ucast z6) + ucast z7, 8)
       else do {
       z8 \<leftarrow> rd z 8;
       Some (push_bit 32 (ucast x) + ucast (lsm_be32 z5 z6 z7 z8), 9) }}}}}}}}}"

definition lsmVarintWrite32 :: "u32 \<Rightarrow> u8 list" where
  "lsmVarintWrite32 y = [ucast (drop_bit 24 y), ucast (drop_bit 16 y), ucast (drop_bit 8 y), ucast y]"

definition lsmSqlite4PutVarint64 :: "u64 \<Rightarrow> u8 list" where
  "lsmSqlite4PutVarint64 x =
     (if x \<le> 240 then [ucast x]
      else if x \<le> 2287 then
        let y = ucast (x - 240) :: u32 in [ucast (y div 256 + 241), ucast (y mod 256)]
      else if x \<le> 67823 then
        let y = ucast (x - 2288) :: u32 in [249, ucast (y div 256), ucast (y mod 256)]
      else
        let y = ucast x :: u32; w = ucast (drop_bit 32 x) :: u32
        in if w = 0 then
             if y \<le> 16777215 then [250, ucast (drop_bit 16 y), ucast (drop_bit 8 y), ucast y]
             else 251 # lsmVarintWrite32 y
           else if w \<le> 255 then 252 # ucast w # lsmVarintWrite32 y
           else if w \<le> 32767 then 253 # ucast (drop_bit 8 w) # ucast w # lsmVarintWrite32 y
           else if w \<le> 16777215 then
             254 # ucast (drop_bit 16 w) # ucast (drop_bit 8 w) # ucast w # lsmVarintWrite32 y
           else 255 # lsmVarintWrite32 w @ lsmVarintWrite32 y)"

definition lsmVarintPut64 :: "int \<Rightarrow> u8 list" where
  "lsmVarintPut64 iVal = lsmSqlite4PutVarint64 (word_of_int iVal)"

definition lsmVarintGet64 :: "u8 list \<Rightarrow> (int \<times> nat) option" where
  "lsmVarintGet64 aData = map_option (\<lambda>(v, n). (sint v, n)) (lsmSqlite4GetVarint64 aData)"

definition lsmVarintPut32 :: "int \<Rightarrow> u8 list" where
  "lsmVarintPut32 iVal = lsmSqlite4PutVarint64 (word_of_int iVal)"

definition lsmVarintGet32 :: "u8 list \<Rightarrow> (int \<times> nat) option" where
  "lsmVarintGet32 z =
     do {
       z0 \<leftarrow> rd z 0;
       if z0 \<le> 240 then Some (uint z0, 1) else do {
       z1 \<leftarrow> rd z 1;
       if z0 \<le> 248 then Some ((uint z0 - 241) * 256 + uint z1 + 240, 2) else do {
       z2 \<leftarrow> rd z 2;
       if z0 = 249 then Some (2288 + 256 * uint z1 + uint z2, 3) else do {
       z3 \<leftarrow> rd z 3;
       if z0 = 250 then Some (push_bit 16 (uint z1) + push_bit 8 (uint z2) + uint z3, 4) else do {
       (i, ret) \<leftarrow> lsmSqlite4GetVarint64 z;
       Some (sint (ucast i :: u32), ret) }}}}}"

definition lsmVarintLen32 :: "int \<Rightarrow> nat" where
  "lsmVarintLen32 n = length (lsmVarintPut32 n)"

definition lsmVarintLen64 :: "int \<Rightarrow> nat" where
  "lsmVarintLen64 n = length (lsmVarintPut64 n)"

definition lsmVarintSize :: "u8 \<Rightarrow> nat" where
  "lsmVarintSize c = (if c < 241 then 1 else if c < 249 then 2 else unat c - 246)"

section \<open>Reading what was written\<close>

lemma u32_bit_out [simp]: "32 \<le> n \<Longrightarrow> \<not> bit (b :: u32) n"
  using bit_imp_le_length [of b n] by auto

lemma be32_or: "lsm_be32 a b c d = ((push_bit 24 (ucast a) OR push_bit 16 (ucast b)) OR push_bit 8 (ucast c)) OR ucast d"
proof -
  have 1: "push_bit 24 (ucast a) + push_bit 16 (ucast b) = push_bit 24 (ucast a) OR (push_bit 16 (ucast b) :: u32)"
    by (rule disjunctive_add_eq_or) (simp add: blast32)
  have 2: "(push_bit 24 (ucast a) OR push_bit 16 (ucast b)) + push_bit 8 (ucast c) =
      (push_bit 24 (ucast a) OR push_bit 16 (ucast b)) OR (push_bit 8 (ucast c) :: u32)"
    by (rule disjunctive_add_eq_or) (simp add: blast32)
  have 3: "((push_bit 24 (ucast a) OR push_bit 16 (ucast b)) OR push_bit 8 (ucast c)) + ucast d =
      ((push_bit 24 (ucast a) OR push_bit 16 (ucast b)) OR push_bit 8 (ucast c)) OR (ucast d :: u32)"
    by (rule disjunctive_add_eq_or) (simp add: blast32)
  show ?thesis by (simp only: lsm_be32_def 1 2 3)
qed

lemma be32_write [simp]:
  "lsm_be32 (ucast (drop_bit 24 y)) (ucast (drop_bit 16 y)) (ucast (drop_bit 8 y)) (ucast y) = (y :: u32)"
  by (simp add: be32_or blast32)

lemma add_or_u64:
  "push_bit 8 (ucast (x :: u32)) + ucast (b :: u8) = push_bit 8 (ucast x) OR (ucast b :: u64)"
  "push_bit 16 (ucast x) + push_bit 8 (ucast b) + ucast (c :: u8) =
     push_bit 16 (ucast x) OR push_bit 8 (ucast b) OR (ucast c :: u64)"
  "push_bit 24 (ucast x) + push_bit 16 (ucast b) + push_bit 8 (ucast c) + ucast (d :: u8) =
     push_bit 24 (ucast x) OR push_bit 16 (ucast b) OR push_bit 8 (ucast c) OR (ucast d :: u64)"
  "push_bit 32 (ucast x) + ucast (y :: u32) = push_bit 32 (ucast x) OR (ucast y :: u64)"
  "push_bit 16 (ucast (a :: u8)) + push_bit 8 (ucast b) + ucast c =
     push_bit 16 (ucast a) OR push_bit 8 (ucast b) OR (ucast c :: u64)"
proof -
  note d = disjunctive_add_eq_or
  show "push_bit 8 (ucast (x :: u32)) + ucast (b :: u8) = push_bit 8 (ucast x) OR (ucast b :: u64)"
    by (rule d) (simp add: blast_bits)
  show "push_bit 32 (ucast x) + ucast (y :: u32) = push_bit 32 (ucast x) OR (ucast y :: u64)"
    by (rule d) (simp add: blast_bits)
  have 1: "push_bit 16 (ucast x) + push_bit 8 (ucast b) = push_bit 16 (ucast x) OR (push_bit 8 (ucast b) :: u64)"
    by (rule d) (simp add: blast_bits)
  have 2: "(push_bit 16 (ucast x) OR push_bit 8 (ucast b)) + ucast c = (push_bit 16 (ucast x) OR push_bit 8 (ucast b)) OR (ucast c :: u64)"
    by (rule d) (simp add: blast_bits)
  show "push_bit 16 (ucast x) + push_bit 8 (ucast b) + ucast (c :: u8) =
     push_bit 16 (ucast x) OR push_bit 8 (ucast b) OR (ucast c :: u64)"
    unfolding 1 2 by (simp only: or.assoc)
  have 3: "push_bit 16 (ucast a) + push_bit 8 (ucast b) = push_bit 16 (ucast a) OR (push_bit 8 (ucast b) :: u64)"
    by (rule d) (simp add: blast_bits)
  have 4: "(push_bit 16 (ucast a) OR push_bit 8 (ucast b)) + ucast c = (push_bit 16 (ucast a) OR push_bit 8 (ucast b)) OR (ucast c :: u64)"
    by (rule d) (simp add: blast_bits)
  show "push_bit 16 (ucast (a :: u8)) + push_bit 8 (ucast b) + ucast c =
     push_bit 16 (ucast a) OR push_bit 8 (ucast b) OR (ucast c :: u64)"
    unfolding 3 4 by (simp only: or.assoc)
  have 5: "push_bit 24 (ucast x) + push_bit 16 (ucast b) = push_bit 24 (ucast x) OR (push_bit 16 (ucast b) :: u64)"
    by (rule d) (simp add: blast_bits)
  have 6: "(push_bit 24 (ucast x) OR push_bit 16 (ucast b)) + push_bit 8 (ucast c) =
      (push_bit 24 (ucast x) OR push_bit 16 (ucast b)) OR (push_bit 8 (ucast c) :: u64)"
    by (rule d) (simp add: blast_bits)
  have 7: "((push_bit 24 (ucast x) OR push_bit 16 (ucast b)) OR push_bit 8 (ucast c)) + ucast d =
      ((push_bit 24 (ucast x) OR push_bit 16 (ucast b)) OR push_bit 8 (ucast c)) OR (ucast d :: u64)"
    by (rule d) (simp add: blast_bits)
  show "push_bit 24 (ucast x) + push_bit 16 (ucast b) + push_bit 8 (ucast c) + ucast (d :: u8) =
     push_bit 24 (ucast x) OR push_bit 16 (ucast b) OR push_bit 8 (ucast c) OR (ucast d :: u64)"
    unfolding 5 6 7 by (simp only: or.assoc)
qed

lemma hi_le:
  "ucast (drop_bit 32 x) = (0 :: u32) \<longleftrightarrow> drop_bit 32 (x :: u64) = 0"
  "ucast (drop_bit 32 x) \<le> (255 :: u32) \<longleftrightarrow> drop_bit 40 x = 0"
  "ucast (drop_bit 32 x) \<le> (32767 :: u32) \<longleftrightarrow> drop_bit 47 x = 0"
  "ucast (drop_bit 32 x) \<le> (16777215 :: u32) \<longleftrightarrow> drop_bit 56 x = 0"
proof -
  have u: "unat (ucast (drop_bit 32 x) :: u32) = unat x div 2 ^ 32"
  proof -
    have d: "unat (drop_bit 32 x) = unat x div 2 ^ 32"
      by (simp only: unat_drop_bit_eq) (simp only: drop_bit_eq_div)
    then have "unat (drop_bit 32 x) < 2 ^ 32"
      using unsigned_less [of x, where 'a=nat] by simp
    then show ?thesis
      by (simp add: unsigned_ucast_eq d take_bit_nat_eq_self)
  qed
  show "ucast (drop_bit 32 x) = (0 :: u32) \<longleftrightarrow> drop_bit 32 x = 0"
    using u drop_bit_0_iff [of 32 x] by (simp add: unat_eq_0 [symmetric] div_eq_0_iff del: unat_eq_0)
  show "ucast (drop_bit 32 x) \<le> (255 :: u32) \<longleftrightarrow> drop_bit 40 x = 0"
    "ucast (drop_bit 32 x) \<le> (32767 :: u32) \<longleftrightarrow> drop_bit 47 x = 0"
    "ucast (drop_bit 32 x) \<le> (16777215 :: u32) \<longleftrightarrow> drop_bit 56 x = 0"
    using u drop_bit_0_iff [of 40 x] drop_bit_0_iff [of 47 x] drop_bit_0_iff [of 56 x]
    by (auto simp: word_le_nat_alt)
qed

lemma lo_le:
  "drop_bit 32 x = 0 \<Longrightarrow> ucast x \<le> (16777215 :: u32) \<longleftrightarrow> drop_bit 24 (x :: u64) = 0"
proof -
  assume "drop_bit 32 x = 0"
  then have "unat x < 2 ^ 32" by (simp add: drop_bit_0_iff)
  then have "unat (ucast x :: u32) = unat x"
    by (simp add: unsigned_ucast_eq take_bit_nat_eq_self)
  then show ?thesis
    using drop_bit_0_iff [of 24 x] by (auto simp: word_le_nat_alt)
qed

lemma lsm_large:
  assumes "\<not> x \<le> 67823"
  shows "lsmSqlite4GetVarint64 (lsmSqlite4PutVarint64 x @ r) = Some (x, length (lsmSqlite4PutVarint64 x))"
proof -
  have big: "\<not> x \<le> 240" "\<not> x \<le> 2287"
    using assms by (auto simp: word_le_nat_alt)
  note defs = lsmSqlite4GetVarint64_def lsmSqlite4PutVarint64_def lsmVarintWrite32_def Let_def rd_def
  consider "drop_bit 24 x = 0" | "drop_bit 24 x \<noteq> 0" "drop_bit 32 x = 0"
    | "drop_bit 32 x \<noteq> 0" "drop_bit 40 x = 0" | "drop_bit 40 x \<noteq> 0" "drop_bit 47 x = 0"
    | "drop_bit 47 x \<noteq> 0" "drop_bit 56 x = 0" | "drop_bit 56 x \<noteq> 0"
    by blast
  then show ?thesis
  proof cases
    case 1
    then have "drop_bit 32 x = 0" by (simp add: blast_bits)
    with 1 assms big show ?thesis
      by (simp add: defs hi_le lo_le add_or_u64) (simp add: blast_bits)
  next
    case 2
    with assms big show ?thesis
      by (simp add: defs hi_le lo_le) (simp add: blast_bits)
  next
    case 3
    with assms big show ?thesis
      by (simp add: defs hi_le add_or_u64) (simp add: be32_or blast_bits)
  next
    case 4
    moreover from this have "drop_bit 32 x \<noteq> 0" by (auto simp: blast_bits)
    ultimately show ?thesis
      using assms big by (simp add: defs hi_le add_or_u64) (simp add: be32_or blast_bits)
  next
    case 5
    moreover from this have "drop_bit 32 x \<noteq> 0" "drop_bit 40 x \<noteq> 0" by (auto simp: blast_bits)
    ultimately show ?thesis
      using assms big by (simp add: defs hi_le add_or_u64) (simp add: be32_or blast_bits)
  next
    case 6
    moreover from this have "drop_bit 32 x \<noteq> 0" "drop_bit 40 x \<noteq> 0" "drop_bit 47 x \<noteq> 0"
      by (auto simp: blast_bits)
    ultimately show ?thesis
      using assms big by (simp add: defs hi_le add_or_u64) (simp add: blast_bits)
  qed
qed

text \<open>The one to three byte cases are arithmetic on the offsets.\<close>

lemma u64_of_u8: "(ucast (b :: u8) :: u64) = of_nat (unat b)"
  by (simp add: of_nat_unat)

lemma small_offset:
  assumes "c \<le> x" "unat x < 2 ^ 17"
  shows "unat (ucast (x - c :: u64) :: u32) = unat x - unat c"
proof -
  have "unat (x - c) = unat x - unat c"
    using assms(1) by (simp add: unat_sub_if_size word_le_nat_alt)
  then show ?thesis
    using assms(2) by (simp add: unsigned_ucast_eq take_bit_nat_eq_self)
qed

lemma two_bytes:
  assumes "unat (y :: u32) = k" "k < 65536"
  shows "unat (ucast (y div 256) :: u8) = k div 256" "unat (ucast (y mod 256) :: u8) = k mod 256"
proof -
  have "unat (y div 256) = k div 256" "unat (y mod 256) = k mod 256"
    using assms(1) by (simp_all add: unat_div unat_mod)
  then show "unat (ucast (y div 256) :: u8) = k div 256" "unat (ucast (y mod 256) :: u8) = k mod 256"
    using assms(2) by (simp_all add: unsigned_ucast_eq take_bit_nat_eq_self)
qed

lemma lsm_small2:
  assumes "240 < x" "x \<le> 2287"
  shows "lsmSqlite4GetVarint64 (lsmSqlite4PutVarint64 x @ r) = Some (x, length (lsmSqlite4PutVarint64 x))"
proof -
  define n where "n = unat x - 240"
  let ?y = "ucast (x - 240) :: u32"
  have n: "240 < unat x" "unat x \<le> 2287" "unat x = n + 240" "n < 2048"
    using assms by (auto simp: word_le_nat_alt word_less_nat_alt n_def)
  have y: "unat ?y = n"
    using small_offset [of 240 x] n by (simp add: word_le_nat_alt)
  have "n div 256 < 8" using n(4) by simp
  moreover have "unat (?y div 256 + 241) = n div 256 + 241"
    using y n(4) by (simp add: unat_word_ariths unat_div)
  ultimately have z0: "unat (ucast (?y div 256 + 241) :: u8) = n div 256 + 241"
    by (simp add: unsigned_ucast_eq take_bit_nat_eq_self)
  note z1 = two_bytes(2) [OF y]
  have "(ucast (ucast (?y div 256 + 241) :: u8) - 241) * 256 + ucast (ucast (?y mod 256) :: u8) + 240 =
      (of_nat (256 * (n div 256) + n mod 256 + 240) :: u64)"
    using z0 z1 n(4) by (simp only: u64_of_u8 of_nat_add of_nat_mult) simp
  also have "\<dots> = x"
    using n(3) by (metis mult_div_mod_eq of_nat_unat ucast_id)
  finally have v: "(ucast (ucast (?y div 256 + 241) :: u8) - 241) * 256 + ucast (ucast (?y mod 256) :: u8) + 240 = x" .
  have "\<not> ucast (?y div 256 + 241) \<le> (240 :: u8)" "ucast (?y div 256 + 241) \<le> (248 :: u8)"
    using z0 \<open>n div 256 < 8\<close> by (simp_all add: word_le_nat_alt)
  moreover have "\<not> x \<le> 240" using assms(1) by simp
  ultimately show ?thesis
    using v assms by (simp add: lsmSqlite4GetVarint64_def lsmSqlite4PutVarint64_def Let_def rd_def)
qed

lemma lsm_small3:
  assumes "2287 < x" "x \<le> 67823"
  shows "lsmSqlite4GetVarint64 (lsmSqlite4PutVarint64 x @ r) = Some (x, length (lsmSqlite4PutVarint64 x))"
proof -
  define n where "n = unat x - 2288"
  let ?y = "ucast (x - 2288) :: u32"
  have n: "2288 \<le> unat x" "unat x \<le> 67823" "unat x = n + 2288" "n < 65536"
    using assms by (auto simp: word_le_nat_alt word_less_nat_alt n_def)
  have y: "unat ?y = n"
    using small_offset [of 2288 x] n by (simp add: word_le_nat_alt)
  note z = two_bytes [OF y n(4)]
  have "2288 + 256 * ucast (ucast (?y div 256) :: u8) + ucast (ucast (?y mod 256) :: u8) =
      (of_nat (2288 + 256 * (n div 256) + n mod 256) :: u64)"
    using z by (simp only: u64_of_u8 of_nat_add of_nat_mult) simp
  also have "\<dots> = x"
    using n(3) by (metis mult_div_mod_eq of_nat_unat ucast_id add.commute group_cancel.add2)
  finally have v: "2288 + 256 * ucast (ucast (?y div 256) :: u8) + ucast (ucast (?y mod 256) :: u8) = x" .
  have "\<not> x \<le> 240" "\<not> x \<le> 2287"
    using n(1) by (simp_all add: word_le_nat_alt)
  then show ?thesis
    using v assms by (simp add: lsmSqlite4GetVarint64_def lsmSqlite4PutVarint64_def Let_def rd_def)
qed

lemma lsm_small1:
  assumes "x \<le> 240"
  shows "lsmSqlite4GetVarint64 (lsmSqlite4PutVarint64 x @ r) = Some (x, length (lsmSqlite4PutVarint64 x))"
proof -
  have u: "unat (ucast x :: u8) = unat x"
    using assms by (simp add: word_le_nat_alt unsigned_ucast_eq take_bit_nat_eq_self)
  then have "ucast x \<le> (240 :: u8)" "ucast (ucast x :: u8) = x"
    using assms by (simp_all add: word_le_nat_alt u64_of_u8 of_nat_unat)
  with assms show ?thesis
    by (simp add: lsmSqlite4GetVarint64_def lsmSqlite4PutVarint64_def rd_def)
qed

lemma lsm_roundtrip:
  "lsmSqlite4GetVarint64 (lsmSqlite4PutVarint64 x @ r) = Some (x, length (lsmSqlite4PutVarint64 x))"
  using lsm_small1 [of x r] lsm_small2 [of x r] lsm_small3 [of x r] lsm_large [of x r]
  by (meson linorder_not_le)

interpretation lsm: codec lsmSqlite4PutVarint64 lsmSqlite4GetVarint64
  by unfold_locales (rule lsm_roundtrip)

lemma lsm_size:
  "\<exists>c bs. lsmSqlite4PutVarint64 x = c # bs \<and> lsmVarintSize c = length (lsmSqlite4PutVarint64 x)"
proof -
  consider "x \<le> 240" | "240 < x" "x \<le> 2287" | "2287 < x" by fastforce
  then show ?thesis
  proof cases
    case 1
    then have "ucast x < (241 :: u8)"
      by (simp add: word_le_nat_alt word_less_nat_alt unsigned_ucast_eq take_bit_nat_eq_self)
    with 1 show ?thesis by (simp add: lsmSqlite4PutVarint64_def lsmVarintSize_def)
  next
    case 2
    let ?y = "ucast (x - 240) :: u32"
    have n: "unat x - 240 < 2048" "240 < unat x"
      using 2 by (auto simp: word_le_nat_alt word_less_nat_alt)
    have y: "unat ?y = unat x - 240"
      using small_offset [of 240 x] n by (simp add: word_le_nat_alt)
    have "(unat x - 240) div 256 < 8" using n(1) by simp
    moreover have "unat (?y div 256 + 241) = (unat x - 240) div 256 + 241"
      using y n(1) by (simp add: unat_word_ariths unat_div)
    ultimately have "unat (ucast (?y div 256 + 241) :: u8) = (unat x - 240) div 256 + 241"
      "(unat x - 240) div 256 + 241 < 249"
      by (simp_all add: unsigned_ucast_eq take_bit_nat_eq_self)
    then have "\<not> ucast (?y div 256 + 241) < (241 :: u8)" "ucast (?y div 256 + 241) < (249 :: u8)"
      by (simp_all only: word_less_nat_alt) simp_all
    moreover have "\<not> x \<le> 240" using 2(1) by simp
    ultimately show ?thesis
      using 2 by (simp add: lsmSqlite4PutVarint64_def lsmVarintSize_def Let_def)
  next
    case 3
    then have "\<not> x \<le> 240" "\<not> x \<le> 2287"
      by (auto simp: word_le_nat_alt word_less_nat_alt)
    then show ?thesis
      by (auto simp: lsmSqlite4PutVarint64_def lsmVarintSize_def lsmVarintWrite32_def Let_def)
  qed
qed

lemma small_sint:
  assumes "0 \<le> k" "k < 2 ^ 31"
  shows "sint (ucast (word_of_int k :: u64) :: u32) = k"
proof -
  have "(ucast (word_of_int k :: u64) :: u32) = word_of_int k"
    using assms by (simp add: unsigned_of_int take_bit_int_eq_self)
  then show ?thesis
    using assms by (simp add: signed_of_int signed_take_bit_int_eq_self)
qed

lemma u64_word_of_int: "(ucast (b :: u8) :: u64) = word_of_int (uint b)"
  by (simp add: of_int_uint)

lemma uint_u8: "0 \<le> uint (b :: u8)" "uint b < 256"
  using unsigned_less [of b, where 'a=int] by simp_all

lemma two_byte_range:
  "240 < a \<Longrightarrow> a < 256 \<Longrightarrow> 0 \<le> c \<Longrightarrow> c < 256 \<Longrightarrow>
   0 \<le> (a - 241) * 256 + c + 240 \<and> (a - 241) * 256 + c + 240 < 2 ^ 31" for a c :: int
  by simp

lemma lsm_small_vals:
  "sint (ucast (ucast (b :: u8) :: u64) :: u32) = uint b"
  "240 < b \<Longrightarrow> sint (ucast ((ucast b - 241) * 256 + ucast (c :: u8) + 240 :: u64) :: u32) =
     (uint b - 241) * 256 + uint c + 240"
  "sint (ucast (2288 + 256 * ucast b + ucast c :: u64) :: u32) = 2288 + 256 * uint b + uint c"
  "sint (ucast (push_bit 16 (ucast b) + push_bit 8 (ucast c) + ucast (d :: u8) :: u64) :: u32) =
     push_bit 16 (uint b) + push_bit 8 (uint c) + uint d"
proof -
  note u = uint_u8 [of b] uint_u8 [of c] uint_u8 [of d]
  show "sint (ucast (ucast b :: u64) :: u32) = uint b"
    unfolding u64_word_of_int using u by (intro small_sint) simp_all
  have "sint (ucast (word_of_int ((uint b - 241) * 256 + uint c + 240) :: u64) :: u32) =
      (uint b - 241) * 256 + uint c + 240" if "240 < uint b"
    using two_byte_range [OF that u(2,3,4)] by (intro small_sint) blast+
  then show "sint (ucast ((ucast b - 241) * 256 + ucast c + 240 :: u64) :: u32) =
     (uint b - 241) * 256 + uint c + 240" if "240 < b"
    using that by (simp add: word_less_def)
  have "sint (ucast (word_of_int (2288 + 256 * uint b + uint c) :: u64) :: u32) = 2288 + 256 * uint b + uint c"
    using u by (intro small_sint) simp_all
  then show "sint (ucast (2288 + 256 * ucast b + ucast c :: u64) :: u32) = 2288 + 256 * uint b + uint c"
    by simp
  have "sint (ucast (word_of_int (uint b * 65536 + uint c * 256 + uint d) :: u64) :: u32) =
      uint b * 65536 + uint c * 256 + uint d"
    using u by (intro small_sint) simp_all
  then show "sint (ucast (push_bit 16 (ucast b) + push_bit 8 (ucast c) + ucast d :: u64) :: u32) =
     push_bit 16 (uint b) + push_bit 8 (uint c) + uint d"
    by (simp add: push_bit_eq_mult)
qed

lemma lsmGet32_eq:
  assumes "lsmSqlite4GetVarint64 z = Some (v, n)"
  shows "lsmVarintGet32 z = Some (sint (ucast v :: u32), n)"
proof -
  obtain z0 where z0: "rd z 0 = Some z0"
    using assms by (auto simp: lsmSqlite4GetVarint64_def bind_eq_Some_conv)
  show ?thesis
  proof (cases "z0 \<le> 240")
    case True
    with assms z0 have "v = ucast z0" "n = 1" by (simp_all add: lsmSqlite4GetVarint64_def)
    with True z0 show ?thesis by (simp add: lsmVarintGet32_def lsm_small_vals)
  next
    case 1: False
    then obtain z1 where z1: "rd z 1 = Some z1"
      using assms z0 by (auto simp: lsmSqlite4GetVarint64_def bind_eq_Some_conv)
    show ?thesis
    proof (cases "z0 \<le> 248")
      case True
      with assms z0 z1 1 have v: "v = (ucast z0 - 241) * 256 + ucast z1 + 240" "n = 2"
        by (simp_all add: lsmSqlite4GetVarint64_def)
      have "lsmVarintGet32 z = Some ((uint z0 - 241) * 256 + uint z1 + 240, 2)"
        using True 1 z0 z1 by (simp add: lsmVarintGet32_def)
      moreover have "240 < z0" using 1 by simp
      ultimately show ?thesis unfolding v by (simp only: lsm_small_vals(2))
    next
      case 2: False
      then obtain z2 where z2: "rd z 2 = Some z2"
        using assms z0 z1 1 by (auto simp: lsmSqlite4GetVarint64_def bind_eq_Some_conv)
      show ?thesis
      proof (cases "z0 = 249")
        case True
        with assms z0 z1 z2 have "v = 2288 + 256 * ucast z1 + ucast z2" "n = 3"
          by (simp_all add: lsmSqlite4GetVarint64_def)
        with True z0 z1 z2 show ?thesis by (simp add: lsmVarintGet32_def lsm_small_vals)
      next
        case 3: False
        then obtain z3 where z3: "rd z 3 = Some z3"
          using assms z0 z1 z2 1 2 by (auto simp: lsmSqlite4GetVarint64_def bind_eq_Some_conv)
        show ?thesis
        proof (cases "z0 = 250")
          case True
          with assms z0 z1 z2 z3 have "v = push_bit 16 (ucast z1) + push_bit 8 (ucast z2) + ucast z3" "n = 4"
            by (simp_all add: lsmSqlite4GetVarint64_def)
          with True z0 z1 z2 z3 show ?thesis by (simp add: lsmVarintGet32_def lsm_small_vals)
        next
          case False
          with 1 2 3 z0 z1 z2 z3 assms show ?thesis
            by (simp only: lsmVarintGet32_def) simp
        qed
      qed
    qed
  qed
qed

section \<open>Properties\<close>

text \<open>
  Every 64-bit value is read back from its LSM varint, whatever follows; the first byte
  alone tells the number of bytes.
\<close>
theorem lsm_varint_roundtrip:
  "lsmSqlite4GetVarint64 (lsmSqlite4PutVarint64 x @ r) = Some (x, length (lsmSqlite4PutVarint64 x)) \<and>
   lsmVarintSize (hd (lsmSqlite4PutVarint64 x)) = length (lsmSqlite4PutVarint64 x)"
  using lsm_roundtrip lsm_size [of x] by (metis list.sel(1))

text \<open>
  The signed interfaces: every 64-bit and every 32-bit signed integer is read back, and the
  32-bit reader, with its own fast paths, is the 64-bit one truncated on every buffer that the
  latter can read.
\<close>
theorem lsm_signed_roundtrip:
  "(in_i64 x \<longrightarrow> lsmVarintGet64 (lsmVarintPut64 x @ r) = Some (x, lsmVarintLen64 x)) \<and>
   (in_i32 y \<longrightarrow> lsmVarintGet32 (lsmVarintPut32 y @ r) = Some (y, lsmVarintLen32 y)) \<and>
   (\<forall>v n. lsmSqlite4GetVarint64 z = Some (v, n) \<longrightarrow> lsmVarintGet32 z = Some (sint (ucast v :: u32), n))"
proof (intro conjI impI allI)
  assume "in_i64 x"
  then show "lsmVarintGet64 (lsmVarintPut64 x @ r) = Some (x, lsmVarintLen64 x)"
    by (simp add: lsmVarintGet64_def lsmVarintPut64_def lsmVarintLen64_def lsm_roundtrip in_i64_def
        signed_of_int signed_take_bit_int_eq_self)
next
  assume y: "in_i32 y"
  have "ucast (word_of_int y :: u64) = (word_of_int y :: u32)"
    by (simp add: unsigned_of_int) (rule bit_word_eqI, simp add: bit_simps)
  then have "sint (ucast (word_of_int y :: u64) :: u32) = y"
    using y by (simp add: in_i32_def signed_of_int signed_take_bit_int_eq_self)
  then show "lsmVarintGet32 (lsmVarintPut32 y @ r) = Some (y, lsmVarintLen32 y)"
    using lsmGet32_eq [OF lsm_roundtrip] by (simp add: lsmVarintPut32_def lsmVarintLen32_def)
qed (rule lsmGet32_eq)

theorem lsm_signed_roundtrip_witness:
  "lsmVarintGet64 (lsmVarintPut64 (- 5) @ []) = Some (- 5, lsmVarintLen64 (- 5)) \<and>
   lsmVarintGet32 (lsmVarintPut32 300 @ []) = Some (300, lsmVarintLen32 300)"
  using lsm_signed_roundtrip [of "- 5" "[]" 300 "[]"] by (simp add: in_i64_def in_i32_def)

end
