(* ===== verification/Probe.thy ===== *)
theory Probe
  imports Prelude
begin

text \<open>
  Linear probing in a circular table of numbers where 0 marks a free slot, as the hash
  tables of \<^verbatim>\<open>src/bitvec.c\<close> and \<^verbatim>\<open>src/wal.c\<close> do it. A key \<open>v\<close> starts at its home slot
  \<open>h\<close>; the slots \<open>h\<close>, \<open>h + 1\<close>, \<dots> modulo the table size are visited until a free one.
\<close>

definition slot :: "nat list \<Rightarrow> nat \<Rightarrow> nat" where
  "slot t i = t ! (i mod length t)"

text \<open>\<open>e\<close> is the number of occupied slots visited from \<open>h\<close> before the first free one.\<close>

definition first_free :: "nat list \<Rightarrow> nat \<Rightarrow> nat \<Rightarrow> bool" where
  "first_free t h e \<longleftrightarrow> slot t (h + e) = 0 \<and> (\<forall>j<e. slot t (h + j) \<noteq> 0)"

lemma slot_in_set: "t \<noteq> [] \<Longrightarrow> slot t i \<in> set t"
  by (simp add: slot_def)

lemma offset_to:
  fixes h k n :: nat
  assumes "k < n"
  shows "\<exists>d<n. (h + d) mod n = k"
proof (intro exI conjI)
  let ?d = "(k + (n - h mod n)) mod n"
  show "?d < n" using assms by simp
  have "(h + ?d) mod n = (h mod n + (k + (n - h mod n))) mod n"
    by (simp add: mod_simps)
  also have "h mod n + (k + (n - h mod n)) = k + n"
    using assms mod_less_divisor [of n h] by linarith
  finally show "(h + ?d) mod n = k"
    using assms by simp
qed

lemma first_free_exists:
  assumes "0 \<in> set t"
  shows "\<exists>e. first_free t h e \<and> e < length t"
proof -
  obtain k where k: "k < length t" "t ! k = 0"
    using assms by (auto simp: in_set_conv_nth)
  then obtain d where d: "d < length t" "slot t (h + d) = 0"
    using offset_to [of k "length t" h] by (auto simp: slot_def)
  define e where "e = (LEAST e. slot t (h + e) = 0)"
  have "slot t (h + e) = 0"
    unfolding e_def using d(2) by (rule LeastI)
  moreover have "e \<le> d"
    unfolding e_def using d(2) by (rule Least_le)
  moreover have "slot t (h + j) \<noteq> 0" if "j < e" for j
    using that not_less_Least unfolding e_def by blast
  ultimately show ?thesis
    using d(1) by (auto simp: first_free_def)
qed

lemma first_free_Suc: "first_free t h (Suc e) \<Longrightarrow> first_free t (Suc h) e"
  by (auto simp: first_free_def)

lemma first_free_0: "first_free t h 0 \<longleftrightarrow> slot t h = 0"
  by (simp add: first_free_def)

lemma first_free_mod: "first_free t (h mod length t) e \<longleftrightarrow> first_free t h e"
  by (simp add: first_free_def slot_def mod_simps)

text \<open>
  The order invariant of such a table: from the home of an entry to the place where it is
  stored every slot is occupied. \<open>home\<close> gives the home slot of the entry stored as \<open>v\<close>.
\<close>

definition probe_ok :: "(nat \<Rightarrow> nat) \<Rightarrow> nat list \<Rightarrow> bool" where
  "probe_ok home t \<longleftrightarrow>
     (\<forall>k<length t. t ! k \<noteq> 0 \<longrightarrow>
        (\<exists>d. (home (t ! k) + d) mod length t = k \<and> (\<forall>j<d. slot t (home (t ! k) + j) \<noteq> 0)))"

lemma probe_ok_empty: "probe_ok home (replicate n 0)"
  by (simp add: probe_ok_def)

lemma probe_okD:
  assumes "probe_ok home t" "v \<in> set t" "v \<noteq> 0" "first_free t (home v) e"
  shows "\<exists>d<e. slot t (home v + d) = v"
proof -
  obtain k where k: "k < length t" "t ! k = v"
    using assms(2) by (auto simp: in_set_conv_nth)
  then obtain d where d: "(home v + d) mod length t = k" "\<forall>j<d. slot t (home v + j) \<noteq> 0"
    using assms(1,3) by (auto simp: probe_ok_def)
  then have v: "slot t (home v + d) = v"
    using k by (simp add: slot_def)
  have "\<not> e < d"
    using d(2) assms(4) by (auto simp: first_free_def)
  moreover have "e \<noteq> d"
    using v assms(3,4) by (auto simp: first_free_def)
  ultimately show ?thesis
    using v by (intro exI [of _ d]) auto
qed

lemma slot_update:
  "t \<noteq> [] \<Longrightarrow> slot (t[h mod length t := v]) i =
     (if i mod length t = h mod length t then v else slot t i)"
  by (simp add: slot_def)

lemma probe_ok_insert:
  assumes "probe_ok home t" "t \<noteq> []" "v \<noteq> 0" "first_free t (home v) e"
  shows "probe_ok home (t[(home v + e) mod length t := v])"
  unfolding probe_ok_def
proof (intro allI impI)
  let ?t = "t[(home v + e) mod length t := v]"
  fix k assume k: "k < length ?t" "?t ! k \<noteq> 0"
  have nz: "slot ?t i \<noteq> 0" if "slot t i \<noteq> 0" for i
    using that assms(2,3) by (simp add: slot_update)
  show "\<exists>d. (home (?t ! k) + d) mod length ?t = k \<and> (\<forall>j<d. slot ?t (home (?t ! k) + j) \<noteq> 0)"
  proof (cases "k = (home v + e) mod length t")
    case True
    with k assms(4) nz show ?thesis
      by (intro exI [of _ e]) (auto simp: first_free_def)
  next
    case False
    with k have tk: "?t ! k = t ! k" by simp
    with k assms(1) obtain d where
      "(home (t ! k) + d) mod length t = k" "\<forall>j<d. slot t (home (t ! k) + j) \<noteq> 0"
      by (auto simp: probe_ok_def)
    with tk nz show ?thesis by (intro exI [of _ d]) auto
  qed
qed

text \<open>Filling a free slot adds one entry.\<close>

definition used :: "nat list \<Rightarrow> nat" where
  "used t = length (filter (\<lambda>v. v \<noteq> 0) t)"

lemma used_update: "k < length t \<Longrightarrow> t ! k = 0 \<Longrightarrow> v \<noteq> 0 \<Longrightarrow> used (t[k := v]) = Suc (used t)"
proof (induction t arbitrary: k)
  case (Cons x t)
  then show ?case by (cases k) (auto simp: used_def)
qed simp

lemma used_replicate [simp]: "used (replicate n 0) = 0"
  by (simp add: used_def)

lemma used_less_length: "used t < length t \<longleftrightarrow> 0 \<in> set t"
proof
  assume "used t < length t"
  moreover have "used t = length t" if "0 \<notin> set t"
  proof -
    from that have "filter (\<lambda>v. v \<noteq> 0) t = t"
      by (intro filter_True) (auto intro: gr0I)
    then show ?thesis by (simp add: used_def)
  qed
  ultimately show "0 \<in> set t" by auto
next
  assume "0 \<in> set t"
  then show "used t < length t"
    unfolding used_def by (rule length_filter_less) simp
qed

lemma set_update_free:
  "k < length t \<Longrightarrow> t ! k = 0 \<Longrightarrow> set (t[k := v]) - {0} = insert v (set t) - {0}"
proof (induction t arbitrary: k)
  case (Cons x t)
  then show ?case by (cases k) auto
qed simp

end
