(* ===== verification/Bitvec.thy ===== *)
theory Bitvec
  imports Probe
begin

text \<open>
  The page sets of \<^verbatim>\<open>src/bitvec.c\<close>: \<open>sqlite3BitvecCreate\<close>, \<open>sqlite3BitvecTestNotNull\<close>,
  \<open>sqlite3BitvecTest\<close>, \<open>sqlite3BitvecSet\<close>, \<open>sqlite3BitvecClear\<close>, \<open>sqlite3BitvecSize\<close>.
  A bitvec is a bitmap, a hash table or an array of smaller bitvecs; the theorems say that
  through every change of representation it is the set of the numbers set in it.
\<close>

section \<open>Sizes\<close>

text \<open>The constants for 8-byte pointers.\<close>

abbreviation (input) BITVEC_USIZE :: nat where "BITVEC_USIZE \<equiv> 496"
abbreviation (input) BITVEC_SZELEM :: nat where "BITVEC_SZELEM \<equiv> 8"
abbreviation (input) BITVEC_NELEM :: nat where "BITVEC_NELEM \<equiv> 496"
abbreviation (input) BITVEC_NBIT :: nat where "BITVEC_NBIT \<equiv> 3968"
abbreviation (input) BITVEC_NINT :: nat where "BITVEC_NINT \<equiv> 124"
abbreviation (input) BITVEC_MXHASH :: nat where "BITVEC_MXHASH \<equiv> 62"
abbreviation (input) BITVEC_NPTR :: nat where "BITVEC_NPTR \<equiv> 62"


definition BITVEC_HASH :: "nat \<Rightarrow> nat" where
  "BITVEC_HASH x = (x * 1) mod BITVEC_NINT"

section \<open>The structure\<close>

text \<open>
  The member of the union in use is a constructor: \<open>aBitmap\<close> when \<open>iSize\<close> is at most
  \<open>BITVEC_NBIT\<close>, otherwise \<open>aHash\<close> while \<open>iDivisor\<close> is 0 and \<open>apSub\<close> once it is not.
\<close>

datatype bitvec =
    BvBitmap (iSize: nat) (aBitmap: "u8 list")
  | BvHash (iSize: nat) (nSet: nat) (aHash: "nat list")
  | BvSub (iSize: nat) (iDivisor: nat) (apSub: "bitvec option list")

text \<open>
  The memory allocator is a parameter: \<open>alloc k\<close> says whether the \<open>k\<close>-th request is
  granted, and the number of requests so far is passed along.
\<close>

type_synonym alloc = "nat \<Rightarrow> bool"

definition bv_zero :: "nat \<Rightarrow> bitvec" where
  "bv_zero sz =
     (if sz \<le> BITVEC_NBIT then BvBitmap sz (replicate BITVEC_NELEM 0)
      else BvHash sz 0 (replicate BITVEC_NINT 0))"

definition sqlite3BitvecCreate :: "alloc \<Rightarrow> nat \<Rightarrow> nat \<Rightarrow> bitvec option \<times> nat" where
  "sqlite3BitvecCreate alloc k sz = (if alloc k then Some (bv_zero sz) else None, Suc k)"

section \<open>Testing a bit\<close>

lemma rd_size [termination_simp]:
  "rd subs b = Some (Some q) \<Longrightarrow> size q < Suc (size_list (size_option size) subs)"
proof -
  assume "rd subs b = Some (Some q)"
  then have "Some q \<in> set subs" by (auto simp: rd_eq_Some)
  then have "size_option size (Some q) \<le> size_list (size_option size) subs"
    by (rule size_list_estimation') simp
  then show ?thesis by simp
qed

text \<open>Probing until a free slot; \<open>None\<close> would be a table with no free slot.\<close>

fun bv_look :: "nat \<Rightarrow> nat list \<Rightarrow> nat \<Rightarrow> nat \<Rightarrow> bool option" where
  "bv_look 0 t h i = None"
| "bv_look (Suc f) t h i =
     (if t ! h = 0 then Some False
      else if t ! h = i then Some True
      else bv_look f t ((h + 1) mod BITVEC_NINT) i)"

fun bv_test_at :: "bitvec \<Rightarrow> nat \<Rightarrow> bool option" where
  "bv_test_at (BvSub sz d subs) i =
     (if d = 0 then None
      else case rd subs (i div d) of
        None \<Rightarrow> None
      | Some None \<Rightarrow> Some False
      | Some (Some q) \<Rightarrow> bv_test_at q (i mod d))"
| "bv_test_at (BvBitmap sz bm) i =
     do { b \<leftarrow> rd bm (i div BITVEC_SZELEM);
          Some (b AND push_bit (i mod BITVEC_SZELEM) 1 \<noteq> 0) }"
| "bv_test_at (BvHash sz n t) i = bv_look BITVEC_NINT t (BITVEC_HASH i) (i + 1)"

text \<open>\<open>i\<close> is a \<open>u32\<close>, so \<open>i--\<close> wraps around at 0.\<close>

definition sqlite3BitvecTestNotNull :: "bitvec \<Rightarrow> nat \<Rightarrow> bool option" where
  "sqlite3BitvecTestNotNull p i =
     (let i = (i + 2 ^ 32 - 1) mod 2 ^ 32
      in if i \<ge> iSize p then Some False else bv_test_at p i)"

definition sqlite3BitvecTest :: "bitvec option \<Rightarrow> nat \<Rightarrow> bool option" where
  "sqlite3BitvecTest p i =
     (case p of None \<Rightarrow> Some False | Some p \<Rightarrow> sqlite3BitvecTestNotNull p i)"

section \<open>Setting a bit\<close>

text \<open>The \<open>do\<close> loop after a collision: found (\<open>None\<close>) or the first free slot.\<close>

fun bv_probe :: "nat \<Rightarrow> nat list \<Rightarrow> nat \<Rightarrow> nat \<Rightarrow> nat option option" where
  "bv_probe 0 t h i = None"
| "bv_probe (Suc f) t h i =
     (if t ! h = i then Some None
      else let h' = (if h + 1 \<ge> BITVEC_NINT then 0 else h + 1)
           in if t ! h' \<noteq> 0 then bv_probe f t h' i else Some (Some h'))"

type_synonym bv_state = "bitvec \<times> nat"

text \<open>The loop that re-inserts the values of the old hash table, or-ing the return codes.\<close>

fun bv_reinsert ::
  "(nat \<Rightarrow> bv_state \<Rightarrow> (nat \<times> bv_state) option) \<Rightarrow> nat list \<Rightarrow> nat \<Rightarrow> bv_state \<Rightarrow> (nat \<times> bv_state) option"
where
  "bv_reinsert setf [] rc s = Some (rc, s)"
| "bv_reinsert setf (v # vs) rc s =
     (if v \<noteq> 0 then do { (rc', s') \<leftarrow> setf v s; bv_reinsert setf vs (rc OR rc') s' }
      else bv_reinsert setf vs rc s)"

text \<open>
  \<open>bv_set_at\<close> is the body of \<open>sqlite3BitvecSet\<close> after \<open>i--\<close>. The fuel bounds the number of
  steps down the tree of bitvecs and of changes of representation; \<open>bv_need\<close> below says how
  much is enough, and 16 is enough for every 32-bit size.
\<close>

fun bv_set_at :: "alloc \<Rightarrow> nat \<Rightarrow> nat \<Rightarrow> bv_state \<Rightarrow> (nat \<times> bv_state) option" where
  "bv_set_at alloc 0 i s = None"
| "bv_set_at alloc (Suc f) i (BvSub sz d subs, k) =
     (if d = 0 then None
      else do {
        c \<leftarrow> rd subs (i div d);
        (case c of
           Some q \<Rightarrow>
             do { (rc, q', k') \<leftarrow> bv_set_at alloc f (i mod d) (q, k);
                  Some (rc, BvSub sz d (subs[i div d := Some q']), k') }
         | None \<Rightarrow>
             (case sqlite3BitvecCreate alloc k d of
                (None, k1) \<Rightarrow> Some (SQLITE_NOMEM, BvSub sz d subs, k1)
              | (Some q, k1) \<Rightarrow>
                  do { (rc, q', k') \<leftarrow> bv_set_at alloc f (i mod d) (q, k1);
                       Some (rc, BvSub sz d (subs[i div d := Some q']), k') }))
      })"
| "bv_set_at alloc (Suc f) i (BvBitmap sz bm, k) =
     do { b \<leftarrow> rd bm (i div BITVEC_SZELEM);
          Some (SQLITE_OK,
            BvBitmap sz (bm[i div BITVEC_SZELEM := b OR push_bit (i mod BITVEC_SZELEM) 1]), k) }"
| "bv_set_at alloc (Suc f) i (BvHash sz n t, k) =
     (let h = BITVEC_HASH i;
          i1 = i + 1;
          set_end = (\<lambda>h. Some (SQLITE_OK, BvHash sz (n + 1) (t[h := i1]), k));
          rehash = (\<lambda>h.
            if n \<ge> BITVEC_MXHASH then
              (if \<not> alloc k then Some (SQLITE_NOMEM, BvHash sz n t, Suc k)
               else
                 let p = BvSub sz ((sz + BITVEC_NPTR - 1) div BITVEC_NPTR) (replicate BITVEC_NPTR None);
                     set1 = (\<lambda>v s. if 0 < v \<and> v \<le> iSize (fst s) then bv_set_at alloc f (v - 1) s else None)
                 in do { (rc, s) \<leftarrow> set1 i1 (p, Suc k);
                         bv_reinsert set1 t rc s })
            else set_end h)
      in if t ! h = 0 then (if n < BITVEC_NINT - 1 then set_end h else rehash h)
         else do {
           r \<leftarrow> bv_probe BITVEC_NINT t h i1;
           (case r of None \<Rightarrow> Some (SQLITE_OK, BvHash sz n t, k) | Some h' \<Rightarrow> rehash h')
         })"

definition sqlite3BitvecSet :: "alloc \<Rightarrow> nat \<Rightarrow> bitvec option \<Rightarrow> nat \<Rightarrow> (nat \<times> bitvec option \<times> nat) option" where
  "sqlite3BitvecSet alloc k p i =
     (case p of
        None \<Rightarrow> Some (SQLITE_OK, None, k)
      | Some p \<Rightarrow>
          if 0 < i \<and> i \<le> iSize p then
            map_option (\<lambda>(rc, p', k'). (rc, Some p', k')) (bv_set_at alloc 16 (i - 1) (p, k))
          else None)"

section \<open>Clearing a bit\<close>

text \<open>The inner loop that looks for a free slot of the table being rebuilt.\<close>

fun bv_free_slot :: "nat \<Rightarrow> nat list \<Rightarrow> nat \<Rightarrow> nat option" where
  "bv_free_slot 0 t h = None"
| "bv_free_slot (Suc f) t h =
     (if t ! h \<noteq> 0 then bv_free_slot f t (if h + 1 \<ge> BITVEC_NINT then 0 else h + 1) else Some h)"

fun bv_rebuild :: "nat list \<Rightarrow> nat \<Rightarrow> nat \<times> nat list \<Rightarrow> (nat \<times> nat list) option" where
  "bv_rebuild [] i s = Some s"
| "bv_rebuild (v # vs) i (n, t) =
     (if v \<noteq> 0 \<and> v \<noteq> i + 1 then
        do { h \<leftarrow> bv_free_slot BITVEC_NINT t (BITVEC_HASH (v - 1));
             bv_rebuild vs i (n + 1, t[h := v]) }
      else bv_rebuild vs i (n, t))"

fun bv_clear_at :: "bitvec \<Rightarrow> nat \<Rightarrow> bitvec option" where
  "bv_clear_at (BvSub sz d subs) i =
     (if d = 0 then None
      else case rd subs (i div d) of
        None \<Rightarrow> None
      | Some None \<Rightarrow> Some (BvSub sz d subs)
      | Some (Some q) \<Rightarrow>
          do { q' \<leftarrow> bv_clear_at q (i mod d); Some (BvSub sz d (subs[i div d := Some q'])) })"
| "bv_clear_at (BvBitmap sz bm) i =
     do { b \<leftarrow> rd bm (i div BITVEC_SZELEM);
          Some (BvBitmap sz (bm[i div BITVEC_SZELEM := b AND NOT (push_bit (i mod BITVEC_SZELEM) 1)])) }"
| "bv_clear_at (BvHash sz n t) i =
     do { (n', t') \<leftarrow> bv_rebuild t i (0, replicate BITVEC_NINT 0); Some (BvHash sz n' t') }"

definition sqlite3BitvecClear :: "bitvec option \<Rightarrow> nat \<Rightarrow> bitvec option option" where
  "sqlite3BitvecClear p i =
     (case p of
        None \<Rightarrow> Some None
      | Some p \<Rightarrow> if 0 < i then map_option Some (bv_clear_at p (i - 1)) else None)"

definition sqlite3BitvecSize :: "bitvec \<Rightarrow> nat" where
  "sqlite3BitvecSize p = iSize p"

section \<open>Invariant and abstraction\<close>

text \<open>
  \<open>bv_inv\<close> is what the comments on \<open>struct Bitvec\<close> say; \<open>bv_abs\<close> is the set represented,
  numbered from 0 as the code does after \<open>i--\<close>.
\<close>

definition bv_home :: "nat \<Rightarrow> nat" where
  "bv_home v = BITVEC_HASH (v - 1)"

definition hash_inv :: "nat \<Rightarrow> nat \<Rightarrow> nat list \<Rightarrow> bool" where
  "hash_inv sz n t \<longleftrightarrow>
     length t = BITVEC_NINT \<and> n = used t \<and> n < BITVEC_NINT \<and> list_all (\<lambda>v. v \<le> sz) t \<and>
     probe_ok bv_home t"

lemma size_list_option [termination_simp]:
  "Some q \<in> set subs \<Longrightarrow> size q < Suc (size_list (size_option size) subs)"
  using rd_size by (metis in_set_conv_nth rd_Some)

fun bv_inv :: "bitvec \<Rightarrow> bool" where
  "bv_inv (BvBitmap sz bm) \<longleftrightarrow> sz \<le> BITVEC_NBIT \<and> length bm = BITVEC_NELEM"
| "bv_inv (BvHash sz n t) \<longleftrightarrow> BITVEC_NBIT < sz \<and> hash_inv sz n t"
| "bv_inv (BvSub sz d subs) \<longleftrightarrow>
     BITVEC_NBIT < sz \<and> d = (sz + BITVEC_NPTR - 1) div BITVEC_NPTR \<and> length subs = BITVEC_NPTR \<and>
     list_all (\<lambda>c. case c of None \<Rightarrow> True | Some q \<Rightarrow> bv_inv q \<and> iSize q = d) subs"

fun bv_mem :: "bitvec \<Rightarrow> nat \<Rightarrow> bool" where
  "bv_mem (BvBitmap sz bm) i \<longleftrightarrow> bit (bm ! (i div BITVEC_SZELEM)) (i mod BITVEC_SZELEM)"
| "bv_mem (BvHash sz n t) i \<longleftrightarrow> i + 1 \<in> set t"
| "bv_mem (BvSub sz d subs) i \<longleftrightarrow>
     (case rd subs (i div d) of Some (Some q) \<Rightarrow> bv_mem q (i mod d) | _ \<Rightarrow> False)"

definition bv_abs :: "bitvec \<Rightarrow> nat set" where
  "bv_abs p = {i. i < iSize p \<and> bv_mem p i}"

lemma bv_zero_inv [simp]: "bv_inv (bv_zero sz)"
  by (simp add: bv_zero_def hash_inv_def probe_ok_empty list_all_iff)

lemma bv_zero_size [simp]: "iSize (bv_zero sz) = sz"
  by (simp add: bv_zero_def)

lemma bv_zero_mem [simp]: "i < iSize (bv_zero sz) \<Longrightarrow> \<not> bv_mem (bv_zero sz) i"
  by (auto simp: bv_zero_def)

lemma bv_zero_abs [simp]: "bv_abs (bv_zero sz) = {}"
  by (auto simp: bv_abs_def)

text \<open>The bin of an index below \<open>iSize\<close> is one of the sub-bitmaps, and the rest fits in it.\<close>

lemma sub_bin:
  assumes "d = (sz + BITVEC_NPTR - 1) div BITVEC_NPTR" "i < sz"
  shows "0 < d" "i div d < BITVEC_NPTR" "i mod d < d" "BITVEC_NBIT < sz \<Longrightarrow> d < sz"
proof -
  have "sz + 61 < 62 * d + 62"
    using assms(1) dividend_less_div_times [of 62 "sz + 61"] by simp
  then have sz: "sz \<le> d * 62" by simp
  then show "0 < d" using assms(2) by (cases d) auto
  then show "i mod d < d" by simp
  show "i div d < BITVEC_NPTR"
    using sz assms(2) by (simp add: less_mult_imp_div_less mult.commute)
  show "d < sz" if "BITVEC_NBIT < sz"
    using that assms(1) by simp
qed

section \<open>Probing\<close>

lemma used_free: "hash_inv sz n t \<Longrightarrow> 0 \<in> set t"
  using used_less_length [of t] by (simp add: hash_inv_def)

lemma bv_look_eq:
  "length t = BITVEC_NINT \<Longrightarrow> first_free t h e \<Longrightarrow> e < f \<Longrightarrow> i \<noteq> 0 \<Longrightarrow>
   bv_look f t (h mod BITVEC_NINT) i = Some (\<exists>j<e. slot t (h + j) = i)"
proof (induction f arbitrary: h e)
  case (Suc f)
  show ?case
  proof (cases e)
    case 0
    with Suc.prems show ?thesis by (auto simp: first_free_def slot_def)
  next
    case (Suc e')
    then have "first_free t (h + 1) e'" "e' < f"
      using Suc.prems first_free_Suc [of t h e'] by auto
    then have IH: "bv_look f t ((h mod BITVEC_NINT + 1) mod BITVEC_NINT) i =
        Some (\<exists>j<e'. slot t (h + 1 + j) = i)"
      using Suc.IH [of "h + 1" e'] Suc.prems by (simp add: mod_simps)
    have nz: "t ! (h mod BITVEC_NINT) \<noteq> 0"
      using Suc Suc.prems by (auto simp: first_free_def slot_def)
    have ex: "(\<exists>j<e. slot t (h + j) = i) \<longleftrightarrow> slot t h = i \<or> (\<exists>j<e'. slot t (h + 1 + j) = i)"
      unfolding Suc by (auto simp: less_Suc_eq_0_disj)
    show ?thesis
      using nz IH ex Suc.prems(1) by (auto simp: slot_def)
  qed
qed simp

lemma wrap_Suc: "h < BITVEC_NINT \<Longrightarrow> (if h + 1 \<ge> BITVEC_NINT then 0 else h + 1) = Suc h mod BITVEC_NINT"
  by (cases "h = 123") auto

lemma bv_probe_step:
  "bv_probe (Suc f) t (h mod BITVEC_NINT) i =
     (if t ! (h mod BITVEC_NINT) = i then Some None
      else if t ! (Suc h mod BITVEC_NINT) \<noteq> 0 then bv_probe f t (Suc h mod BITVEC_NINT) i
      else Some (Some (Suc h mod BITVEC_NINT)))"
  using wrap_Suc [of "h mod BITVEC_NINT"] by (simp add: Let_def mod_Suc_eq del: One_nat_def)

lemma bv_free_slot_step:
  "bv_free_slot (Suc f) t (h mod BITVEC_NINT) =
     (if t ! (h mod BITVEC_NINT) \<noteq> 0 then bv_free_slot f t (Suc h mod BITVEC_NINT)
      else Some (h mod BITVEC_NINT))"
  using wrap_Suc [of "h mod BITVEC_NINT"] by (simp add: mod_Suc_eq del: One_nat_def)

declare bv_probe.simps(2) [simp del] bv_free_slot.simps(2) [simp del]

lemma bv_probe_eq:
  "length t = BITVEC_NINT \<Longrightarrow> first_free t h e \<Longrightarrow> 0 < e \<Longrightarrow> e \<le> f \<Longrightarrow>
   bv_probe f t (h mod BITVEC_NINT) i =
     (if \<exists>j<e. slot t (h + j) = i then Some None else Some (Some ((h + e) mod BITVEC_NINT)))"
proof (induction f arbitrary: h e)
  case (Suc f)
  then obtain e' where e: "e = Suc e'" by (cases e) auto
  have free: "first_free t (h + 1) e'"
    using Suc.prems(2) first_free_Suc [of t h e'] by (simp add: e)
  have next0: "t ! ((h + 1) mod BITVEC_NINT) = 0 \<longleftrightarrow> e' = 0"
    using free Suc.prems(1) by (cases e') (auto simp: first_free_def slot_def)
  have ex: "(\<exists>j<e. slot t (h + j) = i) \<longleftrightarrow>
      t ! (h mod BITVEC_NINT) = i \<or> (\<exists>j<e'. slot t (h + 1 + j) = i)"
    using Suc.prems(1) unfolding e by (auto simp: less_Suc_eq_0_disj slot_def)
  show ?case
  proof (cases "e' = 0")
    case True
    with next0 ex show ?thesis by (auto simp: bv_probe_step e)
  next
    case False
    with Suc.IH [OF Suc.prems(1) free] Suc.prems(4) next0 ex show ?thesis
      by (auto simp: bv_probe_step e)
  qed
qed simp

lemma bv_free_slot_eq:
  "length t = BITVEC_NINT \<Longrightarrow> first_free t h e \<Longrightarrow> e < f \<Longrightarrow>
   bv_free_slot f t (h mod BITVEC_NINT) = Some ((h + e) mod BITVEC_NINT)"
proof (induction f arbitrary: h e)
  case (Suc f)
  show ?case
  proof (cases e)
    case 0
    with Suc.prems show ?thesis by (auto simp: first_free_def slot_def bv_free_slot_step)
  next
    case (Suc e')
    then have "first_free t (h + 1) e'" "e' < f"
      using Suc.prems first_free_Suc [of t h e'] by auto
    moreover have "t ! (h mod BITVEC_NINT) \<noteq> 0"
      using Suc Suc.prems by (auto simp: first_free_def slot_def)
    ultimately show ?thesis
      using Suc.IH [of "h + 1" e'] Suc.prems(1) Suc by (simp add: bv_free_slot_step)
  qed
qed simp

text \<open>An entry is found on its probe path exactly if it is in the table.\<close>

lemma hash_path:
  assumes "hash_inv sz n t" "first_free t i e"
  shows "(\<exists>j<e. slot t (i + j) = i + 1) \<longleftrightarrow> i + 1 \<in> set t"
proof
  assume "\<exists>j<e. slot t (i + j) = i + 1"
  moreover have "t \<noteq> []" using assms(1) by (auto simp: hash_inv_def)
  ultimately show "i + 1 \<in> set t" by (metis slot_in_set)
next
  assume "i + 1 \<in> set t"
  moreover have "first_free t (bv_home (i + 1)) e"
    using assms first_free_mod [of t i e] by (simp add: bv_home_def BITVEC_HASH_def hash_inv_def)
  ultimately obtain j where "j < e" "slot t (bv_home (i + 1) + j) = i + 1"
    using assms(1) probe_okD [of bv_home t "i + 1" e] by (auto simp: hash_inv_def)
  moreover have "slot t (bv_home (i + 1) + j) = slot t (i + j)"
    using assms(1) by (simp add: slot_def bv_home_def BITVEC_HASH_def hash_inv_def mod_simps)
  ultimately show "\<exists>j<e. slot t (i + j) = i + 1" by auto
qed

section \<open>Testing\<close>

lemma bv_test_at_eq: "bv_inv p \<Longrightarrow> i < iSize p \<Longrightarrow> bv_test_at p i = Some (bv_mem p i)"
proof (induction p i rule: bv_test_at.induct)
  case (1 sz d subs i)
  then have bin: "0 < d" "i div d < length subs" "i mod d < d"
    using sub_bin [of d sz i] by auto
  show ?case
  proof (cases "subs ! (i div d)")
    case None
    with bin show ?thesis by (simp add: rd_Some)
  next
    case (Some q)
    with bin 1 have "bv_inv q" "iSize q = d"
      by (auto simp: list_all_length split: option.splits)
    with Some bin 1 show ?thesis by (simp add: rd_Some)
  qed
next
  case (2 sz bm i)
  then have "i div 8 < length bm" by auto
  then show ?case by (simp add: rd_Some and_exp_eq_0_iff_not_bit)
next
  case (3 sz n t i)
  then obtain e where e: "first_free t i e" "e < BITVEC_NINT"
    using first_free_exists [of t i] used_free [of sz n t] by (auto simp: hash_inv_def)
  with 3 have "bv_look BITVEC_NINT t (i mod BITVEC_NINT) (i + 1) = Some (i + 1 \<in> set t)"
    using bv_look_eq [of t i e BITVEC_NINT "i + 1"] hash_path [of sz n t i e] by (auto simp: hash_inv_def)
  then show ?case by (simp add: BITVEC_HASH_def)
qed

lemma BitvecTest_eq:
  assumes "bv_inv p" "i < 2 ^ 32" "iSize p < 2 ^ 32"
  shows "sqlite3BitvecTest (Some p) i = Some (0 < i \<and> i - 1 \<in> bv_abs p)"
proof (cases "i = 0")
  case True
  with assms(3) show ?thesis
    by (simp add: sqlite3BitvecTest_def sqlite3BitvecTestNotNull_def)
next
  case False
  then have "(i + 2 ^ 32 - 1) mod 2 ^ 32 = i - 1"
    using assms(2) by (simp add: mod_if)
  with False show ?thesis
    using bv_test_at_eq [OF assms(1), of "i - 1"]
    by (auto simp: sqlite3BitvecTest_def sqlite3BitvecTestNotNull_def bv_abs_def Let_def)
qed

section \<open>Setting\<close>

function bv_need :: "nat \<Rightarrow> nat" where
  "bv_need n = (if n \<le> BITVEC_NBIT then 1 else 2 + bv_need ((n + BITVEC_NPTR - 1) div BITVEC_NPTR))"
  by pat_completeness auto
termination
  by (relation "measure id") auto

declare bv_need.simps [simp del]

lemma bv_need_step: "bv_need n \<le> 2 + bv_need ((n + 61) div 62)"
  by (subst bv_need.simps) (simp add: add.commute)

lemma bv_need_32: "n < 2 ^ 32 \<Longrightarrow> bv_need n \<le> 9"
proof -
  define m1 where "m1 = (n + 61) div 62"
  define m2 where "m2 = (m1 + 61) div 62"
  define m3 where "m3 = (m2 + 61) div 62"
  define m4 where "m4 = (m3 + 61) div 62"
  assume "n < 2 ^ 32"
  then have "m4 \<le> 3968"
    unfolding m1_def m2_def m3_def m4_def by simp
  then have "bv_need m4 = 1" by (simp add: bv_need.simps [of m4])
  with bv_need_step [of n, folded m1_def] bv_need_step [of m1, folded m2_def]
    bv_need_step [of m2, folded m3_def] bv_need_step [of m3, folded m4_def]
  show ?thesis by linarith
qed

definition bv_fuel :: "bitvec \<Rightarrow> nat" where
  "bv_fuel p = (if is_BvSub p then bv_need (iSize p) - 1 else bv_need (iSize p))"

text \<open>
  The contract of setting the bits \<open>I\<close>: the result is well formed and of the same size; it
  holds no other new bits, and unless memory ran out it holds exactly the old bits and \<open>I\<close>.
\<close>

definition set_ok :: "bitvec \<Rightarrow> nat set \<Rightarrow> nat \<times> bitvec \<times> nat \<Rightarrow> bool" where
  "set_ok p I r \<longleftrightarrow>
     (case r of (rc, p', k') \<Rightarrow>
        bv_inv p' \<and> iSize p' = iSize p \<and> (is_BvSub p \<longrightarrow> is_BvSub p') \<and>
        (rc = SQLITE_OK \<or> rc = SQLITE_NOMEM) \<and>
        bv_abs p' \<subseteq> I \<union> bv_abs p \<and>
        (rc = SQLITE_OK \<longrightarrow> bv_abs p' = I \<union> bv_abs p))"

lemma probe_insert:
  assumes inv: "hash_inv sz n t" and n: "n < BITVEC_NINT - 1" and i: "i < sz"
    and e: "first_free t i e"
  shows "hash_inv sz (n + 1) (t[(i + e) mod BITVEC_NINT := i + 1])"
    and "set (t[(i + e) mod BITVEC_NINT := i + 1]) - {0} = insert (i + 1) (set t) - {0}"
proof -
  have len: "length t = BITVEC_NINT" and ok: "probe_ok bv_home t"
    using inv by (simp_all add: hash_inv_def)
  have home: "(bv_home (i + 1) + e) mod BITVEC_NINT = (i + e) mod BITVEC_NINT"
    by (simp add: bv_home_def BITVEC_HASH_def mod_simps)
  have free: "t ! ((i + e) mod BITVEC_NINT) = 0"
    using e len by (simp add: first_free_def slot_def)
  have "first_free t (bv_home (i + 1)) e"
    using e len first_free_mod [of t i e] by (simp add: bv_home_def BITVEC_HASH_def)
  then have "probe_ok bv_home (t[(i + e) mod BITVEC_NINT := i + 1])"
    using probe_ok_insert [OF ok, of "i + 1" e] len home by (cases "t = []") simp_all
  moreover have "list_all (\<lambda>v. v \<le> sz) (t[(i + e) mod BITVEC_NINT := i + 1])"
    using inv i by (auto simp: hash_inv_def list_all_iff dest!: set_update_subset_insert [THEN subsetD])
  ultimately show "hash_inv sz (n + 1) (t[(i + e) mod BITVEC_NINT := i + 1])"
    using inv n used_update [OF _ free, of "i + 1"] by (simp add: hash_inv_def)
  show "set (t[(i + e) mod BITVEC_NINT := i + 1]) - {0} = insert (i + 1) (set t) - {0}"
    using len free by (intro set_update_free) simp_all
qed

lemma hash_abs: "hash_inv sz n t \<Longrightarrow> bv_abs (BvHash sz n t) = (\<lambda>v. v - 1) ` (set t - {0})"
  by (force simp: bv_abs_def hash_inv_def list_all_iff image_iff)

lemma set_ok_hash_insert:
  assumes "hash_inv sz n t" "BITVEC_NBIT < sz" "n < BITVEC_NINT - 1" "i < sz" "first_free t i e"
  shows "set_ok (BvHash sz n t) {i} (SQLITE_OK, BvHash sz (n + 1) (t[(i + e) mod BITVEC_NINT := i + 1]), k)"
proof -
  have "(\<lambda>v. v - 1) ` (insert (i + 1) (set t) - {0}) = {i} \<union> (\<lambda>v. v - 1) ` (set t - {0})"
    by (simp add: insert_Diff_if)
  then show ?thesis
    using probe_insert [OF assms(1,3,4,5)] assms(1,2) by (simp add: set_ok_def hash_abs)
qed

lemma sub_mem:
  assumes "bv_inv (BvSub sz d subs)"
  shows "j \<in> bv_abs (BvSub sz d subs) \<longleftrightarrow>
    j < sz \<and> (\<exists>q. subs ! (j div d) = Some q \<and> j mod d \<in> bv_abs q)"
proof (cases "j < sz")
  case True
  with assms have bin: "j div d < length subs" "j mod d < d"
    using sub_bin [of d sz j] by auto
  moreover have "iSize q = d" if "subs ! (j div d) = Some q" for q
    using assms bin that by (auto simp: list_all_length split: option.splits)
  ultimately show ?thesis
    using True by (auto simp: bv_abs_def rd_Some split: option.splits)
qed (simp add: bv_abs_def)

lemma sub_update:
  assumes inv: "bv_inv (BvSub sz d subs)" and i: "i < sz"
    and q': "bv_inv q'" "iSize q' = d"
    and sub: "bv_abs q' \<subseteq> insert (i mod d) (case subs ! (i div d) of None \<Rightarrow> {} | Some q \<Rightarrow> bv_abs q)"
  shows "bv_inv (BvSub sz d (subs[i div d := Some q']))"
    and "bv_abs (BvSub sz d (subs[i div d := Some q'])) \<subseteq> insert i (bv_abs (BvSub sz d subs))"
    and "bv_abs q' = insert (i mod d) (case subs ! (i div d) of None \<Rightarrow> {} | Some q \<Rightarrow> bv_abs q) \<Longrightarrow>
      bv_abs (BvSub sz d (subs[i div d := Some q'])) = insert i (bv_abs (BvSub sz d subs))"
proof -
  have bin: "i div d < length subs" "0 < d"
    using inv sub_bin [of d sz i] i by auto
  show inv': "bv_inv (BvSub sz d (subs[i div d := Some q']))"
    using inv q' by (auto simp: list_all_iff dest!: set_update_subset_insert [THEN subsetD])
  have same: "j = i" if "j div d = i div d" "j mod d = i mod d" for j
    using that by (metis div_mult_mod_eq)
  note mem = sub_mem [OF inv] sub_mem [OF inv']
  show "bv_abs (BvSub sz d (subs[i div d := Some q'])) \<subseteq> insert i (bv_abs (BvSub sz d subs))"
  proof
    fix j assume "j \<in> bv_abs (BvSub sz d (subs[i div d := Some q']))"
    then have j: "j < sz" "if j div d = i div d then j mod d \<in> bv_abs q'
        else \<exists>q. subs ! (j div d) = Some q \<and> j mod d \<in> bv_abs q"
      using bin by (auto simp: mem nth_list_update split: if_splits)
    show "j \<in> insert i (bv_abs (BvSub sz d subs))"
      using j same sub by (auto simp: mem split: if_splits option.splits)
  qed
  show "bv_abs (BvSub sz d (subs[i div d := Some q'])) = insert i (bv_abs (BvSub sz d subs))"
    if "bv_abs q' = insert (i mod d) (case subs ! (i div d) of None \<Rightarrow> {} | Some q \<Rightarrow> bv_abs q)"
    using that same bin i by (auto simp: mem nth_list_update split: if_splits option.splits)
qed

text \<open>Re-inserting the values of a table adds exactly those values, unless memory runs out.\<close>

definition sub_of_size :: "nat \<Rightarrow> bitvec \<Rightarrow> bool" where
  "sub_of_size sz p \<longleftrightarrow> bv_inv p \<and> iSize p = sz \<and> is_BvSub p"

definition reinsert_ok :: "nat \<Rightarrow> nat set \<Rightarrow> nat \<Rightarrow> bitvec \<Rightarrow> nat \<times> bitvec \<times> nat \<Rightarrow> bool" where
  "reinsert_ok sz V rc0 p r \<longleftrightarrow>
     (case r of (rc, p', k') \<Rightarrow>
        sub_of_size sz p' \<and> (rc = SQLITE_OK \<or> rc = SQLITE_NOMEM) \<and> bv_abs p' \<subseteq> V \<union> bv_abs p \<and>
        (rc = SQLITE_OK \<longrightarrow> rc0 = SQLITE_OK \<and> bv_abs p' = V \<union> bv_abs p))"

lemma set_ok_sub: "sub_of_size sz p \<Longrightarrow> set_ok p I (rc, p', k') \<Longrightarrow> sub_of_size sz p'"
  by (auto simp: set_ok_def sub_of_size_def)

lemma bv_reinsert_ok:
  assumes "\<And>v p k. v \<in> set vs \<Longrightarrow> v \<noteq> 0 \<Longrightarrow> sub_of_size sz p \<Longrightarrow>
      \<exists>r. setf v (p, k) = Some r \<and> set_ok p {v - 1} r"
    and "sub_of_size sz p" "rc = SQLITE_OK \<or> rc = SQLITE_NOMEM"
  shows "\<exists>r. bv_reinsert setf vs rc (p, k) = Some r \<and>
      reinsert_ok sz ((\<lambda>v. v - 1) ` (set vs - {0})) rc p r"
  using assms
proof (induction vs arbitrary: rc p k)
  case Nil
  then show ?case by (simp add: reinsert_ok_def)
next
  case (Cons v vs)
  show ?case
  proof (cases "v = 0")
    case True
    with Cons show ?thesis by simp
  next
    case False
    then obtain rc1 p1 k1 where
      s: "setf v (p, k) = Some (rc1, p1, k1)" and ok1: "set_ok p {v - 1} (rc1, p1, k1)"
      using Cons.prems(1) [of v p k] Cons.prems(2) by auto
    have p1: "sub_of_size sz p1"
      using set_ok_sub [OF Cons.prems(2) ok1] .
    have rc1: "rc1 = 0 \<or> rc1 = 7" and abs1: "bv_abs p1 \<subseteq> {v - 1} \<union> bv_abs p"
        "rc1 = 0 \<Longrightarrow> bv_abs p1 = {v - 1} \<union> bv_abs p"
      using ok1 by (simp_all add: set_ok_def)
    have or: "rc OR rc1 = 0 \<or> rc OR rc1 = 7" "rc OR rc1 = 0 \<Longrightarrow> rc = 0 \<and> rc1 = 0"
      using Cons.prems(3) rc1 by auto
    obtain rc' p' k' where r: "bv_reinsert setf vs (rc OR rc1) (p1, k1) = Some (rc', p', k')"
      and ok: "reinsert_ok sz ((\<lambda>v. v - 1) ` (set vs - {0})) (rc OR rc1) p1 (rc', p', k')"
      using Cons.IH [OF _ p1 or(1)] Cons.prems(1) by (metis list.set_intros(2) prod_cases3)
    have V: "(\<lambda>v. v - 1) ` (set (v # vs) - {0}) = {v - 1} \<union> (\<lambda>v. v - 1) ` (set vs - {0})"
      using False by (simp add: insert_Diff_if)
    have "reinsert_ok sz ((\<lambda>v. v - 1) ` (set (v # vs) - {0})) rc p (rc', p', k')"
      unfolding V using ok abs1 or(2) unfolding reinsert_ok_def by blast
    with r s False show ?thesis by auto
  qed
qed

lemma set_ok_bitmap:
  assumes "bv_inv (BvBitmap sz bm)" "i < sz"
  shows "set_ok (BvBitmap sz bm) {i}
    (SQLITE_OK, BvBitmap sz (bm[i div 8 := bm ! (i div 8) OR push_bit (i mod 8) 1]), k)"
proof -
  have len: "i div 8 < length bm" using assms by auto
  have same: "j = i \<longleftrightarrow> j div 8 = i div 8 \<and> j mod 8 = i mod 8" for j
    by (metis div_mult_mod_eq)
  have "bit (bm[i div 8 := bm ! (i div 8) OR push_bit (i mod 8) 1] ! (j div 8)) (j mod 8) \<longleftrightarrow>
      j = i \<or> bit (bm ! (j div 8)) (j mod 8)" for j
    using len by (auto simp: nth_list_update bit_or_iff bit_exp_iff same)
  with assms show ?thesis
    by (auto simp: set_ok_def bv_abs_def)
qed

lemma set_ok_child:
  assumes inv: "bv_inv (BvSub sz d subs)" and i: "i < sz"
    and q: "(case subs ! (i div d) of None \<Rightarrow> bv_abs q = {} | Some q0 \<Rightarrow> q = q0)" "iSize q = d"
    and ok: "set_ok q {i mod d} (rc, q', k')"
  shows "set_ok (BvSub sz d subs) {i} (rc, BvSub sz d (subs[i div d := Some q']), k')"
proof -
  have q': "bv_inv q'" "iSize q' = d"
    using ok q(2) by (simp_all add: set_ok_def)
  have child: "bv_abs q = (case subs ! (i div d) of None \<Rightarrow> {} | Some q \<Rightarrow> bv_abs q)"
    using q(1) by (auto split: option.splits)
  then show ?thesis
    using sub_update [OF inv i q'] ok by (simp add: set_ok_def del: bv_inv.simps)
qed

lemma set_ok_nomem: "bv_inv p \<Longrightarrow> set_ok p I (SQLITE_NOMEM, p, k)"
  by (auto simp: set_ok_def)

lemma bv_need_pos [simp]: "0 < bv_need n" "BITVEC_NBIT < n \<Longrightarrow> Suc 0 < bv_need n"
  by (simp_all add: bv_need.simps [of n])

lemma bv_fuel_pos: "bv_inv p \<Longrightarrow> 0 < bv_fuel p"
  by (cases p) (auto simp: bv_fuel_def)

text \<open>Changing the hash table into sub-bitmaps keeps the set and adds the new bit.\<close>

lemma bv_rehash_ok:
  assumes inv: "hash_inv sz n t" "BITVEC_NBIT < sz" and i: "i < sz"
    and set1: "\<And>v p k. 0 < v \<Longrightarrow> v \<le> sz \<Longrightarrow> sub_of_size sz p \<Longrightarrow>
      \<exists>r. set1 v (p, k) = Some r \<and> set_ok p {v - 1} r"
  shows "\<exists>r. do { (rc, s) \<leftarrow> set1 (i + 1)
        (BvSub sz ((sz + BITVEC_NPTR - 1) div BITVEC_NPTR) (replicate BITVEC_NPTR None), k);
        bv_reinsert set1 t rc s } = Some r \<and> set_ok (BvHash sz n t) {i} r"
proof -
  let ?p = "BvSub sz ((sz + BITVEC_NPTR - 1) div BITVEC_NPTR) (replicate BITVEC_NPTR None)"
  have p: "sub_of_size sz ?p" and empty: "bv_abs ?p = {}"
    using inv(2) by (auto simp: sub_of_size_def list_all_iff bv_abs_def rd_def)
  obtain rc1 p1 k1 where s: "set1 (i + 1) (?p, k) = Some (rc1, p1, k1)"
    and ok1: "set_ok ?p {i} (rc1, p1, k1)"
    using set1 [OF _ _ p, of "i + 1" k] i by auto
  have le: "v \<in> set t \<Longrightarrow> v \<le> sz" for v
    using inv(1) by (simp add: hash_inv_def list_all_iff)
  have rc1: "rc1 = 0 \<or> rc1 = 7"
    using ok1 by (simp add: set_ok_def)
  obtain r where r: "bv_reinsert set1 t rc1 (p1, k1) = Some r"
    and ok: "reinsert_ok sz (bv_abs (BvHash sz n t)) rc1 p1 r"
    using bv_reinsert_ok [of t sz set1 p1 rc1 k1] set1 le set_ok_sub [OF p ok1] rc1
    by (auto simp: hash_abs [OF inv(1)])
  have abs1: "bv_abs p1 \<subseteq> {i}" "rc1 = 0 \<Longrightarrow> bv_abs p1 = {i}"
    using ok1 unfolding set_ok_def empty by auto
  obtain rc p' k' where r': "r = (rc, p', k')" by (cases r)
  have "set_ok (BvHash sz n t) {i} (rc, p', k')"
    using ok abs1 unfolding r' reinsert_ok_def set_ok_def sub_of_size_def by auto
  with s r show ?thesis by (simp add: r')
qed

lemma bv_set_hash:
  assumes inv: "hash_inv sz n t" "BITVEC_NBIT < sz" and i: "i < sz"
    and IH: "\<And>p i k. sub_of_size sz p \<Longrightarrow> i < sz \<Longrightarrow>
      \<exists>r. bv_set_at alloc f i (p, k) = Some r \<and> set_ok p {i} r"
  shows "\<exists>r. bv_set_at alloc (Suc f) i (BvHash sz n t, k) = Some r \<and> set_ok (BvHash sz n t) {i} r"
proof -
  define set1 where
    "set1 = (\<lambda>v s. if 0 < v \<and> v \<le> iSize (fst s) then bv_set_at alloc f (v - 1) s else None)"
  obtain e where e: "first_free t i e" "e < BITVEC_NINT"
    using first_free_exists [of t i] used_free [OF inv(1)] inv(1) by (auto simp: hash_inv_def)
  have len: "length t = BITVEC_NINT" and n: "n < BITVEC_NINT"
    using inv(1) by (simp_all add: hash_inv_def)
  have home0: "t ! (i mod BITVEC_NINT) = 0 \<longleftrightarrow> e = 0"
    using e(1) len by (cases e) (auto simp: first_free_def slot_def)
  have probe: "bv_probe BITVEC_NINT t (i mod BITVEC_NINT) (i + 1) =
      (if i + 1 \<in> set t then Some None else Some (Some ((i + e) mod BITVEC_NINT)))" if "e \<noteq> 0"
    using bv_probe_eq [OF len e(1), of BITVEC_NINT "i + 1"] e(2) hash_path [OF inv(1) e(1)] that by simp
  have rehash: "\<exists>r. do { (rc, s) \<leftarrow> set1 (i + 1)
        (BvSub sz ((sz + BITVEC_NPTR - 1) div BITVEC_NPTR) (replicate BITVEC_NPTR None), Suc k);
        bv_reinsert set1 t rc s } = Some r \<and> set_ok (BvHash sz n t) {i} r"
    using IH by (intro bv_rehash_ok inv i) (auto simp: set1_def sub_of_size_def)
  have nomem: "set_ok (BvHash sz n t) {i} (SQLITE_NOMEM, BvHash sz n t, Suc k)"
    using inv by (intro set_ok_nomem) simp
  have ins: "set_ok (BvHash sz n t) {i}
      (SQLITE_OK, BvHash sz (n + 1) (t[(i + e) mod BITVEC_NINT := i + 1]), k)"
    if "n < BITVEC_NINT - 1"
    using that by (intro set_ok_hash_insert inv i e)
  have dup: "set_ok (BvHash sz n t) {i} (SQLITE_OK, BvHash sz n t, k)" if "i + 1 \<in> set t"
    using that inv i by (auto simp: set_ok_def bv_abs_def)
  show ?thesis
    using rehash nomem ins dup home0 probe n
    unfolding bv_set_at.simps Let_def BITVEC_HASH_def mult_1_right set1_def [symmetric]
    by (cases "e = 0"; cases "n < BITVEC_NINT - 1"; cases "BITVEC_MXHASH \<le> n"; cases "alloc k";
        cases "i + 1 \<in> set t") simp_all
qed

lemma bv_set_at_ok:
  "bv_inv p \<Longrightarrow> i < iSize p \<Longrightarrow> bv_fuel p \<le> f \<Longrightarrow>
   \<exists>r. bv_set_at alloc f i (p, k) = Some r \<and> set_ok p {i} r"
proof (induction f arbitrary: p i k)
  case 0
  then show ?case using bv_fuel_pos [of p] by simp
next
  case (Suc f)
  show ?case
  proof (cases p)
    case (BvBitmap sz bm)
    with Suc.prems set_ok_bitmap [of sz bm i k] show ?thesis
      by (auto simp: rd_Some)
  next
    case (BvSub sz d subs)
    then have inv: "bv_inv (BvSub sz d subs)" and i: "i < sz"
      using Suc.prems by auto
    then have bin: "0 < d" "i div d < length subs" "i mod d < d"
      using sub_bin [of d sz i] by auto
    have fuel: "bv_fuel q \<le> f" if "iSize q = d" for q
      using that Suc.prems(3) BvSub inv by (auto simp: bv_fuel_def bv_need.simps [of sz])
    have step: "\<exists>rc q' k'. bv_set_at alloc f (i mod d) (q, k) = Some (rc, q', k') \<and>
        set_ok (BvSub sz d subs) {i} (rc, BvSub sz d (subs[i div d := Some q']), k')"
      if "bv_inv q" "iSize q = d"
        "case subs ! (i div d) of None \<Rightarrow> bv_abs q = {} | Some q0 \<Rightarrow> q = q0" for q k
      using Suc.IH [of q "i mod d" k] fuel [of q] that bin(3) set_ok_child [OF inv i] by auto
    show ?thesis
    proof (cases "subs ! (i div d)")
      case None
      then show ?thesis
        using step [of "bv_zero d" "Suc k"] set_ok_nomem [OF inv] bin
        by (auto simp: BvSub rd_Some sqlite3BitvecCreate_def)
    next
      case (Some q)
      then have "bv_inv q" "iSize q = d"
        using inv bin by (auto simp: list_all_length split: option.splits)
      with Some show ?thesis
        using step [of q k] bin by (auto simp: BvSub rd_Some)
    qed
  next
    case (BvHash sz n t)
    then have inv: "hash_inv sz n t" "BITVEC_NBIT < sz" "i < sz"
      using Suc.prems by auto
    have "bv_fuel q \<le> f" if "sub_of_size sz q" for q
      using that Suc.prems(3) BvHash by (auto simp: bv_fuel_def sub_of_size_def)
    then show ?thesis
      unfolding BvHash using Suc.IH by (intro bv_set_hash inv) (auto simp: sub_of_size_def)
  qed
qed

lemma BitvecSet_ok:
  assumes "bv_inv p" "iSize p < 2 ^ 32" "0 < i" "i \<le> iSize p"
  shows "\<exists>rc p' k'. sqlite3BitvecSet alloc k (Some p) i = Some (rc, Some p', k') \<and>
    set_ok p {i - 1} (rc, p', k')"
proof -
  have less: "i - 1 < iSize p"
    using assms(3,4) by simp
  have "bv_fuel p \<le> bv_need (iSize p)"
    by (simp add: bv_fuel_def)
  then have "bv_fuel p \<le> 16"
    using bv_need_32 [OF assms(2)] by linarith
  then obtain rc p' k' where "bv_set_at alloc 16 (i - 1) (p, k) = Some (rc, p', k')"
    "set_ok p {i - 1} (rc, p', k')"
    using bv_set_at_ok [OF assms(1) less, of 16 alloc k] by auto
  with assms(3,4) show ?thesis by (simp add: sqlite3BitvecSet_def)
qed

section \<open>Clearing\<close>

lemma used_Cons [simp]: "used (v # vs) = (if v = 0 then used vs else Suc (used vs))"
  by (simp add: used_def)

lemma set_step:
  assumes "X - Z = insert v T - Z" "v \<notin> W"
  shows "X \<union> (V - W) - Z = T \<union> (insert v V - W) - Z"
proof -
  have "X \<union> (V - W) - Z = (X - Z) \<union> (V - W - Z)" by auto
  with assms show ?thesis by auto
qed

lemma bv_rebuild_ok:
  "hash_inv sz n t \<Longrightarrow> n + used vs < BITVEC_NINT \<Longrightarrow> list_all (\<lambda>v. v \<le> sz) vs \<Longrightarrow>
   \<exists>n' t'. bv_rebuild vs i (n, t) = Some (n', t') \<and> hash_inv sz n' t' \<and>
     set t' - {0} = set t \<union> (set vs - {i + 1}) - {0}"
proof (induction vs arbitrary: n t)
  case (Cons v vs)
  show ?case
  proof (cases "v \<noteq> 0 \<and> v \<noteq> i + 1")
    case False
    have rest: "n + used vs < BITVEC_NINT" "list_all (\<lambda>v. v \<le> sz) vs"
      using Cons.prems by (auto split: if_splits)
    obtain n' t' where "bv_rebuild vs i (n, t) = Some (n', t')" "hash_inv sz n' t'"
      "set t' - {0} = set t \<union> (set vs - {i + 1}) - {0}"
      using Cons.IH [OF Cons.prems(1) rest] by blast
    with False show ?thesis by (intro exI [of _ n'] exI [of _ t']) auto
  next
    case True
    have len: "length t = BITVEC_NINT"
      using Cons.prems(1) by (simp add: hash_inv_def)
    obtain e where e: "first_free t (v - 1) e" "e < BITVEC_NINT"
      using first_free_exists [of t "v - 1"] used_free [OF Cons.prems(1)] len by auto
    let ?t = "t[(v - 1 + e) mod BITVEC_NINT := v]"
    have free: "bv_free_slot BITVEC_NINT t (BITVEC_HASH (v - 1)) = Some ((v - 1 + e) mod BITVEC_NINT)"
      using bv_free_slot_eq [OF len e] by (simp add: BITVEC_HASH_def)
    have v: "v - 1 < sz" "n < BITVEC_NINT - 1" "v - 1 + 1 = v" and rest: "n + 1 + used vs < BITVEC_NINT"
      using Cons.prems True by auto
    have ins: "hash_inv sz (n + 1) ?t" "set ?t - {0} = insert v (set t) - {0}"
      using probe_insert [OF Cons.prems(1) v(2,1) e(1)] unfolding v(3) by blast+
    obtain n' t' where r: "bv_rebuild vs i (n + 1, ?t) = Some (n', t')" "hash_inv sz n' t'"
      "set t' - {0} = set ?t \<union> (set vs - {i + 1}) - {0}"
      using Cons.IH [OF ins(1) rest] Cons.prems(3) by auto
    have "set t' - {0} = set t \<union> (set (v # vs) - {i + 1}) - {0}"
      unfolding r(3) list.set using ins(2) True by (intro set_step) simp_all
    moreover have "bv_rebuild (v # vs) i (n, t) = Some (n', t')"
      using True free r(1) by simp
    ultimately show ?thesis using r(2) by blast
  qed
qed simp

definition clear_ok :: "bitvec \<Rightarrow> nat \<Rightarrow> bitvec \<Rightarrow> bool" where
  "clear_ok p i p' \<longleftrightarrow>
     bv_inv p' \<and> iSize p' = iSize p \<and> is_BvSub p' = is_BvSub p \<and> bv_abs p' = bv_abs p - {i}"

lemma bv_clear_at_ok:
  "bv_inv p \<Longrightarrow> i < iSize p \<Longrightarrow> \<exists>p'. bv_clear_at p i = Some p' \<and> clear_ok p i p'"
proof (induction p i rule: bv_clear_at.induct)
  case (1 sz d subs i)
  then have inv: "bv_inv (BvSub sz d subs)" and i: "i < sz" by auto
  then have bin: "0 < d" "i div d < length subs" "i mod d < d"
    using sub_bin [of d sz i] by auto
  show ?case
  proof (cases "subs ! (i div d)")
    case None
    then have "i \<notin> bv_abs (BvSub sz d subs)"
      by (simp add: sub_mem [OF inv])
    with None inv bin show ?thesis
      by (simp add: rd_Some clear_ok_def del: bv_inv.simps)
  next
    case (Some q)
    then have q: "bv_inv q" "iSize q = d"
      using inv bin by (auto simp: list_all_length split: option.splits)
    then obtain q' where q': "bv_clear_at q (i mod d) = Some q'" "clear_ok q (i mod d) q'"
      using 1(1) bin Some by (auto simp: rd_Some)
    have inv': "bv_inv (BvSub sz d (subs[i div d := Some q']))"
      using inv q q'(2) by (auto simp: clear_ok_def list_all_iff dest!: set_update_subset_insert [THEN subsetD])
    have "bv_abs (BvSub sz d (subs[i div d := Some q'])) = bv_abs (BvSub sz d subs) - {i}"
    proof (rule set_eqI)
      fix j
      have "j = i \<longleftrightarrow> j div d = i div d \<and> j mod d = i mod d"
        by (metis div_mult_mod_eq)
      then show "j \<in> bv_abs (BvSub sz d (subs[i div d := Some q'])) \<longleftrightarrow>
          j \<in> bv_abs (BvSub sz d subs) - {i}"
        using Some q'(2) bin
        by (cases "j div d = i div d")
          (auto simp: sub_mem [OF inv] sub_mem [OF inv'] clear_ok_def)
    qed
    with inv' Some bin q'(1) show ?thesis
      by (simp add: rd_Some clear_ok_def del: bv_inv.simps)
  qed
next
  case (2 sz bm i)
  have len: "i div 8 < length bm" using 2 by auto
  have same: "j = i \<longleftrightarrow> j div 8 = i div 8 \<and> j mod 8 = i mod 8" for j
    by (metis div_mult_mod_eq)
  have "bit (bm[i div 8 := bm ! (i div 8) AND NOT (push_bit (i mod 8) 1)] ! (j div 8)) (j mod 8) \<longleftrightarrow>
      j \<noteq> i \<and> bit (bm ! (j div 8)) (j mod 8)" for j
    using len by (auto simp: nth_list_update bit_and_iff bit_not_iff bit_exp_iff same)
  with 2 len show ?case
    by (auto simp: clear_ok_def bv_abs_def rd_Some)
next
  case (3 sz n t i)
  then have inv: "hash_inv sz n t" by simp
  have "hash_inv sz 0 (replicate BITVEC_NINT 0)"
    by (simp add: hash_inv_def probe_ok_empty list_all_iff)
  then obtain n' t' where r: "bv_rebuild t i (0, replicate BITVEC_NINT 0) = Some (n', t')"
    "hash_inv sz n' t'" "set t' - {0} = set t - {i + 1} - {0}"
    using bv_rebuild_ok [of sz 0 "replicate BITVEC_NINT 0" t i] inv
    by (auto simp: hash_inv_def)
  then have "bv_abs (BvHash sz n' t') = bv_abs (BvHash sz n t) - {i}"
    unfolding hash_abs [OF inv] hash_abs [OF r(2)] by force
  with r 3 show ?case by (simp add: clear_ok_def)
qed

lemma BitvecClear_ok:
  assumes "bv_inv p" "0 < i" "i \<le> iSize p"
  shows "\<exists>p'. sqlite3BitvecClear (Some p) i = Some (Some p') \<and> clear_ok p (i - 1) p'"
  using bv_clear_at_ok [OF assms(1), of "i - 1"] assms(2,3)
  by (auto simp: sqlite3BitvecClear_def)

section \<open>Properties\<close>

text \<open>
  C15: Testing a page number in a well-formed bitvec reads no cell out of bounds, terminates
  and answers whether the number is in the set, for every argument, 0 and numbers beyond the
  size included.
\<close>
theorem bitvec_test:
  assumes "bv_inv p" "i < 2 ^ 32" "iSize p < 2 ^ 32"
  shows "sqlite3BitvecTest (Some p) i = Some (0 < i \<and> i - 1 \<in> bv_abs p)"
  using assms by (rule BitvecTest_eq)

theorem bitvec_test_witness:
  "sqlite3BitvecTest (Some (bv_zero 5000)) 4999 = Some (0 < (4999::nat) \<and> 4999 - 1 \<in> bv_abs (bv_zero 5000))"
  using bitvec_test [of "bv_zero 5000" 4999] by simp

text \<open>
  C9: Setting a page number in a well-formed bitvec always finishes, keeps it well-formed and
  of its size, through every change of representation (bitmap, hash, sub-bitmaps); on
  \<open>SQLITE_OK\<close> the number has been added to the set and nothing else has changed, and when
  memory runs out the result is \<open>SQLITE_NOMEM\<close> and no number outside the old set and the
  new one appears.
\<close>
theorem bitvec_set:
  assumes "bv_inv p" "iSize p < 2 ^ 32" "0 < i" "i \<le> iSize p"
  shows "\<exists>rc p' k'. sqlite3BitvecSet alloc k (Some p) i = Some (rc, Some p', k') \<and>
    set_ok p {i - 1} (rc, p', k')"
  using assms by (rule BitvecSet_ok)

theorem bitvec_set_witness:
  "\<exists>rc p' k'. sqlite3BitvecSet (\<lambda>_. True) 0 (Some (bv_zero 100000)) 77777 = Some (rc, Some p', k') \<and>
    set_ok (bv_zero 100000) {77776} (rc, p', k')"
  using bitvec_set [of "bv_zero 100000" 77777 "\<lambda>_. True" 0] by simp

text \<open>
  C16: Clearing a page number removes it, and only it, from the set, rebuilding the hash table
  so that its probing order stays intact.
\<close>
theorem bitvec_clear:
  assumes "bv_inv p" "0 < i" "i \<le> iSize p"
  shows "\<exists>p'. sqlite3BitvecClear (Some p) i = Some (Some p') \<and> clear_ok p (i - 1) p'"
  using assms by (rule BitvecClear_ok)

theorem bitvec_clear_witness:
  "\<exists>p'. sqlite3BitvecClear (Some (bv_zero 4000)) 17 = Some (Some p') \<and> clear_ok (bv_zero 4000) 16 p'"
  using bitvec_clear [of "bv_zero 4000" 17] by simp

end
