(* ===== verification/RowSet.thy ===== *)
theory RowSet
  imports Prelude
begin

text \<open>
  The row sets of \<^verbatim>\<open>src/rowset.c\<close>: \<open>sqlite3RowSetInit\<close>, \<open>sqlite3RowSetClear\<close>,
  \<open>rowSetEntryAlloc\<close>, \<open>sqlite3RowSetInsert\<close>, \<open>rowSetEntryMerge\<close>, \<open>rowSetEntrySort\<close>,
  \<open>rowSetTreeToList\<close>, \<open>rowSetNDeepTree\<close>, \<open>rowSetListToTree\<close>, \<open>sqlite3RowSetNext\<close> and
  \<open>sqlite3RowSetTest\<close>. A list of entries linked by \<open>pRight\<close> is a list of row numbers, a tree of
  entries is a value of \<open>rs_tree\<close>, and the forest is the list of its trees (\<open>pLeft\<close> of the
  entries of \<open>pForest\<close>).

  The theorems say that \<open>Next\<close> delivers the inserted numbers in increasing order without
  duplicates, and that \<open>Test\<close> answers whether a number was inserted in an earlier batch.
\<close>

section \<open>Data\<close>

datatype rs_tree = RsNull | RsEntry (pLeft: rs_tree) (rs_v: int) (pRight: rs_tree)

abbreviation (input) ROWSET_ENTRY_PER_CHUNK :: nat where
  "ROWSET_ENTRY_PER_CHUNK \<equiv> (1024 - 8) div 24"

text \<open>
  \<open>pChunk\<close> counts the chunks on the chunk list; \<open>rs_sorted\<close> and \<open>rs_next\<close> are the bits
  \<open>ROWSET_SORTED\<close> and \<open>ROWSET_NEXT\<close> of \<open>rsFlags\<close>; \<open>pLast\<close> is the value of the last entry. The
  allocator is a parameter, asked with the number of requests made so far (\<open>rs_req\<close>).
\<close>

record rowset =
  pChunk :: nat
  pEntry :: "int list"
  pLast :: "int option"
  pForest :: "rs_tree list"
  nFresh :: nat
  rs_sorted :: bool
  rs_next :: bool
  iBatch :: int
  rs_req :: nat

definition sqlite3RowSetInit :: "nat \<Rightarrow> rowset" where
  "sqlite3RowSetInit n =
     \<lparr> pChunk = 0, pEntry = [], pLast = None, pForest = [], nFresh = (n - 56) div 24 mod 65536,
       rs_sorted = True, rs_next = False, iBatch = 0, rs_req = 0 \<rparr>"

definition sqlite3RowSetClear :: "rowset \<Rightarrow> rowset" where
  "sqlite3RowSetClear p =
     p \<lparr> pChunk := 0, nFresh := 0, pEntry := [], pLast := None, pForest := [],
        rs_sorted := True, rs_next := False \<rparr>"

definition rowSetEntryAlloc :: "(nat \<Rightarrow> bool) \<Rightarrow> rowset \<Rightarrow> bool \<times> rowset" where
  "rowSetEntryAlloc alloc p =
     (if nFresh p = 0 then
        if alloc (rs_req p) then
          (True, p \<lparr> pChunk := pChunk p + 1, nFresh := ROWSET_ENTRY_PER_CHUNK - 1, rs_req := rs_req p + 1 \<rparr>)
        else (False, p \<lparr> rs_req := rs_req p + 1 \<rparr>)
      else (True, p \<lparr> nFresh := nFresh p - 1 \<rparr>))"

text \<open>A failing \<open>assert\<close> is \<open>None\<close>.\<close>

definition sqlite3RowSetInsert :: "(nat \<Rightarrow> bool) \<Rightarrow> rowset \<Rightarrow> int \<Rightarrow> rowset option" where
  "sqlite3RowSetInsert alloc p rowid =
     (if rs_next p then None
      else case rowSetEntryAlloc alloc p of
        (False, p) \<Rightarrow> Some p
      | (True, p) \<Rightarrow>
          (case pLast p of
             Some l \<Rightarrow>
               let p = (if rowid \<le> l then p \<lparr> rs_sorted := False \<rparr> else p)
               in Some (p \<lparr> pEntry := pEntry p @ [rowid], pLast := Some rowid \<rparr>)
           | None \<Rightarrow> Some (p \<lparr> pEntry := [rowid], pLast := Some rowid \<rparr>)))"

section \<open>Sorting\<close>

fun rowSetEntryMerge :: "int list \<Rightarrow> int list \<Rightarrow> int list" where
  "rowSetEntryMerge (a # as) (b # bs) =
     (if a \<le> b then
        (if a < b then [a] else []) @ (if as = [] then b # bs else rowSetEntryMerge as (b # bs))
      else b # (if bs = [] then a # as else rowSetEntryMerge (a # as) bs))"
| "rowSetEntryMerge as bs = as @ bs"

text \<open>The inner loop over the buckets: going past the last of the 40 buckets is \<open>None\<close>.\<close>

fun rs_carry :: "int list list \<Rightarrow> int list \<Rightarrow> int list list option" where
  "rs_carry [] pIn = None"
| "rs_carry (b # bs) pIn =
     (if b \<noteq> [] then map_option ((#) []) (rs_carry bs (rowSetEntryMerge b pIn))
      else Some (pIn # bs))"

fun rs_fill :: "int list \<Rightarrow> int list list \<Rightarrow> int list list option" where
  "rs_fill [] aBucket = Some aBucket"
| "rs_fill (x # pNext) aBucket = do { b \<leftarrow> rs_carry aBucket [x]; rs_fill pNext b }"

fun rs_collect :: "int list \<Rightarrow> int list list \<Rightarrow> int list" where
  "rs_collect pIn [] = pIn"
| "rs_collect pIn (b # bs) =
     rs_collect (if b = [] then pIn else if pIn \<noteq> [] then rowSetEntryMerge pIn b else b) bs"

definition rowSetEntrySort :: "int list \<Rightarrow> int list option" where
  "rowSetEntrySort pIn =
     map_option (\<lambda>b. rs_collect (hd b) (tl b)) (rs_fill pIn (replicate 40 []))"

section \<open>Trees\<close>

fun rowSetTreeToList :: "rs_tree \<Rightarrow> int list" where
  "rowSetTreeToList RsNull = []"
| "rowSetTreeToList (RsEntry l v r) =
     (if l \<noteq> RsNull then rowSetTreeToList l else []) @
     v # (if r \<noteq> RsNull then rowSetTreeToList r else [])"

function rowSetNDeepTree :: "int list \<Rightarrow> nat \<Rightarrow> rs_tree \<times> int list" where
  "rowSetNDeepTree ppList iDepth =
     (case ppList of
        [] \<Rightarrow> (RsNull, [])
      | v # vs \<Rightarrow>
          (if iDepth > 1 then
             (case rowSetNDeepTree ppList (iDepth - 1) of
                (pl, []) \<Rightarrow> (pl, [])
              | (pl, p # ps) \<Rightarrow>
                  (case rowSetNDeepTree ps (iDepth - 1) of (pr, rest) \<Rightarrow> (RsEntry pl p pr, rest)))
           else (RsEntry RsNull v RsNull, vs)))"
  by pat_completeness auto
termination by (relation "measure snd") auto

declare rowSetNDeepTree.simps [simp del]

lemma NDeepTree_list:
  "rowSetNDeepTree xs d = (t, rest) \<Longrightarrow> rowSetTreeToList t @ rest = xs \<and> (xs \<noteq> [] \<longrightarrow> t \<noteq> RsNull)"
proof (induction xs d arbitrary: t rest rule: rowSetNDeepTree.induct)
  case (1 xs d)
  show ?case
  proof (cases xs)
    case Nil
    with 1(3) show ?thesis by (auto simp: rowSetNDeepTree.simps [of "[]"])
  next
    case (Cons v vs)
    show ?thesis
    proof (cases "d > 1")
      case False
      with 1(3) Cons show ?thesis by (auto simp: rowSetNDeepTree.simps [of "v # vs"])
    next
      case True
      obtain pl q where l: "rowSetNDeepTree xs (d - 1) = (pl, q)" by force
      then have lq: "rowSetTreeToList pl @ q = xs"
        using 1(1) [OF Cons True, of pl q] Cons by simp
      show ?thesis
      proof (cases q)
        case Nil
        with 1(3) Cons True l lq 1(1) [OF Cons True, of pl q] show ?thesis
          by (auto simp: rowSetNDeepTree.simps [of "v # vs" d])
      next
        case (Cons p ps)
        obtain pr rest' where r: "rowSetNDeepTree ps (d - 1) = (pr, rest')" by force
        then have rq: "rowSetTreeToList pr @ rest' = ps"
          using 1(2) [OF \<open>xs = v # vs\<close> True] l Cons \<open>xs = v # vs\<close> by auto
        have "t = RsEntry pl p pr" "rest = rest'"
          using 1(3) True l r Cons \<open>xs = v # vs\<close> by (simp_all add: rowSetNDeepTree.simps [of "v # vs" d])
        with lq rq Cons show ?thesis by auto
      qed
    qed
  qed
qed

lemma NDeepTree_length: "rowSetNDeepTree xs d = (t, rest) \<Longrightarrow> length rest \<le> length xs"
  using NDeepTree_list [of xs d t rest] by auto

function rs_list_tree :: "rs_tree \<Rightarrow> int list \<Rightarrow> nat \<Rightarrow> rs_tree" where
  "rs_list_tree p [] iDepth = p"
| "rs_list_tree p (v # pList) iDepth =
     (case rowSetNDeepTree pList iDepth of (pr, rest) \<Rightarrow> rs_list_tree (RsEntry p v pr) rest (iDepth + 1))"
  by pat_completeness auto
termination
  by (relation "measure (\<lambda>(p, xs, d). length xs)") (auto dest!: sym [THEN NDeepTree_length])

text \<open>\<open>None\<close>: the assertion that the list is not empty.\<close>

definition rowSetListToTree :: "int list \<Rightarrow> rs_tree option" where
  "rowSetListToTree pList =
     (case pList of [] \<Rightarrow> None | v # vs \<Rightarrow> Some (rs_list_tree (RsEntry RsNull v RsNull) vs 1))"

section \<open>Next and Test\<close>

definition sqlite3RowSetNext :: "rowset \<Rightarrow> (int option \<times> rowset) option" where
  "sqlite3RowSetNext p =
     (if pForest p \<noteq> [] then None
      else do {
        p \<leftarrow> (if \<not> rs_next p then
               do { e \<leftarrow> (if \<not> rs_sorted p then rowSetEntrySort (pEntry p) else Some (pEntry p));
                    Some (p \<lparr> pEntry := e, rs_sorted := True, rs_next := True \<rparr>) }
             else Some p);
        (case pEntry p of
           v # vs \<Rightarrow>
             let p = p \<lparr> pEntry := vs \<rparr>
             in Some (Some v, if vs = [] then sqlite3RowSetClear p else p)
         | [] \<Rightarrow> Some (None, p))
      })"

text \<open>
  The loop over the forest that merges the new entries: the result is the updated forest and,
  when no tree was empty, the list that still needs a place.
\<close>

fun rs_place :: "rs_tree list \<Rightarrow> int list \<Rightarrow> (rs_tree list \<times> int list option) option" where
  "rs_place [] p = Some ([], Some p)"
| "rs_place (t # ts) p =
     (if t = RsNull then do { t' \<leftarrow> rowSetListToTree p; Some (t' # ts, None) }
      else do {
        (ts', r) \<leftarrow> rs_place ts (rowSetEntryMerge (rowSetTreeToList t) p);
        Some (RsNull # ts', r) })"

fun rs_search :: "rs_tree \<Rightarrow> int \<Rightarrow> bool" where
  "rs_search RsNull iRowid = False"
| "rs_search (RsEntry l v r) iRowid =
     (if v < iRowid then rs_search r iRowid
      else if v > iRowid then rs_search l iRowid
      else True)"

definition sqlite3RowSetTest :: "(nat \<Rightarrow> bool) \<Rightarrow> rowset \<Rightarrow> int \<Rightarrow> int \<Rightarrow> (bool \<times> rowset) option" where
  "sqlite3RowSetTest alloc p iBat iRowid =
     (if rs_next p then None
      else do {
        p \<leftarrow> (if iBat \<noteq> iBatch p then
               do {
                 p \<leftarrow> (if pEntry p \<noteq> [] then
                        do {
                          e \<leftarrow> (if \<not> rs_sorted p then rowSetEntrySort (pEntry p) else Some (pEntry p));
                          (f, rest) \<leftarrow> rs_place (pForest p) e;
                          p \<leftarrow> (case rest of
                                 None \<Rightarrow> Some (p \<lparr> pForest := f \<rparr>)
                               | Some e \<Rightarrow>
                                   (case rowSetEntryAlloc alloc p of
                                      (True, p) \<Rightarrow>
                                        do { t \<leftarrow> rowSetListToTree e; Some (p \<lparr> pForest := f @ [t] \<rparr>) }
                                    | (False, p) \<Rightarrow> Some (p \<lparr> pForest := f \<rparr>)));
                          Some (p \<lparr> pEntry := [], pLast := None, rs_sorted := True \<rparr>)
                        }
                      else Some p);
                 Some (p \<lparr> iBatch := iBat \<rparr>)
               }
             else Some p);
        Some (list_ex (\<lambda>t. rs_search t iRowid) (pForest p), p)
      })"

section \<open>Correctness of sorting\<close>

abbreviation ssorted :: "int list \<Rightarrow> bool" where
  "ssorted \<equiv> sorted_wrt (<)"

lemma ssorted_unique: "ssorted xs \<Longrightarrow> xs = sorted_list_of_set (set xs)"
  by (simp add: sorted_list_of_set.idem_if_sorted_distinct strict_sorted_iff)

lemma merge_set: "set (rowSetEntryMerge as bs) = set as \<union> set bs"
proof (induction as bs rule: rowSetEntryMerge.induct)
  case (1 a as b bs)
  consider "a < b" "as = []" | "a < b" "as \<noteq> []" | "a = b" "as = []" | "a = b" "as \<noteq> []"
    | "b < a" "bs = []" | "b < a" "bs \<noteq> []"
    by fastforce
  then show ?case using 1 by cases (simp_all add: insert_commute)
qed simp_all

lemma merge_ssorted: "ssorted as \<Longrightarrow> ssorted bs \<Longrightarrow> ssorted (rowSetEntryMerge as bs)"
proof (induction as bs rule: rowSetEntryMerge.induct)
  case (1 a as b bs)
  then show ?case
    by (cases a b rule: linorder_cases) (auto simp: merge_set split: if_splits)
qed auto

lemma merge_nonempty: "as \<noteq> [] \<or> bs \<noteq> [] \<Longrightarrow> rowSetEntryMerge as bs \<noteq> []"
  using merge_set [of as bs] by auto

text \<open>
  The buckets as a binary counter: bucket \<open>i\<close> is in use exactly when bit \<open>i\<close> of the number of
  entries processed is set, so 40 buckets serve up to 2 to the 40th entries.
\<close>

fun rs_count :: "int list list \<Rightarrow> nat" where
  "rs_count [] = 0"
| "rs_count (b # bs) = (if b = [] then 0 else 1) + 2 * rs_count bs"

lemma carry_ok:
  "rs_count bs + 1 < 2 ^ length bs \<Longrightarrow> list_all ssorted bs \<Longrightarrow> ssorted p \<Longrightarrow> p \<noteq> [] \<Longrightarrow>
   \<exists>bs'. rs_carry bs p = Some bs' \<and> length bs' = length bs \<and> rs_count bs' = rs_count bs + 1 \<and>
     list_all ssorted bs' \<and> \<Union> (set ` set bs') = set p \<union> \<Union> (set ` set bs)"
proof (induction bs p rule: rs_carry.induct)
  case (2 b bs pIn)
  show ?case
  proof (cases "b = []")
    case True
    with 2(3-5) show ?thesis by simp
  next
    case False
    with 2(2) have "2 * (rs_count bs + 1) < 2 * 2 ^ length bs" by (simp add: algebra_simps)
    then have c: "rs_count bs + 1 < 2 ^ length bs" by (simp only: nat_mult_less_cancel1)
    have s: "list_all ssorted bs" "ssorted (rowSetEntryMerge b pIn)" "rowSetEntryMerge b pIn \<noteq> []"
      using 2(3-5) merge_ssorted [of b pIn] merge_nonempty [of b pIn] by auto
    obtain bs' where "rs_carry bs (rowSetEntryMerge b pIn) = Some bs'" "length bs' = length bs"
        "rs_count bs' = rs_count bs + 1" "list_all ssorted bs'"
        "\<Union> (set ` set bs') = set (rowSetEntryMerge b pIn) \<union> \<Union> (set ` set bs)"
      using 2(1) [OF False c s] by blast
    with False show ?thesis
      by (intro exI [of _ "[] # bs'"]) (simp add: merge_set Un_assoc Un_left_commute)
  qed
qed simp

lemma fill_ok:
  "rs_count bs + length xs < 2 ^ length bs \<Longrightarrow> list_all ssorted bs \<Longrightarrow>
   \<exists>bs'. rs_fill xs bs = Some bs' \<and> length bs' = length bs \<and> list_all ssorted bs' \<and>
     \<Union> (set ` set bs') = set xs \<union> \<Union> (set ` set bs)"
proof (induction xs arbitrary: bs)
  case (Cons x xs)
  then obtain b where "rs_carry bs [x] = Some b" "length b = length bs" "rs_count b = rs_count bs + 1"
      "list_all ssorted b" "\<Union> (set ` set b) = {x} \<union> \<Union> (set ` set bs)"
    using carry_ok [of bs "[x]"] by auto
  with Cons.prems Cons.IH [of b] show ?case by auto
qed auto

lemma collect_ok:
  "list_all ssorted bs \<Longrightarrow> ssorted p \<Longrightarrow>
   ssorted (rs_collect p bs) \<and> set (rs_collect p bs) = set p \<union> \<Union> (set ` set bs)"
  by (induction p bs rule: rs_collect.induct) (auto simp: merge_ssorted merge_set)

lemma rs_count_empty [simp]: "rs_count (replicate n []) = 0"
  by (induction n) auto

lemma EntrySort_ok:
  assumes "length xs < 2 ^ 40"
  shows "rowSetEntrySort xs = Some (sorted_list_of_set (set xs))"
proof -
  obtain b where b: "rs_fill xs (replicate 40 []) = Some b" "length b = 40" "list_all ssorted b"
      "\<Union> (set ` set b) = set xs"
    using fill_ok [of "replicate 40 []" xs] assms by (auto simp: list_all_iff)
  then obtain c cs where c: "b = c # cs" by (cases b) auto
  then have "ssorted (rs_collect c cs)" "set (rs_collect c cs) = set xs"
    using collect_ok [of cs c] b by auto
  then show ?thesis
    using ssorted_unique [of "rs_collect c cs"] b(1) c by (simp add: rowSetEntrySort_def)
qed

section \<open>Correctness of the trees\<close>

lemma list_tree_ok: "rowSetTreeToList (rs_list_tree p xs d) = rowSetTreeToList p @ xs"
proof (induction p xs d rule: rs_list_tree.induct)
  case (2 p v xs d)
  obtain pr rest where r: "rowSetNDeepTree xs d = (pr, rest)" by force
  with 2 NDeepTree_list [OF r] show ?case by auto
qed simp

lemma list_tree_nonnull: "p \<noteq> RsNull \<Longrightarrow> rs_list_tree p xs d \<noteq> RsNull"
  by (induction p xs d rule: rs_list_tree.induct) (auto split: prod.splits)

lemma ListToTree_ok:
  "xs \<noteq> [] \<Longrightarrow> \<exists>t. rowSetListToTree xs = Some t \<and> t \<noteq> RsNull \<and> rowSetTreeToList t = xs"
  by (cases xs) (auto simp: rowSetListToTree_def list_tree_ok list_tree_nonnull)

abbreviation rs_set :: "rs_tree \<Rightarrow> int set" where
  "rs_set t \<equiv> set (rowSetTreeToList t)"

abbreviation rs_bst :: "rs_tree \<Rightarrow> bool" where
  "rs_bst t \<equiv> ssorted (rowSetTreeToList t)"

lemma search_ok: "rs_bst t \<Longrightarrow> rs_search t x \<longleftrightarrow> x \<in> rs_set t"
  by (induction t x rule: rs_search.induct) (auto simp: sorted_wrt_append split: if_splits)

definition forest_set :: "rs_tree list \<Rightarrow> int set" where
  "forest_set f = \<Union> (rs_set ` set f)"

lemma forest_set_simps [simp]:
  "forest_set [] = {}" "forest_set (t # ts) = rs_set t \<union> forest_set ts"
  "forest_set (f @ g) = forest_set f \<union> forest_set g"
  by (auto simp: forest_set_def)

lemma place_ok:
  "list_all rs_bst f \<Longrightarrow> ssorted p \<Longrightarrow> p \<noteq> [] \<Longrightarrow>
   \<exists>f' r. rs_place f p = Some (f', r) \<and> list_all rs_bst f' \<and>
     (case r of None \<Rightarrow> forest_set f' = forest_set f \<union> set p
      | Some q \<Rightarrow> ssorted q \<and> q \<noteq> [] \<and> forest_set f' \<union> set q = forest_set f \<union> set p)"
proof (induction f p rule: rs_place.induct)
  case (2 t ts p)
  show ?case
  proof (cases "t = RsNull")
    case True
    with 2 ListToTree_ok [of p] show ?thesis by auto
  next
    case False
    then obtain f' r where "rs_place ts (rowSetEntryMerge (rowSetTreeToList t) p) = Some (f', r)"
        "list_all rs_bst f'"
        "case r of None \<Rightarrow> forest_set f' = forest_set ts \<union> set (rowSetEntryMerge (rowSetTreeToList t) p)
         | Some q \<Rightarrow> ssorted q \<and> q \<noteq> [] \<and>
             forest_set f' \<union> set q = forest_set ts \<union> set (rowSetEntryMerge (rowSetTreeToList t) p)"
      using 2 merge_ssorted [of "rowSetTreeToList t" p] merge_nonempty [of "rowSetTreeToList t" p]
      by fastforce
    with False show ?thesis by (auto simp: merge_set split: option.splits)
  qed
qed simp

section \<open>The row set as a pair of sets\<close>

definition rs_inv :: "rowset \<Rightarrow> bool" where
  "rs_inv p \<longleftrightarrow>
     pLast p = (if pEntry p = [] then None else Some (last (pEntry p))) \<and>
     (rs_sorted p \<longrightarrow> ssorted (pEntry p)) \<and> list_all rs_bst (pForest p)"

text \<open>What a row set is: the numbers of the current batch and those of the earlier batches.\<close>

definition rs_abs :: "rowset \<Rightarrow> int set \<times> int set" where
  "rs_abs p = (set (pEntry p), forest_set (pForest p))"

lemma Init_ok: "rs_inv (sqlite3RowSetInit n)" "rs_abs (sqlite3RowSetInit n) = ({}, {})"
  by (simp_all add: sqlite3RowSetInit_def rs_inv_def rs_abs_def)

lemma Clear_ok: "rs_inv (sqlite3RowSetClear p)" "rs_abs (sqlite3RowSetClear p) = ({}, {})"
  by (simp_all add: sqlite3RowSetClear_def rs_inv_def rs_abs_def)

lemma EntryAlloc_fields:
  "rowSetEntryAlloc alloc p = (ok, p') \<Longrightarrow>
   pEntry p' = pEntry p \<and> pLast p' = pLast p \<and> pForest p' = pForest p \<and> rs_sorted p' = rs_sorted p \<and>
   rs_next p' = rs_next p \<and> iBatch p' = iBatch p"
  by (auto simp: rowSetEntryAlloc_def split: if_splits)

lemma ssorted_snoc: "ssorted xs \<Longrightarrow> xs = [] \<or> last xs < x \<Longrightarrow> ssorted (xs @ [x])"
proof (induction xs)
  case (Cons a xs)
  then show ?case by (cases "xs = []") (auto dest: bspec [OF _ last_in_set])
qed simp

lemma Insert_ok:
  assumes "rs_inv p" "\<not> rs_next p"
  shows "\<exists>p'. sqlite3RowSetInsert alloc p x = Some p' \<and> rs_inv p' \<and> \<not> rs_next p' \<and>
    iBatch p' = iBatch p \<and>
    (if fst (rowSetEntryAlloc alloc p) then pEntry p' = pEntry p @ [x] \<and> pForest p' = pForest p
     else pEntry p' = pEntry p \<and> pForest p' = pForest p)"
proof -
  obtain ok q where q: "rowSetEntryAlloc alloc p = (ok, q)" by force
  note f = EntryAlloc_fields [OF q]
  show ?thesis
  proof (cases ok)
    case False
    with q f assms show ?thesis by (simp add: sqlite3RowSetInsert_def rs_inv_def)
  next
    case True
    show ?thesis
    proof (cases "pEntry p = []")
      case True
      with \<open>ok\<close> q f assms show ?thesis by (simp add: sqlite3RowSetInsert_def rs_inv_def)
    next
      case False
      with \<open>ok\<close> q f assms show ?thesis
        by (auto simp: sqlite3RowSetInsert_def rs_inv_def Let_def ssorted_snoc not_le)
    qed
  qed
qed

text \<open>The first call of \<open>Next\<close> sorts; every call takes the smallest number left.\<close>

definition rs_ready :: "rowset \<Rightarrow> int list \<Rightarrow> bool" where
  "rs_ready p xs \<longleftrightarrow>
     pForest p = [] \<and>
     (if rs_next p then pEntry p = xs
      else (if rs_sorted p then pEntry p else sorted_list_of_set (set (pEntry p))) = xs \<and>
           length (pEntry p) < 2 ^ 40)"

lemma Next_ok:
  assumes "rs_ready p xs"
  shows "\<exists>p'. sqlite3RowSetNext p = Some (case xs of [] \<Rightarrow> None | v # vs \<Rightarrow> Some v, p') \<and> rs_ready p' (tl xs)"
proof -
  define q where "q = (if rs_next p then p else p \<lparr> pEntry := xs, rs_sorted := True, rs_next := True \<rparr>)"
  have q: "pEntry q = xs" "rs_next q" "pForest q = []"
    using assms by (simp_all add: rs_ready_def q_def)
  have "sqlite3RowSetNext p = (case pEntry q of
           v # vs \<Rightarrow>
             let p = q \<lparr> pEntry := vs \<rparr>
             in Some (Some v, if vs = [] then sqlite3RowSetClear p else p)
         | [] \<Rightarrow> Some (None, q))"
  proof (cases "rs_next p")
    case True
    then have "q = p" by (simp add: q_def)
    with True assms show ?thesis unfolding \<open>q = p\<close> by (simp add: rs_ready_def sqlite3RowSetNext_def)
  next
    case False
    then have qp: "q = p \<lparr> pEntry := xs, rs_sorted := True, rs_next := True \<rparr>" by (simp add: q_def)
    show ?thesis
      unfolding qp using False assms by (cases "rs_sorted p") (auto simp: rs_ready_def sqlite3RowSetNext_def EntrySort_ok)
  qed
  then show ?thesis
    using q by (cases xs; cases "tl xs")
      (simp_all add: Let_def rs_ready_def sqlite3RowSetClear_def)
qed

fun rs_drain :: "nat \<Rightarrow> rowset \<Rightarrow> (int list \<times> rowset) option" where
  "rs_drain 0 p = Some ([], p)"
| "rs_drain (Suc n) p =
     do { (r, p) \<leftarrow> sqlite3RowSetNext p;
          (case r of None \<Rightarrow> Some ([], p)
           | Some v \<Rightarrow> do { (vs, p) \<leftarrow> rs_drain n p; Some (v # vs, p) }) }"

lemma drain_ok:
  "rs_ready p xs \<Longrightarrow> length xs \<le> n \<Longrightarrow> \<exists>p'. rs_drain n p = Some (xs, p')"
proof (induction n arbitrary: p xs)
  case (Suc n)
  obtain p' where p': "sqlite3RowSetNext p = Some (case xs of [] \<Rightarrow> None | v # vs \<Rightarrow> Some v, p')"
      "rs_ready p' (tl xs)"
    using Next_ok [OF Suc.prems(1)] by blast
  show ?case
  proof (cases xs)
    case (Cons v vs)
    with Suc p' obtain p'' where "rs_drain n p' = Some (vs, p'')" by auto
    with Cons p' show ?thesis by simp
  qed (use p' in simp)
qed simp

fun rs_insert_all :: "(nat \<Rightarrow> bool) \<Rightarrow> rowset \<Rightarrow> int list \<Rightarrow> rowset option" where
  "rs_insert_all alloc p [] = Some p"
| "rs_insert_all alloc p (x # xs) =
     do { p \<leftarrow> sqlite3RowSetInsert alloc p x; rs_insert_all alloc p xs }"

lemma insert_all_ok:
  "rs_inv p \<Longrightarrow> \<not> rs_next p \<Longrightarrow>
   \<exists>p'. rs_insert_all (\<lambda>_. True) p xs = Some p' \<and> rs_inv p' \<and> \<not> rs_next p' \<and> iBatch p' = iBatch p \<and>
     pEntry p' = pEntry p @ xs \<and> pForest p' = pForest p"
proof (induction xs arbitrary: p)
  case (Cons x xs)
  have "fst (rowSetEntryAlloc (\<lambda>_. True) p)"
    by (simp add: rowSetEntryAlloc_def)
  then obtain q where "sqlite3RowSetInsert (\<lambda>_. True) p x = Some q" "rs_inv q" "\<not> rs_next q"
      "iBatch q = iBatch p" "pEntry q = pEntry p @ [x]" "pForest q = pForest p"
    using Insert_ok [OF Cons.prems, of "\<lambda>_. True" x] by auto
  with Cons.IH [of q] show ?case by auto
qed simp

lemma ready_init:
  assumes "rs_inv p" "\<not> rs_next p" "pForest p = []" "length (pEntry p) < 2 ^ 40"
  shows "rs_ready p (sorted_list_of_set (set (pEntry p)))"
  using assms ssorted_unique [of "pEntry p"] by (auto simp: rs_ready_def rs_inv_def)

text \<open>\<open>Test\<close> moves the current batch into the forest when the batch number changes.\<close>

lemma Test_ok:
  assumes inv: "rs_inv p" "\<not> rs_next p" "length (pEntry p) < 2 ^ 40" and alloc: "alloc = (\<lambda>_. True)"
  shows "\<exists>p'. sqlite3RowSetTest alloc p b x = Some (x \<in> snd (rs_abs p'), p') \<and> rs_inv p' \<and>
    \<not> rs_next p' \<and> iBatch p' = b \<and>
    rs_abs p' = (if b = iBatch p then rs_abs p else ({}, fst (rs_abs p) \<union> snd (rs_abs p)))"
proof -
  have search: "list_ex (\<lambda>t. rs_search t x) f \<longleftrightarrow> x \<in> forest_set f" if "list_all rs_bst f" for f
    using that by (auto simp: list_ex_iff list_all_iff search_ok forest_set_def)
  show ?thesis
  proof (cases "b = iBatch p \<or> pEntry p = []")
    case True
    with inv show ?thesis
      by (auto simp: sqlite3RowSetTest_def rs_abs_def rs_inv_def search)
  next
    case False
    define e where "e = (if rs_sorted p then pEntry p else sorted_list_of_set (set (pEntry p)))"
    have e: "(if \<not> rs_sorted p then rowSetEntrySort (pEntry p) else Some (pEntry p)) = Some e"
        "ssorted e" "set e = set (pEntry p)" "e \<noteq> []"
      using inv False EntrySort_ok by (auto simp: e_def rs_inv_def)
    have f: "list_all rs_bst (pForest p)" using inv by (simp add: rs_inv_def)
    obtain f' r where r: "rs_place (pForest p) e = Some (f', r)" "list_all rs_bst f'"
        "case r of None \<Rightarrow> forest_set f' = forest_set (pForest p) \<union> set e
         | Some q \<Rightarrow> ssorted q \<and> q \<noteq> [] \<and> forest_set f' \<union> set q = forest_set (pForest p) \<union> set e"
      using place_ok [OF f e(2,4)] by blast
    show ?thesis
    proof (cases r)
      case None
      with r e(3) inv False show ?thesis
        by (auto simp: sqlite3RowSetTest_def e(1) rs_abs_def rs_inv_def search)
    next
      case (Some q)
      then obtain t where t: "rowSetListToTree q = Some t" "rowSetTreeToList t = q"
        using r(3) ListToTree_ok [of q] by auto
      obtain p1 where p1: "rowSetEntryAlloc alloc p = (True, p1)"
        by (cases "nFresh p = 0") (simp_all add: rowSetEntryAlloc_def alloc)
      have set_t: "forest_set (f' @ [t]) = forest_set (pForest p) \<union> set (pEntry p)"
        and bst: "list_all rs_bst (f' @ [t])"
        using r(2,3) t(2) e(3) Some by simp_all
      have "sqlite3RowSetTest alloc p b x = Some (list_ex (\<lambda>t. rs_search t x) (f' @ [t]),
          p1 \<lparr> pForest := f' @ [t], pEntry := [], pLast := None, rs_sorted := True, iBatch := b \<rparr>)"
        using inv(2) False r(1) t(1) p1 Some by (simp add: sqlite3RowSetTest_def e(1) del: list_ex_append)
      then show ?thesis
        unfolding search [OF bst] set_t using set_t bst inv(2) False EntryAlloc_fields [OF p1]
        by (simp add: rs_abs_def rs_inv_def Un_commute)
    qed
  qed
qed

section \<open>Properties\<close>

text \<open>
  C20: After any numbers have been inserted into a new row set, in any order and with repetitions,
  repeated calls of \<open>Next\<close> deliver them in increasing order, each once, and then report the end:
  the bucket sort never runs out of its 40 buckets below 2 to the 40th entries.
\<close>
theorem rowset_next_sorted:
  assumes "length xs < 2 ^ 40"
  shows "\<exists>p p'. rs_insert_all (\<lambda>_. True) (sqlite3RowSetInit n) xs = Some p \<and>
    rs_drain (Suc (length xs)) p = Some (sorted_list_of_set (set xs), p')"
proof -
  have "\<not> rs_next (sqlite3RowSetInit n)" "pEntry (sqlite3RowSetInit n) = []"
    "pForest (sqlite3RowSetInit n) = []"
    by (simp_all add: sqlite3RowSetInit_def)
  then obtain p where p: "rs_insert_all (\<lambda>_. True) (sqlite3RowSetInit n) xs = Some p" "rs_inv p"
      "\<not> rs_next p" "pEntry p = xs" "pForest p = []"
    using insert_all_ok [OF Init_ok(1) [of n], of xs] by auto
  then have "rs_ready p (sorted_list_of_set (set xs))"
    using ready_init [of p] assms by simp
  moreover have "length (sorted_list_of_set (set xs)) \<le> Suc (length xs)"
    by (simp add: card_length le_SucI)
  ultimately show ?thesis using p(1) drain_ok by blast
qed

theorem rowset_next_sorted_witness:
  "\<exists>p p'. rs_insert_all (\<lambda>_. True) (sqlite3RowSetInit 512) [3, 1, 3, 2] = Some p \<and>
    rs_drain 5 p = Some ([1, 2, 3], p')"
proof -
  have "sorted_list_of_set (set [3, 1, 3, 2]) = [1, 2, 3 :: int]"
    using ssorted_unique [of "[1, 2, 3]"] by (simp add: insert_commute)
  moreover have "Suc (length [3, 1, 3, 2 :: int]) = 5" "length [3, 1, 3, 2 :: int] < 2 ^ 40"
    by simp_all
  ultimately show ?thesis
    using rowset_next_sorted [of "[3, 1, 3, 2]" 512] by metis
qed

text \<open>
  C36: With memory available, \<open>Test\<close> with a new batch number moves the numbers of the current
  batch into the forest of search trees and answers whether the number was inserted in an earlier
  batch; with the current batch number it changes nothing. The forest stays a list of search
  trees.
\<close>
theorem rowset_test_batches:
  assumes "rs_inv p" "\<not> rs_next p" "length (pEntry p) < 2 ^ 40"
  shows "\<exists>p'. sqlite3RowSetTest (\<lambda>_. True) p b x = Some (x \<in> snd (rs_abs p'), p') \<and> rs_inv p' \<and>
    \<not> rs_next p' \<and> iBatch p' = b \<and>
    rs_abs p' = (if b = iBatch p then rs_abs p else ({}, fst (rs_abs p) \<union> snd (rs_abs p)))"
  using Test_ok [OF assms refl] by simp

theorem rowset_test_batches_witness:
  "\<exists>p'. sqlite3RowSetTest (\<lambda>_. True) (sqlite3RowSetInit 512) 1 7 = Some (7 \<in> snd (rs_abs p'), p')"
  using rowset_test_batches [of "sqlite3RowSetInit 512" 1 7] Init_ok(1) [of 512]
  by (auto simp: sqlite3RowSetInit_def)

end
