(* ===== verification/Ctype.thy ===== *)
theory Ctype
  imports Prelude
begin

text \<open>
  The character tables of \<^verbatim>\<open>src/global.c\<close> (\<open>sqlite3UpperToLower\<close>, \<open>sqlite3CtypeMap\<close>) and the
  character tests of \<^verbatim>\<open>src/sqliteInt.h\<close> over them, with what each test accepts.

  A character is the number of its byte. A C string is the list of its bytes before the
  terminating zero; \<open>at z i\<close> is the byte \<open>z[i]\<close>, the terminator included.
\<close>

type_synonym ctext = "nat list"

abbreviation ch :: "char \<Rightarrow> nat" where
  "ch c \<equiv> of_char c"

definition at :: "ctext \<Rightarrow> nat \<Rightarrow> nat" where
  "at z i = (if i < length z then z ! i else 0)"

lemma at_simps [simp]: "at [] i = 0" "at (c # z) 0 = c" "at (c # z) (Suc i) = at z i"
  by (simp_all add: at_def)

lemma at_numeral [simp]: "at (c # z) (numeral n) = at z (pred_numeral n)"
  by (simp add: at_def)

text \<open>A proper C string: bytes other than zero.\<close>

definition is_text :: "ctext \<Rightarrow> bool" where
  "is_text z \<longleftrightarrow> list_all (\<lambda>c. 0 < c \<and> c < 256) z"

lemma is_text_simps [simp]:
  "is_text []" "is_text (c # z) \<longleftrightarrow> 0 < c \<and> c < 256 \<and> is_text z"
  "is_text (y @ z) \<longleftrightarrow> is_text y \<and> is_text z"
  by (auto simp: is_text_def)

section \<open>Tables\<close>

definition upper_to_lower :: "nat list" where
  "upper_to_lower =
     [0, 1, 2, 3, 4, 5, 6, 7, 8, 9, 10, 11, 12, 13, 14, 15, 16, 17,
      18, 19, 20, 21, 22, 23, 24, 25, 26, 27, 28, 29, 30, 31, 32, 33, 34, 35,
      36, 37, 38, 39, 40, 41, 42, 43, 44, 45, 46, 47, 48, 49, 50, 51, 52, 53,
      54, 55, 56, 57, 58, 59, 60, 61, 62, 63, 64, 97, 98, 99, 100, 101, 102, 103,
      104, 105, 106, 107, 108, 109, 110, 111, 112, 113, 114, 115, 116, 117, 118, 119, 120, 121,
      122, 91, 92, 93, 94, 95, 96, 97, 98, 99, 100, 101, 102, 103, 104, 105, 106, 107,
      108, 109, 110, 111, 112, 113, 114, 115, 116, 117, 118, 119, 120, 121, 122, 123, 124, 125,
      126, 127, 128, 129, 130, 131, 132, 133, 134, 135, 136, 137, 138, 139, 140, 141, 142, 143,
      144, 145, 146, 147, 148, 149, 150, 151, 152, 153, 154, 155, 156, 157, 158, 159, 160, 161,
      162, 163, 164, 165, 166, 167, 168, 169, 170, 171, 172, 173, 174, 175, 176, 177, 178, 179,
      180, 181, 182, 183, 184, 185, 186, 187, 188, 189, 190, 191, 192, 193, 194, 195, 196, 197,
      198, 199, 200, 201, 202, 203, 204, 205, 206, 207, 208, 209, 210, 211, 212, 213, 214, 215,
      216, 217, 218, 219, 220, 221, 222, 223, 224, 225, 226, 227, 228, 229, 230, 231, 232, 233,
      234, 235, 236, 237, 238, 239, 240, 241, 242, 243, 244, 245, 246, 247, 248, 249, 250, 251,
      252, 253, 254, 255]"

definition sqlite3CtypeMap :: "nat list" where
  "sqlite3CtypeMap =
     [0x00, 0x00, 0x00, 0x00, 0x00, 0x00, 0x00, 0x00, 0x00, 0x01, 0x01, 0x01, 0x01, 0x01, 0x00, 0x00,
      0x00, 0x00, 0x00, 0x00, 0x00, 0x00, 0x00, 0x00, 0x00, 0x00, 0x00, 0x00, 0x00, 0x00, 0x00, 0x00,
      0x01, 0x00, 0x80, 0x00, 0x40, 0x00, 0x00, 0x80, 0x00, 0x00, 0x00, 0x00, 0x00, 0x00, 0x00, 0x00,
      0x0c, 0x0c, 0x0c, 0x0c, 0x0c, 0x0c, 0x0c, 0x0c, 0x0c, 0x0c, 0x00, 0x00, 0x00, 0x00, 0x00, 0x00,
      0x00, 0x0a, 0x0a, 0x0a, 0x0a, 0x0a, 0x0a, 0x02, 0x02, 0x02, 0x02, 0x02, 0x02, 0x02, 0x02, 0x02,
      0x02, 0x02, 0x02, 0x02, 0x02, 0x02, 0x02, 0x02, 0x02, 0x02, 0x02, 0x80, 0x00, 0x00, 0x00, 0x40,
      0x80, 0x2a, 0x2a, 0x2a, 0x2a, 0x2a, 0x2a, 0x22, 0x22, 0x22, 0x22, 0x22, 0x22, 0x22, 0x22, 0x22,
      0x22, 0x22, 0x22, 0x22, 0x22, 0x22, 0x22, 0x22, 0x22, 0x22, 0x22, 0x00, 0x00, 0x00, 0x00, 0x00,
      0x40, 0x40, 0x40, 0x40, 0x40, 0x40, 0x40, 0x40, 0x40, 0x40, 0x40, 0x40, 0x40, 0x40, 0x40, 0x40,
      0x40, 0x40, 0x40, 0x40, 0x40, 0x40, 0x40, 0x40, 0x40, 0x40, 0x40, 0x40, 0x40, 0x40, 0x40, 0x40,
      0x40, 0x40, 0x40, 0x40, 0x40, 0x40, 0x40, 0x40, 0x40, 0x40, 0x40, 0x40, 0x40, 0x40, 0x40, 0x40,
      0x40, 0x40, 0x40, 0x40, 0x40, 0x40, 0x40, 0x40, 0x40, 0x40, 0x40, 0x40, 0x40, 0x40, 0x40, 0x40,
      0x40, 0x40, 0x40, 0x40, 0x40, 0x40, 0x40, 0x40, 0x40, 0x40, 0x40, 0x40, 0x40, 0x40, 0x40, 0x40,
      0x40, 0x40, 0x40, 0x40, 0x40, 0x40, 0x40, 0x40, 0x40, 0x40, 0x40, 0x40, 0x40, 0x40, 0x40, 0x40,
      0x40, 0x40, 0x40, 0x40, 0x40, 0x40, 0x40, 0x40, 0x40, 0x40, 0x40, 0x40, 0x40, 0x40, 0x40, 0x40,
      0x40, 0x40, 0x40, 0x40, 0x40, 0x40, 0x40, 0x40, 0x40, 0x40, 0x40, 0x40, 0x40, 0x40, 0x40, 0x40]"

definition UpperToLower :: "nat \<Rightarrow> nat" where
  "UpperToLower c = upper_to_lower ! c"

definition sqlite3Isspace :: "nat \<Rightarrow> bool" where
  "sqlite3Isspace x \<longleftrightarrow> sqlite3CtypeMap ! x AND 0x01 \<noteq> 0"

definition sqlite3Isalnum :: "nat \<Rightarrow> bool" where
  "sqlite3Isalnum x \<longleftrightarrow> sqlite3CtypeMap ! x AND 0x06 \<noteq> 0"

definition sqlite3Isalpha :: "nat \<Rightarrow> bool" where
  "sqlite3Isalpha x \<longleftrightarrow> sqlite3CtypeMap ! x AND 0x02 \<noteq> 0"

definition sqlite3Isdigit :: "nat \<Rightarrow> bool" where
  "sqlite3Isdigit x \<longleftrightarrow> sqlite3CtypeMap ! x AND 0x04 \<noteq> 0"

definition sqlite3Isxdigit :: "nat \<Rightarrow> bool" where
  "sqlite3Isxdigit x \<longleftrightarrow> sqlite3CtypeMap ! x AND 0x08 \<noteq> 0"

definition sqlite3Isquote :: "nat \<Rightarrow> bool" where
  "sqlite3Isquote x \<longleftrightarrow> sqlite3CtypeMap ! x AND 0x80 \<noteq> 0"

definition IdChar :: "nat \<Rightarrow> bool" where
  "IdChar x \<longleftrightarrow> sqlite3CtypeMap ! x AND 0x46 \<noteq> 0"

definition sqlite3Toupper :: "nat \<Rightarrow> nat" where
  "sqlite3Toupper x = x - (sqlite3CtypeMap ! x AND 0x20)"

section \<open>What the tables say\<close>

definition ctype :: "nat \<Rightarrow> nat" where
  "ctype c =
     (if c < 9 then 0 else if c < 14 then 0x01 else if c < 32 then 0 else if c = 32 then 0x01
      else if c = 34 \<or> c = 39 then 0x80 else if c = 36 then 0x40 else if c < 48 then 0
      else if c < 58 then 0x0c else if c < 65 then 0 else if c < 71 then 0x0a
      else if c < 91 then 0x02 else if c = 91 then 0x80 else if c < 95 then 0
      else if c = 95 then 0x40 else if c = 96 then 0x80 else if c < 103 then 0x2a
      else if c < 123 then 0x22 else if c < 128 then 0 else 0x40)"

lemma CtypeMap_map: "sqlite3CtypeMap = map ctype [0..<256]"
  by code_simp

lemma CtypeMap_eq: "c < 256 \<Longrightarrow> sqlite3CtypeMap ! c = ctype c"
  unfolding CtypeMap_map by simp

lemma upper_to_lower_map: "upper_to_lower = map (\<lambda>c. if 65 \<le> c \<and> c \<le> 90 then c + 32 else c) [0..<256]"
  by code_simp

lemma UpperToLower_eq: "c < 256 \<Longrightarrow> UpperToLower c = (if 65 \<le> c \<and> c \<le> 90 then c + 32 else c)"
  unfolding UpperToLower_def upper_to_lower_map by simp

lemma Isspace_eq: "c < 256 \<Longrightarrow> sqlite3Isspace c \<longleftrightarrow> c = 32 \<or> 9 \<le> c \<and> c \<le> 13"
  by (auto simp: sqlite3Isspace_def CtypeMap_eq ctype_def)

lemma Isdigit_eq: "c < 256 \<Longrightarrow> sqlite3Isdigit c \<longleftrightarrow> 48 \<le> c \<and> c \<le> 57"
  by (auto simp: sqlite3Isdigit_def CtypeMap_eq ctype_def)

lemma Isxdigit_eq:
  "c < 256 \<Longrightarrow> sqlite3Isxdigit c \<longleftrightarrow> 48 \<le> c \<and> c \<le> 57 \<or> 65 \<le> c \<and> c \<le> 70 \<or> 97 \<le> c \<and> c \<le> 102"
  by (auto simp: sqlite3Isxdigit_def CtypeMap_eq ctype_def)

lemma Isalpha_eq: "c < 256 \<Longrightarrow> sqlite3Isalpha c \<longleftrightarrow> 65 \<le> c \<and> c \<le> 90 \<or> 97 \<le> c \<and> c \<le> 122"
  by (auto simp: sqlite3Isalpha_def CtypeMap_eq ctype_def)

lemma Isquote_eq: "c < 256 \<Longrightarrow> sqlite3Isquote c \<longleftrightarrow> c \<in> {34, 39, 91, 96}"
  by (auto simp: sqlite3Isquote_def CtypeMap_eq ctype_def)

lemma IdChar_eq:
  "c < 256 \<Longrightarrow> IdChar c \<longleftrightarrow> sqlite3Isalnum c \<or> c = 36 \<or> c = 95 \<or> 128 \<le> c"
  by (auto simp: IdChar_def sqlite3Isalnum_def CtypeMap_eq ctype_def)

lemma Isalnum_eq: "c < 256 \<Longrightarrow> sqlite3Isalnum c \<longleftrightarrow> sqlite3Isalpha c \<or> sqlite3Isdigit c"
  by (auto simp: sqlite3Isalnum_def sqlite3Isalpha_def sqlite3Isdigit_def CtypeMap_eq ctype_def)

lemma Toupper_eq: "c < 256 \<Longrightarrow> sqlite3Toupper c = (if 97 \<le> c \<and> c \<le> 122 then c - 32 else c)"
  by (auto simp: sqlite3Toupper_def CtypeMap_eq ctype_def)

lemma UpperToLower_less: "c < 256 \<Longrightarrow> UpperToLower c < 256"
  by (simp add: UpperToLower_eq)

lemma UpperToLower_idem: "c < 256 \<Longrightarrow> UpperToLower (UpperToLower c) = UpperToLower c"
  by (simp add: UpperToLower_eq)

lemma UpperToLower_0 [simp]: "UpperToLower 0 = 0"
  by (simp add: UpperToLower_eq)

lemma UpperToLower_eq_0: "c < 256 \<Longrightarrow> UpperToLower c = 0 \<longleftrightarrow> c = 0"
  by (simp add: UpperToLower_eq)

lemma NUL_tests [simp]:
  "\<not> sqlite3Isspace 0" "\<not> sqlite3Isdigit 0" "\<not> sqlite3Isxdigit 0" "\<not> sqlite3Isquote 0"
  by (simp_all add: Isspace_eq Isdigit_eq Isxdigit_eq Isquote_eq)

text \<open>Two letters are the same letter to all case-insensitive routines.\<close>

lemma case_folding:
  assumes "c < 256"
  shows "UpperToLower (sqlite3Toupper c) = UpperToLower c \<and>
    (sqlite3Isalpha c \<longleftrightarrow> UpperToLower c \<noteq> sqlite3Toupper c)"
  using assms by (auto simp: UpperToLower_eq Toupper_eq Isalpha_eq)

end
