(* ===== verification/UtilText.thy ===== *)
theory UtilText
  imports Ctype "HOL-Library.List_Lexorder"
begin

text \<open>
  The text routines of \<^verbatim>\<open>src/util.c\<close>: case-insensitive comparison (\<open>sqlite3StrICmp\<close>,
  \<open>sqlite3_stricmp\<close>, \<open>sqlite3_strnicmp\<close>, \<open>sqlite3StrIHash\<close>), integer rendering and parsing
  (\<open>sqlite3Int64ToText\<close>, \<open>compare2pow63\<close>, \<open>sqlite3Atoi64\<close>, \<open>sqlite3DecOrHexToI64\<close>,
  \<open>sqlite3GetInt32\<close>, \<open>sqlite3GetUInt32\<close>), hexadecimal (\<open>sqlite3HexToInt\<close>,
  \<open>sqlite3HexToBlob\<close>) and quoting (\<open>sqlite3Dequote\<close>, \<open>sqlite3DequoteToken\<close>).
\<close>

section \<open>Comparison\<close>

fun sqlite3StrICmp :: "ctext \<Rightarrow> ctext \<Rightarrow> int" where
  "sqlite3StrICmp (c # a) (x # b) =
     (if c = x then sqlite3StrICmp a b
      else let d = int (UpperToLower c) - int (UpperToLower x)
           in if d \<noteq> 0 then d else sqlite3StrICmp a b)"
| "sqlite3StrICmp [] [] = 0"
| "sqlite3StrICmp (c # a) [] = int (UpperToLower c) - int (UpperToLower 0)"
| "sqlite3StrICmp [] (x # b) = int (UpperToLower 0) - int (UpperToLower x)"

definition sqlite3_stricmp :: "ctext option \<Rightarrow> ctext option \<Rightarrow> int" where
  "sqlite3_stricmp zLeft zRight =
     (case zLeft of
        None \<Rightarrow> (if zRight \<noteq> None then -1 else 0)
      | Some l \<Rightarrow> (case zRight of None \<Rightarrow> 1 | Some r \<Rightarrow> sqlite3StrICmp l r))"

text \<open>\<open>N\<close> counts down; \<open>N < 0\<close> after the loop means that \<open>N\<close> characters were equal.\<close>

fun strnicmp_loop :: "nat \<Rightarrow> ctext \<Rightarrow> ctext \<Rightarrow> int" where
  "strnicmp_loop 0 a b = 0"
| "strnicmp_loop (Suc n) a b =
     (if at a 0 \<noteq> 0 \<and> UpperToLower (at a 0) = UpperToLower (at b 0) then strnicmp_loop n (tl a) (tl b)
      else int (UpperToLower (at a 0)) - int (UpperToLower (at b 0)))"

definition sqlite3_strnicmp :: "ctext option \<Rightarrow> ctext option \<Rightarrow> int \<Rightarrow> int" where
  "sqlite3_strnicmp zLeft zRight N =
     (case zLeft of
        None \<Rightarrow> (if zRight \<noteq> None then -1 else 0)
      | Some l \<Rightarrow> (case zRight of None \<Rightarrow> 1 | Some r \<Rightarrow> strnicmp_loop (nat N) l r))"

definition sqlite3StrIHash :: "ctext option \<Rightarrow> nat" where
  "sqlite3StrIHash z =
     (case z of None \<Rightarrow> 0 | Some z \<Rightarrow> fold (\<lambda>c h. (h + UpperToLower c) mod 256) z 0)"

section \<open>Integers as text\<close>

text \<open>
  The digits are stored from the end of a buffer of 22 bytes, so the list grows to the left.
\<close>

function int64_digits :: "nat \<Rightarrow> ctext \<Rightarrow> ctext" where
  "int64_digits x acc =
     (let acc = (x mod 10 + ch CHR ''0'') # acc; x = x div 10
      in if x = 0 then acc else int64_digits x acc)"
  by pat_completeness auto
termination by (relation "measure fst") auto

declare int64_digits.simps [simp del]

definition sqlite3Int64ToText :: "int \<Rightarrow> (ctext \<times> nat) option" where
  "sqlite3Int64ToText v =
     do {
       x \<leftarrow> (if v < 0 then
               (if v = SMALLEST_INT64 then Some (2 ^ 63) else map_option nat (i64 (- v)))
             else Some (nat v));
       let t = int64_digits x []; t = (if v < 0 then ch CHR ''-'' # t else t)
       in if length t \<le> 21 then Some (t, length t) else None
     }"

text \<open>
  \<open>compare2pow63\<close> and \<open>sqlite3Atoi64\<close> work on the characters \<open>zNum[0]\<close>, \<open>zNum[incr]\<close>, \<dots> below
  \<open>zEnd\<close>; \<open>cs\<close> is the list of them.
\<close>

fun cmp_pow63 :: "ctext \<Rightarrow> ctext \<Rightarrow> int" where
  "cmp_pow63 cs [] = 0"
| "cmp_pow63 cs (p # ps) =
     (let c = (int (at cs 0) - int p) * 10
      in if c = 0 then cmp_pow63 (tl cs) ps else c)"

definition compare2pow63 :: "ctext \<Rightarrow> int" where
  "compare2pow63 zNum =
     (let c = cmp_pow63 zNum (map ch ''922337203685477580'')
      in if c = 0 then int (at zNum 18) - int (ch CHR ''8'') else c)"

fun atoi_digits :: "ctext \<Rightarrow> u64 \<Rightarrow> nat \<Rightarrow> u64 \<times> nat \<times> ctext" where
  "atoi_digits (c # cs) u i =
     (if c \<ge> ch CHR ''0'' \<and> c \<le> ch CHR ''9'' then
        atoi_digits cs (u * 10 + of_nat c - of_nat (ch CHR ''0'')) (i + 1)
      else (u, i, c # cs))"
| "atoi_digits [] u i = (u, i, [])"

definition atoi_core :: "ctext \<Rightarrow> bool \<Rightarrow> int \<times> int" where
  "atoi_core cs nonNum =
     (let cs = dropWhile sqlite3Isspace cs;
          neg = (case cs of c # _ \<Rightarrow> c = ch CHR ''-'' | [] \<Rightarrow> False);
          zStart = (case cs of c # r \<Rightarrow> if c = ch CHR ''-'' \<or> c = ch CHR ''+'' then r else cs | [] \<Rightarrow> []);
          zNum = dropWhile (\<lambda>c. c = ch CHR ''0'') zStart;
          (u, i, rest) = atoi_digits zNum 0 0;
          pNum = (if u > 0x7fffffffffffffff then (if neg then SMALLEST_INT64 else LARGEST_INT64)
                  else if neg then - uint u else uint u);
          rc = (if i = 0 \<and> length zStart = length zNum then -1
                else if nonNum then 1
                else if rest \<noteq> [] then (if list_ex (\<lambda>c. \<not> sqlite3Isspace c) rest then 1 else 0)
                else 0)
      in if i < 19 then (rc, pNum)
         else let c = (if i > 19 then 1 else compare2pow63 zNum)
              in if c < 0 then (rc, pNum)
                 else let pNum = (if neg then SMALLEST_INT64 else LARGEST_INT64)
                      in if c > 0 then (2, pNum)
                         else if neg then (rc, pNum) else (3, pNum))"

datatype text_enc = SQLITE_UTF8 | SQLITE_UTF16LE | SQLITE_UTF16BE

text \<open>
  The scan for a UTF-16 character whose high byte is not zero: \<open>i\<close> is 1 (little endian) or 0
  (big endian) at first; the result is the index where the scan stops.
\<close>

function utf16_scan :: "ctext \<Rightarrow> nat \<Rightarrow> nat \<Rightarrow> nat" where
  "utf16_scan z len i = (if i < len \<and> z ! i = 0 then utf16_scan z len (i + 2) else i)"
  by pat_completeness auto
termination by (relation "measure (\<lambda>(z, len, i). len - i)") auto

declare utf16_scan.simps [simp del]

function every_other :: "ctext \<Rightarrow> nat \<Rightarrow> nat \<Rightarrow> ctext" where
  "every_other z p e = (if p < e \<and> p < length z then z ! p # every_other z (p + 2) e else [])"
  by pat_completeness auto
termination by (relation "measure (\<lambda>(z, p, e). e - p)") auto

declare every_other.simps [simp del]

text \<open>The result is the return code and \<open>*pNum\<close>; \<open>zNum\<close> is a buffer of at least \<open>len\<close> bytes.\<close>

definition sqlite3Atoi64 :: "ctext \<Rightarrow> nat \<Rightarrow> text_enc \<Rightarrow> int \<times> int" where
  "sqlite3Atoi64 zNum len enc =
     (case enc of
        SQLITE_UTF8 \<Rightarrow> atoi_core (take len zNum) False
      | SQLITE_UTF16LE \<Rightarrow>
          let len = len - len mod 2; i = utf16_scan zNum len 1; nonNum = (i < len); zEnd = i - 1
          in atoi_core (every_other zNum 0 zEnd) nonNum
      | SQLITE_UTF16BE \<Rightarrow>
          let len = len - len mod 2; i = utf16_scan zNum len 0; nonNum = (i < len); zEnd = i + 1
          in atoi_core (every_other zNum 1 zEnd) nonNum)"

section \<open>Hexadecimal\<close>

definition sqlite3HexToInt :: "nat \<Rightarrow> nat option" where
  "sqlite3HexToInt h =
     (if ch CHR ''0'' \<le> h \<and> h \<le> ch CHR ''9'' \<or> ch CHR ''a'' \<le> h \<and> h \<le> ch CHR ''f'' \<or>
         ch CHR ''A'' \<le> h \<and> h \<le> ch CHR ''F'' then
        let h = h + 9 * (drop_bit 6 h mod 2) in Some (h mod 16)
      else None)"

fun hex_digits :: "ctext \<Rightarrow> u64 \<Rightarrow> nat \<Rightarrow> (u64 \<times> nat \<times> ctext) option" where
  "hex_digits [] u k = Some (u, k, [])"
| "hex_digits (c # z) u k =
     (if sqlite3Isxdigit c then
        do { h \<leftarrow> sqlite3HexToInt c; hex_digits z (u * 16 + of_nat h) (k + 1) }
      else Some (u, k, c # z))"

definition sqlite3DecOrHexToI64 :: "ctext \<Rightarrow> (int \<times> int) option" where
  "sqlite3DecOrHexToI64 z =
     (if at z 0 = ch CHR ''0'' \<and> (at z 1 = ch CHR ''x'' \<or> at z 1 = ch CHR ''X'') then
        do {
          (u, k, rest) \<leftarrow> hex_digits (dropWhile (\<lambda>c. c = ch CHR ''0'') (drop 2 z)) 0 0;
          Some (if k > 16 then 2 else if rest \<noteq> [] then 1 else 0, sint u)
        }
      else
        let n = length (takeWhile (\<lambda>c. c \<in> set (map ch ''+- '' @ [10, 9] @ map ch ''0123456789'')) z) mod 2 ^ 30;
            n = (if at z n \<noteq> 0 then n + 1 else n)
        in Some (sqlite3Atoi64 z n SQLITE_UTF8))"

text \<open>
  \<open>sqlite3HexToBlob\<close>: \<open>z\<close> holds the hexadecimal digits and the closing quote, \<open>n\<close> characters in
  all; the result is the bytes stored before the terminating zero.
\<close>

fun hex_blob :: "ctext \<Rightarrow> nat \<Rightarrow> ctext option" where
  "hex_blob z 0 = Some []"
| "hex_blob (a # b # z) (Suc n) =
     do { h \<leftarrow> sqlite3HexToInt a; l \<leftarrow> sqlite3HexToInt b; r \<leftarrow> hex_blob z (n - 1); Some ((h * 16 + l) mod 256 # r) }"
| "hex_blob z (Suc n) = None"

definition sqlite3HexToBlob :: "ctext \<Rightarrow> nat \<Rightarrow> ctext option" where
  "sqlite3HexToBlob z n = hex_blob z (n - 1)"

section \<open>32-bit integers\<close>

text \<open>The result is the value stored through \<open>pValue\<close>, or \<open>None\<close> for a return of 0.\<close>

fun dec11 :: "nat \<Rightarrow> ctext \<Rightarrow> int \<Rightarrow> nat \<Rightarrow> int \<times> nat" where
  "dec11 0 z v i = (v, i)"
| "dec11 (Suc n) z v i =
     (let c = int (at z 0) - int (ch CHR ''0'')
      in if c \<ge> 0 \<and> c \<le> 9 then dec11 n (tl z) (v * 10 + c) (i + 1) else (v, i))"

fun hex8 :: "nat \<Rightarrow> ctext \<Rightarrow> u32 \<Rightarrow> (u32 \<times> ctext) option" where
  "hex8 0 z u = Some (u, z)"
| "hex8 (Suc n) z u =
     (if sqlite3Isxdigit (at z 0) then
        do { h \<leftarrow> sqlite3HexToInt (at z 0); hex8 n (tl z) (u * 16 + of_nat h) }
      else Some (u, z))"

definition getint32_dec :: "ctext \<Rightarrow> bool \<Rightarrow> int option" where
  "getint32_dec zNum neg =
     (if \<not> sqlite3Isdigit (at zNum 0) then None
      else
        let zNum = dropWhile (\<lambda>c. c = ch CHR ''0'') zNum; (v, i) = dec11 11 zNum 0 0
        in if i > 10 then None
           else if v - (if neg then 1 else 0) > 2147483647 then None
           else Some (if neg then - v else v))"

definition sqlite3GetInt32 :: "ctext \<Rightarrow> int option option" where
  "sqlite3GetInt32 zNum =
     (if at zNum 0 = ch CHR ''-'' then Some (getint32_dec (tl zNum) True)
      else if at zNum 0 = ch CHR ''+'' then Some (getint32_dec (tl zNum) False)
      else if at zNum 0 = ch CHR ''0'' \<and> (at zNum 1 = ch CHR ''x'' \<or> at zNum 1 = ch CHR ''X'') \<and>
              sqlite3Isxdigit (at zNum 2) then
        do {
          (u, z) \<leftarrow> hex8 8 (dropWhile (\<lambda>c. c = ch CHR ''0'') (drop 2 zNum)) 0;
          Some (if u AND 0x80000000 = 0 \<and> \<not> sqlite3Isxdigit (at z 0) then Some (sint u) else None)
        }
      else Some (getint32_dec zNum False))"

text \<open>The result is the return value and \<open>*pI\<close>.\<close>

fun uint32_digits :: "ctext \<Rightarrow> nat \<Rightarrow> nat \<Rightarrow> (nat \<times> nat \<times> ctext) option" where
  "uint32_digits [] v i = Some (v, i, [])"
| "uint32_digits (c # z) v i =
     (if sqlite3Isdigit c then
        let v = v * 10 + c - ch CHR ''0''
        in if v > 4294967296 then None else uint32_digits z v (i + 1)
      else Some (v, i, c # z))"

definition sqlite3GetUInt32 :: "ctext \<Rightarrow> bool \<times> nat" where
  "sqlite3GetUInt32 z =
     (case uint32_digits z 0 0 of
        None \<Rightarrow> (False, 0)
      | Some (v, i, rest) \<Rightarrow>
          if i = 0 \<or> rest \<noteq> [] then (False, 0) else (True, v mod 2 ^ 32))"

section \<open>Quotes\<close>

text \<open>
  The loop of \<open>sqlite3Dequote\<close> from \<open>z[i]\<close> on: the characters stored from \<open>z[0]\<close> on, before the
  new terminator. \<open>None\<close> is the failing \<open>assert( z[i] )\<close>.
\<close>

fun dequote_loop :: "nat \<Rightarrow> ctext \<Rightarrow> ctext option" where
  "dequote_loop q [] = None"
| "dequote_loop q (c # z) =
     (if c = q then
        (case z of
           c' # z' \<Rightarrow> if c' = q then map_option ((#) q) (dequote_loop q z') else Some []
         | [] \<Rightarrow> Some [])
      else map_option ((#) c) (dequote_loop q z))"

definition sqlite3Dequote :: "ctext option \<Rightarrow> ctext option option" where
  "sqlite3Dequote z =
     (case z of
        None \<Rightarrow> Some None
      | Some z \<Rightarrow>
          (if \<not> sqlite3Isquote (at z 0) then Some (Some z)
           else let q = (if at z 0 = ch CHR ''['' then ch CHR '']'' else at z 0)
                in map_option Some (dequote_loop q (tl z))))"

text \<open>A token is its text; its length \<open>n\<close> is the length of the list.\<close>

definition sqlite3DequoteToken :: "ctext \<Rightarrow> ctext" where
  "sqlite3DequoteToken p =
     (if length p < 2 then p
      else if \<not> sqlite3Isquote (p ! 0) then p
      else if list_ex sqlite3Isquote (take (length p - 2) (tl p)) then p
      else take (length p - 2) (tl p))"

section \<open>Comparison is the order of the folded texts\<close>

definition cmp3 :: "'a :: linorder \<Rightarrow> 'a \<Rightarrow> int" where
  "cmp3 a b = (if a < b then - 1 else if a = b then 0 else 1)"

lemma cmp3_lists [simp]:
  "cmp3 [] [] = 0" "cmp3 [] (y # b) = - 1" "cmp3 (x # a) [] = 1"
  "cmp3 (x # a) (y # b) = (if x < y then - 1 else if x = y then cmp3 a b else 1)"
  by (auto simp: cmp3_def)

lemma sgn_diff: "sgn (int x - int y) = (if x < y then - 1 else if x = y then 0 else 1)"
  by (simp add: sgn_if)

lemma StrICmp_Cons:
  "sqlite3StrICmp (c # a) (x # b) =
     (if UpperToLower c = UpperToLower x then sqlite3StrICmp a b
      else int (UpperToLower c) - int (UpperToLower x))"
  by (simp add: Let_def)

lemma StrICmp_sgn:
  "is_text a \<Longrightarrow> is_text b \<Longrightarrow>
   sgn (sqlite3StrICmp a b) = cmp3 (map UpperToLower a) (map UpperToLower b)"
proof (induction a b rule: sqlite3StrICmp.induct)
  case (1 c a x b)
  then have "sgn (sqlite3StrICmp a b) = cmp3 (map UpperToLower a) (map UpperToLower b)"
    if "UpperToLower c = UpperToLower x"
    using that by (cases "c = x") auto
  then show ?case
    by (simp only: StrICmp_Cons list.map cmp3_lists sgn_diff if_distrib [of sgn]) simp
qed (auto simp: UpperToLower_eq_0 sgn_if)

lemma strnicmp_sgn:
  "is_text a \<Longrightarrow> is_text b \<Longrightarrow>
   sgn (strnicmp_loop n a b) = cmp3 (take n (map UpperToLower a)) (take n (map UpperToLower b))"
proof (induction n a b rule: strnicmp_loop.induct)
  case (2 n a b)
  show ?case
  proof (cases a)
    case Nil
    with 2 show ?thesis by (cases b) (auto simp: sgn_if UpperToLower_eq_0)
  next
    case (Cons c a')
    show ?thesis
    proof (cases b)
      case Nil
      with 2 Cons show ?thesis by (simp add: sgn_if UpperToLower_eq_0)
    next
      case (Cons x b')
      with 2 \<open>a = c # a'\<close> show ?thesis by (simp add: sgn_diff)
    qed
  qed
qed simp

lemma StrICmp_0: "is_text a \<Longrightarrow> is_text b \<Longrightarrow>
   sqlite3StrICmp a b = 0 \<longleftrightarrow> map UpperToLower a = map UpperToLower b"
  using StrICmp_sgn [of a b] sgn_0_0 [of "sqlite3StrICmp a b"] by (simp add: cmp3_def split: if_splits)

section \<open>Decimal numbers\<close>

definition is_digit :: "nat \<Rightarrow> bool" where
  "is_digit c \<longleftrightarrow> 48 \<le> c \<and> c \<le> 57"

definition dec_val :: "ctext \<Rightarrow> nat" where
  "dec_val ds = foldl (\<lambda>v c. v * 10 + (c - 48)) 0 ds"

lemma dec_val_simps [simp]:
  "dec_val [] = 0" "dec_val (ds @ [c]) = dec_val ds * 10 + (c - 48)"
  by (simp_all add: dec_val_def)

lemma dec_fold: "foldl (\<lambda>v c. v * 10 + (c - 48)) v ds = v * 10 ^ length ds + dec_val ds"
proof (induction ds arbitrary: v)
  case (Cons c ds)
  show ?case
    using Cons [of "v * 10 + (c - 48)"] Cons [of "c - 48"] by (simp add: dec_val_def algebra_simps)
qed simp

lemma dec_val_Cons: "dec_val (c # ds) = (c - 48) * 10 ^ length ds + dec_val ds"
  using dec_fold [of "c - 48" ds] by (simp add: dec_val_def)

lemma dec_val_less: "list_all is_digit ds \<Longrightarrow> dec_val ds < 10 ^ length ds"
proof (induction ds rule: rev_induct)
  case (snoc c ds)
  then show ?case by (auto simp: is_digit_def)
qed simp

lemma dec_val_zeros: "dec_val (dropWhile (\<lambda>c. c = 48) ds) = dec_val ds"
  by (induction ds) (auto simp: dec_val_Cons)

lemma dec_val_lead:
  "list_all is_digit (c # ds) \<Longrightarrow> c \<noteq> 48 \<Longrightarrow> 10 ^ length ds \<le> dec_val (c # ds)"
proof -
  assume "list_all is_digit (c # ds)" "c \<noteq> 48"
  then obtain k where "c - 48 = Suc k"
    by (cases "c - 48") (auto simp: is_digit_def)
  then show ?thesis by (simp add: dec_val_Cons)
qed

lemma int64_digits_eq:
  "\<exists>ds. int64_digits x acc = ds @ acc \<and> ds \<noteq> [] \<and> list_all is_digit ds \<and> dec_val ds = x \<and>
     (x \<noteq> 0 \<longrightarrow> hd ds \<noteq> 48) \<and> (x = 0 \<longrightarrow> ds = [48])"
proof (induction x acc rule: int64_digits.induct)
  case (1 x acc)
  show ?case
  proof (cases "x div 10 = 0")
    case True
    then show ?thesis
      by (intro exI [of _ "[x mod 10 + 48]"])
        (auto simp: int64_digits.simps [of x] is_digit_def dec_val_Cons)
  next
    case False
    then obtain ds where "int64_digits (x div 10) ((x mod 10 + 48) # acc) = ds @ (x mod 10 + 48) # acc"
        "ds \<noteq> []" "list_all is_digit ds" "dec_val ds = x div 10" "hd ds \<noteq> 48"
      using 1 [of "(x mod 10 + 48) # acc" "x div 10"] by auto
    with False show ?thesis
      by (intro exI [of _ "ds @ [x mod 10 + 48]"])
        (auto simp: int64_digits.simps [of x] is_digit_def [of "x mod 10 + 48"])
  qed
qed

lemma dec_val_length:
  "list_all is_digit ds \<Longrightarrow> ds \<noteq> [] \<Longrightarrow> hd ds \<noteq> 48 \<Longrightarrow> dec_val ds < 10 ^ n \<Longrightarrow> length ds \<le> n"
proof (rule ccontr)
  assume a: "list_all is_digit ds" "ds \<noteq> []" "hd ds \<noteq> 48" "dec_val ds < 10 ^ n" "\<not> length ds \<le> n"
  then obtain c cs where ds: "ds = c # cs" by (cases ds) auto
  then have "10 ^ length cs \<le> dec_val ds" using a dec_val_lead by auto
  moreover have "(10 :: nat) ^ n \<le> 10 ^ length cs"
    using a(5) ds by (intro power_increasing) auto
  ultimately show False using a(4) by simp
qed

lemma Int64ToText_ok:
  assumes "in_i64 v"
  shows "\<exists>ds. sqlite3Int64ToText v = Some ((if v < 0 then [ch CHR ''-''] else []) @ ds,
      (if v < 0 then 1 else 0) + length ds) \<and>
    ds \<noteq> [] \<and> list_all is_digit ds \<and> dec_val ds = nat \<bar>v\<bar> \<and> length ds \<le> 19"
proof -
  define x where "x = nat \<bar>v\<bar>"
  have x: "x \<le> 2 ^ 63" using assms by (auto simp: x_def in_i64_def)
  obtain ds where ds: "int64_digits x [] = ds" "ds \<noteq> []" "list_all is_digit ds" "dec_val ds = x"
      "x \<noteq> 0 \<longrightarrow> hd ds \<noteq> 48" "x = 0 \<longrightarrow> ds = [48]"
    using int64_digits_eq [of x "[]"] by auto
  have "x < 10 ^ 19" using x by simp
  then have len: "length ds \<le> 19"
    using dec_val_length [of ds 19] ds by (cases "x = 0") auto
  have "(if v < 0 then
               (if v = SMALLEST_INT64 then Some (2 ^ 63) else map_option nat (i64 (- v)))
             else Some (nat v)) = Some x"
    using assms by (auto simp: x_def in_i64_def i64_def)
  with ds len show ?thesis
    by (simp add: sqlite3Int64ToText_def x_def)
qed

section \<open>Parsing\<close>

text \<open>The rest of a text after its digits: empty, or starting with something else.\<close>

definition stop :: "ctext \<Rightarrow> bool" where
  "stop rest \<longleftrightarrow> (case rest of [] \<Rightarrow> True | c # _ \<Rightarrow> \<not> is_digit c)"

lemma atoi_digits_stop: "stop rest \<Longrightarrow> atoi_digits rest u i = (u, i, rest)"
  by (cases rest) (auto simp: stop_def is_digit_def)

lemma atoi_digits_eq:
  "list_all is_digit ds \<Longrightarrow> stop rest \<Longrightarrow> unat u * 10 ^ length ds + dec_val ds < 2 ^ 64 \<Longrightarrow>
   \<exists>u'. atoi_digits (ds @ rest) u i = (u', i + length ds, rest) \<and> unat u' = unat u * 10 ^ length ds + dec_val ds"
proof (induction ds arbitrary: u i)
  case Nil
  then show ?case by (simp add: atoi_digits_stop)
next
  case (Cons c ds)
  define u1 where "u1 = u * 10 + of_nat c - of_nat (ch CHR ''0'')"
  have c: "48 \<le> c" "c \<le> 57" using Cons.prems(1) by (auto simp: is_digit_def)
  have big: "(unat u * 10 + (c - 48)) * 10 ^ length ds + dec_val ds < 2 ^ 64"
    using Cons.prems(3) by (simp add: dec_val_Cons algebra_simps)
  have "(unat u * 10 + (c - 48)) * 1 \<le> (unat u * 10 + (c - 48)) * 10 ^ length ds"
    by (intro mult_left_mono) auto
  then have "unat u * 10 + (c - 48) \<le> (unat u * 10 + (c - 48)) * 10 ^ length ds + dec_val ds"
    by (simp only: mult_1_right trans_le_add1)
  with big have small: "unat u * 10 + (c - 48) < 2 ^ 64" by (rule le_less_trans [rotated])
  have "u1 = of_nat (unat u * 10 + (c - 48))"
    using c by (simp add: u1_def of_nat_diff)
  with small have u1: "unat u1 = unat u * 10 + (c - 48)"
    by (simp add: unsigned_of_nat take_bit_nat_eq_self del: of_nat_add of_nat_mult)
  obtain u' where "atoi_digits (ds @ rest) u1 (i + 1) = (u', i + 1 + length ds, rest)"
      "unat u' = unat u1 * 10 ^ length ds + dec_val ds"
    using Cons.IH [of u1 "i + 1"] Cons.prems big u1 by auto
  moreover have "unat u1 * 10 ^ length ds + dec_val ds = unat u * 10 ^ length (c # ds) + dec_val (c # ds)"
    by (simp only: u1 dec_val_Cons list.size distrib_right) simp
  ultimately show ?case
    using c by (simp add: u1_def)
qed

text \<open>More digits only change the value modulo 2 to the 64th; their number stays exact.\<close>

lemma atoi_digits_count:
  "list_all is_digit ds \<Longrightarrow> stop rest \<Longrightarrow> \<exists>u'. atoi_digits (ds @ rest) u i = (u', i + length ds, rest)"
proof (induction ds arbitrary: u i)
  case Nil
  then show ?case by (simp add: atoi_digits_stop)
next
  case (Cons c ds)
  then obtain u' where "atoi_digits (ds @ rest) (u * 10 + of_nat c - of_nat (ch CHR ''0'')) (i + 1) =
      (u', i + 1 + length ds, rest)"
    by fastforce
  with Cons.prems show ?case by (auto simp: is_digit_def)
qed

text \<open>Comparing digit by digit is comparing values.\<close>

lemma cmp_pow63_eq:
  "list_all is_digit cs \<Longrightarrow> list_all is_digit ps \<Longrightarrow> length ps \<le> length cs \<Longrightarrow>
   (cmp_pow63 cs ps < 0 \<longleftrightarrow> dec_val (take (length ps) cs) < dec_val ps) \<and>
   (cmp_pow63 cs ps = 0 \<longleftrightarrow> dec_val (take (length ps) cs) = dec_val ps)"
proof (induction ps arbitrary: cs)
  case (Cons p ps)
  then obtain c cs' where cs: "cs = c # cs'" by (cases cs) auto
  let ?t = "dec_val (take (length ps) cs')" and ?e = "10 ^ length ps :: nat"
  have len: "length ps \<le> length cs'" using Cons.prems cs by simp
  have t: "?t < ?e" "dec_val ps < ?e"
    using dec_val_less [of "take (length ps) cs'"] dec_val_less [of ps] Cons.prems cs len
    by (auto simp: list_all_iff dest: in_set_takeD)
  have cp: "48 \<le> c" "48 \<le> p" using Cons.prems cs by (auto simp: is_digit_def)
  have less: "(x - 48) * ?e + v < (y - 48) * ?e + w" if "x < y" "48 \<le> x" "v < ?e" for x y v w :: nat
  proof -
    have "(x - 48 + 1) * ?e \<le> (y - 48) * ?e"
      using that by (intro mult_right_mono) auto
    with that(3) show ?thesis by (simp add: algebra_simps)
  qed
  consider "c < p" | "c = p" | "p < c" by linarith
  then show ?case
  proof cases
    case 1
    then show ?thesis using less [OF 1 cp(1) t(1), of "dec_val ps"] cs len by (simp add: dec_val_Cons Let_def min_absorb2)
  next
    case 2
    then show ?thesis using Cons.IH [of cs'] Cons.prems cs len by (simp add: dec_val_Cons Let_def min_absorb2)
  next
    case 3
    then show ?thesis using less [OF 3 cp(2) t(2), of ?t] cs len by (simp add: dec_val_Cons Let_def min_absorb2)
  qed
qed simp

lemma cmp_pow63_app: "length ps \<le> length cs \<Longrightarrow> cmp_pow63 (cs @ r) ps = cmp_pow63 cs ps"
proof (induction ps arbitrary: cs)
  case (Cons p ps)
  then show ?case by (cases cs) (auto simp: Let_def)
qed simp

lemma pow63_val: "dec_val (map ch ''922337203685477580'') = 922337203685477580"
  by (simp add: dec_val_def)

lemma compare2pow63_eq:
  assumes "list_all is_digit ds" "length ds = 19"
  shows "(compare2pow63 (ds @ r) < 0 \<longleftrightarrow> dec_val ds < 2 ^ 63) \<and>
    (compare2pow63 (ds @ r) = 0 \<longleftrightarrow> dec_val ds = 2 ^ 63)"
proof -
  obtain es c where es: "ds = es @ [c]" "length es = 18"
    using assms(2) by (metis add_Suc_right add_left_cancel length_Suc_conv_rev numeral_nat(7)
        eval_nat_numeral(3) semiring_norm(26,27,28) nat.inject)
  have c: "48 \<le> c" "c \<le> 57" using assms(1) es by (auto simp: is_digit_def)
  let ?p = "map ch ''922337203685477580''"
  have "list_all is_digit ?p" by (simp add: is_digit_def)
  then have cmp: "(cmp_pow63 (ds @ r) ?p < 0 \<longleftrightarrow> dec_val es < dec_val ?p) \<and>
      (cmp_pow63 (ds @ r) ?p = 0 \<longleftrightarrow> dec_val es = dec_val ?p)"
    using cmp_pow63_eq [OF assms(1), of ?p] cmp_pow63_app [of ?p ds r] es by simp
  have "at (ds @ r) 18 = c" using es by (simp add: at_def nth_append)
  with cmp c es(1) show ?thesis
    unfolding compare2pow63_def Let_def pow63_val by (auto simp del: list.map)
qed

text \<open>
  What the routine promises for the value \<open>n\<close> of the digits: the return code and the number
  stored. \<open>rc\<close> is 0 or, with excess text, 1.
\<close>

definition atoi_result :: "bool \<Rightarrow> nat \<Rightarrow> int \<Rightarrow> int \<times> int" where
  "atoi_result neg n rc =
     (if neg then (if n \<le> 2 ^ 63 then (rc, - int n) else (2, SMALLEST_INT64))
      else if n < 2 ^ 63 then (rc, int n)
      else if n = 2 ^ 63 then (3, LARGEST_INT64)
      else (2, LARGEST_INT64))"

lemma dropWhile_spaces:
  "list_all sqlite3Isspace ws \<Longrightarrow> zs = [] \<or> \<not> sqlite3Isspace (hd zs) \<Longrightarrow>
   dropWhile sqlite3Isspace (ws @ zs) = zs"
  by (cases zs) (auto simp: dropWhile_append list_all_iff)

lemma digit_no_space: "is_digit c \<Longrightarrow> \<not> sqlite3Isspace c"
  by (simp add: is_digit_def Isspace_eq)

lemma zeros_dropped:
  "list_all is_digit ds \<Longrightarrow> stop rest \<Longrightarrow>
   dropWhile (\<lambda>c. c = 48) (ds @ rest) = dropWhile (\<lambda>c. c = 48) ds @ rest"
  by (cases rest) (auto simp: dropWhile_append stop_def is_digit_def)

text \<open>The part of \<open>atoi_core\<close> after the sign.\<close>

lemma atoi_tail:
  assumes ds: "list_all is_digit ds" "ds \<noteq> []" and rest: "stop rest"
    and zNum: "zNum = dropWhile (\<lambda>c. c = 48) ds"
    and d: "atoi_digits (zNum @ rest) 0 0 = (u, i, r)"
  shows "i = length zNum \<and> r = rest \<and> (i \<le> 19 \<longrightarrow> unat u = dec_val ds) \<and>
    (i < 19 \<longrightarrow> dec_val ds < 2 ^ 63) \<and> (19 < i \<longrightarrow> 2 ^ 63 < dec_val ds)"
proof -
  have dz: "list_all is_digit zNum" using ds(1) by (auto simp: zNum list_all_iff dest: set_dropWhileD)
  have val: "dec_val zNum = dec_val ds" by (simp add: zNum dec_val_zeros)
  have less: "dec_val ds < 10 ^ length zNum" using dec_val_less [OF dz] val by simp
  have i: "i = length zNum" "r = rest"
    using atoi_digits_count [OF dz rest, of 0 0] d by auto
  have "unat u = dec_val ds" if "length zNum \<le> 19"
  proof -
    have "(10 :: nat) ^ length zNum \<le> 10 ^ 19" using that by (intro power_increasing) auto
    with less have "dec_val zNum < 2 ^ 64" by (simp add: val)
    then show ?thesis using atoi_digits_eq [OF dz rest, of 0 0] d by (auto simp: val)
  qed
  moreover have "dec_val ds < 2 ^ 63" if "length zNum < 19"
  proof -
    have "(10 :: nat) ^ length zNum \<le> 10 ^ 18" using that by (intro power_increasing) auto
    with less show ?thesis by simp
  qed
  moreover have "2 ^ 63 < dec_val ds" if l: "19 < length zNum"
  proof -
    obtain c cs where c: "zNum = c # cs" using l by (cases zNum) auto
    have "(10 :: nat) ^ 19 \<le> 10 ^ length cs" using l c by (intro power_increasing) auto
    moreover have "c \<noteq> 48" using c hd_dropWhile [of "\<lambda>c. c = 48" ds] zNum by (metis list.distinct(1) list.sel(1))
    then have "10 ^ length cs \<le> dec_val zNum" using dec_val_lead dz c by auto
    ultimately show ?thesis using val by simp
  qed
  ultimately show ?thesis using i by auto
qed

lemma atoi_core_ok:
  assumes ds: "list_all is_digit ds" "ds \<noteq> []" and rest: "stop rest"
    and ws: "list_all sqlite3Isspace ws" and sg: "sg \<in> {[], [ch CHR ''-''], [ch CHR ''+'']}"
  shows "atoi_core (ws @ sg @ ds @ rest) False =
    atoi_result (sg = [ch CHR ''-'']) (dec_val ds) (if list_all sqlite3Isspace rest then 0 else 1)"
proof -
  define zNum where "zNum = dropWhile (\<lambda>c. c = 48) ds"
  obtain u i r where d: "atoi_digits (zNum @ rest) 0 0 = (u, i, r)" by (metis prod_cases3)
  note tail = atoi_tail [OF ds rest zNum_def d]
  obtain c cs where c: "ds = c # cs" "is_digit c" using ds by (cases ds) auto
  have sp: "dropWhile sqlite3Isspace (ws @ sg @ ds @ rest) = sg @ ds @ rest"
    using sg c digit_no_space by (intro dropWhile_spaces ws) (auto simp: Isspace_eq)
  let ?neg = "sg = [ch CHR ''-'']"
  have neg: "(case sg @ ds @ rest of c # _ \<Rightarrow> c = ch CHR ''-'' | [] \<Rightarrow> False) = ?neg"
    using sg c by (auto simp: is_digit_def)
  have start: "(case sg @ ds @ rest of c # r \<Rightarrow> if c = ch CHR ''-'' \<or> c = ch CHR ''+'' then r else sg @ ds @ rest | [] \<Rightarrow> []) = ds @ rest"
    using sg c by (auto simp: is_digit_def)
  have zs: "dropWhile (\<lambda>c. c = ch CHR ''0'') (ds @ rest) = zNum @ rest"
    using zeros_dropped [OF ds(1) rest] by (simp add: zNum_def)
  have dz: "list_all is_digit zNum" using ds(1) by (auto simp: zNum_def list_all_iff dest: set_dropWhileD)
  have nodig: "\<not> (i = 0 \<and> length (ds @ rest) = length (zNum @ rest))"
    using tail ds(2) by auto
  have rc: "(if rest \<noteq> [] then (if list_ex (\<lambda>c. \<not> sqlite3Isspace c) rest then 1 else 0) else 0) =
      (if list_all sqlite3Isspace rest then 0 else 1 :: int)"
    by (auto simp: list_ex_iff list_all_iff)
  have val: "dec_val zNum = dec_val ds" by (simp add: zNum_def dec_val_zeros)
  have cmp: "(compare2pow63 (zNum @ rest) < 0 \<longleftrightarrow> dec_val ds < 2 ^ 63) \<and>
      (compare2pow63 (zNum @ rest) = 0 \<longleftrightarrow> dec_val ds = 2 ^ 63)" if "i = 19"
    using compare2pow63_eq [OF dz, of rest] tail that val by simp
  have val64: "u > 0x7fffffffffffffff \<longleftrightarrow> \<not> dec_val ds < 2 ^ 63" "uint u = int (dec_val ds)" if "i \<le> 19"
  proof -
    have u: "unat u = dec_val ds" using tail that by blast
    then show "u > 0x7fffffffffffffff \<longleftrightarrow> \<not> dec_val ds < 2 ^ 63"
      by (auto simp: word_less_nat_alt)
    show "uint u = int (dec_val ds)" using u by (metis of_nat_unat int_nat_eq uint_nat)
  qed
  consider "i < 19" | "i = 19" "dec_val ds < 2 ^ 63" | "i = 19" "dec_val ds = 2 ^ 63"
    | "i = 19" "2 ^ 63 < dec_val ds" | "19 < i"
    by linarith
  then show ?thesis
  proof cases
    case 1
    then have "dec_val ds < 2 ^ 63" using tail by blast
    with 1 val64 nodig rc tail show ?thesis
      unfolding atoi_core_def sp neg start zs Let_def d by (auto simp: atoi_result_def)
  next
    case 2
    with val64 nodig rc tail cmp show ?thesis
      unfolding atoi_core_def sp neg start zs Let_def d by (auto simp: atoi_result_def)
  next
    case 3
    with val64 nodig rc tail cmp show ?thesis
      unfolding atoi_core_def sp neg start zs Let_def d by (auto simp: atoi_result_def)
  next
    case 4
    with val64 nodig rc tail cmp show ?thesis
      unfolding atoi_core_def sp neg start zs Let_def d by (auto simp: atoi_result_def)
  next
    case 5
    with tail have "2 ^ 63 < dec_val ds" by blast
    with 5 show ?thesis
      unfolding atoi_core_def sp neg start zs Let_def d by (auto simp: atoi_result_def)
  qed
qed

text \<open>UTF-16 text whose high bytes are zero is read like the 8-bit text.\<close>

lemma utf16_scan_le:
  "utf16_scan (pre @ concat (map (\<lambda>c. [c, 0]) cs)) (length pre + 2 * length cs) (length pre + 1) =
   length pre + 2 * length cs + 1"
proof (induction cs arbitrary: pre)
  case Nil
  then show ?case by (simp add: utf16_scan.simps)
next
  case (Cons c cs)
  show ?case
    using Cons [of "pre @ [c, 0]"] by (subst utf16_scan.simps) (simp add: nth_append)
qed

lemma utf16_scan_be:
  "utf16_scan (pre @ concat (map (\<lambda>c. [0, c]) cs)) (length pre + 2 * length cs) (length pre) =
   length pre + 2 * length cs"
proof (induction cs arbitrary: pre)
  case Nil
  then show ?case by (simp add: utf16_scan.simps)
next
  case (Cons c cs)
  show ?case
    using Cons [of "pre @ [0, c]"] by (subst utf16_scan.simps) (simp add: nth_append)
qed

lemma every_other_le:
  "every_other (pre @ concat (map (\<lambda>c. [c, 0]) cs)) (length pre) (length pre + 2 * length cs) = cs"
proof (induction cs arbitrary: pre)
  case Nil
  then show ?case by (simp add: every_other.simps)
next
  case (Cons c cs)
  show ?case
    using Cons [of "pre @ [c, 0]"] by (subst every_other.simps) (simp add: nth_append)
qed

lemma every_other_be:
  "every_other (pre @ concat (map (\<lambda>c. [0, c]) cs)) (length pre + 1) (length pre + 2 * length cs + 1) = cs"
proof (induction cs arbitrary: pre)
  case Nil
  then show ?case by (simp add: every_other.simps)
next
  case (Cons c cs)
  show ?case
    using Cons [of "pre @ [0, c]"] by (subst every_other.simps) (simp add: nth_append)
qed

lemma Atoi64_utf16:
  "sqlite3Atoi64 (concat (map (\<lambda>c. [c, 0]) cs)) (2 * length cs) SQLITE_UTF16LE = sqlite3Atoi64 cs (length cs) SQLITE_UTF8"
  "sqlite3Atoi64 (concat (map (\<lambda>c. [0, c]) cs)) (2 * length cs) SQLITE_UTF16BE = sqlite3Atoi64 cs (length cs) SQLITE_UTF8"
  using utf16_scan_le [of "[]" cs] utf16_scan_be [of "[]" cs] every_other_le [of "[]" cs]
    every_other_be [of "[]" cs] by (simp_all add: sqlite3Atoi64_def)

section \<open>32-bit parsing\<close>

lemma dec11_eq:
  "list_all is_digit ds \<Longrightarrow> stop rest \<Longrightarrow> length ds < n \<Longrightarrow>
   dec11 n (ds @ rest) v i = (v * 10 ^ length ds + int (dec_val ds), i + length ds)"
proof (induction ds arbitrary: n v i)
  case Nil
  then have "\<not> (48 \<le> at rest 0 \<and> at rest 0 \<le> 57)"
    by (cases rest) (auto simp: stop_def is_digit_def)
  with Nil show ?case by (cases n) (auto simp: Let_def)
next
  case (Cons c ds)
  then obtain m where m: "n = Suc m" "length ds < m" by (cases n) auto
  have c: "48 \<le> c" "c \<le> 57" "list_all is_digit ds" using Cons.prems(1) by (auto simp: is_digit_def [of c])
  have "dec11 n ((c # ds) @ rest) v i = dec11 m (ds @ rest) (v * 10 + int (c - 48)) (i + 1)"
    using c by (simp add: m Let_def)
  also have "\<dots> = ((v * 10 + int (c - 48)) * 10 ^ length ds + int (dec_val ds), i + 1 + length ds)"
    using Cons.IH [OF c(3) Cons.prems(2) m(2)] by simp
  finally show ?case by (simp add: dec_val_Cons distrib_right)
qed

lemma dec11_long:
  "list_all is_digit ds \<Longrightarrow> n \<le> length ds \<Longrightarrow> snd (dec11 n (ds @ rest) v i) = i + n"
proof (induction n arbitrary: ds v i)
  case (Suc n)
  then show ?case by (cases ds) (auto simp: is_digit_def Let_def)
qed simp

lemma getint32_dec_ok:
  assumes "list_all is_digit ds" "ds \<noteq> []" "stop rest"
  shows "getint32_dec (ds @ rest) neg =
    (let v = (if neg then - int (dec_val ds) else int (dec_val ds)) in if in_i32 v then Some v else None)"
proof -
  define z where "z = dropWhile (\<lambda>c. c = 48) ds"
  have z: "dropWhile (\<lambda>c. c = 48) (ds @ rest) = z @ rest"
    using zeros_dropped [OF assms(1,3)] by (simp add: z_def)
  have dz: "list_all is_digit z" using assms(1) by (auto simp: z_def list_all_iff dest: set_dropWhileD)
  have val: "dec_val z = dec_val ds" by (simp add: z_def dec_val_zeros)
  obtain c cs where c: "ds = c # cs" "is_digit c" using assms by (cases ds) auto
  then have dig: "sqlite3Isdigit (at (ds @ rest) 0)" by (simp add: Isdigit_eq is_digit_def)
  show ?thesis
  proof (cases "length z \<le> 10")
    case True
    have "dec11 11 (z @ rest) 0 0 = (int (dec_val z), length z)"
      using dec11_eq [OF dz assms(3), of 11 0 0] True by simp
    with True dig val show ?thesis
      by (auto simp: getint32_dec_def z in_i32_def Let_def)
  next
    case False
    then have "snd (dec11 11 (z @ rest) 0 0) = 11"
      using dec11_long [OF dz, of 11 rest 0 0] by simp
    moreover obtain d es where d: "z = d # es" using False by (cases z) auto
    have "d \<noteq> 48" using d hd_dropWhile [of "\<lambda>c. c = 48" ds] z_def by (metis list.distinct(1) list.sel(1))
    then have "10 ^ length es \<le> dec_val z" using dec_val_lead dz d by auto
    moreover have "(10 :: nat) ^ 10 \<le> 10 ^ length es" using False d by (intro power_increasing) auto
    ultimately show ?thesis
      using dig val by (auto simp: getint32_dec_def z in_i32_def Let_def split: prod.splits)
  qed
qed

lemma uint32_digits_eq:
  "list_all is_digit ds \<Longrightarrow> stop rest \<Longrightarrow> list_all (\<lambda>c. c < 256) rest \<Longrightarrow>
   uint32_digits (ds @ rest) v i =
     (if v * 10 ^ length ds + dec_val ds \<le> 4294967296 \<or> ds = []
      then Some (v * 10 ^ length ds + dec_val ds, i + length ds, rest) else None)"
proof (induction ds arbitrary: v i)
  case Nil
  then show ?case by (cases rest) (auto simp: stop_def Isdigit_eq is_digit_def)
next
  case (Cons c ds)
  have c: "48 \<le> c" "c \<le> 57" using Cons.prems(1) by (auto simp: is_digit_def)
  then have dig: "sqlite3Isdigit c" by (simp add: Isdigit_eq)
  define w where "w = v * 10 + c - 48"
  have w: "w * 10 ^ length ds + dec_val ds = v * 10 ^ length (c # ds) + dec_val (c # ds)"
  proof -
    have "w = v * 10 + (c - 48)" using c by (simp add: w_def)
    then show ?thesis by (simp add: dec_val_Cons distrib_right)
  qed
  have "w * 1 \<le> w * 10 ^ length ds" by (intro mult_left_mono) auto
  then have le: "w \<le> w * 10 ^ length ds + dec_val ds" by (simp only: mult_1_right trans_le_add1)
  show ?case
  proof (cases "w > 4294967296")
    case True
    with le have "\<not> w * 10 ^ length ds + dec_val ds \<le> 4294967296" by linarith
    with True dig show ?thesis unfolding w by (simp add: w_def)
  next
    case False
    have "uint32_digits (ds @ rest) w (i + 1) =
        (if w * 10 ^ length ds + dec_val ds \<le> 4294967296 \<or> ds = []
         then Some (w * 10 ^ length ds + dec_val ds, i + 1 + length ds, rest) else None)"
      using Cons by simp
    moreover have "w * 10 ^ length ds + dec_val ds \<le> 4294967296" if "ds = []"
      using that False by simp
    ultimately show ?thesis
      unfolding w using False dig by (auto simp: w_def)
  qed
qed

section \<open>Hexadecimal and quotes\<close>

definition hex_upper :: "nat \<Rightarrow> nat" where
  "hex_upper d = (if d < 10 then 48 + d else 55 + d)"

definition hex_lower :: "nat \<Rightarrow> nat" where
  "hex_lower d = (if d < 10 then 48 + d else 87 + d)"

lemma HexToInt_hex: "d < 16 \<Longrightarrow> sqlite3HexToInt (hex_upper d) = Some d \<and> sqlite3HexToInt (hex_lower d) = Some d"
proof -
  assume d: "d < 16"
  show ?thesis
  proof (cases "d < 10")
    case True
    then have "(48 + d) div 64 = 0" "(48 + d) mod 16 = d"
      using mod_add_left_eq [of 48 16 d] by simp_all
    with True show ?thesis
      by (simp add: sqlite3HexToInt_def hex_upper_def hex_lower_def drop_bit_eq_div)
  next
    case False
    with d have "(55 + d) div 64 = 1" "(87 + d) div 64 = 1" "(64 + d) mod 16 = d" "(96 + d) mod 16 = d"
      using mod_add_left_eq [of 64 16 d] mod_add_left_eq [of 96 16 d] by simp_all
    with False d show ?thesis
      by (simp add: sqlite3HexToInt_def hex_upper_def hex_lower_def drop_bit_eq_div)
  qed
qed

lemma hex_blob_ok:
  "list_all (\<lambda>b. b < 256) bs \<Longrightarrow> list_all (\<lambda>f. f = hex_upper \<or> f = hex_lower) [f, g] \<Longrightarrow>
   hex_blob (concat (map (\<lambda>b. [f (b div 16), g (b mod 16)]) bs) @ r) (2 * length bs) = Some bs"
proof (induction bs)
  case (Cons b bs)
  then have "sqlite3HexToInt (f (b div 16)) = Some (b div 16)" "sqlite3HexToInt (g (b mod 16)) = Some (b mod 16)"
    using HexToInt_hex [of "b div 16"] HexToInt_hex [of "b mod 16"] by auto
  with Cons show ?case by simp
qed simp

text \<open>Quoting doubles the quote character.\<close>

fun double :: "nat \<Rightarrow> ctext \<Rightarrow> ctext" where
  "double q [] = []"
| "double q (c # z) = (if c = q then q # q # double q z else c # double q z)"

lemma dequote_double:
  "rest = [] \<or> hd rest \<noteq> q \<Longrightarrow> dequote_loop q (double q z @ q # rest) = Some z"
proof (induction z)
  case Nil
  then show ?case by (cases rest) auto
qed auto

lemma Dequote_double:
  assumes "(q, q') \<in> {(34, 34), (39, 39), (96, 96), (91, 93)}"
  shows "sqlite3Dequote (Some (q # double q' z @ [q'])) = Some (Some z)"
  using assms dequote_double [of "[]" q' z] by (auto simp: sqlite3Dequote_def Isquote_eq)

section \<open>Properties\<close>

text \<open>
  C37: \<open>sqlite3Atoi64\<close> on any decimal integer - spaces, a sign, digits with any number of leading
  zeros, any tail that does not start with a digit - stores the value and returns 0 (1 when the
  tail is not just spaces) when it fits in 64 bits; one past the largest value returns 3, and
  everything beyond the range returns 2 with the value clamped. No number of digits confuses it.
\<close>
theorem atoi64_correct:
  assumes "list_all is_digit ds" "ds \<noteq> []" "stop rest" "list_all sqlite3Isspace ws"
    and "sg \<in> {[], [ch CHR ''-''], [ch CHR ''+'']}"
  shows "sqlite3Atoi64 (ws @ sg @ ds @ rest) (length (ws @ sg @ ds @ rest)) SQLITE_UTF8 =
    atoi_result (sg = [ch CHR ''-'']) (dec_val ds) (if list_all sqlite3Isspace rest then 0 else 1)"
  using atoi_core_ok [OF assms] by (simp add: sqlite3Atoi64_def)

theorem atoi64_correct_witness:
  "sqlite3Atoi64 (map ch '' -9223372036854775808'') (length (map ch '' -9223372036854775808'')) SQLITE_UTF8 =
     (0, SMALLEST_INT64)"
  using atoi64_correct [of "map ch ''9223372036854775808''" "[]" "[ch CHR '' '']" "[ch CHR ''-'']"]
  by (simp add: is_digit_def stop_def Isspace_eq dec_val_def atoi_result_def)

text \<open>
  C38: Every 64-bit integer is printed by \<open>sqlite3Int64ToText\<close> within its buffer and read back by
  \<open>sqlite3Atoi64\<close> with return code 0, the smallest one included.
\<close>
theorem int64_text_roundtrip:
  assumes "in_i64 v"
  shows "\<exists>z. sqlite3Int64ToText v = Some (z, length z) \<and> length z \<le> 20 \<and>
    sqlite3Atoi64 z (length z) SQLITE_UTF8 = (0, v)"
proof -
  obtain ds where ds: "sqlite3Int64ToText v = Some ((if v < 0 then [ch CHR ''-''] else []) @ ds,
      (if v < 0 then 1 else 0) + length ds)"
      "ds \<noteq> []" "list_all is_digit ds" "dec_val ds = nat \<bar>v\<bar>" "length ds \<le> 19"
    using Int64ToText_ok [OF assms] by blast
  let ?sg = "if v < 0 then [ch CHR ''-''] else []"
  have core: "atoi_core (?sg @ ds) False = atoi_result (?sg = [ch CHR ''-'']) (dec_val ds) 0"
    using atoi_core_ok [OF ds(3,2), of "[]" "[]" ?sg] by (simp add: stop_def)
  have "sqlite3Atoi64 (?sg @ ds) (length (?sg @ ds)) SQLITE_UTF8 = (0, v)"
    unfolding sqlite3Atoi64_def using core assms ds(4) by (auto simp: atoi_result_def in_i64_def)
  with ds(1,5) show ?thesis by (intro exI [of _ "?sg @ ds"]) auto
qed

theorem int64_text_roundtrip_witness:
  "\<exists>z. sqlite3Int64ToText SMALLEST_INT64 = Some (z, length z) \<and> length z \<le> 20 \<and>
    sqlite3Atoi64 z (length z) SQLITE_UTF8 = (0, SMALLEST_INT64)"
  using int64_text_roundtrip [of SMALLEST_INT64] by (simp add: in_i64_def)

text \<open>
  In UTF-16, of either byte order, \<open>sqlite3Atoi64\<close> gives what it gives for the same
  characters in UTF-8.
\<close>
theorem atoi64_utf16:
  "sqlite3Atoi64 (concat (map (\<lambda>c. [c, 0]) cs)) (2 * length cs) SQLITE_UTF16LE = sqlite3Atoi64 cs (length cs) SQLITE_UTF8 \<and>
   sqlite3Atoi64 (concat (map (\<lambda>c. [0, c]) cs)) (2 * length cs) SQLITE_UTF16BE = sqlite3Atoi64 cs (length cs) SQLITE_UTF8"
  by (simp add: Atoi64_utf16)

text \<open>
  \<open>sqlite3GetInt32\<close> accepts a signed decimal integer, followed by anything but a digit,
  exactly when it fits in 32 bits, and then stores its value.
\<close>
theorem getint32_correct:
  assumes "list_all is_digit ds" "ds \<noteq> []" "stop rest" "sg \<in> {[ch CHR ''-''], [ch CHR ''+'']}"
  shows "sqlite3GetInt32 (sg @ ds @ rest) =
    (let v = (if sg = [ch CHR ''-''] then - int (dec_val ds) else int (dec_val ds))
     in Some (if in_i32 v then Some v else None))"
  using assms getint32_dec_ok [OF assms(1-3)] by (auto simp: sqlite3GetInt32_def Let_def)

theorem getint32_correct_witness:
  "sqlite3GetInt32 (map ch ''-2147483648 '') = Some (Some (- 2147483648)) \<and>
   sqlite3GetInt32 (map ch ''+2147483648'') = Some None"
  using getint32_correct [of "map ch ''2147483648''" "[32]" "[ch CHR ''-'']"]
    getint32_correct [of "map ch ''2147483648''" "[]" "[ch CHR ''+'']"]
  by (simp add: is_digit_def stop_def dec_val_def in_i32_def)

text \<open>
  \<open>sqlite3GetUInt32\<close> accepts a text exactly when it is one or more digits with a value of at
  most 2 to the 32nd, and stores the value modulo 2 to the 32nd.
\<close>
theorem getuint32_correct:
  assumes "list_all is_digit ds" "stop rest" "list_all (\<lambda>c. c < 256) rest"
  shows "sqlite3GetUInt32 (ds @ rest) =
    (if ds \<noteq> [] \<and> rest = [] \<and> dec_val ds \<le> 2 ^ 32 then (True, dec_val ds mod 2 ^ 32) else (False, 0))"
  using uint32_digits_eq [OF assms, of 0 0] by (auto simp: sqlite3GetUInt32_def)

theorem getuint32_correct_witness:
  "sqlite3GetUInt32 (map ch ''4294967295'' @ []) = (True, 4294967295)"
  using getuint32_correct [of "map ch ''4294967295''" "[]"]
  by (simp add: is_digit_def stop_def dec_val_def)

text \<open>
  C39: \<open>sqlite3GetUInt32\<close> accepts a text exactly when it is one or more digits with a value of at
  most 2 to the 32nd, whatever the number of digits, and stores the value modulo 2 to the 32nd.
  So the bound in its loop is off by one: the stored value is the value of the text for every
  accepted text except those that say 4294967296, which are stored as 0 (a value that fits is
  stored as it is).
\<close>
theorem getuint32_accepts:
  assumes "is_text z"
  shows "sqlite3GetUInt32 z =
      (if z \<noteq> [] \<and> list_all is_digit z \<and> dec_val z \<le> 2 ^ 32 then (True, dec_val z mod 2 ^ 32)
       else (False, 0)) \<and>
    (fst (sqlite3GetUInt32 z) \<and> snd (sqlite3GetUInt32 z) \<noteq> dec_val z \<longleftrightarrow>
       z \<noteq> [] \<and> list_all is_digit z \<and> dec_val z = 2 ^ 32)"
proof -
  define ds rest where "ds = takeWhile is_digit z" and "rest = dropWhile is_digit z"
  have z: "z = ds @ rest" by (simp add: ds_def rest_def)
  have ds: "list_all is_digit ds" by (auto simp: ds_def list_all_iff dest: set_takeWhileD)
  have st: "stop rest"
    using dropWhile_eq_Cons_conv [of is_digit z] by (auto simp: stop_def rest_def split: list.split)
  have "list_all is_digit z \<longleftrightarrow> rest = []"
    using st ds by (cases rest) (auto simp only: z stop_def list_all_append list.pred_inject list.case)
  moreover have "list_all (\<lambda>c. c < 256) rest"
    using assms by (auto simp: z is_text_def list_all_iff)
  ultimately have eq: "sqlite3GetUInt32 z =
      (if z \<noteq> [] \<and> list_all is_digit z \<and> dec_val z \<le> 2 ^ 32 then (True, dec_val z mod 2 ^ 32)
       else (False, 0))"
    using getuint32_correct [OF ds st] by (auto simp: z)
  moreover have "dec_val z mod 2 ^ 32 \<noteq> dec_val z \<longleftrightarrow> dec_val z = 2 ^ 32" if "dec_val z \<le> 2 ^ 32"
    using that by (cases "dec_val z = 2 ^ 32") auto
  ultimately show ?thesis
    by (auto simp: eq)
qed

theorem getuint32_accepts_witness:
  "is_text (map ch ''00004294967296'') \<and> sqlite3GetUInt32 (map ch ''00004294967296'') = (True, 0) \<and>
   sqlite3GetUInt32 (map ch ''4294967295'') = (True, 4294967295) \<and>
   sqlite3GetUInt32 (map ch ''4294967297'') = (False, 0)"
  using getuint32_accepts [of "map ch ''00004294967296''"] getuint32_accepts [of "map ch ''4294967295''"]
    getuint32_accepts [of "map ch ''4294967297''"]
  by (simp add: is_text_def is_digit_def dec_val_def)

text \<open>
  The case-insensitive comparisons are the lexicographic order of the texts folded to lower
  case, a shorter text before its extensions; so they are total orders, and equality is equality
  up to ASCII case. \<open>sqlite3_strnicmp\<close> compares the first \<open>N\<close> characters.
\<close>
theorem stricmp_order:
  assumes "is_text a" "is_text b"
  shows "sgn (sqlite3StrICmp a b) = cmp3 (map UpperToLower a) (map UpperToLower b) \<and>
    sgn (sqlite3_strnicmp (Some a) (Some b) N) =
      cmp3 (take (nat N) (map UpperToLower a)) (take (nat N) (map UpperToLower b))"
  using StrICmp_sgn [OF assms] strnicmp_sgn [OF assms] by (simp add: sqlite3_strnicmp_def)

theorem stricmp_order_witness:
  "sgn (sqlite3StrICmp (map ch ''Main'') (map ch ''MAIN2'')) =
     cmp3 (map UpperToLower (map ch ''Main'')) (map UpperToLower (map ch ''MAIN2''))"
  using stricmp_order [of "map ch ''Main''" "map ch ''MAIN2''" 0] by simp

text \<open>
  Removing the quotes from a quoted text gives back the text, whatever quote characters it
  contains, for all four kinds of quotes; a blob literal in either case of hexadecimal digits
  gives back the bytes.
\<close>
theorem quoting_roundtrip:
  "((q, q') \<in> {(34, 34), (39, 39), (96, 96), (91, 93)} \<longrightarrow>
      sqlite3Dequote (Some (q # double q' z @ [q'])) = Some (Some z)) \<and>
   (list_all (\<lambda>b. b < 256) bs \<longrightarrow>
      sqlite3HexToBlob (concat (map (\<lambda>b. [hex_upper (b div 16), hex_lower (b mod 16)]) bs) @ [39])
        (2 * length bs + 1) = Some bs)"
  using Dequote_double hex_blob_ok [of bs hex_upper hex_lower] by (auto simp: sqlite3HexToBlob_def)

theorem quoting_roundtrip_witness:
  "sqlite3Dequote (Some (39 # double 39 (map ch ''it'' @ [39] @ map ch ''s'') @ [39])) =
     Some (Some (map ch ''it'' @ [39] @ map ch ''s''))"
  using quoting_roundtrip [of 39 39 _ "[]"] by blast

end
