(* ===== verification/HashTable.thy ===== *)
theory HashTable
  imports UtilText
begin

text \<open>
  The symbol tables of \<^verbatim>\<open>src/hash.c\<close>: \<open>sqlite3HashInit\<close>, \<open>sqlite3HashClear\<close>, \<open>strHash\<close>,
  \<open>insertElement\<close>, \<open>rehash\<close>, \<open>findElementWithHash\<close>, \<open>removeElementGivenHash\<close>,
  \<open>sqlite3HashFind\<close> and \<open>sqlite3HashInsert\<close>.

  The doubly linked list of all elements is the list \<open>first\<close>; an element carries its address,
  and a bucket points to its first element by that address. The locale \<open>symbol_table\<close> states
  what callers rely on; the tables of the code are an instance of it.
\<close>

section \<open>The interface\<close>

text \<open>Keys are the same when they agree up to ASCII case.\<close>

abbreviation fold_key :: "ctext \<Rightarrow> ctext" where
  "fold_key \<equiv> map UpperToLower"

text \<open>A program of insertions and deletions, with memory available.\<close>

fun run :: "((nat \<Rightarrow> bool) \<Rightarrow> 's \<Rightarrow> ctext \<Rightarrow> 'd option \<Rightarrow> ('d option \<times> 's) option) \<Rightarrow>
    's \<Rightarrow> (ctext \<times> 'd option) list \<Rightarrow> 's option"
where
  "run ins s [] = Some s"
| "run ins s ((key, d) # ops) =
     (case ins (\<lambda>_. True) s key d of None \<Rightarrow> None | Some (_, s') \<Rightarrow> run ins s' ops)"

locale symbol_table =
  fixes find_sym :: "'s \<Rightarrow> ctext \<Rightarrow> 'd option option"
    and insert_sym :: "(nat \<Rightarrow> bool) \<Rightarrow> 's \<Rightarrow> ctext \<Rightarrow> 'd option \<Rightarrow> ('d option \<times> 's) option"
    and inv :: "'s \<Rightarrow> bool"
    and abs :: "'s \<Rightarrow> ctext \<rightharpoonup> 'd"
  assumes find_abs: "inv s \<Longrightarrow> is_text key \<Longrightarrow> find_sym s key = Some (abs s (fold_key key))"
    and insert_abs: "inv s \<Longrightarrow> is_text key \<Longrightarrow> \<exists>s'. inv s' \<and>
      (insert_sym alloc s key d = Some (abs s (fold_key key), s') \<and>
         abs s' = (abs s)(fold_key key := d) \<or>
       insert_sym alloc s key d = Some (d, s') \<and> abs s' = abs s \<and>
         abs s (fold_key key) = None \<and> d \<noteq> None \<and> (\<exists>k. \<not> alloc k))"
begin

lemma run_abs:
  "inv s \<Longrightarrow> list_all (\<lambda>(key, d). is_text key) ops \<Longrightarrow> \<exists>s'. run insert_sym s ops = Some s' \<and> inv s' \<and>
     abs s' = fold (\<lambda>(key, d) m. m(fold_key key := d)) ops (abs s)"
proof (induction ops arbitrary: s)
  case (Cons op ops)
  obtain key d where op: "op = (key, d)" by force
  then have "is_text key" using Cons.prems by simp
  then obtain s1 where "inv s1" "insert_sym (\<lambda>_. True) s key d = Some (abs s (fold_key key), s1)"
      "abs s1 = (abs s)(fold_key key := d)"
    using insert_abs [OF Cons.prems(1), of key "\<lambda>_. True" d] by auto
  with Cons.IH [of s1] Cons.prems(2) op show ?case by auto
qed simp

lemma find_run:
  "inv s \<Longrightarrow> list_all (\<lambda>(key, d). is_text key) ops \<Longrightarrow> is_text key \<Longrightarrow>
   \<exists>s'. run insert_sym s ops = Some s' \<and>
     find_sym s' key = Some (fold (\<lambda>(key, d) m. m(fold_key key := d)) ops (abs s) (fold_key key))"
  using run_abs find_abs by metis

end

section \<open>Data\<close>

record 'd hash_elem =
  he_addr :: nat
  pKey :: ctext
  he_data :: 'd

text \<open>A bucket: the number of its elements and the address of the first one.\<close>

type_synonym ht_bucket = "nat \<times> nat option"

record 'd hash =
  htsize :: nat
  count :: nat
  first :: "'d hash_elem list"
  ht :: "ht_bucket list option"

text \<open>
  The allocator is asked with the number of requests so far; the number of a granted request is
  the address of the new object.
\<close>

type_synonym 'd hash_state = "'d hash \<times> nat"

section \<open>Operations\<close>

definition sqlite3HashInit :: "'d hash" where
  "sqlite3HashInit = \<lparr> htsize = 0, count = 0, first = [], ht = None \<rparr>"

definition sqlite3HashClear :: "'d hash \<Rightarrow> 'd hash" where
  "sqlite3HashClear pH = pH \<lparr> first := [], ht := None, htsize := 0, count := 0 \<rparr>"

definition strHash :: "ctext \<Rightarrow> u32" where
  "strHash z = fold (\<lambda>c h. (h + of_nat (UpperToLower c)) * 0x9e3779b1) z 0"

definition bucket_of :: "nat \<Rightarrow> ctext \<Rightarrow> nat" where
  "bucket_of n key = unat (strHash key) mod n"

fun insert_before :: "nat \<Rightarrow> 'd hash_elem \<Rightarrow> 'd hash_elem list \<Rightarrow> 'd hash_elem list option" where
  "insert_before a new [] = None"
| "insert_before a new (x # xs) =
     (if he_addr x = a then Some (new # x # xs) else map_option ((#) x) (insert_before a new xs))"

definition insertElement :: "'d hash \<Rightarrow> nat option \<Rightarrow> 'd hash_elem \<Rightarrow> 'd hash option" where
  "insertElement pH pEntry pNew =
     (case pEntry of
        Some h \<Rightarrow>
          do {
            t \<leftarrow> ht pH;
            (cnt, chain) \<leftarrow> rd t h;
            let pHead = (if cnt \<noteq> 0 then chain else None);
                pH = pH \<lparr> ht := Some (t[h := (cnt + 1, Some (he_addr pNew))]) \<rparr>
            in case pHead of
                 Some a \<Rightarrow> map_option (\<lambda>xs. pH \<lparr> first := xs \<rparr>) (insert_before a pNew (first pH))
               | None \<Rightarrow> Some (pH \<lparr> first := pNew # first pH \<rparr>)
          }
      | None \<Rightarrow> Some (pH \<lparr> first := pNew # first pH \<rparr>))"

abbreviation (input) SQLITE_MALLOC_SOFT_LIMIT :: nat where
  "SQLITE_MALLOC_SOFT_LIMIT \<equiv> 1024"

fun rehash_loop :: "'d hash \<Rightarrow> nat \<Rightarrow> 'd hash_elem list \<Rightarrow> 'd hash option" where
  "rehash_loop pH n [] = Some pH"
| "rehash_loop pH n (e # es) =
     do { pH \<leftarrow> insertElement pH (Some (bucket_of n (pKey e))) e; rehash_loop pH n es }"

text \<open>\<open>msize n\<close> is the usable size of an allocation of \<open>n\<close> bytes (\<open>sqlite3MallocSize\<close>).\<close>

definition rehash ::
  "(nat \<Rightarrow> bool) \<Rightarrow> (nat \<Rightarrow> nat) \<Rightarrow> 'd hash_state \<Rightarrow> nat \<Rightarrow> (bool \<times> 'd hash_state) option"
where
  "rehash alloc msize s new_size =
     (case s of (pH, k) \<Rightarrow>
        let new_size = (if new_size * 16 > SQLITE_MALLOC_SOFT_LIMIT then SQLITE_MALLOC_SOFT_LIMIT div 16
                        else new_size)
        in if new_size = htsize pH then Some (False, (pH, k))
           else if \<not> alloc k then Some (False, (pH, k + 1))
           else
             let n = msize (new_size * 16) div 16;
                 pH' = pH \<lparr> ht := Some (replicate n (0, None)), htsize := n, first := [] \<rparr>
             in if n = 0 then None
                else map_option (\<lambda>pH. (True, (pH, k + 1))) (rehash_loop pH' n (first pH)))"

text \<open>The search loop: \<open>None\<close> is the failing assertion that the list has \<open>count\<close> elements.\<close>

fun find_loop :: "'d hash_elem list \<Rightarrow> nat \<Rightarrow> (ctext \<Rightarrow> bool) \<Rightarrow> 'd hash_elem option option" where
  "find_loop xs 0 P = Some None"
| "find_loop [] (Suc n) P = None"
| "find_loop (x # xs) (Suc n) P = (if P (pKey x) then Some (Some x) else find_loop xs n P)"

definition findElementWithHash ::
  "'d hash \<Rightarrow> ctext \<Rightarrow> ('d hash_elem option \<times> nat) option"
where
  "findElementWithHash pH key =
     (case ht pH of
        Some t \<Rightarrow>
          do {
            (cnt, chain) \<leftarrow> (if htsize pH = 0 then None else rd t (bucket_of (htsize pH) key));
            let elems = (case chain of None \<Rightarrow> [] | Some a \<Rightarrow> dropWhile (\<lambda>e. he_addr e \<noteq> a) (first pH))
            in map_option (\<lambda>e. (e, bucket_of (htsize pH) key)) (find_loop elems cnt (\<lambda>k. sqlite3StrICmp k key = 0))
          }
      | None \<Rightarrow> map_option (\<lambda>e. (e, 0)) (find_loop (first pH) (count pH) (\<lambda>k. sqlite3StrICmp k key = 0)))"

text \<open>The address of the element after the one at \<open>a\<close>.\<close>

fun next_addr :: "nat \<Rightarrow> 'd hash_elem list \<Rightarrow> nat option" where
  "next_addr a [] = None"
| "next_addr a (x # xs) =
     (if he_addr x = a then (case xs of [] \<Rightarrow> None | y # _ \<Rightarrow> Some (he_addr y)) else next_addr a xs)"

definition removeElementGivenHash :: "'d hash \<Rightarrow> 'd hash_elem \<Rightarrow> nat \<Rightarrow> 'd hash option" where
  "removeElementGivenHash pH elem h =
     do {
       pH \<leftarrow> (case ht pH of
                Some t \<Rightarrow>
                  do {
                    (cnt, chain) \<leftarrow> rd t h;
                    if cnt > 0 then
                      Some (pH \<lparr> ht := Some (t[h := (cnt - 1,
                        if chain = Some (he_addr elem) then next_addr (he_addr elem) (first pH) else chain)]) \<rparr>)
                    else None
                  }
              | None \<Rightarrow> Some pH);
       let pH = pH \<lparr> first := filter (\<lambda>e. he_addr e \<noteq> he_addr elem) (first pH), count := count pH - 1 \<rparr>
       in if count pH = 0 then (if first pH = [] then Some (sqlite3HashClear pH) else None)
          else Some pH
     }"

definition sqlite3HashFind :: "'d hash_state \<Rightarrow> ctext \<Rightarrow> 'd option option" where
  "sqlite3HashFind s key =
     map_option (\<lambda>(e, h). map_option he_data e) (findElementWithHash (fst s) key)"

text \<open>\<open>data = None\<close> is the null pointer; the result is the pointer returned.\<close>

definition sqlite3HashInsert ::
  "(nat \<Rightarrow> nat) \<Rightarrow> (nat \<Rightarrow> bool) \<Rightarrow> 'd hash_state \<Rightarrow> ctext \<Rightarrow> 'd option \<Rightarrow>
   ('d option \<times> 'd hash_state) option"
where
  "sqlite3HashInsert msize alloc s key data =
     (case s of (pH, k) \<Rightarrow>
        do {
          (elem, h) \<leftarrow> findElementWithHash pH key;
          (case elem of
             Some e \<Rightarrow>
               (case data of
                  None \<Rightarrow> map_option (\<lambda>pH. (Some (he_data e), (pH, k))) (removeElementGivenHash pH e h)
                | Some d \<Rightarrow>
                    Some (Some (he_data e),
                      (pH \<lparr> first := map (\<lambda>x. if he_addr x = he_addr e then x \<lparr> he_data := d, pKey := key \<rparr> else x)
                         (first pH) \<rparr>, k)))
           | None \<Rightarrow>
               (case data of
                  None \<Rightarrow> Some (None, (pH, k))
                | Some d \<Rightarrow>
                    (if \<not> alloc k then Some (Some d, (pH, k + 1))
                     else
                       let new_elem = \<lparr> he_addr = k, pKey = key, he_data = d \<rparr>;
                           pH = pH \<lparr> count := count pH + 1 \<rparr>
                       in do {
                         (h, pH, k) \<leftarrow>
                           (if count pH \<ge> 10 \<and> count pH > 2 * htsize pH then
                              do {
                                (ok, pH, k) \<leftarrow> rehash alloc msize (pH, k + 1) (count pH * 2);
                                Some (if ok then bucket_of (htsize pH) key else h, pH, k)
                              }
                            else Some (h, pH, k + 1));
                         pH \<leftarrow> insertElement pH (case ht pH of Some _ \<Rightarrow> Some h | None \<Rightarrow> None) new_elem;
                         Some (None, (pH, k)) })))
        })"

section \<open>Runs of elements\<close>

text \<open>
  The elements of a bucket are contiguous in the list: \<open>after_run P xs\<close> is what follows the
  first run of elements with \<open>P\<close>.
\<close>

definition contig :: "('a \<Rightarrow> bool) \<Rightarrow> 'a list \<Rightarrow> bool" where
  "contig P xs \<longleftrightarrow> list_all (\<lambda>x. \<not> P x) (dropWhile P (dropWhile (\<lambda>x. \<not> P x) xs))"

lemma contig_Nil [simp]: "contig P []"
  by (simp add: contig_def)

lemma contig_none: "list_all (\<lambda>x. \<not> P x) xs \<Longrightarrow> contig P xs"
  by (induction xs) (auto simp: contig_def)

lemma contig_Cons_not: "\<not> P x \<Longrightarrow> contig P (x # xs) \<longleftrightarrow> contig P xs"
  by (simp add: contig_def)

lemma contig_Cons: "P x \<Longrightarrow> contig P (x # xs) \<longleftrightarrow> list_all (\<lambda>x. \<not> P x) (dropWhile P xs)"
  by (simp add: contig_def)

lemma contig_tail: "contig P (x # xs) \<Longrightarrow> contig P xs"
proof (cases "P x")
  case True
  assume "contig P (x # xs)"
  with True have n: "list_all (\<lambda>x. \<not> P x) (dropWhile P xs)" by (simp add: contig_Cons)
  show ?thesis
  proof (cases xs)
    case (Cons y ys)
    with n show ?thesis
      by (cases "P y") (auto simp: contig_Cons intro: contig_none)
  qed simp
qed (simp add: contig_Cons_not)

lemma contig_filter: "contig P xs \<Longrightarrow> takeWhile P (dropWhile (\<lambda>x. \<not> P x) xs) = filter P xs"
proof (induction xs)
  case (Cons x xs)
  show ?case
  proof (cases "P x")
    case True
    then have "list_all (\<lambda>x. \<not> P x) (dropWhile P xs)" using Cons.prems by (simp add: contig_Cons)
    then have "filter P (dropWhile P xs) = []" by (simp add: filter_empty_conv list_all_iff)
    then have "filter P xs = takeWhile P xs"
      by (metis append_Nil2 filter_append filter_True set_takeWhileD takeWhile_dropWhile_id)
    with True show ?thesis by simp
  qed (use Cons in \<open>simp add: contig_Cons_not\<close>)
qed simp

lemma list_all_insert: "list_all Q (as @ x # bs) \<longleftrightarrow> Q x \<and> list_all Q (as @ bs)"
  by auto

lemma run_insert:
  "\<not> P x \<Longrightarrow> \<not> P y \<Longrightarrow> list_all (\<lambda>z. \<not> P z) (dropWhile P (as @ x # y # bs)) \<longleftrightarrow>
     list_all (\<lambda>z. \<not> P z) (dropWhile P (as @ y # bs))"
  by (induction as) auto

lemma contig_insert:
  "\<not> P x \<Longrightarrow> \<not> P y \<Longrightarrow> contig P (as @ x # y # bs) \<longleftrightarrow> contig P (as @ y # bs)"
proof (induction as)
  case (Cons a as)
  then show ?case
    using run_insert [of P x y as bs] by (cases "P a") (auto simp: contig_Cons_not contig_Cons)
qed (simp add: contig_Cons_not)

lemma run_remove:
  "list_all (\<lambda>z. \<not> P z) (dropWhile P (as @ x # bs)) \<Longrightarrow> list_all (\<lambda>z. \<not> P z) (dropWhile P (as @ bs))"
proof (induction as)
  case Nil
  then show ?case
  proof (cases "P x")
    case False
    with Nil have "list_all (\<lambda>z. \<not> P z) bs" by simp
    then show ?thesis by (cases bs) auto
  qed simp
qed (auto split: if_splits)

lemma contig_remove: "contig P (as @ x # bs) \<Longrightarrow> contig P (as @ bs)"
proof (induction as)
  case (Cons a as)
  then show ?case
    using run_remove [of P as x bs] by (cases "P a") (auto simp: contig_Cons_not contig_Cons)
qed (auto dest: contig_tail)

lemma run_map:
  "(\<And>x. x \<in> set xs \<Longrightarrow> P (f x) = P x) \<Longrightarrow>
   list_all (\<lambda>z. \<not> P z) (dropWhile P (map f xs)) = list_all (\<lambda>z. \<not> P z) (dropWhile P xs)"
  by (induction xs) (auto simp: list_all_iff)

lemma contig_map: "(\<And>x. x \<in> set xs \<Longrightarrow> P (f x) = P x) \<Longrightarrow> contig P (map f xs) = contig P xs"
proof (induction xs)
  case (Cons x xs)
  with run_map [of xs P f] show ?case by (cases "P x") (auto simp: contig_Cons_not contig_Cons)
qed simp

section \<open>Invariant and abstraction\<close>

definition bucket_ok :: "('d hash_elem \<Rightarrow> bool) \<Rightarrow> ht_bucket \<Rightarrow> 'd hash_elem list \<Rightarrow> bool" where
  "bucket_ok P b xs \<longleftrightarrow>
     contig P xs \<and> fst b = length (filter P xs) \<and>
     (filter P xs \<noteq> [] \<longrightarrow> snd b = Some (he_addr (hd (filter P xs))))"

definition in_bucket :: "nat \<Rightarrow> nat \<Rightarrow> 'd hash_elem \<Rightarrow> bool" where
  "in_bucket n h e \<longleftrightarrow> bucket_of n (pKey e) = h"

definition table_ok :: "'d hash \<Rightarrow> bool" where
  "table_ok pH \<longleftrightarrow>
     (case ht pH of
        None \<Rightarrow> htsize pH = 0
      | Some t \<Rightarrow> 0 < htsize pH \<and> length t = htsize pH \<and>
          (\<forall>h<length t. bucket_ok (in_bucket (htsize pH) h) (t ! h) (first pH)))"

definition elems_ok :: "nat \<Rightarrow> 'd hash_elem list \<Rightarrow> bool" where
  "elems_ok k xs \<longleftrightarrow>
     list_all (\<lambda>e. is_text (pKey e) \<and> he_addr e < k) xs \<and> distinct (map he_addr xs) \<and>
     distinct (map (\<lambda>e. fold_key (pKey e)) xs)"

definition ht_inv :: "'d hash_state \<Rightarrow> bool" where
  "ht_inv s \<longleftrightarrow> elems_ok (snd s) (first (fst s)) \<and> count (fst s) = length (first (fst s)) \<and> table_ok (fst s)"

definition elems_abs :: "'d hash_elem list \<Rightarrow> ctext \<rightharpoonup> 'd" where
  "elems_abs xs = map_of (map (\<lambda>e. (fold_key (pKey e), he_data e)) xs)"

definition ht_abs :: "'d hash_state \<Rightarrow> ctext \<rightharpoonup> 'd" where
  "ht_abs s = elems_abs (first (fst s))"

lemma strHash_fold: "fold_key a = fold_key b \<Longrightarrow> strHash a = strHash b"
proof -
  have "strHash z = fold (\<lambda>u h. (h + of_nat u) * 0x9e3779b1) (fold_key z) 0" for z
    by (simp add: strHash_def fold_map comp_def)
  then show "fold_key a = fold_key b \<Longrightarrow> strHash a = strHash b" by simp
qed

section \<open>Insertion into the list\<close>

lemma insert_before_ok:
  assumes "distinct (map he_addr xs)" "filter P xs \<noteq> []"
  shows "\<exists>as y bs. xs = as @ y # bs \<and> list_all (\<lambda>z. \<not> P z) as \<and> P y \<and> y = hd (filter P xs) \<and>
    insert_before (he_addr (hd (filter P xs))) new xs = Some (as @ new # y # bs)"
  using assms
proof (induction xs)
  case (Cons x xs)
  show ?case
  proof (cases "P x")
    case True
    then show ?thesis by (intro exI [of _ "[]"] exI [of _ x] exI [of _ xs]) simp
  next
    case False
    with Cons obtain as y bs where *: "xs = as @ y # bs" "list_all (\<lambda>z. \<not> P z) as" "P y"
        "y = hd (filter P xs)" "insert_before (he_addr (hd (filter P xs))) new xs = Some (as @ new # y # bs)"
      by auto
    then have "y \<in> set xs" by (metis in_set_conv_decomp)
    then have "he_addr x \<noteq> he_addr (hd (filter P xs))" using Cons.prems(1) *(4) by auto
    with False * show ?thesis by (intro exI [of _ "x # as"] exI [of _ y] exI [of _ bs]) auto
  qed
qed simp

lemma bucket_ok_front:
  assumes "bucket_ok P b xs" "filter P xs = [] \<or> \<not> P new"
  shows "bucket_ok P (if P new then (Suc (fst b), Some (he_addr new)) else b) (new # xs)"
  using assms by (auto simp: bucket_ok_def contig_Cons contig_Cons_not filter_empty_conv list_all_iff
      dest: set_dropWhileD)

lemma bucket_ok_mid:
  assumes "bucket_ok P b (as @ y # bs)" "P new \<longleftrightarrow> P y" "P y \<longrightarrow> list_all (\<lambda>z. \<not> P z) as"
  shows "bucket_ok P (if P new then (Suc (fst b), Some (he_addr new)) else b) (as @ new # y # bs)"
proof (cases "P y")
  case True
  then have none: "filter P as = []" using assms(3) by (simp add: filter_empty_conv list_all_iff)
  have "dropWhile (\<lambda>x. \<not> P x) (as @ zs) = dropWhile (\<lambda>x. \<not> P x) zs" for zs
    using assms(3) True by (induction as) auto
  then show ?thesis
    using assms True none by (simp add: bucket_ok_def contig_def)
next
  case False
  then show ?thesis
    using assms by (auto simp: bucket_ok_def contig_insert hd_append)
qed

lemma insertElement_ok:
  assumes ok: "table_ok pH" "distinct (map he_addr (first pH))"
    and h: "pE = (case ht pH of None \<Rightarrow> None | Some _ \<Rightarrow> Some (bucket_of (htsize pH) (pKey new)))"
  shows "\<exists>as bs. first pH = as @ bs \<and>
    (\<exists>pH'. insertElement pH pE new = Some pH' \<and> first pH' = as @ new # bs \<and> htsize pH' = htsize pH \<and>
      count pH' = count pH \<and> (ht pH' = None \<longleftrightarrow> ht pH = None) \<and> table_ok pH')"
proof (cases "ht pH")
  case None
  with ok h show ?thesis
    by (intro exI [of _ "[]"] exI [of _ "first pH"]) (simp add: insertElement_def table_ok_def)
next
  case (Some t)
  let ?n = "htsize pH"
  let ?h = "bucket_of ?n (pKey new)"
  have len: "length t = ?n" "0 < ?n" and b: "\<And>i. i < ?n \<Longrightarrow> bucket_ok (in_bucket ?n i) (t ! i) (first pH)"
    using ok Some by (auto simp: table_ok_def)
  have hl: "?h < length t" using len by (simp add: bucket_of_def)
  obtain cnt chain where c: "t ! ?h = (cnt, chain)" by force
  have inb: "in_bucket ?n i new \<longleftrightarrow> i = ?h" for i by (auto simp: in_bucket_def)
  let ?P = "in_bucket ?n ?h"
  have cnt: "cnt = length (filter ?P (first pH))"
      "filter ?P (first pH) \<noteq> [] \<longrightarrow> chain = Some (he_addr (hd (filter ?P (first pH))))"
    using b [of ?h] hl len c by (auto simp: bucket_ok_def)
  let ?t = "t[?h := (cnt + 1, Some (he_addr new))]"
  have nth: "?t ! i = (if in_bucket ?n i new then (Suc (fst (t ! i)), Some (he_addr new)) else t ! i)"
    if "i < ?n" for i
    using that c len hl by (simp add: inb nth_list_update)
  show ?thesis
  proof (cases "filter ?P (first pH) = []")
    case True
    have "bucket_ok (in_bucket ?n i) (?t ! i) (new # first pH)" if "i < ?n" for i
      unfolding nth [OF that] using b [OF that] True inb by (intro bucket_ok_front) auto
    then show ?thesis
      using True cnt h Some c hl len
      by (intro exI [of _ "[]"] exI [of _ "first pH"]) (simp add: insertElement_def rd_Some table_ok_def)
  next
    case False
    obtain as y bs where s: "first pH = as @ y # bs" "list_all (\<lambda>z. \<not> ?P z) as" "?P y"
        "insert_before (he_addr (hd (filter ?P (first pH)))) new (first pH) = Some (as @ new # y # bs)"
      using insert_before_ok [OF ok(2) False] by blast
    have y: "in_bucket ?n i y \<longleftrightarrow> i = ?h" for i using s(3) by (auto simp: in_bucket_def)
    have "bucket_ok (in_bucket ?n i) (?t ! i) (as @ new # y # bs)" if "i < ?n" for i
      unfolding nth [OF that] using b [OF that] s inb y by (intro bucket_ok_mid) auto
    then show ?thesis
      using False cnt h Some c hl len s
      by (intro exI [of _ as] exI [of _ "y # bs"]) (simp add: insertElement_def rd_Some table_ok_def)
  qed
qed

lemma rehash_loop_ok:
  "table_ok pH \<Longrightarrow> distinct (map he_addr (first pH @ es)) \<Longrightarrow> ht pH \<noteq> None \<Longrightarrow> n = htsize pH \<Longrightarrow>
   \<exists>pH'. rehash_loop pH n es = Some pH' \<and> set (first pH') = set (first pH) \<union> set es \<and>
     length (first pH') = length (first pH) + length es \<and> distinct (map he_addr (first pH')) \<and>
     ht pH' \<noteq> None \<and> htsize pH' = n \<and> count pH' = count pH \<and> table_ok pH'"
proof (induction es arbitrary: pH)
  case (Cons e es)
  have pE: "Some (bucket_of n (pKey e)) = (case ht pH of None \<Rightarrow> None | Some _ \<Rightarrow> Some (bucket_of (htsize pH) (pKey e)))"
    using Cons.prems(3,4) by auto
  have "distinct (map he_addr (first pH))" using Cons.prems(2) by simp
  then obtain as bs pH1 where 1: "first pH = as @ bs"
      "insertElement pH (Some (bucket_of n (pKey e))) e = Some pH1" "first pH1 = as @ e # bs"
      "htsize pH1 = htsize pH" "count pH1 = count pH" "ht pH1 = None \<longleftrightarrow> ht pH = None" "table_ok pH1"
    using insertElement_ok [OF Cons.prems(1) \<open>distinct (map he_addr (first pH))\<close> pE] by (elim exE conjE) rule
  have d: "distinct (map he_addr (first pH1 @ es))"
    using Cons.prems(2) unfolding 1(1,3) by auto
  have e: "ht pH1 \<noteq> None" "n = htsize pH1" using 1(4,6) Cons.prems(3,4) by simp_all
  obtain pH' where 2: "rehash_loop pH1 n es = Some pH'" "set (first pH') = set (first pH1) \<union> set es"
      "length (first pH') = length (first pH1) + length es" "distinct (map he_addr (first pH'))"
      "ht pH' \<noteq> None" "htsize pH' = n" "count pH' = count pH1" "table_ok pH'"
    using Cons.IH [OF 1(7) d e] by (elim exE conjE) rule
  have "set (first pH') = set (first pH) \<union> set (e # es)"
    unfolding 2(2) 1(1,3) by auto
  moreover have "rehash_loop pH n (e # es) = Some pH'" using 1(2) 2(1) by simp
  moreover have "length (first pH') = length (first pH) + length (e # es)"
    unfolding 2(3) 1(1,3) by simp
  ultimately show ?case
    using 2 1(5) by (intro exI [of _ pH'] conjI) simp_all
qed simp

text \<open>The size of an allocation is at least what was asked for.\<close>

lemma rehash_ok:
  assumes "table_ok pH" "distinct (map he_addr (first pH))" "0 < sz" "\<And>n. n \<le> msize n"
  shows "\<exists>ok pH' k'. rehash alloc msize (pH, k) sz = Some (ok, (pH', k')) \<and> k \<le> k' \<and>
    set (first pH') = set (first pH) \<and> length (first pH') = length (first pH) \<and>
    distinct (map he_addr (first pH')) \<and> count pH' = count pH \<and> table_ok pH' \<and>
    (if ok then ht pH' \<noteq> None else pH' = pH)"
proof -
  define new where "new = (if sz * 16 > 1024 then 1024 div 16 else sz)"
  define n where "n = msize (new * 16) div 16"
  have "0 < new" using assms(3) by (simp add: new_def)
  moreover have "new * 16 \<le> msize (new * 16)" by (rule assms(4))
  ultimately have n: "0 < n" by (simp add: n_def)
  let ?pH = "pH \<lparr> ht := Some (replicate n (0, None)), htsize := n, first := [] \<rparr>"
  have "table_ok ?pH" using n by (simp add: table_ok_def bucket_ok_def)
  then obtain pH' where r: "rehash_loop ?pH n (first pH) = Some pH'" "set (first pH') = set (first pH)"
      "length (first pH') = length (first pH)" "distinct (map he_addr (first pH'))"
      "ht pH' \<noteq> None" "htsize pH' = n" "count pH' = count pH" "table_ok pH'"
    using rehash_loop_ok [of ?pH "first pH" n] assms(2) by auto
  have def: "rehash alloc msize (pH, k) sz =
      (if new = htsize pH then Some (False, (pH, k))
       else if \<not> alloc k then Some (False, (pH, k + 1))
       else if n = 0 then None else map_option (\<lambda>pH. (True, (pH, k + 1))) (rehash_loop ?pH n (first pH)))"
    by (simp add: rehash_def new_def n_def Let_def)
  consider "new = htsize pH \<or> \<not> alloc k" | "new \<noteq> htsize pH" "alloc k" by blast
  then show ?thesis
  proof cases
    case 1
    then obtain k' where "rehash alloc msize (pH, k) sz = Some (False, (pH, k'))" "k \<le> k'"
      using def by (cases "new = htsize pH") auto
    with assms(1,2) show ?thesis by (metis (full_types))
  next
    case 2
    then have "rehash alloc msize (pH, k) sz = Some (True, (pH', k + 1))"
      using def r(1) n by simp
    with r show ?thesis by (intro exI [of _ True] exI [of _ pH'] exI [of _ "k + 1"]) simp
  qed
qed

section \<open>Searching\<close>

lemma find_loop_eq: "n \<le> length xs \<Longrightarrow> find_loop xs n P = Some (find (\<lambda>e. P (pKey e)) (take n xs))"
  by (induction xs n P rule: find_loop.induct) auto

lemma chain_start:
  "distinct (map he_addr xs) \<Longrightarrow> filter P xs \<noteq> [] \<Longrightarrow>
   dropWhile (\<lambda>e. he_addr e \<noteq> he_addr (hd (filter P xs))) xs = dropWhile (\<lambda>x. \<not> P x) xs"
proof (induction xs)
  case (Cons x xs)
  show ?case
  proof (cases "P x")
    case False
    with Cons.prems have "hd (filter P xs) \<in> set xs"
      by (metis filter.simps(2) filter_is_subset hd_in_set subsetD)
    with False Cons show ?thesis by auto
  qed simp
qed simp

lemma find_filter: "(\<And>x. x \<in> set xs \<Longrightarrow> Q x \<Longrightarrow> P x) \<Longrightarrow> find Q (filter P xs) = find Q xs"
  by (induction xs) auto

lemma bucket_find:
  assumes "bucket_ok P (cnt, chain) xs" "distinct (map he_addr xs)" "\<And>x. x \<in> set xs \<Longrightarrow> Q (pKey x) \<Longrightarrow> P x"
  shows "find_loop (case chain of None \<Rightarrow> [] | Some a \<Rightarrow> dropWhile (\<lambda>e. he_addr e \<noteq> a) xs) cnt Q =
    Some (find (\<lambda>e. Q (pKey e)) xs)"
proof (cases "filter P xs = []")
  case True
  then have "find (\<lambda>e. Q (pKey e)) xs = None"
    using find_filter [where Q = "\<lambda>e. Q (pKey e)" and P = P and xs = xs] assms(3) by simp
  with True assms(1) show ?thesis by (simp add: bucket_ok_def)
next
  case False
  let ?ys = "dropWhile (\<lambda>x. \<not> P x) xs"
  have c: "cnt = length (filter P xs)" "chain = Some (he_addr (hd (filter P xs)))" "takeWhile P ?ys = filter P xs"
    using assms(1) False contig_filter by (auto simp: bucket_ok_def)
  have "cnt \<le> length ?ys" "take cnt ?ys = filter P xs"
    using c by (metis length_takeWhile_le, metis takeWhile_eq_take)
  then show ?thesis
    using c(2) chain_start [OF assms(2) False] find_filter [where Q = "\<lambda>e. Q (pKey e)" and P = P and xs = xs] assms(3)
    by (simp add: find_loop_eq)
qed

lemma find_text_cong:
  "list_all (\<lambda>e. is_text (pKey e)) xs \<Longrightarrow> is_text key \<Longrightarrow>
   find (\<lambda>e. sqlite3StrICmp (pKey e) key = 0) xs = find (\<lambda>e. fold_key (pKey e) = fold_key key) xs"
  by (induction xs) (auto simp: StrICmp_0)

definition key_hash :: "'d hash \<Rightarrow> ctext \<Rightarrow> nat" where
  "key_hash pH key = (case ht pH of None \<Rightarrow> 0 | Some _ \<Rightarrow> bucket_of (htsize pH) key)"

lemma find_ok:
  assumes "ht_inv (pH, k)" "is_text key"
  shows "findElementWithHash pH key =
    Some (find (\<lambda>e. fold_key (pKey e) = fold_key key) (first pH), key_hash pH key)"
proof -
  let ?Q = "\<lambda>k. sqlite3StrICmp k key = 0"
  have e: "list_all (\<lambda>e. is_text (pKey e)) (first pH)" "distinct (map he_addr (first pH))"
    "count pH = length (first pH)" "table_ok pH"
    using assms(1) by (auto simp: ht_inv_def elems_ok_def list_all_iff)
  note cong = find_text_cong [OF e(1) assms(2)]
  show ?thesis
  proof (cases "ht pH")
    case None
    then show ?thesis
      using e(3) cong by (simp add: findElementWithHash_def key_hash_def find_loop_eq)
  next
    case (Some t)
    let ?h = "bucket_of (htsize pH) key"
    have len: "0 < htsize pH" "length t = htsize pH" and h: "?h < length t"
      using e(4) Some by (auto simp: table_ok_def bucket_of_def)
    obtain cnt chain where c: "t ! ?h = (cnt, chain)" by force
    have b: "bucket_ok (in_bucket (htsize pH) ?h) (cnt, chain) (first pH)"
      using e(4) Some h c by (auto simp: table_ok_def)
    have "in_bucket (htsize pH) ?h x" if "x \<in> set (first pH)" "?Q (pKey x)" for x
      using that e(1) assms(2) strHash_fold [of "pKey x" key]
      by (auto simp: list_all_iff StrICmp_0 in_bucket_def bucket_of_def)
    then have "find_loop (case chain of None \<Rightarrow> [] | Some a \<Rightarrow> dropWhile (\<lambda>e. he_addr e \<noteq> a) (first pH)) cnt ?Q =
        Some (find (\<lambda>e. ?Q (pKey e)) (first pH))"
      by (intro bucket_find [OF b e(2)])
    then show ?thesis
      using Some len h c cong by (simp add: findElementWithHash_def key_hash_def rd_Some)
  qed
qed

section \<open>Removing\<close>

lemma next_addr_at:
  "distinct (map he_addr (as @ e # bs)) \<Longrightarrow>
   next_addr (he_addr e) (as @ e # bs) = (case bs of [] \<Rightarrow> None | y # _ \<Rightarrow> Some (he_addr y))"
  by (induction as) auto

lemma filter_addr:
  "distinct (map he_addr (as @ e # bs)) \<Longrightarrow>
   filter (\<lambda>x. he_addr x \<noteq> he_addr e) (as @ e # bs) = as @ bs"
proof -
  assume d: "distinct (map he_addr (as @ e # bs))"
  then have "filter (\<lambda>x. he_addr x \<noteq> he_addr e) as = as" "filter (\<lambda>x. he_addr x \<noteq> he_addr e) bs = bs"
    by (auto simp: filter_id_conv image_iff)
  then show ?thesis by simp
qed

lemma bucket_remove_other: "bucket_ok P b (as @ e # bs) \<Longrightarrow> \<not> P e \<Longrightarrow> bucket_ok P b (as @ bs)"
  by (auto simp: bucket_ok_def dest: contig_remove)

lemma contig_skip: "list_all (\<lambda>x. \<not> P x) as \<Longrightarrow> contig P (as @ ys) \<longleftrightarrow> contig P ys"
  by (induction as) (auto simp: contig_Cons_not)

lemma bucket_remove_1:
  assumes b: "bucket_ok P (cnt, chain) (as @ e # bs)" and "P e" and none: "filter P as = []"
  shows "0 < cnt \<and> chain = Some (he_addr e) \<and>
    bucket_ok P (cnt - 1, case bs of [] \<Rightarrow> None | y # _ \<Rightarrow> Some (he_addr y)) (as @ bs)"
proof -
  have f: "filter P (as @ e # bs) = e # filter P bs" "filter P (as @ bs) = filter P bs"
    using none \<open>P e\<close> by simp_all
  have c: "contig P (as @ e # bs)" "cnt = Suc (length (filter P bs))" "chain = Some (he_addr e)"
    using b unfolding bucket_ok_def f by simp_all
  have "list_all (\<lambda>x. \<not> P x) as" using none by (simp add: filter_empty_conv list_all_iff)
  then have run: "list_all (\<lambda>x. \<not> P x) (dropWhile P bs)"
    using c(1) contig_skip [of P as "e # bs"] contig_Cons [of P e bs] \<open>P e\<close> by blast
  have "filter P bs \<noteq> [] \<longrightarrow>
      (case bs of [] \<Rightarrow> None | y # _ \<Rightarrow> Some (he_addr y)) = Some (he_addr (hd (filter P bs)))"
  proof (cases bs)
    case (Cons y ys)
    show ?thesis
    proof (cases "P y")
      case False
      with run Cons have "filter P bs = []" by (simp add: filter_empty_conv list_all_iff)
      then show ?thesis by simp
    qed (simp add: Cons)
  qed simp
  then show ?thesis
    using c contig_remove [OF c(1)] unfolding bucket_ok_def f by simp
qed

lemma bucket_remove_2:
  assumes b: "bucket_ok P (cnt, chain) (as @ e # bs)" and "P e" and some: "filter P as \<noteq> []"
    and d: "distinct (map he_addr (as @ e # bs))"
  shows "0 < cnt \<and> chain \<noteq> Some (he_addr e) \<and> bucket_ok P (cnt - 1, chain) (as @ bs)"
proof -
  have f: "hd (filter P (as @ zs)) = hd (filter P as)" for zs using some by simp
  have c: "contig P (as @ e # bs)" "cnt = length (filter P (as @ e # bs))"
    "chain = Some (he_addr (hd (filter P as)))"
    using b some unfolding bucket_ok_def f by simp_all
  have "hd (filter P as) \<in> set as" using hd_in_set [OF some] by simp
  then have "he_addr (hd (filter P as)) \<in> he_addr ` set as" by (rule imageI)
  moreover have "he_addr e \<notin> he_addr ` set as" using d by simp
  ultimately have "he_addr (hd (filter P as)) \<noteq> he_addr e" by metis
  with c(3) have "chain \<noteq> Some (he_addr e)" by simp
  moreover have "bucket_ok P (cnt - 1, chain) (as @ bs)"
    unfolding bucket_ok_def f using c(2,3) contig_remove [OF c(1)] \<open>P e\<close> by simp
  ultimately show ?thesis using c(2) \<open>P e\<close> by simp
qed

lemma bucket_remove:
  assumes "bucket_ok P (cnt, chain) (as @ e # bs)" "P e" "distinct (map he_addr (as @ e # bs))"
  shows "0 < cnt \<and> bucket_ok P (cnt - 1,
    if chain = Some (he_addr e) then next_addr (he_addr e) (as @ e # bs) else chain) (as @ bs)"
  using bucket_remove_1 [OF assms(1,2)] bucket_remove_2 [OF assms(1,2) _ assms(3)] next_addr_at [OF assms(3)]
  by (cases "filter P as = []") simp_all

lemma remove_ok:
  assumes inv: "ht_inv (pH, k)" and e: "e \<in> set (first pH)"
  shows "\<exists>pH'. removeElementGivenHash pH e (key_hash pH (pKey e)) = Some pH' \<and> ht_inv (pH', k) \<and>
    set (first pH') = set (first pH) - {e}"
proof -
  have f: "elems_ok k (first pH)" "count pH = length (first pH)" "table_ok pH"
    and d: "distinct (map he_addr (first pH))"
    using inv by (auto simp: ht_inv_def elems_ok_def)
  obtain as bs where s: "first pH = as @ e # bs" using e by (meson split_list)
  note fa = filter_addr [OF d [unfolded s]]
  have ok: "elems_ok k (as @ bs)" using f(1) by (auto simp: s elems_ok_def)
  have rest: "set (as @ bs) = set (first pH) - {e}" using d by (auto simp: s)
  let ?t = "\<lambda>pH t. t"
  have step: "\<exists>pH1. (case ht pH of
                Some t \<Rightarrow>
                  do {
                    (cnt, chain) \<leftarrow> rd t (key_hash pH (pKey e));
                    if cnt > 0 then
                      Some (pH \<lparr> ht := Some (t[key_hash pH (pKey e) := (cnt - 1,
                        if chain = Some (he_addr e) then next_addr (he_addr e) (first pH) else chain)]) \<rparr>)
                    else None
                  }
              | None \<Rightarrow> Some pH) = Some pH1 \<and> first pH1 = first pH \<and> count pH1 = count pH \<and>
      table_ok (pH1 \<lparr> first := as @ bs, count := n \<rparr>)" for n
  proof (cases "ht pH")
    case None
    with f(3) show ?thesis by (simp add: table_ok_def)
  next
    case (Some t)
    let ?h = "bucket_of (htsize pH) (pKey e)"
    have len: "0 < htsize pH" "length t = htsize pH" and h: "?h < length t"
      and b: "\<And>i. i < htsize pH \<Longrightarrow> bucket_ok (in_bucket (htsize pH) i) (t ! i) (as @ e # bs)"
      using f(3) Some s by (auto simp: table_ok_def bucket_of_def)
    obtain cnt chain where c: "t ! ?h = (cnt, chain)" by force
    have be: "bucket_ok (in_bucket (htsize pH) ?h) (cnt, chain) (as @ e # bs)"
      using b [of ?h] h len c by simp
    have r: "0 < cnt" "bucket_ok (in_bucket (htsize pH) ?h) (cnt - 1,
        if chain = Some (he_addr e) then next_addr (he_addr e) (first pH) else chain) (as @ bs)"
      using bucket_remove [OF be _ d [unfolded s]] unfolding s by (simp_all add: in_bucket_def split del: if_split)
    have "bucket_ok (in_bucket (htsize pH) i) (t[?h := (cnt - 1,
        if chain = Some (he_addr e) then next_addr (he_addr e) (first pH) else chain)] ! i) (as @ bs)"
      if "i < htsize pH" for i
    proof (cases "i = ?h")
      case True
      with r(2) h show ?thesis by simp
    next
      case False
      then have "\<not> in_bucket (htsize pH) i e" by (simp add: in_bucket_def)
      with bucket_remove_other [OF b [OF that]] False show ?thesis by simp
    qed
    with Some h len c r(1) show ?thesis
      by (simp add: key_hash_def rd_Some table_ok_def)
  qed
  obtain pH1 where p: "(case ht pH of
                Some t \<Rightarrow>
                  do {
                    (cnt, chain) \<leftarrow> rd t (key_hash pH (pKey e));
                    if cnt > 0 then
                      Some (pH \<lparr> ht := Some (t[key_hash pH (pKey e) := (cnt - 1,
                        if chain = Some (he_addr e) then next_addr (he_addr e) (first pH) else chain)]) \<rparr>)
                    else None
                  }
              | None \<Rightarrow> Some pH) = Some pH1" "first pH1 = first pH" "count pH1 = count pH"
      "table_ok (pH1 \<lparr> first := as @ bs, count := count pH - 1 \<rparr>)"
    using step by blast
  let ?pH = "pH1 \<lparr> first := as @ bs, count := count pH - 1 \<rparr>"
  have r: "removeElementGivenHash pH e (key_hash pH (pKey e)) =
      (if count ?pH = 0 then (if first ?pH = [] then Some (sqlite3HashClear ?pH) else None) else Some ?pH)"
    unfolding removeElementGivenHash_def p(1) using p(2,3) fa s by (simp add: Let_def)
  show ?thesis
  proof (cases "as @ bs = []")
    case True
    with r f(2) s rest show ?thesis
      by (simp add: sqlite3HashClear_def ht_inv_def elems_ok_def table_ok_def)
  next
    case False
    with r f(2) s rest ok p(4) show ?thesis
      by (auto simp: ht_inv_def)
  qed
qed

section \<open>The abstract map\<close>

lemma abs_iff:
  "distinct (map (\<lambda>e. fold_key (pKey e)) xs) \<Longrightarrow>
   elems_abs xs K = Some d \<longleftrightarrow> (\<exists>e \<in> set xs. fold_key (pKey e) = K \<and> he_data e = d)"
  unfolding elems_abs_def by (subst map_of_eq_Some_iff) (auto simp: comp_def image_iff)

lemma option_eqI: "(\<And>d. x = Some d \<longleftrightarrow> y = Some d) \<Longrightarrow> x = y"
  by (metis not_None_eq)

lemma abs_None: "elems_abs xs K = None \<longleftrightarrow> (\<forall>e \<in> set xs. fold_key (pKey e) \<noteq> K)"
  by (induction xs) (auto simp: elems_abs_def)

lemma abs_cong:
  assumes "distinct (map (\<lambda>e. fold_key (pKey e)) xs)" "distinct (map (\<lambda>e. fold_key (pKey e)) ys)" "set xs = set ys"
  shows "elems_abs xs = elems_abs ys"
proof
  fix K
  show "elems_abs xs K = elems_abs ys K"
    by (rule option_eqI) (simp only: abs_iff [OF assms(1)] abs_iff [OF assms(2)] assms(3))
qed

lemma find_abs_elems:
  "map_option he_data (find (\<lambda>e. fold_key (pKey e) = K) xs) = elems_abs xs K"
  by (induction xs) (auto simp: elems_abs_def)

lemma distinct_map_set:
  "set xs = set ys \<Longrightarrow> length xs = length ys \<Longrightarrow> distinct (map f xs) \<Longrightarrow> distinct (map f ys)"
  by (metis card_distinct distinct_card length_map set_map)

lemma abs_remove:
  assumes "distinct (map (\<lambda>e. fold_key (pKey e)) xs)" "distinct (map (\<lambda>e. fold_key (pKey e)) ys)"
    "set ys = set xs - {e}" "e \<in> set xs"
  shows "elems_abs ys = (elems_abs xs)(fold_key (pKey e) := None)"
proof
  fix K
  have uniq: "e' = e" if "e' \<in> set xs" "fold_key (pKey e') = fold_key (pKey e)" for e'
    using that assms(1,4) by (simp add: distinct_map inj_on_def)
  show "elems_abs ys K = ((elems_abs xs)(fold_key (pKey e) := None)) K"
  proof (cases "K = fold_key (pKey e)")
    case True
    then show ?thesis using uniq assms(3) by (auto simp: abs_None)
  next
    case False
    then have "elems_abs ys K = elems_abs xs K"
      using assms(3) by (intro option_eqI) (auto simp: abs_iff [OF assms(1)] abs_iff [OF assms(2)])
    with False show ?thesis by simp
  qed
qed

lemma abs_replace:
  assumes "e \<in> set xs" "distinct (map he_addr xs)" "distinct (map (\<lambda>e. fold_key (pKey e)) xs)"
    "fold_key key = fold_key (pKey e)"
  shows "elems_abs (map (\<lambda>x. if he_addr x = he_addr e then x \<lparr> he_data := d, pKey := key \<rparr> else x) xs) =
    (elems_abs xs)(fold_key key \<mapsto> d)"
  using assms
proof (induction xs)
  case (Cons x xs)
  show ?case
  proof (cases "x = e")
    case True
    have "he_addr y \<noteq> he_addr e" if "y \<in> set xs" for y
      using imageI [OF that, of he_addr] Cons.prems(2) True by auto
    then have "map (\<lambda>x. if he_addr x = he_addr e then x \<lparr> he_data := d, pKey := key \<rparr> else x) xs = xs"
      by (intro map_idI) auto
    with True Cons.prems(4) show ?thesis by (simp add: elems_abs_def fun_eq_iff)
  next
    case False
    then have e: "e \<in> set xs" using Cons.prems(1) by simp
    have "he_addr x \<noteq> he_addr e" "fold_key (pKey x) \<noteq> fold_key (pKey e)"
      using e imageI [OF e, of he_addr] imageI [OF e, of "\<lambda>e. fold_key (pKey e)"] Cons.prems(2,3) by auto
    with Cons e show ?thesis by (auto simp: elems_abs_def fun_upd_twist)
  qed
qed simp

lemma abs_new:
  assumes "elems_abs (as @ bs) (fold_key (pKey new)) = None"
  shows "elems_abs (as @ new # bs) = (elems_abs (as @ bs))(fold_key (pKey new) \<mapsto> he_data new)"
proof -
  have "elems_abs as (fold_key (pKey new)) = None"
    using assms by (auto simp: abs_None)
  then show ?thesis
    by (auto simp: elems_abs_def map_add_def fun_eq_iff split: option.splits)
qed

lemma table_replace:
  assumes "table_ok pH" "distinct (map he_addr (first pH))" "e \<in> set (first pH)" "strHash key = strHash (pKey e)"
  shows "table_ok (pH \<lparr> first := map (\<lambda>x. if he_addr x = he_addr e then x \<lparr> he_data := d, pKey := key \<rparr> else x) (first pH) \<rparr>)"
proof -
  let ?f = "\<lambda>x. if he_addr x = he_addr e then x \<lparr> he_data := d, pKey := key \<rparr> else x"
  have same: "in_bucket n h (?f x) = in_bucket n h x" if "x \<in> set (first pH)" for n h x
  proof -
    have "x = e" if "he_addr x = he_addr e"
      using that \<open>x \<in> set (first pH)\<close> assms(2,3) by (simp add: distinct_map inj_on_def)
    then show ?thesis using assms(4) by (auto simp: in_bucket_def bucket_of_def)
  qed
  have addr: "he_addr (?f x) = he_addr x" for x by simp
  have "bucket_ok (in_bucket n h) b (map ?f (first pH))" if "bucket_ok (in_bucket n h) b (first pH)" for n h b
  proof -
    have c: "contig (in_bucket n h) (map ?f (first pH)) = contig (in_bucket n h) (first pH)"
      by (rule contig_map) (rule same)
    have "filter (in_bucket n h \<circ> ?f) (first pH) = filter (in_bucket n h) (first pH)"
      using same by (intro filter_cong) (simp_all add: comp_def)
    then have f: "filter (in_bucket n h) (map ?f (first pH)) = map ?f (filter (in_bucket n h) (first pH))"
      by (simp add: filter_map)
    show ?thesis
      using that unfolding bucket_ok_def c f by (auto simp: hd_map)
  qed
  then show ?thesis
    using assms(1) by (auto simp: table_ok_def split: option.splits)
qed

section \<open>Insertion\<close>

lemma insert_found:
  assumes inv: "ht_inv (pH, k)" and key: "is_text key"
    and e: "find (\<lambda>e. fold_key (pKey e) = fold_key key) (first pH) = Some e"
  shows "\<exists>s'. sqlite3HashInsert msize alloc (pH, k) key d = Some (elems_abs (first pH) (fold_key key), s') \<and>
    ht_inv s' \<and> ht_abs s' = (ht_abs (pH, k))(fold_key key := d)"
proof -
  have f: "elems_ok k (first pH)" "count pH = length (first pH)" "table_ok pH"
    and dist: "distinct (map he_addr (first pH))" "distinct (map (\<lambda>e. fold_key (pKey e)) (first pH))"
    using inv by (auto simp: ht_inv_def elems_ok_def)
  have es: "e \<in> set (first pH)" and k: "fold_key (pKey e) = fold_key key"
    using e by (auto simp: find_Some_iff in_set_conv_nth)
  have hash: "strHash key = strHash (pKey e)" using strHash_fold k by metis
  then have h: "key_hash pH key = key_hash pH (pKey e)"
    by (simp add: key_hash_def bucket_of_def split: option.splits)
  have old: "elems_abs (first pH) (fold_key key) = Some (he_data e)"
    using find_abs_elems [of "fold_key key" "first pH"] e by simp
  have fnd: "findElementWithHash pH key = Some (Some e, key_hash pH (pKey e))"
    using find_ok [OF inv key] e h by simp
  show ?thesis
  proof (cases d)
    case None
    obtain pH' where r: "removeElementGivenHash pH e (key_hash pH (pKey e)) = Some pH'" "ht_inv (pH', k)"
        "set (first pH') = set (first pH) - {e}"
      using remove_ok [OF inv es] by blast
    have "distinct (map (\<lambda>e. fold_key (pKey e)) (first pH'))"
      using r(2) by (simp add: ht_inv_def elems_ok_def)
    then have "elems_abs (first pH') = (elems_abs (first pH))(fold_key key := None)"
      using abs_remove [OF dist(2) _ r(3) es] k by simp
    then show ?thesis
      using None r fnd old
      by (intro exI [of _ "(pH', k)"]) (simp add: sqlite3HashInsert_def ht_abs_def)
  next
    case (Some d')
    let ?f = "\<lambda>x. if he_addr x = he_addr e then x \<lparr> he_data := d', pKey := key \<rparr> else x"
    let ?pH = "pH \<lparr> first := map ?f (first pH) \<rparr>"
    have same: "fold_key (pKey (?f x)) = fold_key (pKey x)" if "x \<in> set (first pH)" for x
    proof -
      have "x = e" if "he_addr x = he_addr e"
        using that \<open>x \<in> set (first pH)\<close> dist(1) es by (simp add: distinct_map inj_on_def)
      then show ?thesis using k by auto
    qed
    then have "map (\<lambda>e. fold_key (pKey e)) (map ?f (first pH)) = map (\<lambda>e. fold_key (pKey e)) (first pH)"
      by simp
    moreover have "map he_addr (map ?f (first pH)) = map he_addr (first pH)" by simp
    moreover have "list_all (\<lambda>e. is_text (pKey e) \<and> he_addr e < k) (map ?f (first pH))"
      using f(1) key by (auto simp: elems_ok_def list_all_iff)
    ultimately have "elems_ok k (map ?f (first pH))"
      using dist unfolding elems_ok_def by metis
    moreover have "table_ok ?pH"
      by (rule table_replace [OF f(3) dist(1) es hash])
    ultimately have "ht_inv (?pH, k)" using f(2) by (simp add: ht_inv_def)
    moreover have "ht_abs (?pH, k) = (ht_abs (pH, k))(fold_key key := d)"
      using abs_replace [OF es dist k [symmetric], of d'] Some by (simp add: ht_abs_def)
    moreover have "sqlite3HashInsert msize alloc (pH, k) key d = Some (elems_abs (first pH) (fold_key key), (?pH, k))"
      using Some fnd old by (simp add: sqlite3HashInsert_def)
    ultimately show ?thesis by blast
  qed
qed

text \<open>The state just before the new element is linked in.\<close>

definition make_room :: "(nat \<Rightarrow> nat) \<Rightarrow> (nat \<Rightarrow> bool) \<Rightarrow> 'd hash \<Rightarrow> nat \<Rightarrow> ctext \<Rightarrow> (nat \<times> 'd hash \<times> nat) option" where
  "make_room msize alloc pH k key =
     (if count pH \<ge> 10 \<and> count pH > 2 * htsize pH then
        do {
          (ok, pH', k') \<leftarrow> rehash alloc msize (pH, k + 1) (count pH * 2);
          Some (if ok then bucket_of (htsize pH') key else key_hash pH key, pH', k')
        }
      else Some (key_hash pH key, pH, k + 1))"

lemma make_room_ok:
  assumes "table_ok pH" "distinct (map he_addr (first pH))" "0 < count pH" "\<And>n. n \<le> msize n"
  shows "\<exists>h pH' k'. make_room msize alloc pH k key = Some (h, pH', k') \<and> k < k' \<and>
    set (first pH') = set (first pH) \<and> length (first pH') = length (first pH) \<and>
    distinct (map he_addr (first pH')) \<and> count pH' = count pH \<and> table_ok pH' \<and> h = key_hash pH' key"
proof (cases "count pH \<ge> 10 \<and> count pH > 2 * htsize pH")
  case True
  have pos: "0 < count pH * 2" using assms(3) by simp
  obtain ok pH' k' where r: "rehash alloc msize (pH, k + 1) (count pH * 2) = Some (ok, (pH', k'))" "k + 1 \<le> k'"
      "set (first pH') = set (first pH)" "length (first pH') = length (first pH)"
      "distinct (map he_addr (first pH'))" "count pH' = count pH" "table_ok pH'"
      "if ok then ht pH' \<noteq> None else pH' = pH"
    using rehash_ok [where alloc = alloc and k = "k + 1", OF assms(1,2) pos assms(4)] by (elim exE conjE) rule
  have "(if ok then bucket_of (htsize pH') key else key_hash pH key) = key_hash pH' key"
    using r(8) by (auto simp: key_hash_def split: if_splits)
  with True r show ?thesis
    by (intro exI [of _ "key_hash pH' key"] exI [of _ pH'] exI [of _ k']) (simp add: make_room_def)
next
  case False
  then have "make_room msize alloc pH k key = Some (key_hash pH key, pH, k + 1)"
    by (auto simp: make_room_def)
  then show ?thesis
    using assms(1,2) by (intro exI [of _ "key_hash pH key"] exI [of _ pH] exI [of _ "k + 1"]) simp
qed

lemma insert_fresh:
  assumes inv: "ht_inv (pH, k)" and key: "is_text key" and m: "\<And>n. n \<le> msize n"
    and none: "find (\<lambda>e. fold_key (pKey e) = fold_key key) (first pH) = None" and a: "alloc k"
  shows "\<exists>s'. sqlite3HashInsert msize alloc (pH, k) key (Some d) = Some (None, s') \<and>
    ht_inv s' \<and> ht_abs s' = (ht_abs (pH, k))(fold_key key \<mapsto> d)"
proof -
  let ?new = "\<lparr> he_addr = k, pKey = key, he_data = d \<rparr>"
  let ?pH = "pH \<lparr> count := count pH + 1 \<rparr>"
  have f: "elems_ok k (first pH)" "count pH = length (first pH)" "table_ok pH"
    and dist: "distinct (map he_addr (first pH))" "distinct (map (\<lambda>e. fold_key (pKey e)) (first pH))"
    using inv by (auto simp: ht_inv_def elems_ok_def)
  have "table_ok ?pH" "distinct (map he_addr (first ?pH))" "0 < count ?pH"
    using f(3) dist(1) by (simp_all add: table_ok_def split: option.splits)
  from make_room_ok [where alloc = alloc and k = k and key = key, OF this m]
  obtain h pH1 k1 where r: "make_room msize alloc ?pH k key = Some (h, pH1, k1)" "k < k1"
      "set (first pH1) = set (first pH)" "length (first pH1) = length (first pH)"
      "distinct (map he_addr (first pH1))" "count pH1 = count pH + 1" "table_ok pH1" "h = key_hash pH1 key"
    by (elim exE conjE) (rule, simp_all)
  have dist1: "distinct (map (\<lambda>e. fold_key (pKey e)) (first pH1))"
    using distinct_map_set [OF _ _ dist(2), of "first pH1"] r(3,4) by simp
  have pE: "(case ht pH1 of Some _ \<Rightarrow> Some h | None \<Rightarrow> None) =
      (case ht pH1 of None \<Rightarrow> None | Some _ \<Rightarrow> Some (bucket_of (htsize pH1) (pKey ?new)))"
    using r(8) by (simp add: key_hash_def split: option.splits)
  obtain as bs pH2 where i: "first pH1 = as @ bs"
      "insertElement pH1 (case ht pH1 of Some _ \<Rightarrow> Some h | None \<Rightarrow> None) ?new = Some pH2"
      "first pH2 = as @ ?new # bs" "count pH2 = count pH1" "table_ok pH2"
    using insertElement_ok [OF r(7,5) pE] by (elim exE conjE) rule
  have absent: "elems_abs (first pH1) (fold_key key) = None"
    using find_abs_elems [of "fold_key key" "first pH"] none abs_cong [OF dist1 dist(2) r(3)] by simp
  have "is_text (pKey e) \<and> he_addr e < k1 \<and> he_addr e \<noteq> k" if "e \<in> set (first pH1)" for e
    using f(1) r(2) that unfolding r(3) elems_ok_def by (auto simp: list_all_iff)
  then have old: "list_all (\<lambda>e. is_text (pKey e) \<and> he_addr e < k1 \<and> he_addr e \<noteq> k) (as @ bs)"
    unfolding i(1) list_all_iff by blast
  have "elems_ok k1 (as @ ?new # bs)"
    using old r(2,5) dist1 absent key unfolding i(1) elems_ok_def
    by (auto simp: list_all_iff abs_None)
  then have inv2: "ht_inv (pH2, k1)"
    using i(3,4,5) r(4,6) f(2) unfolding i(1) by (simp add: ht_inv_def)
  have abs2: "ht_abs (pH2, k1) = (ht_abs (pH, k))(fold_key key \<mapsto> d)"
    using abs_new [of as bs ?new] absent abs_cong [OF dist1 dist(2) r(3)] i(1,3) by (simp add: ht_abs_def)
  have kh: "key_hash ?pH key = key_hash pH key" by (simp add: key_hash_def split: option.splits)
  have "sqlite3HashInsert msize alloc (pH, k) key (Some d) =
      do { (h, pH, k') \<leftarrow> make_room msize alloc ?pH k key;
           pH \<leftarrow> insertElement pH (case ht pH of Some _ \<Rightarrow> Some h | None \<Rightarrow> None) ?new;
           Some (None, (pH, k')) }"
    unfolding make_room_def kh using find_ok [OF inv key] none a
    by (simp add: sqlite3HashInsert_def Let_def)
  also have "\<dots> = Some (None, (pH2, k1))" using r(1) i(2) by simp
  finally show ?thesis using inv2 abs2 by blast
qed

lemma insert_all:
  assumes "ht_inv s" "is_text key" "\<And>n. n \<le> msize n"
  shows "\<exists>s'. ht_inv s' \<and>
    (if d \<noteq> None \<and> ht_abs s (fold_key key) = None \<and> \<not> alloc (snd s)
     then sqlite3HashInsert msize alloc s key d = Some (d, s') \<and> ht_abs s' = ht_abs s
     else sqlite3HashInsert msize alloc s key d = Some (ht_abs s (fold_key key), s') \<and>
       ht_abs s' = (ht_abs s)(fold_key key := d))"
proof (cases s)
  case (Pair pH k)
  note inv = assms(1) [unfolded Pair]
  have abs: "ht_abs s (fold_key key) = elems_abs (first pH) (fold_key key)" by (simp add: ht_abs_def Pair)
  show ?thesis
  proof (cases "find (\<lambda>e. fold_key (pKey e) = fold_key key) (first pH)")
    case (Some e)
    then have "ht_abs s (fold_key key) \<noteq> None"
      using find_abs_elems [of "fold_key key" "first pH"] abs by (metis not_None_eq option.map_disc_iff)
    with insert_found [OF inv assms(2) Some, of msize alloc d] show ?thesis
      unfolding Pair using abs by (auto simp: Pair)
  next
    case None
    then have n: "elems_abs (first pH) (fold_key key) = None"
      using find_abs_elems [of "fold_key key" "first pH"] by simp
    note fnd = find_ok [OF inv assms(2)] None
    show ?thesis
    proof (cases d)
      case d: None
      then have "sqlite3HashInsert msize alloc s key d = Some (None, s)"
        using fnd by (simp add: sqlite3HashInsert_def Pair)
      then show ?thesis using assms(1) n abs d by (intro exI [of _ s]) (simp add: fun_upd_idem)
    next
      case d: (Some x)
      show ?thesis
      proof (cases "alloc k")
        case True
        then show ?thesis
          using insert_fresh [where alloc = alloc and d = x, OF inv assms(2,3) None] n abs d Pair by auto
      next
        case False
        have "ht_inv (pH, k + 1)"
          using inv by (auto simp: ht_inv_def elems_ok_def list_all_iff)
        then show ?thesis
          using False n abs d fnd
          by (intro exI [of _ "(pH, k + 1)"]) (simp add: sqlite3HashInsert_def Pair ht_abs_def)
      qed
    qed
  qed
qed

section \<open>Properties\<close>

text \<open>The allocator of \<^verbatim>\<open>src/mem1.c\<close> rounds a request up to a multiple of eight bytes.\<close>

definition sqlite3MemRoundup :: "nat \<Rightarrow> nat" where
  "sqlite3MemRoundup n = (n + 7) div 8 * 8"

lemma hash_init: "ht_inv (sqlite3HashInit, k)" "ht_abs (sqlite3HashInit, k) = Map.empty"
  by (simp_all add: ht_inv_def elems_ok_def table_ok_def sqlite3HashInit_def ht_abs_def elems_abs_def)

lemma mem_roundup_ge: "n \<le> sqlite3MemRoundup n"
  unfolding sqlite3MemRoundup_def by linarith

text \<open>
  C21: With any allocator, \<open>sqlite3HashInsert\<close> on a well-formed table replaces, adds or deletes the
  element of its key (up to ASCII case), through resizing and bucket chains, and returns the
  previous datum; if the new element cannot be allocated the table means the same as before and
  the caller gets back its own datum. No assertion of the code fails.
\<close>

theorem hash_insert:
  assumes "ht_inv s" "is_text key" "\<And>n. n \<le> msize n"
  shows "\<exists>s'. ht_inv s' \<and>
    (if d \<noteq> None \<and> ht_abs s (fold_key key) = None \<and> \<not> alloc (snd s)
     then sqlite3HashInsert msize alloc s key d = Some (d, s') \<and> ht_abs s' = ht_abs s
     else sqlite3HashInsert msize alloc s key d = Some (ht_abs s (fold_key key), s') \<and>
       ht_abs s' = (ht_abs s)(fold_key key := d))"
  by (rule insert_all [OF assms])

lemma hash_insert_witness:
  "\<exists>s'. ht_inv s' \<and> sqlite3HashInsert sqlite3MemRoundup (\<lambda>_. False) (sqlite3HashInit, 0) [97] (Some True) =
      Some (Some True, s') \<and> ht_abs s' = Map.empty"
  using hash_insert [where s = "(sqlite3HashInit, 0)" and key = "[97]" and msize = sqlite3MemRoundup
      and d = "Some True" and alloc = "\<lambda>_. False", OF hash_init(1) _ mem_roundup_ge]
  by (simp add: hash_init)

lemma insert_law:
  assumes "ht_inv s" "is_text key"
  shows "\<exists>s'. ht_inv s' \<and>
      (sqlite3HashInsert sqlite3MemRoundup alloc s key d = Some (ht_abs s (fold_key key), s') \<and>
         ht_abs s' = (ht_abs s)(fold_key key := d) \<or>
       sqlite3HashInsert sqlite3MemRoundup alloc s key d = Some (d, s') \<and> ht_abs s' = ht_abs s \<and>
         ht_abs s (fold_key key) = None \<and> d \<noteq> None \<and> (\<exists>k. \<not> alloc k))"
proof -
  obtain s' where "ht_inv s'" and *: "if d \<noteq> None \<and> ht_abs s (fold_key key) = None \<and> \<not> alloc (snd s)
     then sqlite3HashInsert sqlite3MemRoundup alloc s key d = Some (d, s') \<and> ht_abs s' = ht_abs s
     else sqlite3HashInsert sqlite3MemRoundup alloc s key d = Some (ht_abs s (fold_key key), s') \<and>
       ht_abs s' = (ht_abs s)(fold_key key := d)"
    using insert_all [where msize = sqlite3MemRoundup and alloc = alloc and d = d, OF assms mem_roundup_ge]
    by (elim exE conjE) rule
  then show ?thesis
    by (intro exI [of _ s']) (simp split: if_splits, blast)
qed

interpretation hash: symbol_table sqlite3HashFind "sqlite3HashInsert sqlite3MemRoundup" ht_inv ht_abs
proof
  fix s :: "'a hash_state" and key assume "ht_inv s" "is_text key"
  then show "sqlite3HashFind s key = Some (ht_abs s (fold_key key))"
    using find_ok [of "fst s" "snd s" key] find_abs_elems [of "fold_key key" "first (fst s)"]
    by (simp add: sqlite3HashFind_def ht_abs_def)
next
  fix s :: "'a hash_state" and key d alloc assume "ht_inv s" "is_text key"
  then show "\<exists>s'. ht_inv s' \<and>
      (sqlite3HashInsert sqlite3MemRoundup alloc s key d = Some (ht_abs s (fold_key key), s') \<and>
         ht_abs s' = (ht_abs s)(fold_key key := d) \<or>
       sqlite3HashInsert sqlite3MemRoundup alloc s key d = Some (d, s') \<and> ht_abs s' = ht_abs s \<and>
         ht_abs s (fold_key key) = None \<and> d \<noteq> None \<and> (\<exists>k. \<not> alloc k))"
    by (rule insert_law)
qed

text \<open>
  After any sequence of insertions and deletions with memory available, a lookup in the
  table gives the datum last stored under the key, up to ASCII case, whatever resizings and
  collisions happened.
\<close>

theorem hash_run:
  fixes ops :: "(ctext \<times> 'd option) list"
  assumes "list_all (\<lambda>(key, d). is_text key) ops" "is_text key"
  shows "\<exists>s'. run (sqlite3HashInsert sqlite3MemRoundup) (sqlite3HashInit, 0) ops = Some s' \<and>
    sqlite3HashFind s' key = Some (fold (\<lambda>(key, d) m. m(fold_key key := d)) ops Map.empty (fold_key key))"
  using hash.find_run [OF hash_init(1) assms] unfolding hash_init(2) .

lemma hash_run_witness:
  "\<exists>s'. run (sqlite3HashInsert sqlite3MemRoundup) (sqlite3HashInit, 0)
      [([97], Some True), ([98], Some False), ([65], None)] = Some s' \<and> sqlite3HashFind s' [66] = Some (Some False)"
proof -
  let ?ops = "[([97], Some True), ([98], Some False), ([65], None)]"
  have "fold (\<lambda>(key, d) m. m(fold_key key := d)) ?ops Map.empty (fold_key [66]) = Some False"
    by (simp add: UpperToLower_eq)
  with hash_run [of ?ops "[66]"] show ?thesis by (simp del: run.simps)
qed
end
