(* ===== verification/ByteFile.thy ===== *)
theory ByteFile
  imports Prelude
begin

text \<open>
  Files of bytes: bounds-checked copies from and to a buffer (\<open>memcpy\<close>), what a file write means
  for the content of the file, and the interface of a journal file - it is appended to, read back
  and truncated - that the in-memory database file and the in-memory journal both provide.
\<close>

section \<open>Copies\<close>

definition rd_bytes :: "u8 list \<Rightarrow> nat \<Rightarrow> nat \<Rightarrow> u8 list option" where
  "rd_bytes a ofs n = (if ofs + n \<le> length a then Some (take n (drop ofs a)) else None)"

definition wr_bytes :: "u8 list \<Rightarrow> nat \<Rightarrow> u8 list \<Rightarrow> u8 list option" where
  "wr_bytes a ofs z =
     (if ofs + length z \<le> length a then Some (take ofs a @ z @ drop (ofs + length z) a) else None)"

lemma rd_bytes_Some [ck]: "ofs + n \<le> length a \<Longrightarrow> rd_bytes a ofs n = Some (take n (drop ofs a))"
  by (simp add: rd_bytes_def)

lemma wr_bytes_Some [ck]:
  "ofs + length z \<le> length a \<Longrightarrow> wr_bytes a ofs z = Some (take ofs a @ z @ drop (ofs + length z) a)"
  by (simp add: wr_bytes_def)

lemma wr_bytes_eq_Some [ck]:
  "wr_bytes a ofs z = Some b \<longleftrightarrow> ofs + length z \<le> length a \<and> b = take ofs a @ z @ drop (ofs + length z) a"
  by (auto simp: wr_bytes_def)

section \<open>Writing to a file\<close>

text \<open>The gap between the end of the file and the place written to reads as zeros.\<close>

definition file_write :: "u8 list \<Rightarrow> nat \<Rightarrow> u8 list \<Rightarrow> u8 list" where
  "file_write c ofs z = take ofs c @ replicate (ofs - length c) 0 @ z @ drop (ofs + length z) c"

definition file_read :: "u8 list \<Rightarrow> nat \<Rightarrow> nat \<Rightarrow> u8 list" where
  "file_read c ofs n = (let r = take n (drop ofs c) in r @ replicate (n - length r) 0)"

lemma length_file_write [simp]: "length (file_write c ofs z) = max (length c) (ofs + length z)"
  by (auto simp: file_write_def)

lemma length_file_read [simp]: "length (file_read c ofs n) = n"
  by (auto simp: file_read_def Let_def)

lemma file_read_write: "file_read (file_write c ofs z) ofs (length z) = z"
  by (simp add: file_read_def file_write_def Let_def)

lemma file_write_end: "file_write c (length c) z = c @ z"
  by (simp add: file_write_def)

section \<open>Journal files\<close>

text \<open>
  \<open>append\<close> writes at the current end; it may fail for lack of memory. Reads stay within the file
  and may change a cursor in the state.
\<close>

fun append_all :: "('s \<Rightarrow> u8 list \<Rightarrow> nat \<Rightarrow> 's option) \<Rightarrow> 's \<Rightarrow> nat \<Rightarrow> u8 list list \<Rightarrow> 's option" where
  "append_all app s ofs [] = Some s"
| "append_all app s ofs (z # zs) =
     do { s \<leftarrow> app s z ofs; append_all app s (ofs + length z) zs }"

fun read_all :: "('s \<Rightarrow> nat \<Rightarrow> nat \<Rightarrow> (u8 list \<times> 's) option) \<Rightarrow> 's \<Rightarrow> nat \<Rightarrow> nat list \<Rightarrow> (u8 list list \<times> 's) option" where
  "read_all rdf s ofs [] = Some ([], s)"
| "read_all rdf s ofs (n # ns) =
     do { (z, s) \<leftarrow> rdf s n ofs; (zs, s) \<leftarrow> read_all rdf s (ofs + n) ns; Some (z # zs, s) }"

locale journal_file =
  fixes rdf :: "'s \<Rightarrow> nat \<Rightarrow> nat \<Rightarrow> (u8 list \<times> 's) option"
    and app :: "'s \<Rightarrow> u8 list \<Rightarrow> nat \<Rightarrow> 's option"
    and inv :: "'s \<Rightarrow> bool"
    and content :: "'s \<Rightarrow> u8 list"
    and room :: "'s \<Rightarrow> nat"
  assumes read_law: "inv s \<Longrightarrow> 0 < n \<Longrightarrow> ofs + n \<le> length (content s) \<Longrightarrow>
      \<exists>s'. rdf s n ofs = Some (take n (drop ofs (content s)), s') \<and> inv s' \<and> content s' = content s"
    and append_law: "inv s \<Longrightarrow> z \<noteq> [] \<Longrightarrow> length (content s) + length z \<le> room s \<Longrightarrow>
      \<exists>s'. app s z (length (content s)) = Some s' \<and> inv s' \<and> content s' = content s @ z \<and> room s' = room s"
begin

lemma append_all_ok:
  "inv s \<Longrightarrow> [] \<notin> set zs \<Longrightarrow> length (content s) + length (concat zs) \<le> room s \<Longrightarrow>
   \<exists>s'. append_all app s (length (content s)) zs = Some s' \<and> inv s' \<and> content s' = content s @ concat zs"
proof (induction zs arbitrary: s)
  case (Cons z zs)
  then obtain s1 where 1: "app s z (length (content s)) = Some s1" "inv s1" "content s1 = content s @ z"
      "room s1 = room s"
    using append_law [of s z] by auto
  with Cons.IH [of s1] Cons.prems show ?case by (auto simp: add.assoc)
qed simp

lemma read_all_ok:
  "inv s \<Longrightarrow> [] \<notin> set zs \<Longrightarrow> content s = pre @ concat zs @ post \<Longrightarrow>
   \<exists>s'. read_all rdf s (length pre) (map length zs) = Some (zs, s') \<and> inv s' \<and> content s' = content s"
proof (induction zs arbitrary: s pre)
  case (Cons z zs)
  then obtain s1 where 1: "rdf s (length z) (length pre) = Some (z, s1)" "inv s1" "content s1 = content s"
    using read_law [of s "length z" "length pre"] by auto
  with Cons.IH [of s1 "pre @ z"] Cons.prems show ?case by auto
qed simp

text \<open>Records appended one after the other are read back one after the other.\<close>

lemma replay:
  assumes "inv s" "[] \<notin> set zs" "length (content s) + length (concat zs) \<le> room s"
  shows "\<exists>s' s''. append_all app s (length (content s)) zs = Some s' \<and>
    read_all rdf s' (length (content s)) (map length zs) = Some (zs, s'')"
proof -
  obtain s' where "append_all app s (length (content s)) zs = Some s'" "inv s'"
      "content s' = content s @ concat zs @ []"
    using append_all_ok [OF assms] by auto
  with read_all_ok [of s' zs "content s" "[]"] assms(2) show ?thesis by blast
qed

end

end
