(* ===== verification/MemJournal.thy ===== *)
theory MemJournal
  imports ByteFile
begin

text \<open>
  The in-memory rollback journal of \<^verbatim>\<open>src/memjournal.c\<close>: \<open>memjrnlRead\<close>, \<open>memjrnlWrite\<close>,
  \<open>memjrnlTruncate\<close>, \<open>memjrnlCreateFile\<close>, \<open>memjrnlFileSize\<close>, \<open>sqlite3JournalOpen\<close>. The linked
  list of chunks is a list, a pointer to a chunk is its position in the list and \<open>None\<close> is the
  null pointer. The real file that a journal is spilled to belongs to the operating-system
  layer: its methods are a parameter (the record \<open>os_methods\<close>).
\<close>

section \<open>Data\<close>

record memjournal =
  nChunkSize :: nat
  nSpill :: int
  pFirst :: "u8 list list"
  endpoint :: "nat \<times> nat option"
  readpoint :: "nat \<times> nat option"

record 'f os_methods =
  xOpen :: "nat \<times> 'f"
  xWrite :: "'f \<Rightarrow> u8 list \<Rightarrow> nat \<Rightarrow> nat \<times> 'f"

text \<open>After the spill the object is the real file.\<close>

datatype 'f journal = MemJ memjournal | RealJ 'f

section \<open>Operations\<close>

fun mj_seek :: "nat \<Rightarrow> nat \<Rightarrow> nat \<Rightarrow> u8 list list \<Rightarrow> nat" where
  "mj_seek cs iOff iOfst [] = 0"
| "mj_seek cs iOff iOfst (c # chunks) =
     (if iOff + cs \<le> iOfst then Suc (mj_seek cs (iOff + cs) iOfst chunks) else 0)"

text \<open>The copy loop of \<open>memjrnlRead\<close>: the bytes and the chunk where it stops.\<close>

function mj_read_loop ::
  "nat \<Rightarrow> u8 list list \<Rightarrow> nat \<Rightarrow> nat \<Rightarrow> nat \<Rightarrow> (u8 list \<times> nat option) option"
where
  "mj_read_loop cs chunks i off nRead =
     (if i < length chunks \<and> off \<le> cs then
        do {
          let iSpace = cs - off;
          z \<leftarrow> rd_bytes (chunks ! i) off (min nRead iSpace);
          if nRead < iSpace then Some (z, Some i)
          else if length chunks \<le> Suc i then Some (z, None)
          else if 0 < nRead - iSpace then
            do { (zs, ch) \<leftarrow> mj_read_loop cs chunks (Suc i) 0 (nRead - iSpace); Some (z @ zs, ch) }
          else Some (z, Some (Suc i))
        }
      else None)"
  by pat_completeness auto
termination by (relation "measure (\<lambda>(cs, chunks, i, off, nRead). length chunks - i)") auto

definition memjrnlRead :: "memjournal \<Rightarrow> nat \<Rightarrow> nat \<Rightarrow> (nat \<times> u8 list \<times> memjournal) option" where
  "memjrnlRead p iAmt iOfst =
     (if iAmt + iOfst > fst (endpoint p) then Some (SQLITE_IOERR_SHORT_READ, [], p)
      else if fst (readpoint p) \<noteq> 0 \<and> snd (readpoint p) = None \<or> nChunkSize p = 0 then None
      else
        do {
          i \<leftarrow> (if fst (readpoint p) \<noteq> iOfst \<or> iOfst = 0
                 then Some (mj_seek (nChunkSize p) 0 iOfst (pFirst p)) else snd (readpoint p));
          (z, ch) \<leftarrow> mj_read_loop (nChunkSize p) (pFirst p) i (iOfst mod nChunkSize p) iAmt;
          Some (SQLITE_OK, z,
            p \<lparr> readpoint := (case ch of Some _ \<Rightarrow> (iOfst + iAmt, ch) | None \<Rightarrow> (0, None)) \<rparr>)
        })"

fun mj_trunc_seek :: "nat \<Rightarrow> nat \<Rightarrow> nat \<Rightarrow> u8 list list \<Rightarrow> nat" where
  "mj_trunc_seek cs iOff sz [] = 0"
| "mj_trunc_seek cs iOff sz (c # chunks) =
     (if iOff < sz then Suc (mj_trunc_seek cs (iOff + cs) sz chunks) else 0)"

text \<open>\<open>None\<close> is the failing \<open>assert\<close>, or \<open>ALWAYS\<close> when the chunks end before the new size.\<close>

definition memjrnlTruncate :: "memjournal \<Rightarrow> nat \<Rightarrow> (nat \<times> memjournal) option" where
  "memjrnlTruncate p sz =
     (if snd (endpoint p) \<noteq> None \<and> snd (endpoint p) \<noteq> Some (length (pFirst p) - 1) then None
      else if sz < fst (endpoint p) then
        do {
          (chunks, iter) \<leftarrow>
            (if sz = 0 then Some ([], None)
             else
               let i = mj_trunc_seek (nChunkSize p) (nChunkSize p) sz (pFirst p)
               in if i < length (pFirst p) then Some (take (Suc i) (pFirst p), Some i) else None);
          Some (SQLITE_OK, p \<lparr> pFirst := chunks, endpoint := (sz, iter), readpoint := (0, None) \<rparr>)
        }
      else Some (SQLITE_OK, p))"

text \<open>
  The append loop of \<open>memjrnlWrite\<close>: \<open>alloc k\<close> says whether the \<open>k\<close>-th chunk requested is
  granted, \<open>junk\<close> is what fresh memory holds.
\<close>

function mj_append ::
  "(nat \<Rightarrow> bool) \<Rightarrow> (nat \<Rightarrow> u8) \<Rightarrow> nat \<Rightarrow> memjournal \<Rightarrow> u8 list \<Rightarrow> (nat \<times> memjournal) option"
where
  "mj_append alloc junk k p z =
     (if z = [] then Some (SQLITE_OK, p)
      else if nChunkSize p = 0 then None
      else
        (let off = fst (endpoint p) mod nChunkSize p;
             iSpace = min (length z) (nChunkSize p - off)
         in if snd (endpoint p) = None \<and> off \<noteq> 0 then None
            else if off = 0 \<and> \<not> alloc k then Some (SQLITE_IOERR_NOMEM, p)
            else
              do {
                (i, chunks) \<leftarrow>
                  (if off = 0 then
                     (case snd (endpoint p) of
                        Some i \<Rightarrow> Some (Suc i, take (Suc i) (pFirst p) @ [map junk [0..<nChunkSize p]])
                      | None \<Rightarrow>
                          (if pFirst p \<noteq> [] then None else Some (0, [map junk [0..<nChunkSize p]])))
                   else map_option (\<lambda>i. (i, pFirst p)) (snd (endpoint p)));
                c \<leftarrow> rd chunks i;
                c \<leftarrow> wr_bytes c off (take iSpace z);
                mj_append alloc junk (if off = 0 then Suc k else k)
                  (p \<lparr> pFirst := chunks[i := c], endpoint := (fst (endpoint p) + iSpace, Some i) \<rparr>)
                  (drop iSpace z)
              }))"
  by pat_completeness auto
termination
  by (relation "measure (\<lambda>(alloc, junk, k, p, z). length z)") (auto simp: mod_less_divisor)

text \<open>The loop of \<open>memjrnlCreateFile\<close> that copies the chunks to the real file.\<close>

fun mj_flush ::
  "'f os_methods \<Rightarrow> nat \<Rightarrow> nat \<Rightarrow> nat \<Rightarrow> u8 list list \<Rightarrow> 'f \<Rightarrow> (nat \<times> 'f) option"
where
  "mj_flush vfs sz nChunk iOff [] f = Some (SQLITE_OK, f)"
| "mj_flush vfs sz nChunk iOff (c # chunks) f =
     (if sz < iOff then None
      else
        let nChunk = (if iOff + nChunk > sz then sz - iOff else nChunk);
            (rc, f) = xWrite vfs f (take nChunk c) iOff
        in if rc \<noteq> SQLITE_OK then Some (rc, f)
           else mj_flush vfs sz nChunk (iOff + nChunk) chunks f)"

definition memjrnlCreateFile :: "'f os_methods \<Rightarrow> memjournal \<Rightarrow> (nat \<times> 'f journal) option" where
  "memjrnlCreateFile vfs p =
     (let (rc, f) = xOpen vfs
      in do {
           (rc, f) \<leftarrow> (if rc = SQLITE_OK
             then mj_flush vfs (fst (endpoint p)) (nChunkSize p) 0 (pFirst p) f else Some (rc, f));
           Some (rc, if rc = SQLITE_OK then RealJ f else MemJ p) })"

definition memjrnlWrite ::
  "'f os_methods \<Rightarrow> (nat \<Rightarrow> bool) \<Rightarrow> (nat \<Rightarrow> u8) \<Rightarrow> memjournal \<Rightarrow> u8 list \<Rightarrow> nat \<Rightarrow> (nat \<times> 'f journal) option"
where
  "memjrnlWrite vfs alloc junk p zBuf iOfst =
     (if nSpill p > 0 \<and> int (length zBuf + iOfst) > nSpill p then
        do {
          (rc, j) \<leftarrow> memjrnlCreateFile vfs p;
          (case j of
             RealJ f \<Rightarrow> let (rc, f) = xWrite vfs f zBuf iOfst in Some (rc, RealJ f)
           | MemJ p \<Rightarrow> Some (rc, MemJ p))
        }
      else if fst (endpoint p) < iOfst then None
      else
        do {
          (_, p) \<leftarrow> (if 0 < iOfst \<and> iOfst \<noteq> fst (endpoint p) then memjrnlTruncate p iOfst
                      else Some (SQLITE_OK, p));
          (if iOfst = 0 \<and> pFirst p \<noteq> [] then
             if nChunkSize p \<le> length zBuf then None
             else map_option (\<lambda>c. (SQLITE_OK, MemJ (p \<lparr> pFirst := (pFirst p)[0 := c] \<rparr>)))
               (wr_bytes (hd (pFirst p)) 0 zBuf)
           else map_option (\<lambda>(rc, p). (rc, MemJ p)) (mj_append alloc junk 0 p zBuf))
        })"

definition memjrnlFileSize :: "memjournal \<Rightarrow> nat" where
  "memjrnlFileSize p = fst (endpoint p)"

definition sqlite3JournalOpen :: "'f os_methods \<Rightarrow> int \<Rightarrow> nat \<times> 'f journal" where
  "sqlite3JournalOpen vfs spill =
     (if spill = 0 then (let (rc, f) = xOpen vfs in (rc, RealJ f))
      else (SQLITE_OK, MemJ \<lparr> nChunkSize = (if spill > 0 then nat spill else 8 + 1024 - 16),
        nSpill = spill, pFirst = [], endpoint = (0, None), readpoint = (0, None) \<rparr>))"

section \<open>Invariant and content\<close>

definition mj_inv :: "memjournal \<Rightarrow> bool" where
  "mj_inv p \<longleftrightarrow>
     0 < nChunkSize p \<and> list_all (\<lambda>c. length c = nChunkSize p) (pFirst p) \<and>
     fst (endpoint p) \<le> length (pFirst p) * nChunkSize p \<and>
     length (pFirst p) * nChunkSize p < fst (endpoint p) + nChunkSize p \<and>
     snd (endpoint p) = (if pFirst p = [] then None else Some (length (pFirst p) - 1)) \<and>
     (fst (readpoint p) = 0 \<or>
       snd (readpoint p) = Some (fst (readpoint p) div nChunkSize p) \<and>
       fst (readpoint p) div nChunkSize p < length (pFirst p))"

definition mj_content :: "memjournal \<Rightarrow> u8 list" where
  "mj_content p = take (fst (endpoint p)) (concat (pFirst p))"

lemma length_chunks: "list_all (\<lambda>c. length c = n) cs \<Longrightarrow> length (concat cs) = length cs * n"
  by (induction cs) auto

lemma drop_chunks: "list_all (\<lambda>c. length c = n) cs \<Longrightarrow> drop (i * n) (concat cs) = concat (drop i cs)"
proof (induction cs arbitrary: i)
  case (Cons c cs)
  then show ?case by (cases i) auto
qed simp

lemma take_chunks: "list_all (\<lambda>c. length c = n) cs \<Longrightarrow> take (i * n) (concat cs) = concat (take i cs)"
proof (induction cs arbitrary: i)
  case (Cons c cs)
  then show ?case by (cases i) auto
qed simp

lemma length_mj_content: "mj_inv p \<Longrightarrow> length (mj_content p) = fst (endpoint p)"
  by (auto simp: mj_inv_def mj_content_def length_chunks)

section \<open>Reading\<close>

lemma seek_eq:
  "0 < cs \<Longrightarrow> iOff \<le> iOfst \<Longrightarrow> mj_seek cs iOff iOfst chunks = min (length chunks) ((iOfst - iOff) div cs)"
proof (induction cs iOff iOfst chunks rule: mj_seek.induct)
  case (2 cs iOff iOfst c chunks)
  show ?case
  proof (cases "iOff + cs \<le> iOfst")
    case True
    then have "(iOfst - iOff) div cs = Suc ((iOfst - (iOff + cs)) div cs)"
      using 2(2) by (simp add: le_div_geq)
    with True 2 show ?thesis by simp
  next
    case False
    then have "(iOfst - iOff) div cs = 0" using 2(2,3) by (intro div_less) arith
    with False show ?thesis by simp
  qed
qed simp

declare mj_read_loop.simps [simp del]

text \<open>Where a read of \<open>n\<close> bytes from offset \<open>off\<close> of chunk \<open>i\<close> leaves the cursor.\<close>

definition mj_stop :: "nat \<Rightarrow> nat \<Rightarrow> nat \<Rightarrow> nat option" where
  "mj_stop cs len e = (if e div cs < len then Some (e div cs) else None)"

lemma read_loop_ok:
  assumes "list_all (\<lambda>c. length c = cs) chunks" "0 < cs"
  shows "i < length chunks \<Longrightarrow> off < cs \<Longrightarrow> 0 < n \<Longrightarrow> i * cs + off + n \<le> length chunks * cs \<Longrightarrow>
    mj_read_loop cs chunks i off n =
      Some (take n (drop (i * cs + off) (concat chunks)), mj_stop cs (length chunks) (i * cs + off + n))"
  using assms(1)
proof (induction cs chunks i off n rule: mj_read_loop.induct)
  case (1 cs chunks i off n)
  note chunks = 1(6)
  let ?sp = "cs - off"
  have c: "length (chunks ! i) = cs" using 1(2,6) by (auto simp: list_all_length)
  have rest: "drop (i * cs + off) (concat chunks) = drop off (chunks ! i) @ drop (Suc i * cs) (concat chunks)"
  proof -
    have "drop (i * cs) (concat chunks) = chunks ! i @ concat (drop (Suc i) chunks)"
      using drop_chunks [OF 1(6)] Cons_nth_drop_Suc [OF 1(2)] by (metis concat.simps(2))
    moreover have "drop (Suc i * cs) (concat chunks) = concat (drop (Suc i) chunks)"
      by (rule drop_chunks [OF 1(6)])
    ultimately show ?thesis using 1(3) c by (simp add: drop_drop [symmetric] add.commute del: drop_drop)
  qed
  have rd: "rd_bytes (chunks ! i) off (min n ?sp) = Some (take n (drop off (chunks ! i)))"
    using c 1(3) by (auto simp: rd_bytes_def min_def)
  have rd': "rd_bytes (chunks ! i) off ?sp = Some (drop off (chunks ! i))"
    using c 1(3) by (simp add: rd_bytes_def)
  have pos: "i * cs + off + n = Suc i * cs + (n - ?sp)" if "?sp \<le> n" using that 1(3) by simp
  consider "n < ?sp" | "?sp \<le> n" "length chunks \<le> Suc i" | "n = ?sp" "Suc i < length chunks"
    | "?sp < n" "Suc i < length chunks" by linarith
  then show ?case
  proof cases
    case 1
    then have "(i * cs + off + n) div cs = i" using \<open>off < cs\<close> by (simp add: div_nat_eqI)
    then show ?thesis
      using 1 \<open>i < length chunks\<close> \<open>off < cs\<close> rd c rest
      by (subst mj_read_loop.simps) (simp add: mj_stop_def)
  next
    case 2
    then have "Suc i = length chunks" using \<open>i < length chunks\<close> by simp
    moreover have "n = ?sp"
      using 2(1) \<open>i * cs + off + n \<le> length chunks * cs\<close> \<open>off < cs\<close> unfolding calculation [symmetric] by simp
    moreover have "(i * cs + off + n) div cs = Suc i" using pos 2 \<open>n = ?sp\<close> \<open>off < cs\<close> by simp
    ultimately show ?thesis
      using \<open>i < length chunks\<close> \<open>off < cs\<close> rd c rest
      by (subst mj_read_loop.simps) (simp add: mj_stop_def)
  next
    case 3
    then have "(i * cs + off + n) div cs = Suc i" using pos \<open>off < cs\<close> by simp
    then show ?thesis
      using 3 \<open>i < length chunks\<close> \<open>off < cs\<close> rd c rest
      by (subst mj_read_loop.simps) (simp add: mj_stop_def)
  next
    case 4
    have le: "Suc i * cs + 0 + (n - ?sp) \<le> length chunks * cs"
      using pos 4(1) \<open>i * cs + off + n \<le> length chunks * cs\<close> by simp
    have "mj_read_loop cs chunks (Suc i) 0 (n - ?sp) =
        Some (take (n - ?sp) (drop (Suc i * cs + 0) (concat chunks)), mj_stop cs (length chunks) (Suc i * cs + 0 + (n - ?sp)))"
      using 4 \<open>i < length chunks\<close> \<open>off < cs\<close> le chunks rd'
      by (intro "1.IH" [of _ "drop off (chunks ! i)"]) auto
    then show ?thesis
      using 4 \<open>i < length chunks\<close> \<open>off < cs\<close> rd c rest pos
      by (subst mj_read_loop.simps) (auto simp: ac_simps)
  qed
qed

lemma memjrnlRead_ok:
  assumes "mj_inv p" "0 < n" "ofs + n \<le> length (mj_content p)"
  shows "\<exists>p'. memjrnlRead p n ofs = Some (SQLITE_OK, take n (drop ofs (mj_content p)), p') \<and> mj_inv p' \<and>
    p' = p \<lparr> readpoint := readpoint p' \<rparr>"
proof -
  let ?cs = "nChunkSize p" and ?len = "length (pFirst p)"
  have i: "0 < ?cs" "list_all (\<lambda>c. length c = ?cs) (pFirst p)" "fst (endpoint p) \<le> ?len * ?cs"
    and rp: "fst (readpoint p) = 0 \<or> snd (readpoint p) = Some (fst (readpoint p) div ?cs)"
    using assms(1) by (auto simp: mj_inv_def)
  have e: "ofs + n \<le> fst (endpoint p)" using assms(3) by (simp add: length_mj_content [OF assms(1)])
  have lt: "ofs div ?cs < ?len" using e i assms(2) by (simp add: div_less_iff_less_mult)
  have start: "(if fst (readpoint p) \<noteq> ofs \<or> ofs = 0 then Some (mj_seek ?cs 0 ofs (pFirst p))
      else snd (readpoint p)) = Some (ofs div ?cs)"
    using seek_eq [OF i(1), of 0 ofs "pFirst p"] lt rp by auto
  have split: "ofs div ?cs * ?cs + ofs mod ?cs = ofs" by simp
  have "mj_read_loop ?cs (pFirst p) (ofs div ?cs) (ofs mod ?cs) n =
      Some (take n (drop ofs (concat (pFirst p))), mj_stop ?cs ?len (ofs + n))"
    using read_loop_ok [OF i(2,1) lt, of "ofs mod ?cs" n] i e assms(2) unfolding split by simp
  moreover have "take n (drop ofs (concat (pFirst p))) = take n (drop ofs (mj_content p))"
    using e by (simp add: mj_content_def drop_take take_take min_def)
  ultimately have "memjrnlRead p n ofs = Some (SQLITE_OK, take n (drop ofs (mj_content p)),
      p \<lparr> readpoint := (case mj_stop ?cs ?len (ofs + n) of Some i \<Rightarrow> (ofs + n, Some i) | None \<Rightarrow> (0, None)) \<rparr>)"
    using start e i rp by (auto simp: memjrnlRead_def add.commute split: option.splits)
  moreover have "mj_inv (p \<lparr> readpoint := (case mj_stop ?cs ?len (ofs + n) of Some i \<Rightarrow> (ofs + n, Some i) | None \<Rightarrow> (0, None)) \<rparr>)"
    using assms(1) by (auto simp: mj_inv_def mj_stop_def)
  ultimately show ?thesis by auto
qed

section \<open>Truncating\<close>

lemma trunc_seek_eq:
  "0 < cs \<Longrightarrow> mj_trunc_seek cs iOff sz chunks = min (length chunks) ((sz + cs - 1 - iOff) div cs)"
proof (induction cs iOff sz chunks rule: mj_trunc_seek.induct)
  case (2 cs iOff sz c chunks)
  show ?case
  proof (cases "iOff < sz")
    case True
    then have "(sz + cs - 1 - iOff) div cs = Suc ((sz - 1 - iOff) div cs)"
      using 2(2) le_div_geq [of cs "sz + cs - 1 - iOff"] by simp
    moreover have "sz + cs - 1 - (iOff + cs) = sz - 1 - iOff" by simp
    ultimately show ?thesis using True 2 by simp
  next
    case False
    then have "(sz + cs - 1 - iOff) div cs = 0" using 2(2) by (intro div_less) arith
    with False show ?thesis by simp
  qed
qed simp

lemma memjrnlTruncate_ok:
  assumes "mj_inv p"
  shows "\<exists>p'. memjrnlTruncate p sz = Some (SQLITE_OK, p') \<and> mj_inv p' \<and> mj_content p' = take sz (mj_content p) \<and>
    nChunkSize p' = nChunkSize p \<and> nSpill p' = nSpill p"
proof (cases "sz < fst (endpoint p)")
  case False
  then have "take sz (mj_content p) = mj_content p" by (simp add: length_mj_content [OF assms])
  with False assms show ?thesis by (simp add: memjrnlTruncate_def mj_inv_def)
next
  case True
  let ?cs = "nChunkSize p" and ?len = "length (pFirst p)"
  have i: "0 < ?cs" "list_all (\<lambda>c. length c = ?cs) (pFirst p)" "fst (endpoint p) \<le> ?len * ?cs"
    and ep: "snd (endpoint p) = (if pFirst p = [] then None else Some (?len - 1))"
    using assms by (auto simp: mj_inv_def)
  show ?thesis
  proof (cases "sz = 0")
    case sz: True
    with True i ep show ?thesis by (auto simp: memjrnlTruncate_def mj_inv_def mj_content_def)
  next
    case sz: False
    define k where "k = (sz - 1) div ?cs"
    have lt: "k < ?len" using True sz i by (simp add: k_def div_less_iff_less_mult)
    have seek: "mj_trunc_seek ?cs ?cs sz (pFirst p) = k"
      using trunc_seek_eq [OF i(1), of ?cs sz "pFirst p"] lt by (simp add: k_def)
    let ?p = "p \<lparr> pFirst := take (Suc k) (pFirst p), endpoint := (sz, Some k), readpoint := (0, None) \<rparr>"
    have r: "memjrnlTruncate p sz = Some (SQLITE_OK, ?p)"
      using True sz lt seek ep by (auto simp: memjrnlTruncate_def Let_def)
    have b: "k * ?cs \<le> sz - 1" "sz - 1 < Suc k * ?cs"
      using i(1) by (simp_all add: k_def dividend_less_div_times)
    have len: "length (take (Suc k) (pFirst p)) = Suc k" using lt by simp
    have "list_all (\<lambda>c. length c = ?cs) (take (Suc k) (pFirst p))"
      using i(2) by (auto simp: list_all_iff dest: in_set_takeD)
    then have "mj_inv ?p"
      using i(1) b lt sz unfolding mj_inv_def by (auto simp: len)
    moreover have "mj_content ?p = take sz (mj_content p)"
      using take_chunks [OF i(2), of "Suc k"] b True sz
      by (simp add: mj_content_def min_def del: mult_Suc) (metis Suc_pred bot_nat_0.not_eq_extremum min.absorb1 not_less_eq_eq not_le take_take)
    ultimately show ?thesis using r by (intro exI [of _ ?p]) simp
  qed
qed

section \<open>Appending\<close>

declare mj_append.simps [simp del]

lemma chunk_count:
  fixes cs :: nat
  assumes "0 < cs" "e \<le> n * cs" "n * cs < e + cs"
  shows "n = (if e mod cs = 0 then e div cs else Suc (e div cs))"
proof -
  define q r where "q = e div cs" and "r = e mod cs"
  have e: "e = q * cs + r" "r < cs" using assms(1) by (simp_all add: q_def r_def)
  show ?thesis
  proof (cases "r = 0")
    case True
    then have "q * cs \<le> n * cs" "n * cs < Suc q * cs" using assms e by simp_all
    then show ?thesis using True by (simp add: q_def [symmetric] r_def [symmetric] del: mult_Suc)
  next
    case False
    then have "q * cs < n * cs" "n * cs < Suc (Suc q) * cs"
      using assms(2,3) e unfolding mult_Suc by linarith+
    then have "q < n" "n < Suc (Suc q)" by (metis mult_less_cancel2)+
    then show ?thesis using False by (simp add: q_def [symmetric] r_def [symmetric])
  qed
qed

text \<open>The chunk that the next byte goes to, a new one when the last is full.\<close>

definition mj_last :: "(nat \<Rightarrow> u8) \<Rightarrow> memjournal \<Rightarrow> u8 list list" where
  "mj_last junk p = (if fst (endpoint p) mod nChunkSize p = 0
     then pFirst p @ [map junk [0..<nChunkSize p]] else pFirst p)"

lemma mj_last_split:
  assumes "mj_inv p"
  shows "\<exists>init c. mj_last junk p = init @ [c] \<and> length init = fst (endpoint p) div nChunkSize p \<and>
    list_all (\<lambda>c. length c = nChunkSize p) init \<and> length c = nChunkSize p \<and>
    mj_content p = concat init @ take (fst (endpoint p) mod nChunkSize p) c"
proof -
  let ?cs = "nChunkSize p" and ?e = "fst (endpoint p)"
  have i: "0 < ?cs" "list_all (\<lambda>c. length c = ?cs) (pFirst p)" "?e \<le> length (pFirst p) * ?cs"
      "length (pFirst p) * ?cs < ?e + ?cs"
    using assms by (auto simp: mj_inv_def)
  note n = chunk_count [OF i(1,3,4)]
  have e: "?e = ?e div ?cs * ?cs + ?e mod ?cs" by simp
  show ?thesis
  proof (cases "?e mod ?cs = 0")
    case True
    then have "?e = length (concat (pFirst p))" using n e length_chunks [OF i(2)] by simp
    with True n i(2) show ?thesis
      by (intro exI [of _ "pFirst p"] exI [of _ "map junk [0..<?cs]"]) (simp add: mj_last_def mj_content_def)
  next
    case False
    then have "pFirst p \<noteq> []" using n by auto
    then obtain init c where s: "pFirst p = init @ [c]" by (metis rev_exhaust)
    then have l: "length init = ?e div ?cs" using n False by simp
    have "length (concat init) = ?e div ?cs * ?cs"
      using length_chunks [of ?cs init] i(2) l by (simp add: s)
    then have "take ?e (concat (pFirst p)) = concat init @ take (?e mod ?cs) c"
      using e by (simp add: s minus_div_mult_eq_mod)
    with False s l i(2) show ?thesis
      by (intro exI [of _ init] exI [of _ c]) (simp add: mj_last_def mj_content_def)
  qed
qed

lemma append_round:
  assumes inv: "mj_inv p" and z: "length z \<le> nChunkSize p - fst (endpoint p) mod nChunkSize p" "z \<noteq> []"
  shows "\<exists>p'. (do { c \<leftarrow> rd (mj_last junk p) (length (mj_last junk p) - 1);
        c \<leftarrow> wr_bytes c (fst (endpoint p) mod nChunkSize p) z;
        Some (p \<lparr> pFirst := (mj_last junk p)[length (mj_last junk p) - 1 := c],
          endpoint := (fst (endpoint p) + length z, Some (length (mj_last junk p) - 1)) \<rparr>) }) = Some p' \<and>
    mj_inv p' \<and> mj_content p' = mj_content p @ z \<and> nChunkSize p' = nChunkSize p \<and> nSpill p' = nSpill p"
proof -
  define cs e where "cs = nChunkSize p" and "e = fst (endpoint p)"
  define q r where "q = e div cs" and "r = e mod cs"
  have cs: "0 < cs" using inv by (simp add: mj_inv_def cs_def)
  have e: "e = q * cs + r" "r < cs" using cs by (simp_all add: q_def r_def)
  obtain init c where s: "mj_last junk p = init @ [c]" "length init = q"
      "list_all (\<lambda>c. length c = cs) init" "length c = cs" "mj_content p = concat init @ take r c"
    using mj_last_split [OF inv, of junk] by (auto simp: cs_def e_def q_def r_def)
  have zl: "r + length z \<le> cs" using z e(2) by (simp add: cs_def e_def r_def)
  let ?c = "take r c @ z @ drop (r + length z) c"
  let ?p = "p \<lparr> pFirst := init @ [?c], endpoint := (e + length z, Some q) \<rparr>"
  have "length (concat init) = q * cs" using length_chunks [OF s(3)] s(2) by simp
  then have "mj_content ?p = (concat init @ take r c) @ z"
    using zl s(4) e by (simp add: mj_content_def min_def)
  then have "mj_content ?p = mj_content p @ z" by (simp only: s(5))
  moreover have "mj_inv ?p"
  proof -
    have rp: "fst (readpoint p) = 0 \<or> snd (readpoint p) = Some (fst (readpoint p) div cs) \<and>
        fst (readpoint p) div cs < length (init @ [c])"
      using inv s(1) by (auto simp: mj_inv_def cs_def mj_last_def split: if_splits)
    have "0 < length z" using z(2) by simp
    then show ?thesis
      using cs s(2-4) rp e zl by (auto simp: mj_inv_def cs_def [symmetric])
  qed
  moreover have "(init @ [c]) ! q = c" "(init @ [c])[q := ?c] = init @ [?c]"
    using s(2) by auto
  ultimately show ?thesis
    using s(1,2,4) zl by (simp add: rd_Some wr_bytes_Some cs_def [symmetric] e_def [symmetric] r_def [symmetric])
qed

lemma mj_append_round:
  assumes "mj_inv p" "z \<noteq> []" "fst (endpoint p) mod nChunkSize p = 0 \<longrightarrow> alloc k"
  shows "\<exists>k' p'. mj_append alloc junk k p z =
      mj_append alloc junk k' p' (drop (nChunkSize p - fst (endpoint p) mod nChunkSize p) z) \<and> mj_inv p' \<and>
    mj_content p' = mj_content p @ take (nChunkSize p - fst (endpoint p) mod nChunkSize p) z \<and>
    nChunkSize p' = nChunkSize p \<and> nSpill p' = nSpill p"
proof -
  let ?off = "fst (endpoint p) mod nChunkSize p"
  let ?sp = "nChunkSize p - ?off"
  let ?t = "take ?sp z"
  have cs: "0 < nChunkSize p" and ep: "snd (endpoint p) = (if pFirst p = [] then None else Some (length (pFirst p) - 1))"
    and e: "fst (endpoint p) \<le> length (pFirst p) * nChunkSize p"
    using assms(1) by (auto simp: mj_inv_def)
  have "?off < nChunkSize p" using cs by simp
  then have t: "length ?t \<le> ?sp" "?t \<noteq> []" using assms(2) by auto
  have some: "snd (endpoint p) \<noteq> None" if "?off \<noteq> 0"
    using that e ep by (cases "pFirst p") auto
  obtain p' where p': "(do { c \<leftarrow> rd (mj_last junk p) (length (mj_last junk p) - 1);
        c \<leftarrow> wr_bytes c ?off ?t;
        Some (p \<lparr> pFirst := (mj_last junk p)[length (mj_last junk p) - 1 := c],
          endpoint := (fst (endpoint p) + length ?t, Some (length (mj_last junk p) - 1)) \<rparr>) }) = Some p'"
      "mj_inv p'" "mj_content p' = mj_content p @ ?t" "nChunkSize p' = nChunkSize p" "nSpill p' = nSpill p"
    using append_round [where junk = junk, OF assms(1) t] by (elim exE conjE) rule
  have ch: "(if ?off = 0 then
                     (case snd (endpoint p) of
                        Some i \<Rightarrow> Some (Suc i, take (Suc i) (pFirst p) @ [map junk [0..<nChunkSize p]])
                      | None \<Rightarrow>
                          (if pFirst p \<noteq> [] then None else Some (0, [map junk [0..<nChunkSize p]])))
                   else map_option (\<lambda>i. (i, pFirst p)) (snd (endpoint p))) =
      Some (length (mj_last junk p) - 1, mj_last junk p)"
    using ep some by (cases "pFirst p") (auto simp: mj_last_def)
  have m: "min (length z) ?sp = length ?t" "take (length ?t) z = ?t" "drop (length ?t) z = drop ?sp z"
    by (simp_all add: min_def)
  have c: "(z = []) = False" "(nChunkSize p = 0) = False" "(snd (endpoint p) = None \<and> ?off \<noteq> 0) = False"
      "(?off = 0 \<and> \<not> alloc k) = False"
    using assms(2,3) cs some by auto
  obtain c0 c1 where r: "rd (mj_last junk p) (length (mj_last junk p) - 1) = Some c0" "wr_bytes c0 ?off ?t = Some c1"
      "p' = p \<lparr> pFirst := (mj_last junk p)[length (mj_last junk p) - 1 := c1],
          endpoint := (fst (endpoint p) + length ?t, Some (length (mj_last junk p) - 1)) \<rparr>"
    using p'(1) unfolding bind_eq_Some_conv by blast
  have "mj_append alloc junk k p z = mj_append alloc junk (if ?off = 0 then Suc k else k) p' (drop ?sp z)"
    by (subst mj_append.simps) (simp only: Let_def c if_False ch bind.simps prod.case m r)
  then show ?thesis
    by (intro exI [of _ "if ?off = 0 then Suc k else k"] exI [of _ p'] conjI) (simp_all only: p'(2-5))
qed

lemma mj_append_ok:
  assumes "mj_inv p"
  shows "\<exists>rc p' n. mj_append alloc junk k p z = Some (rc, p') \<and> mj_inv p' \<and> mj_content p' = mj_content p @ take n z \<and>
    nChunkSize p' = nChunkSize p \<and> nSpill p' = nSpill p \<and>
    (rc = SQLITE_OK \<and> length z \<le> n \<or> rc = SQLITE_IOERR_NOMEM \<and> (\<exists>k. \<not> alloc k))"
  using assms
proof (induction "length z" arbitrary: k p z rule: less_induct)
  case less
  let ?off = "fst (endpoint p) mod nChunkSize p"
  let ?sp = "nChunkSize p - ?off"
  have cs: "0 < nChunkSize p" using less.prems by (simp add: mj_inv_def)
  consider "z = []" | "z \<noteq> []" "?off = 0" "\<not> alloc k" | "z \<noteq> []" "?off = 0 \<longrightarrow> alloc k"
    by (cases "z = []"; cases "alloc k"; cases "?off = 0") simp_all
  then show ?case
  proof cases
    case 1
    with less.prems show ?thesis by (simp add: mj_append.simps)
  next
    case 2
    then have "mj_append alloc junk k p z = Some (SQLITE_IOERR_NOMEM, p)"
      using cs by (subst mj_append.simps) simp
    with 2 less.prems show ?thesis
      by (intro exI [of _ SQLITE_IOERR_NOMEM] exI [of _ p] exI [of _ 0]) auto
  next
    case 3
    have "0 < ?sp" "0 < length z" using cs 3 by simp_all
    then have len: "length (drop ?sp z) < length z" unfolding length_drop by linarith
    obtain k' p1 where 1: "mj_append alloc junk k p z = mj_append alloc junk k' p1 (drop ?sp z)" "mj_inv p1"
        "mj_content p1 = mj_content p @ take ?sp z" "nChunkSize p1 = nChunkSize p" "nSpill p1 = nSpill p"
      using mj_append_round [where junk = junk and k = k and alloc = alloc, OF less.prems 3] by blast
    obtain rc p' n where 2: "mj_append alloc junk k' p1 (drop ?sp z) = Some (rc, p')" "mj_inv p'"
        "mj_content p' = mj_content p1 @ take n (drop ?sp z)" "nChunkSize p' = nChunkSize p1" "nSpill p' = nSpill p1"
        "rc = SQLITE_OK \<and> length (drop ?sp z) \<le> n \<or> rc = SQLITE_IOERR_NOMEM \<and> (\<exists>k. \<not> alloc k)"
      using less.hyps [OF len 1(2), of k'] by blast
    have "mj_content p' = mj_content p @ take (?sp + n) z"
      unfolding 2(3) 1(3) by (simp add: take_add)
    then show ?thesis
      using 1 2 by (intro exI [of _ rc] exI [of _ p'] exI [of _ "?sp + n"]) auto
  qed
qed

section \<open>Writing\<close>

text \<open>What a write in memory makes of the content: at the front it overwrites, elsewhere it truncates.\<close>

definition mj_written :: "u8 list \<Rightarrow> u8 list \<Rightarrow> nat \<Rightarrow> u8 list" where
  "mj_written c z ofs = (if ofs = 0 then take (max (length c) (if c = [] then length z else 0)) (z @ drop (length z) c)
     else take ofs c @ z)"

lemma content_Nil: "mj_inv p \<Longrightarrow> mj_content p = [] \<longleftrightarrow> pFirst p = []"
proof -
  assume inv: "mj_inv p"
  have "fst (endpoint p) = 0 \<longleftrightarrow> pFirst p = []"
  proof (cases "pFirst p")
    case (Cons c cs)
    then have "length cs * nChunkSize p + nChunkSize p < fst (endpoint p) + nChunkSize p"
      using inv by (simp add: mj_inv_def)
    then show ?thesis using Cons by simp
  qed (use inv in \<open>simp add: mj_inv_def\<close>)
  then show "mj_content p = [] \<longleftrightarrow> pFirst p = []"
    using length_mj_content [OF inv] by (metis length_0_conv)
qed

lemma take_patch: "take e (z @ drop (length z) y) = take e (z @ drop (length z) (take e y))"
  by (simp add: drop_take)

lemma overwrite_ok:
  assumes inv: "mj_inv p" and ne: "pFirst p \<noteq> []" and z: "length z < nChunkSize p"
  shows "\<exists>c. wr_bytes (hd (pFirst p)) 0 z = Some c \<and> mj_inv (p \<lparr> pFirst := (pFirst p)[0 := c] \<rparr>) \<and>
    mj_content (p \<lparr> pFirst := (pFirst p)[0 := c] \<rparr>) = take (length (mj_content p)) (z @ drop (length z) (mj_content p))"
proof -
  obtain c cs where s: "pFirst p = c # cs" using ne by (cases "pFirst p") auto
  then have c: "length c = nChunkSize p" using inv by (simp add: mj_inv_def)
  let ?p = "p \<lparr> pFirst := (z @ drop (length z) c) # cs \<rparr>"
  have "length (z @ drop (length z) c) = length c" using c z by simp
  then have inv': "mj_inv ?p" using inv s c by (auto simp: mj_inv_def)
  have "mj_content ?p = take (fst (endpoint p)) (z @ drop (length z) (c @ concat cs))"
    using c z by (simp add: mj_content_def)
  also have "\<dots> = take (fst (endpoint p)) (z @ drop (length z) (mj_content p))"
    unfolding mj_content_def s concat.simps by (rule take_patch)
  finally show ?thesis
    using inv' c z by (simp add: s wr_bytes_Some length_mj_content [OF inv])
qed

lemma memjrnlWrite_ok:
  assumes inv: "mj_inv p" and ofs: "ofs \<le> length (mj_content p)"
    and small: "nSpill p \<le> 0 \<or> int (length z + ofs) \<le> nSpill p"
    and head: "ofs = 0 \<longrightarrow> mj_content p \<noteq> [] \<longrightarrow> length z < nChunkSize p"
  shows "\<exists>rc p' n. memjrnlWrite vfs alloc junk p z ofs = Some (rc, MemJ p') \<and> mj_inv p' \<and>
    mj_content p' = mj_written (mj_content p) (take n z) ofs \<and> nChunkSize p' = nChunkSize p \<and> nSpill p' = nSpill p \<and>
    (rc = SQLITE_OK \<and> length z \<le> n \<or> rc = SQLITE_IOERR_NOMEM \<and> (\<exists>k. \<not> alloc k))"
proof -
  have len: "length (mj_content p) = fst (endpoint p)" by (rule length_mj_content [OF inv])
  obtain p1 where t: "(if 0 < ofs \<and> ofs \<noteq> fst (endpoint p) then memjrnlTruncate p ofs else Some (SQLITE_OK, p)) =
        Some (SQLITE_OK, p1)" "mj_inv p1" "nChunkSize p1 = nChunkSize p" "nSpill p1 = nSpill p"
      "mj_content p1 = (if 0 < ofs then take ofs (mj_content p) else mj_content p)"
    using memjrnlTruncate_ok [OF inv, of ofs] inv len that by (cases "0 < ofs \<and> ofs \<noteq> fst (endpoint p)") auto
  have w: "memjrnlWrite vfs alloc junk p z ofs =
      (if ofs = 0 \<and> pFirst p1 \<noteq> [] then
         if nChunkSize p1 \<le> length z then None
         else map_option (\<lambda>c. (SQLITE_OK, MemJ (p1 \<lparr> pFirst := (pFirst p1)[0 := c] \<rparr>)))
           (wr_bytes (hd (pFirst p1)) 0 z)
       else map_option (\<lambda>(rc, p). (rc, MemJ p)) (mj_append alloc junk 0 p1 z))"
    using small ofs len t(1) by (auto simp: memjrnlWrite_def)
  show ?thesis
  proof (cases "ofs = 0 \<and> pFirst p1 \<noteq> []")
    case True
    then have h: "length z < nChunkSize p1" "mj_content p \<noteq> []"
      using head t(3,5) content_Nil [OF t(2)] by auto
    obtain c where c: "wr_bytes (hd (pFirst p1)) 0 z = Some c" "mj_inv (p1 \<lparr> pFirst := (pFirst p1)[0 := c] \<rparr>)"
        "mj_content (p1 \<lparr> pFirst := (pFirst p1)[0 := c] \<rparr>) = take (length (mj_content p1)) (z @ drop (length z) (mj_content p1))"
      using overwrite_ok [OF t(2) _ h(1)] True by blast
    show ?thesis
      using True t(3-5) w h c
      by (intro exI [of _ SQLITE_OK] exI [of _ "p1 \<lparr> pFirst := (pFirst p1)[0 := c] \<rparr>"] exI [of _ "length z"])
        (simp add: mj_written_def)
  next
    case False
    have "mj_content p1 @ z = mj_written (mj_content p) z ofs" for z
      using False t(5) content_Nil [OF t(2)] by (auto simp: mj_written_def)
    moreover obtain rc p' n where a: "mj_append alloc junk 0 p1 z = Some (rc, p')" "mj_inv p'"
        "mj_content p' = mj_content p1 @ take n z" "nChunkSize p' = nChunkSize p1" "nSpill p' = nSpill p1"
        "rc = SQLITE_OK \<and> length z \<le> n \<or> rc = SQLITE_IOERR_NOMEM \<and> (\<exists>k. \<not> alloc k)"
      using mj_append_ok [where junk = junk and k = 0 and z = z and alloc = alloc, OF t(2)] by (elim exE conjE) rule
    moreover have "memjrnlWrite vfs alloc junk p z ofs = Some (rc, MemJ p')"
      unfolding w if_not_P [OF False] a(1) by simp
    ultimately show ?thesis
      using t(3,4) by (intro exI [of _ rc] exI [of _ p'] exI [of _ n] conjI) simp_all
  qed
qed

section \<open>Spilling to a real file\<close>

text \<open>What the code relies on: a real file starts empty, and a successful write is a file write.\<close>

definition os_laws :: "'f os_methods \<Rightarrow> ('f \<Rightarrow> u8 list) \<Rightarrow> bool" where
  "os_laws vfs fc \<longleftrightarrow>
     (fst (xOpen vfs) = SQLITE_OK \<longrightarrow> fc (snd (xOpen vfs)) = []) \<and>
     (\<forall>f z ofs. fst (xWrite vfs f z ofs) = SQLITE_OK \<longrightarrow> fc (snd (xWrite vfs f z ofs)) = file_write (fc f) ofs z)"

definition j_content :: "('f \<Rightarrow> u8 list) \<Rightarrow> 'f journal \<Rightarrow> u8 list" where
  "j_content fc j = (case j of MemJ p \<Rightarrow> mj_content p | RealJ f \<Rightarrow> fc f)"

lemma flush_ok:
  assumes "os_laws vfs fc" "0 < cs"
  shows "list_all (\<lambda>c. length c = cs) chunks \<Longrightarrow> sz \<le> iOff + length chunks * cs \<Longrightarrow>
    iOff + length chunks * cs < sz + cs \<Longrightarrow> length (fc f) = iOff \<Longrightarrow>
    \<exists>rc f'. mj_flush vfs sz cs iOff chunks f = Some (rc, f') \<and>
      (rc = SQLITE_OK \<longrightarrow> fc f' = fc f @ take (sz - iOff) (concat chunks))"
proof (induction chunks arbitrary: iOff f)
  case (Cons c chunks)
  have iOff: "iOff < sz" using Cons.prems(3) by simp
  define n where "n = (if iOff + cs > sz then sz - iOff else cs)"
  obtain rc f1 where x: "xWrite vfs f (take n c) iOff = (rc, f1)" by force
  have step: "mj_flush vfs sz cs iOff (c # chunks) f =
      (if rc \<noteq> SQLITE_OK then Some (rc, f1) else mj_flush vfs sz n (iOff + n) chunks f1)"
    using iOff x by (simp add: n_def)
  show ?case
  proof (cases "rc = SQLITE_OK")
    case False
    with step show ?thesis by auto
  next
    case True
    then have f1: "fc f1 = fc f @ take n c"
      using assms(1) x Cons.prems(4) unfolding os_laws_def by (metis fst_conv snd_conv file_write_end)
    show ?thesis
    proof (cases "iOff + cs > sz")
      case last: True
      then have "chunks = []" using Cons.prems(3) by (cases chunks) auto
      with True step f1 last show ?thesis by (simp add: n_def)
    next
      case False
      then have n: "n = cs" by (simp add: n_def)
      have "length (fc f1) = iOff + cs" using f1 n Cons.prems(1,4) by simp
      with Cons.IH [of "iOff + cs" f1] Cons.prems obtain rc' f' where
        "mj_flush vfs sz cs (iOff + cs) chunks f1 = Some (rc', f')"
        "rc' = SQLITE_OK \<longrightarrow> fc f' = fc f1 @ take (sz - (iOff + cs)) (concat chunks)" by auto
      with True step f1 n False Cons.prems(1) show ?thesis by auto
    qed
  qed
qed (auto simp: file_write_def)

lemma memjrnlCreateFile_ok:
  assumes "os_laws vfs fc" "mj_inv p"
  shows "\<exists>rc j. memjrnlCreateFile vfs p = Some (rc, j) \<and>
    (if rc = SQLITE_OK then \<exists>f. j = RealJ f \<and> fc f = mj_content p else j = MemJ p)"
proof -
  obtain rc f where o: "xOpen vfs = (rc, f)" by force
  show ?thesis
  proof (cases "rc = SQLITE_OK")
    case False
    with o show ?thesis by (simp add: memjrnlCreateFile_def)
  next
    case True
    then have "fc f = []" using assms(1) o by (simp add: os_laws_def)
    then obtain rc' f' where "mj_flush vfs (fst (endpoint p)) (nChunkSize p) 0 (pFirst p) f = Some (rc', f')"
        "rc' = SQLITE_OK \<longrightarrow> fc f' = mj_content p"
      using flush_ok [OF assms(1), of "nChunkSize p" "pFirst p" "fst (endpoint p)" 0 f] assms(2)
      by (auto simp: mj_inv_def mj_content_def)
    with True o show ?thesis by (auto simp: memjrnlCreateFile_def)
  qed
qed

section \<open>The journal as a journal file\<close>

definition mj_read :: "memjournal \<Rightarrow> nat \<Rightarrow> nat \<Rightarrow> (u8 list \<times> memjournal) option" where
  "mj_read p n ofs =
     (case memjrnlRead p n ofs of Some (rc, z, p') \<Rightarrow> (if rc = SQLITE_OK then Some (z, p') else None) | None \<Rightarrow> None)"

definition mj_app :: "'f os_methods \<Rightarrow> (nat \<Rightarrow> u8) \<Rightarrow> memjournal \<Rightarrow> u8 list \<Rightarrow> nat \<Rightarrow> memjournal option" where
  "mj_app vfs junk p z ofs =
     (case memjrnlWrite vfs (\<lambda>_. True) junk p z ofs of
        Some (rc, MemJ p') \<Rightarrow> (if rc = SQLITE_OK then Some p' else None) | _ \<Rightarrow> None)"

definition mj_room :: "memjournal \<Rightarrow> nat" where
  "mj_room p = (if 0 < nSpill p then nat (nSpill p) else 2 ^ 63)"

interpretation mj: journal_file mj_read "mj_app vfs junk" mj_inv mj_content mj_room for vfs junk
proof
  fix p n ofs assume "mj_inv p" "0 < n" "ofs + n \<le> length (mj_content p)"
  from memjrnlRead_ok [OF this] obtain p' where r: "memjrnlRead p n ofs = Some (SQLITE_OK, take n (drop ofs (mj_content p)), p')"
      "mj_inv p'" "p' = p \<lparr> readpoint := readpoint p' \<rparr>" by blast
  have "mj_content p' = mj_content p" by (subst r(3)) (simp add: mj_content_def)
  with r show "\<exists>s'. mj_read p n ofs = Some (take n (drop ofs (mj_content p)), s') \<and> mj_inv s' \<and> mj_content s' = mj_content p"
    by (simp add: mj_read_def)
next
  fix p :: memjournal and z :: "u8 list"
  assume p: "mj_inv p" "z \<noteq> []" "length (mj_content p) + length z \<le> mj_room p"
  have small: "nSpill p \<le> 0 \<or> int (length z + length (mj_content p)) \<le> nSpill p"
    using p(3) by (auto simp: mj_room_def split: if_splits)
  from memjrnlWrite_ok [where vfs = vfs and alloc = "\<lambda>_. True" and junk = junk and ofs = "length (mj_content p)", OF p(1) order.refl small]
  obtain p' n where "memjrnlWrite vfs (\<lambda>_. True) junk p z (length (mj_content p)) = Some (SQLITE_OK, MemJ p')" "mj_inv p'"
      "mj_content p' = mj_written (mj_content p) (take n z) (length (mj_content p))" "nSpill p' = nSpill p" "length z \<le> n"
    by auto
  then show "\<exists>s'. mj_app vfs junk p z (length (mj_content p)) = Some s' \<and> mj_inv s' \<and>
      mj_content s' = mj_content p @ z \<and> mj_room s' = mj_room p"
    by (auto simp: mj_app_def mj_room_def mj_written_def)
qed

section \<open>Properties\<close>

lemma JournalOpen_ok: "spill \<noteq> 0 \<Longrightarrow> \<exists>p. sqlite3JournalOpen vfs spill = (SQLITE_OK, MemJ p) \<and> mj_inv p \<and>
    mj_content p = [] \<and> nSpill p = spill"
  by (auto simp: sqlite3JournalOpen_def mj_inv_def mj_content_def)

text \<open>
  C25: Records written one after the other to a journal in memory, however they straddle its chunks,
  are read back one after the other by reads of the same sizes, each continuing at the cursor
  the previous one left.
\<close>

theorem memjournal_replay:
  assumes "sqlite3JournalOpen vfs spill = (SQLITE_OK, MemJ p)" "[] \<notin> set zs"
    and "length (concat zs) \<le> mj_room p" "spill \<noteq> 0"
  shows "\<exists>s' s''. append_all (mj_app vfs junk) p 0 zs = Some s' \<and>
    read_all mj_read s' 0 (map length zs) = Some (zs, s'')"
proof -
  have "mj_inv p" "mj_content p = []"
    using JournalOpen_ok [OF assms(4), of vfs] assms(1) by auto
  with mj.replay [of p zs vfs junk] assms(2,3) show ?thesis by simp
qed

lemma memjournal_replay_witness:
  "\<exists>s' s''. append_all (mj_app \<lparr> xOpen = (0, []), xWrite = (\<lambda>f z ofs. (0, file_write f ofs z)) \<rparr> (\<lambda>_. 0))
      \<lparr> nChunkSize = 4, nSpill = 4, pFirst = [], endpoint = (0, None), readpoint = (0, None) \<rparr> 0 [[1, 2], [3]] = Some s' \<and>
    read_all mj_read s' 0 (map length [[1, 2], [3 :: u8]]) = Some ([[1, 2], [3]], s'')"
  using memjournal_replay [of "\<lparr> xOpen = (0, []), xWrite = (\<lambda>f z ofs. (0, file_write f ofs z)) \<rparr>" 4
      "\<lparr> nChunkSize = 4, nSpill = 4, pFirst = [], endpoint = (0, None), readpoint = (0, None) \<rparr>" "[[1, 2], [3]]" "\<lambda>_. 0"]
  by (simp add: sqlite3JournalOpen_def mj_room_def del: append_all.simps read_all.simps)

text \<open>Where the result in memory is that of a file write: appending, and overwriting the front.\<close>

lemma mj_written_file:
  "ofs = length c \<or> ofs = 0 \<and> length z \<le> length c \<Longrightarrow> mj_written c z ofs = file_write c ofs z"
  by (auto simp: mj_written_def file_write_def)

text \<open>
  C26: A write to a journal in memory, with any allocator and any real file system that keeps its
  word. Up to the spill size the bytes, or the first \<open>n\<close> of them if memory runs out, go to the
  chunks: at the end they are appended, in the middle they replace the rest of the journal, at the
  front they overwrite it without changing its length; appending and overwriting the front with no
  more bytes than there are is a file write. Beyond the spill size either the real file cannot be
  created or filled, with an error and the journal in memory as it was, or the journal is from
  then on the real file: it held the whole content when the bytes were written to it, and the
  result is that of this last write, the code it returned (after a failure the content is up to
  the file system) and on success the file write.
\<close>

theorem memjournal_write:
  assumes "os_laws vfs fc" "mj_inv p" "ofs \<le> length (mj_content p)"
    and "ofs = 0 \<longrightarrow> mj_content p \<noteq> [] \<longrightarrow> length z < nChunkSize p"
  shows "\<exists>rc j. memjrnlWrite vfs alloc junk p z ofs = Some (rc, j) \<and>
    (if nSpill p \<le> 0 \<or> int (length z + ofs) \<le> nSpill p
     then \<exists>p' n. j = MemJ p' \<and> mj_inv p' \<and>
       (rc = SQLITE_OK \<and> length z \<le> n \<or> rc = SQLITE_IOERR_NOMEM \<and> (\<exists>k. \<not> alloc k)) \<and>
       mj_content p' = (if ofs = length (mj_content p) then mj_content p @ take n z
         else if ofs = 0 then take (length (mj_content p)) (take n z @ drop n (mj_content p))
         else take ofs (mj_content p) @ take n z) \<and>
       (ofs = length (mj_content p) \<or> ofs = 0 \<and> length z \<le> length (mj_content p) \<longrightarrow>
          mj_content p' = file_write (mj_content p) ofs (take n z))
     else j = MemJ p \<and> rc \<noteq> SQLITE_OK \<or>
       (\<exists>f f'. fc f = mj_content p \<and> xWrite vfs f z ofs = (rc, f') \<and> j = RealJ f' \<and>
         (rc = SQLITE_OK \<longrightarrow> fc f' = file_write (mj_content p) ofs z)))"
proof (cases "nSpill p \<le> 0 \<or> int (length z + ofs) \<le> nSpill p")
  case True
  obtain rc p' n where w: "memjrnlWrite vfs alloc junk p z ofs = Some (rc, MemJ p')" "mj_inv p'"
      "mj_content p' = mj_written (mj_content p) (take n z) ofs"
      "rc = SQLITE_OK \<and> length z \<le> n \<or> rc = SQLITE_IOERR_NOMEM \<and> (\<exists>k. \<not> alloc k)"
      "n \<le> length z"
  proof -
    obtain rc p' n where w: "memjrnlWrite vfs alloc junk p z ofs = Some (rc, MemJ p')" "mj_inv p'"
        "mj_content p' = mj_written (mj_content p) (take n z) ofs"
        "rc = SQLITE_OK \<and> length z \<le> n \<or> rc = SQLITE_IOERR_NOMEM \<and> (\<exists>k. \<not> alloc k)"
      using memjrnlWrite_ok [OF assms(2,3) True assms(4), of vfs alloc junk] by blast
    show ?thesis
    proof (rule that [OF w(1,2), of "min n (length z)"])
      have "take (min n (length z)) z = take n z" by (simp add: min_def)
      then show "mj_content p' = mj_written (mj_content p) (take (min n (length z)) z) ofs"
        using w(3) by simp
      show "rc = SQLITE_OK \<and> length z \<le> min n (length z) \<or> rc = SQLITE_IOERR_NOMEM \<and> (\<exists>k. \<not> alloc k)"
        using w(4) by auto
    qed simp
  qed
  have "mj_written (mj_content p) (take n z) ofs = (if ofs = length (mj_content p) then mj_content p @ take n z
         else if ofs = 0 then take (length (mj_content p)) (take n z @ drop n (mj_content p))
         else take ofs (mj_content p) @ take n z)"
    using w(5) by (auto simp: mj_written_def min_def)
  moreover have "ofs = length (mj_content p) \<or> ofs = 0 \<and> length z \<le> length (mj_content p) \<longrightarrow>
      mj_written (mj_content p) (take n z) ofs = file_write (mj_content p) ofs (take n z)"
    using mj_written_file [of ofs "mj_content p" "take n z"] w(5) by auto
  ultimately show ?thesis
    unfolding if_P [OF True] using w(1-4)
    by (intro exI [of _ rc] exI [of _ "MemJ p'"] conjI exI [of _ p'] exI [of _ n]) simp_all
next
  case False
  obtain rc j where c: "memjrnlCreateFile vfs p = Some (rc, j)"
      "if rc = SQLITE_OK then \<exists>f. j = RealJ f \<and> fc f = mj_content p else j = MemJ p"
    using memjrnlCreateFile_ok [OF assms(1,2)] by blast
  show ?thesis
  proof (cases "rc = SQLITE_OK")
    case True
    then obtain f where f: "j = RealJ f" "fc f = mj_content p" using c(2) by auto
    obtain rc' f' where x: "xWrite vfs f z ofs = (rc', f')" by force
    then have "rc' = SQLITE_OK \<longrightarrow> fc f' = file_write (mj_content p) ofs z"
      using assms(1) f(2) unfolding os_laws_def by (metis fst_conv snd_conv)
    with False c(1) f x show ?thesis by (auto simp: memjrnlWrite_def)
  next
    case False': False
    with False c show ?thesis by (auto simp: memjrnlWrite_def)
  qed
qed

lemma memjournal_write_witness:
  "(\<exists>rc j. memjrnlWrite \<lparr> xOpen = (0, []), xWrite = (\<lambda>f z ofs. (0, file_write f ofs z)) \<rparr> (\<lambda>_. True) (\<lambda>_. 0)
      \<lparr> nChunkSize = 2, nSpill = 2, pFirst = [[7, 8]], endpoint = (2, Some 0), readpoint = (0, None) \<rparr> [9] 2 = Some (rc, j) \<and>
      (j = MemJ \<lparr> nChunkSize = 2, nSpill = 2, pFirst = [[7, 8]], endpoint = (2, Some 0), readpoint = (0, None) \<rparr> \<and> rc \<noteq> SQLITE_OK \<or>
       rc = SQLITE_OK \<and> j = RealJ [7, 8, 9])) \<and>
   (\<exists>rc j. memjrnlWrite \<lparr> xOpen = (0, []), xWrite = (\<lambda>f z ofs. (0, file_write f ofs z)) \<rparr> (\<lambda>_. True) (\<lambda>_. 0)
      \<lparr> nChunkSize = 2, nSpill = -1, pFirst = [[7, 8]], endpoint = (2, Some 0), readpoint = (0, None) \<rparr> [9] 1 = Some (rc, j) \<and>
      (\<exists>p'. j = MemJ p' \<and> rc = SQLITE_OK \<and> mj_content p' = [7, 9]))"
proof
  let ?vfs = "\<lparr> xOpen = (0, []), xWrite = (\<lambda>f z ofs. (0, file_write f ofs z)) \<rparr>"
  let ?p = "\<lparr> nChunkSize = 2, nSpill = 2, pFirst = [[7, 8 :: u8]], endpoint = (2, Some 0), readpoint = (0, None) \<rparr>"
  have laws: "os_laws ?vfs id" by (simp add: os_laws_def)
  show "\<exists>rc j. memjrnlWrite ?vfs (\<lambda>_. True) (\<lambda>_. 0) ?p [9] 2 = Some (rc, j) \<and>
      (j = MemJ ?p \<and> rc \<noteq> SQLITE_OK \<or> rc = SQLITE_OK \<and> j = RealJ [7, 8, 9])"
    using memjournal_write [OF laws, of ?p 2 "[9]" "\<lambda>_. True" "\<lambda>_. 0"]
    by (auto simp: mj_inv_def mj_content_def file_write_def)
  let ?q = "\<lparr> nChunkSize = 2, nSpill = -1, pFirst = [[7, 8 :: u8]], endpoint = (2, Some 0), readpoint = (0, None) \<rparr>"
  show "\<exists>rc j. memjrnlWrite ?vfs (\<lambda>_. True) (\<lambda>_. 0) ?q [9] 1 = Some (rc, j) \<and>
      (\<exists>p'. j = MemJ p' \<and> rc = SQLITE_OK \<and> mj_content p' = [7, 9])"
    using memjournal_write [OF laws, of ?q 1 "[9]" "\<lambda>_. True" "\<lambda>_. 0"]
    by (auto simp: mj_inv_def mj_content_def)
qed

end
