(* ===== verification/MemDb.thy ===== *)
theory MemDb
  imports ByteFile Ctype
begin

text \<open>
  The in-memory database files of \<^verbatim>\<open>src/memdb.c\<close>: the shared and private stores, the open
  files with their locks, and \<open>memdbOpen\<close>, \<open>memdbClose\<close>, \<open>memdbRead\<close>, \<open>memdbWrite\<close>,
  \<open>memdbEnlarge\<close>, \<open>memdbTruncate\<close>, \<open>memdbFileSize\<close>, \<open>memdbLock\<close>, \<open>memdbUnlock\<close>, the size
  limit of \<open>memdbFileControl\<close>, \<open>memdbFetch\<close>, \<open>memdbUnfetch\<close> and the part of
  \<open>sqlite3_deserialize\<close> that fills a store. Each method runs under the mutex of its store, so the
  methods are atomic steps; the order in which the connections take them is arbitrary.
\<close>

section \<open>Data\<close>

record memstore =
  ms_sz :: nat
  szAlloc :: nat
  szMax :: nat
  aData :: "u8 list"
  nMmap :: int
  mFlags :: u32
  nRdLock :: int
  nWrLock :: int
  nRef :: int
  zFName :: "ctext option"

abbreviation (input) SQLITE_DESERIALIZE_FREEONCLOSE :: u32 where "SQLITE_DESERIALIZE_FREEONCLOSE \<equiv> 1"
abbreviation (input) SQLITE_DESERIALIZE_RESIZEABLE :: u32 where "SQLITE_DESERIALIZE_RESIZEABLE \<equiv> 2"
abbreviation (input) SQLITE_DESERIALIZE_READONLY :: u32 where "SQLITE_DESERIALIZE_READONLY \<equiv> 4"

abbreviation (input) SQLITE_LOCK_NONE :: nat where "SQLITE_LOCK_NONE \<equiv> 0"
abbreviation (input) SQLITE_LOCK_SHARED :: nat where "SQLITE_LOCK_SHARED \<equiv> 1"
abbreviation (input) SQLITE_LOCK_RESERVED :: nat where "SQLITE_LOCK_RESERVED \<equiv> 2"
abbreviation (input) SQLITE_LOCK_PENDING :: nat where "SQLITE_LOCK_PENDING \<equiv> 3"
abbreviation (input) SQLITE_LOCK_EXCLUSIVE :: nat where "SQLITE_LOCK_EXCLUSIVE \<equiv> 4"

definition resizeable :: "memstore \<Rightarrow> bool" where
  "resizeable p \<longleftrightarrow> mFlags p AND SQLITE_DESERIALIZE_RESIZEABLE \<noteq> 0"

definition readonly :: "memstore \<Rightarrow> bool" where
  "readonly p \<longleftrightarrow> mFlags p AND SQLITE_DESERIALIZE_READONLY \<noteq> 0"

section \<open>Operations on a store\<close>

definition memdbRead :: "memstore \<Rightarrow> nat \<Rightarrow> nat \<Rightarrow> (nat \<times> u8 list) option" where
  "memdbRead p iAmt iOfst =
     (if iOfst + iAmt > ms_sz p then
        (if iOfst < ms_sz p then
           do {
             z \<leftarrow> rd_bytes (aData p) iOfst (ms_sz p - iOfst);
             zBuf \<leftarrow> wr_bytes (replicate iAmt 0) 0 z;
             Some (SQLITE_IOERR_SHORT_READ, zBuf)
           }
         else Some (SQLITE_IOERR_SHORT_READ, replicate iAmt 0))
      else map_option (\<lambda>z. (SQLITE_OK, z)) (rd_bytes (aData p) iOfst iAmt))"

text \<open>
  \<open>fresh\<close> is the outcome of \<open>sqlite3Realloc\<close>: \<open>None\<close> when memory runs out, otherwise what the new
  bytes hold.
\<close>

definition realloc :: "(nat \<Rightarrow> u8) \<Rightarrow> u8 list \<Rightarrow> nat \<Rightarrow> u8 list" where
  "realloc junk a n = take n a @ map junk [length a..<n]"

definition memdbEnlarge :: "(nat \<Rightarrow> u8) option \<Rightarrow> memstore \<Rightarrow> nat \<Rightarrow> (nat \<times> memstore) option" where
  "memdbEnlarge fresh p newSz =
     (if \<not> resizeable p \<or> nMmap p > 0 then Some (SQLITE_FULL, p)
      else if newSz > szMax p then Some (SQLITE_FULL, p)
      else if newSz * 2 \<ge> 2 ^ 63 then None
      else
        let newSz = (if newSz * 2 > szMax p then szMax p else newSz * 2)
        in case fresh of
             None \<Rightarrow> Some (SQLITE_IOERR_NOMEM, p)
           | Some junk \<Rightarrow> Some (SQLITE_OK, p \<lparr> aData := realloc junk (aData p) newSz, szAlloc := newSz \<rparr>))"

definition memdbWrite :: "(nat \<Rightarrow> u8) option \<Rightarrow> memstore \<Rightarrow> u8 list \<Rightarrow> nat \<Rightarrow> (nat \<times> memstore) option" where
  "memdbWrite fresh p z iOfst =
     (let iAmt = length z
      in if readonly p then Some (SQLITE_IOERR_WRITE, p)
         else
           do {
             (rc, p) \<leftarrow> (if iOfst + iAmt > ms_sz p \<and> iOfst + iAmt > szAlloc p
                          then memdbEnlarge fresh p (iOfst + iAmt) else Some (SQLITE_OK, p));
             if rc \<noteq> SQLITE_OK then Some (rc, p)
             else
               do {
                 p \<leftarrow> (if iOfst + iAmt > ms_sz p then
                         do {
                           a \<leftarrow> (if iOfst > ms_sz p
                                   then wr_bytes (aData p) (ms_sz p) (replicate (iOfst - ms_sz p) 0)
                                   else Some (aData p));
                           Some (p \<lparr> aData := a, ms_sz := iOfst + iAmt \<rparr>)
                         }
                       else Some p);
                 a \<leftarrow> wr_bytes (aData p) iOfst z;
                 Some (SQLITE_OK, p \<lparr> aData := a \<rparr>)
               }
           })"

definition memdbTruncate :: "memstore \<Rightarrow> nat \<Rightarrow> nat \<times> memstore" where
  "memdbTruncate p n = (if n > ms_sz p then (SQLITE_CORRUPT, p) else (SQLITE_OK, p \<lparr> ms_sz := n \<rparr>))"

definition memdbFileSize :: "memstore \<Rightarrow> nat" where
  "memdbFileSize p = ms_sz p"

text \<open>
  \<open>None\<close> is a failing assertion, the one of the macro \<open>ALWAYS\<close> in a debug build included (a
  \<open>RESERVED\<close> or \<open>PENDING\<close> lock is taken from \<open>SHARED\<close> only). The last component is the lock of the
  file.
\<close>

definition memdbLock :: "memstore \<Rightarrow> nat \<Rightarrow> nat \<Rightarrow> (nat \<times> memstore \<times> nat) option" where
  "memdbLock p cur eLock =
     (if eLock \<le> cur then Some (SQLITE_OK, p, cur)
      else if \<not> (nWrLock p = 0 \<or> nWrLock p = 1) \<or> \<not> (cur \<le> SQLITE_LOCK_SHARED \<or> nWrLock p = 1) \<or>
        \<not> (cur = SQLITE_LOCK_NONE \<or> nRdLock p \<ge> 1) then None
      else
        do {
          (rc, p) \<leftarrow>
            (if eLock > SQLITE_LOCK_SHARED \<and> readonly p then Some (SQLITE_READONLY, p)
             else if eLock = SQLITE_LOCK_SHARED then
               (if cur \<noteq> SQLITE_LOCK_NONE then None
                else if nWrLock p > 0 then Some (SQLITE_BUSY, p)
                else Some (SQLITE_OK, p \<lparr> nRdLock := nRdLock p + 1 \<rparr>))
             else if eLock = SQLITE_LOCK_RESERVED \<or> eLock = SQLITE_LOCK_PENDING then
               (if cur \<noteq> SQLITE_LOCK_SHARED then None
                else if nWrLock p > 0 then Some (SQLITE_BUSY, p)
                else Some (SQLITE_OK, p \<lparr> nWrLock := 1 \<rparr>))
             else
               (if eLock \<noteq> SQLITE_LOCK_EXCLUSIVE \<or> cur < SQLITE_LOCK_SHARED then None
                else if nRdLock p > 1 then Some (SQLITE_BUSY, p)
                else if cur = SQLITE_LOCK_SHARED then Some (SQLITE_OK, p \<lparr> nWrLock := 1 \<rparr>)
                else Some (SQLITE_OK, p)));
          Some (rc, p, if rc = SQLITE_OK then eLock else cur)
        })"

definition memdbUnlock :: "memstore \<Rightarrow> nat \<Rightarrow> nat \<Rightarrow> (memstore \<times> nat) option" where
  "memdbUnlock p cur eLock =
     (if eLock \<ge> cur then Some (p, cur)
      else if eLock \<noteq> SQLITE_LOCK_SHARED \<and> eLock \<noteq> SQLITE_LOCK_NONE then None
      else if eLock = SQLITE_LOCK_SHARED then
        Some (if cur > SQLITE_LOCK_SHARED then p \<lparr> nWrLock := nWrLock p - 1 \<rparr> else p, eLock)
      else
        let p = (if cur > SQLITE_LOCK_SHARED then p \<lparr> nWrLock := nWrLock p - 1 \<rparr> else p)
        in Some (p \<lparr> nRdLock := nRdLock p - 1 \<rparr>, eLock))"

text \<open>\<open>SQLITE_FCNTL_SIZE_LIMIT\<close>: the new limit and the value returned through the argument.\<close>

definition memdbSizeLimit :: "memstore \<Rightarrow> int \<Rightarrow> memstore \<times> nat" where
  "memdbSizeLimit p iLimit =
     (let iLimit = (if iLimit < int (ms_sz p) then (if iLimit < 0 then szMax p else ms_sz p) else nat iLimit)
      in (p \<lparr> szMax := iLimit \<rparr>, iLimit))"

text \<open>The page returned is an offset into \<open>aData\<close>.\<close>

definition memdbFetch :: "memstore \<Rightarrow> nat \<Rightarrow> nat \<Rightarrow> nat option \<times> memstore" where
  "memdbFetch p iOfst iAmt =
     (if iOfst + iAmt > ms_sz p \<or> resizeable p then (None, p)
      else (Some iOfst, p \<lparr> nMmap := nMmap p + 1 \<rparr>))"

definition memdbUnfetch :: "memstore \<Rightarrow> memstore" where
  "memdbUnfetch p = p \<lparr> nMmap := nMmap p - 1 \<rparr>"

definition deserialize_fill :: "nat \<Rightarrow> memstore \<Rightarrow> u8 list \<Rightarrow> nat \<Rightarrow> u32 \<Rightarrow> memstore" where
  "deserialize_fill mxMemdbSize p pData szDb flags =
     p \<lparr> aData := pData, ms_sz := szDb, szAlloc := length pData,
        szMax := (if length pData < mxMemdbSize then mxMemdbSize else length pData), mFlags := flags \<rparr>"

section \<open>The files and the stores\<close>

text \<open>
  \<open>stores\<close> is the heap of \<open>MemStore\<close> objects, \<open>apMemStore\<close> the global array of the shared ones
  (\<open>memdb_g\<close>), and \<open>files\<close> the file handles of the connections: the store and the lock of each
  open one.
\<close>

record memfs =
  stores :: "nat \<Rightarrow> memstore option"
  apMemStore :: "nat list"
  files :: "(nat \<times> nat) option list"
  next_store :: nat

definition mem_init :: "nat \<Rightarrow> memfs" where
  "mem_init n = \<lparr> stores = Map.empty, apMemStore = [], files = replicate n None, next_store = 0 \<rparr>"

definition new_store :: "nat \<Rightarrow> memstore" where
  "new_store mxMemdbSize =
     \<lparr> ms_sz = 0, szAlloc = 0, szMax = mxMemdbSize, aData = [], nMmap = 0,
       mFlags = SQLITE_DESERIALIZE_RESIZEABLE OR SQLITE_DESERIALIZE_FREEONCLOSE,
       nRdLock = 0, nWrLock = 0, nRef = 0, zFName = None \<rparr>"

definition shared_name :: "ctext option \<Rightarrow> bool" where
  "shared_name zName =
     (case zName of None \<Rightarrow> False | Some z \<Rightarrow> length z > 1 \<and> (hd z = ch CHR ''/'' \<or> hd z = 92))"

text \<open>\<open>alloc\<close> answers the three requests for memory of \<open>memdbOpen\<close>.\<close>

definition memdbOpen :: "(nat \<Rightarrow> bool) \<Rightarrow> nat \<Rightarrow> nat \<Rightarrow> ctext option \<Rightarrow> memfs \<Rightarrow> (nat \<times> memfs) option" where
  "memdbOpen alloc mxMemdbSize h zName s =
     (if shared_name zName then
        (case find (\<lambda>a. map_option zFName (stores s a) = Some zName) (apMemStore s) of
           Some a \<Rightarrow>
             map_option (\<lambda>p. (SQLITE_OK, s \<lparr> stores := (stores s)(a \<mapsto> p \<lparr> nRef := nRef p + 1 \<rparr>),
               files := (files s)[h := Some (a, SQLITE_LOCK_NONE)] \<rparr>)) (stores s a)
         | None \<Rightarrow>
             (if \<not> alloc 0 \<or> \<not> alloc 1 \<or> \<not> alloc 2 then Some (SQLITE_NOMEM, s)
              else
                let a = next_store s;
                    p = (new_store mxMemdbSize) \<lparr> zFName := zName, nRef := 1 \<rparr>
                in Some (SQLITE_OK, s \<lparr> stores := (stores s)(a \<mapsto> p), apMemStore := apMemStore s @ [a],
                     files := (files s)[h := Some (a, SQLITE_LOCK_NONE)], next_store := a + 1 \<rparr>)))
      else if \<not> alloc 0 then Some (SQLITE_NOMEM, s)
      else
        let a = next_store s
        in Some (SQLITE_OK, s \<lparr> stores := (stores s)(a \<mapsto> new_store mxMemdbSize),
             files := (files s)[h := Some (a, SQLITE_LOCK_NONE)], next_store := a + 1 \<rparr>))"

text \<open>
  Closing: \<open>None\<close> when a store with a name is not in the global array (\<open>ALWAYS\<close> in the loop that
  looks for it).
\<close>

text \<open>Deleting entry \<open>i\<close> of \<open>apMemStore\<close>: the last one takes its place.\<close>

fun del_store :: "nat \<Rightarrow> nat list \<Rightarrow> nat list" where
  "del_store a [] = []"
| "del_store a (x # xs) = (if x = a then (if xs = [] then [] else last xs # butlast xs) else x # del_store a xs)"

definition memdbClose :: "nat \<Rightarrow> memfs \<Rightarrow> memfs option" where
  "memdbClose h s =
     do {
       f \<leftarrow> rd (files s) h;
       (a, _) \<leftarrow> f;
       p \<leftarrow> stores s a;
       let g = (if zFName p \<noteq> None \<and> nRef p = 1 then del_store a (apMemStore s) else apMemStore s)
       in if zFName p \<noteq> None \<and> a \<notin> set (apMemStore s) then None
          else if nRef p \<le> 1
          then Some (s \<lparr> stores := (stores s)(a := None), apMemStore := g, files := (files s)[h := None] \<rparr>)
          else Some (s \<lparr> stores := (stores s)(a \<mapsto> p \<lparr> nRef := nRef p - 1 \<rparr>), apMemStore := g,
            files := (files s)[h := None] \<rparr>)
     }"

section \<open>Steps of the connections\<close>

datatype memop =
    OpOpen nat "ctext option"
  | OpClose nat
  | OpRead nat nat nat
  | OpWrite nat "u8 list" nat
  | OpTruncate nat nat
  | OpLock nat nat
  | OpUnlock nat nat
  | OpLimit nat int
  | OpFetch nat nat nat
  | OpUnfetch nat
  | OpLoad nat "u8 list" nat u32

text \<open>What the environment decides in a step: which allocations succeed and what new memory holds.\<close>

record mem_env =
  me_alloc :: "nat \<Rightarrow> bool"
  me_fresh :: "(nat \<Rightarrow> u8) option"
  me_max :: nat

text \<open>
  What the macros \<open>NEVER\<close> of \<open>memdbWrite\<close> and \<open>memdbEnlarge\<close> say: a debug build aborts when a store
  is written that is read-only, or enlarged while a page of it is mapped; a release build returns
  the error code of \<open>memdbWrite\<close>.
\<close>

definition write_never :: "memstore \<Rightarrow> nat \<Rightarrow> bool" where
  "write_never p n \<longleftrightarrow>
     readonly p \<or> (n > ms_sz p \<and> n > szAlloc p \<and> resizeable p \<and> nMmap p > 0)"

definition on_store ::
  "nat \<Rightarrow> (memstore \<Rightarrow> nat \<Rightarrow> ('r \<times> memstore \<times> nat) option) \<Rightarrow> memfs \<Rightarrow> ('r \<times> memfs) option"
where
  "on_store h f s =
     do {
       fl \<leftarrow> rd (files s) h;
       (a, e) \<leftarrow> fl;
       p \<leftarrow> stores s a;
       (r, p', e') \<leftarrow> f p e;
       Some (r, s \<lparr> stores := (stores s)(a \<mapsto> p'), files := (files s)[h := Some (a, e')] \<rparr>)
     }"

fun mem_step :: "mem_env \<Rightarrow> memop \<Rightarrow> memfs \<Rightarrow> ((nat \<times> u8 list) \<times> memfs) option" where
  "mem_step env (OpOpen h nm) s =
     map_option (\<lambda>(rc, s). ((rc, []), s)) (memdbOpen (me_alloc env) (me_max env) h nm s)"
| "mem_step env (OpClose h) s = map_option (\<lambda>s. ((SQLITE_OK, []), s)) (memdbClose h s)"
| "mem_step env (OpRead h n ofs) s =
     on_store h (\<lambda>p e. map_option (\<lambda>r. (r, p, e)) (memdbRead p n ofs)) s"
| "mem_step env (OpWrite h z ofs) s =
     on_store h (\<lambda>p e. if write_never p (ofs + length z) then None
       else map_option (\<lambda>(rc, p). ((rc, []), p, e)) (memdbWrite (me_fresh env) p z ofs)) s"
| "mem_step env (OpTruncate h n) s =
     on_store h (\<lambda>p e. let (rc, p) = memdbTruncate p n in Some ((rc, []), p, e)) s"
| "mem_step env (OpLock h l) s =
     on_store h (\<lambda>p e. map_option (\<lambda>(rc, p, e). ((rc, []), p, e)) (memdbLock p e l)) s"
| "mem_step env (OpUnlock h l) s =
     on_store h (\<lambda>p e. map_option (\<lambda>(p, e). ((SQLITE_OK, []), p, e)) (memdbUnlock p e l)) s"
| "mem_step env (OpLimit h l) s =
     on_store h (\<lambda>p e. Some ((SQLITE_OK, []), fst (memdbSizeLimit p l), e)) s"
| "mem_step env (OpFetch h n ofs) s =
     on_store h (\<lambda>p e. Some ((SQLITE_OK, []), snd (memdbFetch p ofs n), e)) s"
| "mem_step env (OpUnfetch h) s =
     on_store h (\<lambda>p e. Some ((SQLITE_OK, []), memdbUnfetch p, e)) s"
| "mem_step env (OpLoad h z n flags) s =
     on_store h (\<lambda>p e. Some ((SQLITE_OK, []), deserialize_fill (me_max env) p z n flags, e)) s"

text \<open>
  The contract of the callers (the pager): a handle is opened when it is free and closed without
  locks; a file is changed under an exclusive lock only; every lock beyond \<open>SHARED\<close> is asked for
  from \<open>SHARED\<close> upwards, and \<open>PENDING\<close> never from \<open>RESERVED\<close>; a page is returned after it was fetched; a store is filled by
  \<open>sqlite3_deserialize\<close> when it is private, freshly attached and unlocked.
\<close>

definition file_of :: "memfs \<Rightarrow> nat \<Rightarrow> (nat \<times> nat) option" where
  "file_of s h = (if h < length (files s) then files s ! h else None)"

definition lock_of :: "memfs \<Rightarrow> nat \<Rightarrow> nat" where
  "lock_of s h = (case file_of s h of None \<Rightarrow> 0 | Some (a, e) \<Rightarrow> e)"

definition store_of :: "memfs \<Rightarrow> nat \<Rightarrow> memstore option" where
  "store_of s h = (case file_of s h of None \<Rightarrow> None | Some (a, e) \<Rightarrow> stores s a)"

fun caller_ok :: "memop \<Rightarrow> memfs \<Rightarrow> bool" where
  "caller_ok (OpOpen h nm) s \<longleftrightarrow> h < length (files s) \<and> file_of s h = None"
| "caller_ok (OpClose h) s \<longleftrightarrow> file_of s h \<noteq> None \<and> lock_of s h = SQLITE_LOCK_NONE"
| "caller_ok (OpRead h n ofs) s \<longleftrightarrow> file_of s h \<noteq> None"
| "caller_ok (OpWrite h z ofs) s \<longleftrightarrow> lock_of s h = SQLITE_LOCK_EXCLUSIVE"
| "caller_ok (OpTruncate h n) s \<longleftrightarrow> lock_of s h = SQLITE_LOCK_EXCLUSIVE"
| "caller_ok (OpLock h l) s \<longleftrightarrow> file_of s h \<noteq> None \<and> l \<le> SQLITE_LOCK_EXCLUSIVE \<and>
     (l > SQLITE_LOCK_SHARED \<longrightarrow> lock_of s h \<ge> SQLITE_LOCK_SHARED) \<and>
     (l = SQLITE_LOCK_PENDING \<longrightarrow> lock_of s h \<noteq> SQLITE_LOCK_RESERVED)"
| "caller_ok (OpUnlock h l) s \<longleftrightarrow> file_of s h \<noteq> None \<and> l \<le> SQLITE_LOCK_SHARED"
| "caller_ok (OpLimit h l) s \<longleftrightarrow> file_of s h \<noteq> None \<and> l < 2 ^ 62"
| "caller_ok (OpFetch h n ofs) s \<longleftrightarrow> file_of s h \<noteq> None"
| "caller_ok (OpUnfetch h) s \<longleftrightarrow> (case store_of s h of None \<Rightarrow> False | Some p \<Rightarrow> nMmap p > 0)"
| "caller_ok (OpLoad h z n flags) s \<longleftrightarrow> lock_of s h = SQLITE_LOCK_NONE \<and> n \<le> length z \<and> length z < 2 ^ 62 \<and>
     (case store_of s h of None \<Rightarrow> False | Some p \<Rightarrow> zFName p = None \<and> nMmap p = 0)"

text \<open>The states that any number of connections can reach by such steps.\<close>

inductive mem_reach :: "memfs \<Rightarrow> bool" where
  init: "mem_reach (mem_init n)"
| step: "mem_reach s \<Longrightarrow> caller_ok op s \<Longrightarrow> me_max env < 2 ^ 62 \<Longrightarrow> mem_step env op s = Some (r, s') \<Longrightarrow> mem_reach s'"

section \<open>Counting the holders of locks\<close>

definition cnt :: "('a \<Rightarrow> bool) \<Rightarrow> 'a list \<Rightarrow> int" where
  "cnt P xs = int (length (filter P xs))"

lemma cnt_update:
  "i < length xs \<Longrightarrow> cnt P (xs[i := y]) = cnt P xs - of_bool (P (xs ! i)) + of_bool (P y)"
proof (induction xs arbitrary: i)
  case (Cons x xs)
  then show ?case by (cases i) (auto simp: cnt_def)
qed simp

lemma cnt_nonneg [simp]: "0 \<le> cnt P xs"
  by (simp add: cnt_def)

lemma cnt_pos: "i < length xs \<Longrightarrow> P (xs ! i) \<Longrightarrow> 0 < cnt P xs"
  by (auto simp: cnt_def filter_empty_conv intro: nth_mem)

lemma cnt_two: "i < length xs \<Longrightarrow> j < length xs \<Longrightarrow> i \<noteq> j \<Longrightarrow> P (xs ! i) \<Longrightarrow> P (xs ! j) \<Longrightarrow> 2 \<le> cnt P xs"
proof -
  assume a: "i < length xs" "j < length xs" "i \<noteq> j" "P (xs ! i)" "P (xs ! j)"
  have "card {i, j} \<le> card {k. k < length xs \<and> P (xs ! k)}"
    using a by (intro card_mono) auto
  then show ?thesis using a(3) by (simp add: cnt_def length_filter_conv_card)
qed

lemma cnt_none: "cnt P xs = 0 \<Longrightarrow> i < length xs \<Longrightarrow> \<not> P (xs ! i)"
  using cnt_pos [of i xs P] by auto

definition holds :: "nat \<Rightarrow> nat \<Rightarrow> (nat \<times> nat) option \<Rightarrow> bool" where
  "holds a k f \<longleftrightarrow> (case f of None \<Rightarrow> False | Some (b, e) \<Rightarrow> b = a \<and> k \<le> e)"

lemma holds_simps [simp]: "\<not> holds a k None" "holds a k (Some (b, e)) \<longleftrightarrow> b = a \<and> k \<le> e"
  by (auto simp: holds_def)

lemma cnt_mono: "(\<And>x. P x \<Longrightarrow> Q x) \<Longrightarrow> cnt P xs \<le> cnt Q xs"
  by (induction xs) (auto simp: cnt_def)

section \<open>Invariant\<close>

definition data_ok :: "memstore \<Rightarrow> bool" where
  "data_ok p \<longleftrightarrow> ms_sz p \<le> szAlloc p \<and> szAlloc p = length (aData p) \<and> szMax p < 2 ^ 62 \<and> szAlloc p < 2 ^ 62 \<and>
     0 \<le> nMmap p \<and> (0 < nMmap p \<longrightarrow> \<not> resizeable p)"

definition locks_ok :: "(nat \<times> nat) option list \<Rightarrow> nat \<Rightarrow> memstore \<Rightarrow> bool" where
  "locks_ok fs a p \<longleftrightarrow>
     nRdLock p = cnt (holds a SQLITE_LOCK_SHARED) fs \<and> nWrLock p = cnt (holds a SQLITE_LOCK_RESERVED) fs \<and>
     nWrLock p \<le> 1 \<and> (0 < cnt (holds a SQLITE_LOCK_EXCLUSIVE) fs \<longrightarrow> nRdLock p = 1) \<and>
     (0 < nWrLock p \<longrightarrow> \<not> readonly p)"

definition refs_ok :: "(nat \<times> nat) option list \<Rightarrow> nat \<Rightarrow> memstore \<Rightarrow> bool" where
  "refs_ok fs a p \<longleftrightarrow> 0 < cnt (holds a 0) fs \<and>
     (if zFName p = None then nRef p = 0 \<and> cnt (holds a 0) fs = 1 else nRef p = cnt (holds a 0) fs)"

definition fs_inv :: "memfs \<Rightarrow> bool" where
  "fs_inv s \<longleftrightarrow>
     (\<forall>a p. stores s a = Some p \<longrightarrow> a < next_store s \<and> data_ok p \<and> locks_ok (files s) a p \<and> refs_ok (files s) a p) \<and>
     (\<forall>h a e. file_of s h = Some (a, e) \<longrightarrow> stores s a \<noteq> None \<and> e \<le> SQLITE_LOCK_EXCLUSIVE) \<and>
     distinct (apMemStore s) \<and>
     (\<forall>a. a \<in> set (apMemStore s) \<longleftrightarrow> (\<exists>p. stores s a = Some p \<and> zFName p \<noteq> None)) \<and>
     inj_on (\<lambda>a. map_option zFName (stores s a)) (set (apMemStore s))"

lemma fs_invI:
  assumes "\<And>a p. stores s a = Some p \<Longrightarrow>
      a < next_store s \<and> data_ok p \<and> locks_ok (files s) a p \<and> refs_ok (files s) a p"
    and "\<And>h a e. file_of s h = Some (a, e) \<Longrightarrow> stores s a \<noteq> None \<and> e \<le> SQLITE_LOCK_EXCLUSIVE"
    and "distinct (apMemStore s)"
    and "\<forall>a. a \<in> set (apMemStore s) \<longleftrightarrow> (\<exists>p. stores s a = Some p \<and> zFName p \<noteq> None)"
    and "inj_on (\<lambda>a. map_option zFName (stores s a)) (set (apMemStore s))"
  shows "fs_inv s"
  using assms unfolding fs_inv_def by blast

lemma fs_inv_init: "fs_inv (mem_init n)"
  by (auto simp: fs_inv_def mem_init_def file_of_def)

section \<open>Preservation\<close>

lemma file_ofD: "file_of s h = Some x \<Longrightarrow> h < length (files s) \<and> files s ! h = Some x"
  by (simp add: file_of_def split: if_splits)

lemma fs_invD:
  assumes "fs_inv s" "file_of s h = Some (a, e)"
  shows "\<exists>p. stores s a = Some p \<and> data_ok p \<and> locks_ok (files s) a p \<and> refs_ok (files s) a p \<and>
    a < next_store s \<and> e \<le> SQLITE_LOCK_EXCLUSIVE"
  using assms unfolding fs_inv_def by blast

text \<open>What the lock of one file implies.\<close>

lemma holder_facts:
  assumes "locks_ok (files s) a p" "file_of s h = Some (a, e)"
  shows "0 \<le> nRdLock p" "0 \<le> nWrLock p" "1 \<le> e \<longrightarrow> 1 \<le> nRdLock p" "2 \<le> e \<longrightarrow> nWrLock p = 1"
    "e = 4 \<longrightarrow> nRdLock p = 1"
  using assms(1) cnt_pos [of h "files s" "holds a 1"] cnt_pos [of h "files s" "holds a 2"]
    cnt_pos [of h "files s" "holds a 4"] file_ofD [OF assms(2)]
  by (auto simp: locks_ok_def)

text \<open>The effect on one store and one file, as far as the invariant is concerned.\<close>

definition local_ok :: "memstore \<Rightarrow> nat \<Rightarrow> memstore \<Rightarrow> nat \<Rightarrow> bool" where
  "local_ok p e p' e' \<longleftrightarrow>
     nRdLock p' = nRdLock p - of_bool (1 \<le> e) + of_bool (1 \<le> e') \<and>
     nWrLock p' = nWrLock p - of_bool (2 \<le> e) + of_bool (2 \<le> e') \<and>
     nWrLock p' \<le> 1 \<and> (e' = 4 \<longrightarrow> nRdLock p' = 1) \<and> (e = 4 \<or> nRdLock p' \<le> nRdLock p \<or> nWrLock p = 0) \<and>
     (0 < nWrLock p' \<longrightarrow> \<not> readonly p') \<and> e' \<le> 4 \<and> zFName p' = zFName p \<and> nRef p' = nRef p"

lemma cnt_ge: "j \<le> k \<Longrightarrow> cnt (holds a k) fs \<le> cnt (holds a j) fs"
  by (intro cnt_mono) (auto simp: holds_def split: option.splits)

lemma locks_ok_update:
  assumes l: "locks_ok (files s) a p" and f: "file_of s h = Some (a, e)" and ok: "local_ok p e p' e'"
  shows "locks_ok ((files s)[h := Some (a, e')]) a p'"
proof -
  have h: "h < length (files s)" "files s ! h = Some (a, e)" using file_ofD [OF f] by auto
  have c: "cnt (holds a k) ((files s)[h := Some (a, e')]) =
      cnt (holds a k) (files s) - of_bool (k \<le> e) + of_bool (k \<le> e')" for k
    using cnt_update [OF h(1), of "holds a k" "Some (a, e')"] h(2) by simp
  have ex: "nRdLock p' = 1" if "0 < cnt (holds a 4) ((files s)[h := Some (a, e')])"
  proof (cases "e' = 4")
    case True
    with ok show ?thesis by (simp add: local_ok_def)
  next
    case False
    then have e': "\<not> 4 \<le> e'" using ok by (simp add: local_ok_def)
    have "cnt (holds a 4) (files s) \<le> cnt (holds a 2) (files s)" by (rule cnt_ge) simp
    moreover have "cnt (holds a 2) (files s) \<le> 1" using l by (simp add: locks_ok_def)
    ultimately have e: "\<not> 4 \<le> e" and pos: "0 < cnt (holds a 4) (files s)"
      using that e' unfolding c by (auto split: if_splits simp: of_bool_def)
    then have "nRdLock p = 1" "0 < nWrLock p"
      using l \<open>cnt (holds a 4) (files s) \<le> cnt (holds a 2) (files s)\<close> by (auto simp: locks_ok_def)
    moreover have "0 < cnt (holds a 1) ((files s)[h := Some (a, e')])"
      using that cnt_ge [of 1 4 a "(files s)[h := Some (a, e')]"] by linarith
    ultimately show ?thesis
      using ok e l unfolding c by (auto simp: local_ok_def locks_ok_def)
  qed
  show ?thesis
    using l ok c [of 1] c [of 2] ex by (simp add: locks_ok_def local_ok_def)
qed

lemma locks_ok_other:
  assumes "b \<noteq> a" "h < length fs" "fs ! h = None \<or> (\<exists>e. fs ! h = Some (a, e))" "x = None \<or> (\<exists>e. x = Some (a, e))"
  shows "cnt (holds b k) (fs[h := x]) = cnt (holds b k) fs"
  using assms by (auto simp: cnt_update)

lemma fs_inv_update:
  assumes inv: "fs_inv s" and f: "file_of s h = Some (a, e)" and p: "stores s a = Some p"
    and ok: "local_ok p e p' e'" and d: "data_ok p'"
  shows "fs_inv (s \<lparr> stores := (stores s)(a \<mapsto> p'), files := (files s)[h := Some (a, e')] \<rparr>)"
proof -
  let ?fs = "(files s)[h := Some (a, e')]"
  have h: "h < length (files s)" "files s ! h = Some (a, e)" using file_ofD [OF f] by auto
  have old: "data_ok p" "locks_ok (files s) a p" "refs_ok (files s) a p" "a < next_store s"
    using fs_invD [OF inv f] p by auto
  have other: "cnt (holds b k) ?fs = cnt (holds b k) (files s)" if "b \<noteq> a" for b k
    using that h by (intro locks_ok_other) auto
  have zero: "cnt (holds a 0) ?fs = cnt (holds a 0) (files s)"
    using cnt_update [OF h(1), of "holds a 0"] h(2) by simp
  have l: "locks_ok ?fs a p'" by (rule locks_ok_update [OF old(2) f ok])
  have r: "refs_ok ?fs a p'" using old(3) ok zero by (simp add: refs_ok_def local_ok_def)
  have st: "b < next_store s \<and> data_ok q \<and> locks_ok ?fs b q \<and> refs_ok ?fs b q"
    if "((stores s)(a \<mapsto> p')) b = Some q" for b q
  proof (cases "b = a")
    case True
    with that old d l r show ?thesis by simp
  next
    case False
    with that inv have "b < next_store s \<and> data_ok q \<and> locks_ok (files s) b q \<and> refs_ok (files s) b q"
      by (simp add: fs_inv_def)
    then show ?thesis unfolding locks_ok_def refs_ok_def other [OF False] .
  qed
  have fl: "((stores s)(a \<mapsto> p')) b \<noteq> None \<and> e2 \<le> SQLITE_LOCK_EXCLUSIVE"
    if "file_of (s \<lparr> stores := (stores s)(a \<mapsto> p'), files := ?fs \<rparr>) h2 = Some (b, e2)" for h2 b e2
  proof (cases "h2 = h")
    case True
    with that h ok show ?thesis by (simp add: file_of_def local_ok_def)
  next
    case False
    with that have "file_of s h2 = Some (b, e2)" by (simp add: file_of_def split: if_splits)
    then show ?thesis using inv unfolding fs_inv_def by auto
  qed
  have nm: "map_option zFName (((stores s)(a \<mapsto> p')) b) = map_option zFName (stores s b)" for b
    using p ok by (simp add: local_ok_def)
  have g: "(\<exists>q. ((stores s)(a \<mapsto> p')) b = Some q \<and> zFName q \<noteq> None) = (\<exists>q. stores s b = Some q \<and> zFName q \<noteq> None)" for b
    using p ok by (simp add: local_ok_def)
  have "distinct (apMemStore s)" "\<forall>b. b \<in> set (apMemStore s) \<longleftrightarrow> (\<exists>p. stores s b = Some p \<and> zFName p \<noteq> None)"
      "inj_on (\<lambda>a. map_option zFName (stores s a)) (set (apMemStore s))"
    using inv unfolding fs_inv_def by blast+
  moreover define t where "t = s \<lparr> stores := (stores s)(a \<mapsto> p'), files := ?fs \<rparr>"
  have t: "stores t = (stores s)(a \<mapsto> p')" "files t = ?fs" "apMemStore t = apMemStore s"
      "next_store t = next_store s" by (simp_all add: t_def)
  ultimately have "fs_inv t"
    using st fl [folded t_def] by (intro fs_invI) (simp_all only: t g nm simp_thms)
  then show ?thesis by (simp only: t_def)
qed

lemma on_store_inv:
  assumes "fs_inv s" "file_of s h = Some (a, e)"
    and "\<And>p. data_ok p \<Longrightarrow> locks_ok (files s) a p \<Longrightarrow> refs_ok (files s) a p \<Longrightarrow> stores s a = Some p \<Longrightarrow>
      \<exists>r p' e'. f p e = Some (r, p', e') \<and> local_ok p e p' e' \<and> data_ok p'"
  shows "\<exists>r s'. on_store h f s = Some (r, s') \<and> fs_inv s'"
proof -
  obtain p where p: "stores s a = Some p" "data_ok p" "locks_ok (files s) a p" "refs_ok (files s) a p"
    using fs_invD [OF assms(1,2)] by blast
  obtain r p' e' where f: "f p e = Some (r, p', e')" "local_ok p e p' e'" "data_ok p'"
    using assms(3) [OF p(2-4,1)] by blast
  show ?thesis
    using fs_inv_update [OF assms(1,2) p(1) f(2,3)] file_ofD [OF assms(2)] p(1) f(1)
    by (simp add: on_store_def rd_Some)
qed

section \<open>Content of a store\<close>

definition mem_content :: "memstore \<Rightarrow> u8 list" where
  "mem_content p = take (ms_sz p) (aData p)"

lemma length_mem_content: "data_ok p \<Longrightarrow> length (mem_content p) = ms_sz p"
  by (simp add: data_ok_def mem_content_def)

lemma memdbRead_ok:
  assumes "data_ok p"
  shows "memdbRead p n ofs =
    Some (if ofs + n > ms_sz p then SQLITE_IOERR_SHORT_READ else SQLITE_OK, file_read (mem_content p) ofs n)"
proof -
  have d: "ms_sz p \<le> length (aData p)" using assms by (simp add: data_ok_def)
  consider "ofs + n \<le> ms_sz p" | "ms_sz p < ofs + n" "ofs < ms_sz p" | "ms_sz p < ofs + n" "ms_sz p \<le> ofs" by linarith
  then show ?thesis
  proof cases
    case 1
    with d show ?thesis
      by (simp add: memdbRead_def rd_bytes_Some file_read_def mem_content_def drop_take Let_def)
  next
    case 2
    with d show ?thesis
      by (simp add: memdbRead_def rd_bytes_Some wr_bytes_Some file_read_def mem_content_def drop_take Let_def min_def)
  next
    case 3
    then show ?thesis by (simp add: memdbRead_def file_read_def mem_content_def Let_def)
  qed
qed

lemma length_realloc: "length (realloc junk a n) = n"
  by (simp add: realloc_def)

lemma memdbEnlarge_ok:
  assumes "data_ok p" "szAlloc p < n"
  shows "\<exists>rc p'. memdbEnlarge fresh p n = Some (rc, p') \<and>
    (if rc = SQLITE_OK then resizeable p \<and> n \<le> szMax p \<and> n \<le> szAlloc p' \<and> szAlloc p' < 2 ^ 62 \<and>
       (\<exists>a. p' = p \<lparr> aData := aData p @ a, szAlloc := szAlloc p' \<rparr> \<and> szAlloc p' = length (aData p @ a))
     else p' = p)"
proof -
  have big: "\<not> n * 2 \<ge> 2 ^ 63" if "n \<le> szMax p" using that assms(1) by (simp add: data_ok_def)
  consider "\<not> resizeable p \<or> nMmap p > 0" | "\<not> (\<not> resizeable p \<or> nMmap p > 0)" "n > szMax p"
    | "\<not> (\<not> resizeable p \<or> nMmap p > 0)" "n \<le> szMax p" "fresh = None"
    | junk where "\<not> (\<not> resizeable p \<or> nMmap p > 0)" "n \<le> szMax p" "fresh = Some junk"
    by (metis not_le option.exhaust)
  then show ?thesis
  proof cases
    case 1
    then have "memdbEnlarge fresh p n = Some (SQLITE_FULL, p)" by (simp add: memdbEnlarge_def)
    then show ?thesis by simp
  next
    case 2
    then have "memdbEnlarge fresh p n = Some (SQLITE_FULL, p)" by (simp add: memdbEnlarge_def)
    then show ?thesis by simp
  next
    case 3
    then have "memdbEnlarge fresh p n = Some (SQLITE_IOERR_NOMEM, p)"
      using big by (simp add: memdbEnlarge_def Let_def)
    then show ?thesis by simp
  next
    case 4
    define m where "m = (if n * 2 > szMax p then szMax p else n * 2)"
    have m: "n \<le> m" "m < 2 ^ 62" using 4 assms(1) by (auto simp: m_def data_ok_def)
    have r: "realloc junk (aData p) m = aData p @ map junk [length (aData p)..<m]"
      using m assms by (simp add: realloc_def data_ok_def)
    have l: "length (aData p @ map junk [length (aData p)..<m]) = m"
      using m assms by (simp add: data_ok_def)
    have "memdbEnlarge fresh p n = Some (SQLITE_OK, p \<lparr> aData := realloc junk (aData p) m, szAlloc := m \<rparr>)"
      using 4 big by (simp add: memdbEnlarge_def m_def Let_def)
    with 4 m l show ?thesis
      unfolding r by (intro exI [of _ SQLITE_OK] exI) (auto intro!: exI [of _ "map junk [length (aData p)..<m]"])
  qed
qed

text \<open>The write proper, once there is room.\<close>

lemma write_room:
  assumes "ms_sz p \<le> length (aData p)" "ofs + length z \<le> length (aData p)"
  shows "\<exists>a. (do {
      p \<leftarrow> (if ofs + length z > ms_sz p then
              do { a \<leftarrow> (if ofs > ms_sz p then wr_bytes (aData p) (ms_sz p) (replicate (ofs - ms_sz p) 0)
                          else Some (aData p));
                   Some (p \<lparr> aData := a, ms_sz := ofs + length z \<rparr>) }
            else Some p);
      a \<leftarrow> wr_bytes (aData p) ofs z;
      Some (SQLITE_OK, p \<lparr> aData := a \<rparr>) }) =
    Some (SQLITE_OK, p \<lparr> aData := a, ms_sz := max (ms_sz p) (ofs + length z) \<rparr>) \<and>
    length a = length (aData p) \<and>
    take (max (ms_sz p) (ofs + length z)) a = file_write (take (ms_sz p) (aData p)) ofs z"
proof -
  let ?a = "aData p" and ?n = "ms_sz p"
  consider "ofs + length z \<le> ?n" | "?n < ofs + length z" "ofs \<le> ?n" | "?n < ofs" by linarith
  then show ?thesis
  proof cases
    case 1
    then have "take ?n (take ofs ?a @ z @ drop (ofs + length z) ?a) = file_write (take ?n ?a) ofs z"
      using assms by (cases "ofs = ?n") (auto simp: file_write_def min_def drop_take)
    with 1 assms show ?thesis
      by (intro exI [of _ "take ofs ?a @ z @ drop (ofs + length z) ?a"])
        (simp add: wr_bytes_Some max_def)
  next
    case 2
    then have "take (ofs + length z) (take ofs ?a @ z @ drop (ofs + length z) ?a) = file_write (take ?n ?a) ofs z"
      using assms by (simp add: file_write_def min_def)
    with 2 assms show ?thesis
      by (intro exI [of _ "take ofs ?a @ z @ drop (ofs + length z) ?a"])
        (simp add: wr_bytes_Some max_def)
  next
    case 3
    let ?b = "take ?n ?a @ replicate (ofs - ?n) 0 @ drop ofs ?a"
    have b: "length ?b = length ?a" using 3 assms by simp
    have "wr_bytes ?a ?n (replicate (ofs - ?n) 0) = Some ?b"
      using 3 assms by (simp add: wr_bytes_Some)
    moreover have "wr_bytes ?b ofs z = Some (take ofs ?b @ z @ drop (ofs + length z) ?b)"
      using b assms(2) by (simp add: wr_bytes_Some)
    moreover have tb: "take ofs ?b = take ?n ?a @ replicate (ofs - ?n) 0" using 3 assms by simp
    moreover have "take (ofs + length z) (take ofs ?b @ z @ drop (ofs + length z) ?b) = file_write (take ?n ?a) ofs z"
      unfolding tb using 3 assms by (simp add: file_write_def)
    moreover have "length (take ofs ?b @ z @ drop (ofs + length z) ?b) = length ?a"
      using b assms(2) by simp
    ultimately show ?thesis
      using 3 by (intro exI [of _ "take ofs ?b @ z @ drop (ofs + length z) ?b"])
        (simp add: max_def del: take_append drop_append)
  qed
qed

lemma memdbWrite_ok:
  assumes "data_ok p"
  shows "\<exists>rc p'. memdbWrite fresh p z ofs = Some (rc, p') \<and> data_ok p' \<and>
    p' = p \<lparr> aData := aData p', szAlloc := szAlloc p', ms_sz := ms_sz p' \<rparr> \<and>
    mem_content p' = (if rc = SQLITE_OK then file_write (mem_content p) ofs z else mem_content p)"
proof (cases "readonly p")
  case True
  with assms show ?thesis by (simp add: memdbWrite_def)
next
  case False
  define grow where "grow = (ofs + length z > ms_sz p \<and> ofs + length z > szAlloc p)"
  obtain rc p1 where e: "(if grow then memdbEnlarge fresh p (ofs + length z) else Some (SQLITE_OK, p)) = Some (rc, p1)"
      "if rc = SQLITE_OK then ofs + length z \<le> length (aData p1) \<and> szAlloc p1 < 2 ^ 62 \<and>
         (\<exists>a. p1 = p \<lparr> aData := aData p @ a, szAlloc := length (aData p @ a) \<rparr>) else p1 = p"
  proof (cases grow)
    case True
    then obtain rc p' where "memdbEnlarge fresh p (ofs + length z) = Some (rc, p')"
        "if rc = SQLITE_OK then resizeable p \<and> ofs + length z \<le> szMax p \<and> ofs + length z \<le> szAlloc p' \<and> szAlloc p' < 2 ^ 62 \<and>
       (\<exists>a. p' = p \<lparr> aData := aData p @ a, szAlloc := szAlloc p' \<rparr> \<and> szAlloc p' = length (aData p @ a)) else p' = p"
      using memdbEnlarge_ok [OF assms, of "ofs + length z" fresh] unfolding grow_def by (elim conjE exE) blast
    with True that show ?thesis by (cases "rc = SQLITE_OK") (force, simp)
  next
    case False
    then have "ofs + length z \<le> length (aData p) \<and> szAlloc p < 2 ^ 62"
      using assms by (auto simp: grow_def data_ok_def)
    moreover have "\<exists>a. p = p \<lparr> aData := aData p @ a, szAlloc := length (aData p @ a) \<rparr>"
      by (rule exI [of _ "[]"]) (use assms in \<open>simp add: data_ok_def\<close>)
    ultimately show ?thesis by (intro that [of SQLITE_OK p]) (use False in auto)
  qed
  show ?thesis
  proof (cases "rc = SQLITE_OK")
    case False
    with e assms \<open>\<not> readonly p\<close> show ?thesis by (simp add: memdbWrite_def grow_def)
  next
    case True
    then obtain a where p1: "p1 = p \<lparr> aData := aData p @ a, szAlloc := length (aData p @ a) \<rparr>"
        "ofs + length z \<le> length (aData p1)" "szAlloc p1 < 2 ^ 62" using e(2) by auto
    have sz: "ms_sz p1 = ms_sz p" "ms_sz p1 \<le> length (aData p1)" "take (ms_sz p1) (aData p1) = mem_content p"
      using p1(1) assms by (simp_all add: data_ok_def mem_content_def)
    obtain b where b: "(do {
      p \<leftarrow> (if ofs + length z > ms_sz p1 then
              do { a \<leftarrow> (if ofs > ms_sz p1 then wr_bytes (aData p1) (ms_sz p1) (replicate (ofs - ms_sz p1) 0)
                          else Some (aData p1));
                   Some (p1 \<lparr> aData := a, ms_sz := ofs + length z \<rparr>) }
            else Some p1);
      a \<leftarrow> wr_bytes (aData p) ofs z;
      Some (SQLITE_OK, p \<lparr> aData := a \<rparr>) }) =
    Some (SQLITE_OK, p1 \<lparr> aData := b, ms_sz := max (ms_sz p1) (ofs + length z) \<rparr>)"
      "length b = length (aData p1)" "take (max (ms_sz p1) (ofs + length z)) b = file_write (mem_content p) ofs z"
      using write_room [OF sz(2) p1(2)] unfolding sz(3) by blast
    let ?p = "p1 \<lparr> aData := b, ms_sz := max (ms_sz p1) (ofs + length z) \<rparr>"
    have w: "memdbWrite fresh p z ofs = Some (SQLITE_OK, ?p)"
      using e(1) True \<open>\<not> readonly p\<close> b(1) by (simp add: memdbWrite_def grow_def)
    have d: "data_ok ?p"
      using assms b(2) p1 sz by (auto simp: data_ok_def resizeable_def)
    have c: "mem_content ?p = file_write (mem_content p) ofs z"
      using b(3) by (simp add: mem_content_def)
    have "?p = p \<lparr> aData := aData ?p, szAlloc := szAlloc ?p, ms_sz := ms_sz ?p \<rparr>"
      using p1(1) by simp
    with w d c show ?thesis by (intro exI [of _ SQLITE_OK] exI [of _ ?p]) simp
  qed
qed

section \<open>The steps keep the invariant\<close>

lemma local_same:
  assumes "locks_ok (files s) a p" "file_of s h = Some (a, e)" "e \<le> 4"
    and "nRdLock p' = nRdLock p" "nWrLock p' = nWrLock p" "readonly p' = readonly p" "zFName p' = zFName p" "nRef p' = nRef p"
  shows "local_ok p e p' e"
  using assms holder_facts [OF assms(1,2)] by (auto simp: local_ok_def locks_ok_def)

text \<open>A write beyond the limit succeeds exactly when the buffer is long enough already.\<close>

lemma memdbWrite_code:
  assumes "data_ok p" "\<not> readonly p" "szMax p < ofs + length z" "ms_sz p < ofs + length z"
    and w: "memdbWrite fresh p z ofs = Some (rc, p')"
  shows "rc = SQLITE_OK \<longleftrightarrow> ofs + length z \<le> szAlloc p"
proof (cases "ofs + length z \<le> szAlloc p")
  case True
  with w assms(2,4) show ?thesis
    by (auto simp: memdbWrite_def Let_def split: if_splits bind_splits)
next
  case False
  with w assms(2-4) have "rc = SQLITE_FULL"
    by (auto simp: memdbWrite_def memdbEnlarge_def Let_def split: if_splits bind_splits)
  with False show ?thesis by simp
qed

lemma memdbLock_ok:
  assumes l: "locks_ok (files s) a p" and f: "file_of s h = Some (a, e)" and e: "e \<le> 4" "k \<le> 4" "1 < k \<longrightarrow> 1 \<le> e"
      "k = 3 \<longrightarrow> e \<noteq> 2"
  shows "\<exists>rc p' e'. memdbLock p e k = Some (rc, p', e') \<and> local_ok p e p' e' \<and>
    p' = p \<lparr> nRdLock := nRdLock p', nWrLock := nWrLock p' \<rparr> \<and> e' = (if rc = SQLITE_OK \<and> e < k then k else e)"
proof -
  note facts = holder_facts [OF l f]
  have "nWrLock p \<le> 1" using l by (simp add: locks_ok_def)
  then have w: "nWrLock p = 0 \<or> nWrLock p = 1" using facts(2) by linarith
  have ro: "0 < nWrLock p \<longrightarrow> \<not> readonly p" using l by (simp add: locks_ok_def)
  have same: "local_ok p e p e" using l f e(1) by (intro local_same) auto
  have asserts: "\<not> (\<not> (nWrLock p = 0 \<or> nWrLock p = 1) \<or> \<not> (e \<le> SQLITE_LOCK_SHARED \<or> nWrLock p = 1) \<or>
        \<not> (e = SQLITE_LOCK_NONE \<or> nRdLock p \<ge> 1))"
    using w facts(3,4) by auto
  show ?thesis
  proof (cases "k \<le> e \<or> k > 1 \<and> readonly p")
    case True
    with same asserts show ?thesis by (auto simp: memdbLock_def)
  next
    case False
    then have k: "e < k" and nro: "k > 1 \<longrightarrow> \<not> readonly p" by auto
    have ro_upd: "readonly (p \<lparr> nRdLock := x \<rparr>) = readonly p" "readonly (p \<lparr> nWrLock := x \<rparr>) = readonly p" for x
      by (simp_all add: readonly_def)
    have "k = 1 \<or> k = 2 \<or> k = 3 \<or> k = 4" using e(2) k by auto
    then have "k = 1 \<or> (k = 2 \<or> k = 3) \<and> e = 1 \<or> k = 4 \<and> e = 1 \<or> k = 4 \<and> 1 < e"
      using e(3,4) k by presburger
    then consider "k = 1" | "k = 2 \<or> k = 3" "e = 1" | "k = 4" "e = 1" | "k = 4" "1 < e"
      by blast
    then show ?thesis
    proof cases
      case 1
      with k have "e = 0" by simp
      with 1 same asserts w ro facts show ?thesis
        by (cases "nWrLock p > 0") (auto simp: memdbLock_def local_ok_def readonly_def)
    next
      case 2
      with same asserts w nro facts show ?thesis
        by (cases "nWrLock p > 0") (auto simp: memdbLock_def local_ok_def readonly_def)
    next
      case 3
      have one: "nWrLock p = 0" if "nRdLock p \<le> 1"
      proof (rule ccontr)
        assume "nWrLock p \<noteq> 0"
        then have "0 < cnt (holds a 2) (files s)"
          using l cnt_nonneg [of "holds a 2" "files s"] unfolding locks_ok_def by linarith
        then obtain i where i: "i < length (files s)" "holds a 2 (files s ! i)"
          by (auto simp: cnt_def filter_empty_conv in_set_conv_nth)
        have h: "h < length (files s)" "holds a 1 (files s ! h)" "\<not> holds a 2 (files s ! h)"
          using file_ofD [OF f] 3 by auto
        have "holds a 1 (files s ! i)" using i(2) by (auto simp: holds_def split: option.splits)
        moreover have "i \<noteq> h" using i h by auto
        ultimately have "2 \<le> cnt (holds a 1) (files s)" using cnt_two [of i "files s" h "holds a 1"] i h by auto
        with that l show False by (simp add: locks_ok_def)
      qed
      with 3 same asserts w nro facts show ?thesis
        by (cases "nRdLock p > 1") (auto simp: memdbLock_def local_ok_def readonly_def)
    next
      case 4
      with same asserts w nro k facts show ?thesis
        by (cases "nRdLock p > 1") (auto simp: memdbLock_def local_ok_def readonly_def)
    qed
  qed
qed

lemma memdbUnlock_ok:
  assumes l: "locks_ok (files s) a p" and f: "file_of s h = Some (a, e)" and e: "e \<le> 4" "k \<le> 1"
  shows "\<exists>p' e'. memdbUnlock p e k = Some (p', e') \<and> local_ok p e p' e' \<and>
    p' = p \<lparr> nRdLock := nRdLock p', nWrLock := nWrLock p' \<rparr> \<and> e' = min e k"
proof (cases "e \<le> k")
  case True
  with local_same [OF l f e(1), of p] show ?thesis by (simp add: memdbUnlock_def)
next
  case False
  note facts = holder_facts [OF l f]
  have "k = 0 \<or> k = 1" using e(2) by auto
  with False facts l e(1) show ?thesis
    by (auto simp: memdbUnlock_def local_ok_def locks_ok_def readonly_def Let_def min_def)
qed

text \<open>Files of a store that does not exist.\<close>

lemma cnt_dead:
  assumes "fs_inv s" "stores s a = None"
  shows "cnt (holds a k) (files s) = 0"
proof (rule ccontr)
  assume "cnt (holds a k) (files s) \<noteq> 0"
  then have "0 < cnt (holds a k) (files s)" using cnt_nonneg [of "holds a k" "files s"] by linarith
  then obtain i where i: "i < length (files s)" "holds a k (files s ! i)"
    by (auto simp: cnt_def filter_empty_conv in_set_conv_nth)
  then obtain e where "file_of s i = Some (a, e)" by (auto simp: holds_def file_of_def split: option.splits)
  with fs_invD [OF assms(1)] assms(2) show False by force
qed

lemma cnt_open:
  assumes "h < length fs" "fs ! h = None"
  shows "cnt (holds b k) (fs[h := Some (a, 0)]) = cnt (holds b k) fs + of_bool (b = a \<and> k = 0)"
  using assms by (simp add: cnt_update)

lemma cnt_close:
  assumes "h < length fs" "fs ! h = Some (a, 0)"
  shows "cnt (holds b k) (fs[h := None]) = cnt (holds b k) fs - of_bool (b = a \<and> k = 0)"
  using assms by (simp add: cnt_update)

lemma locks_ok_open:
  "h < length fs \<Longrightarrow> fs ! h = None \<Longrightarrow> locks_ok (fs[h := Some (a, 0)]) b q = locks_ok fs b q"
  by (simp add: locks_ok_def cnt_open)

lemma locks_ok_close:
  "h < length fs \<Longrightarrow> fs ! h = Some (a, 0) \<Longrightarrow> locks_ok (fs[h := None]) b q = locks_ok fs b q"
  by (simp add: locks_ok_def cnt_close)

lemma refs_ok_open:
  "h < length fs \<Longrightarrow> fs ! h = None \<Longrightarrow> b \<noteq> a \<Longrightarrow> refs_ok (fs[h := Some (a, 0)]) b q = refs_ok fs b q"
  by (simp add: refs_ok_def cnt_open)

lemma refs_ok_close:
  "h < length fs \<Longrightarrow> fs ! h = Some (a, 0) \<Longrightarrow> b \<noteq> a \<Longrightarrow> refs_ok (fs[h := None]) b q = refs_ok fs b q"
  by (simp add: refs_ok_def cnt_close)

lemma fs_inv_parts:
  assumes "fs_inv s"
  shows "distinct (apMemStore s)" "\<forall>b. b \<in> set (apMemStore s) \<longleftrightarrow> (\<exists>p. stores s b = Some p \<and> zFName p \<noteq> None)"
    "inj_on (\<lambda>a. map_option zFName (stores s a)) (set (apMemStore s))"
    "stores s b = Some q \<Longrightarrow> b < next_store s \<and> data_ok q \<and> locks_ok (files s) b q \<and> refs_ok (files s) b q"
    "file_of s h = Some (b, e) \<Longrightarrow> stores s b \<noteq> None \<and> e \<le> SQLITE_LOCK_EXCLUSIVE"
  using assms unfolding fs_inv_def by blast+

lemma file_of_upd:
  "file_of (s \<lparr> stores := x, files := (files s)[h := f] \<rparr>) k =
     (if k = h \<and> h < length (files s) then f else file_of s k)"
  "file_of (s \<lparr> stores := x, apMemStore := g, files := (files s)[h := f] \<rparr>) k =
     (if k = h \<and> h < length (files s) then f else file_of s k)"
  "file_of (s \<lparr> stores := x, files := (files s)[h := f], next_store := n \<rparr>) k =
     (if k = h \<and> h < length (files s) then f else file_of s k)"
  "file_of (s \<lparr> stores := x, apMemStore := g, files := (files s)[h := f], next_store := n \<rparr>) k =
     (if k = h \<and> h < length (files s) then f else file_of s k)"
  by (auto simp: file_of_def)

text \<open>Opening a store that exists.\<close>

lemma open_again:
  assumes inv: "fs_inv s" and h: "h < length (files s)" "files s ! h = None"
    and p: "stores s a = Some p" "zFName p \<noteq> None"
  shows "fs_inv (s \<lparr> stores := (stores s)(a \<mapsto> p \<lparr> nRef := nRef p + 1 \<rparr>), files := (files s)[h := Some (a, 0)] \<rparr>)"
proof (rule fs_invI)
  let ?s = "s \<lparr> stores := (stores s)(a \<mapsto> p \<lparr> nRef := nRef p + 1 \<rparr>), files := (files s)[h := Some (a, 0)] \<rparr>"
  have r: "data_ok p \<and> locks_ok (files s) a p \<and> refs_ok (files s) a p" and n: "a < next_store s"
    using fs_inv_parts(4) [OF inv p(1)] by auto
  show "b < next_store ?s \<and> data_ok q \<and> locks_ok (files ?s) b q \<and> refs_ok (files ?s) b q"
    if q: "stores ?s b = Some q" for b q
  proof (cases "b = a")
    case True
    have "refs_ok ((files s)[h := Some (a, 0)]) a (p \<lparr> nRef := nRef p + 1 \<rparr>)"
      using r p(2) h by (auto simp: refs_ok_def cnt_open)
    moreover have "data_ok (p \<lparr> nRef := nRef p + 1 \<rparr>)" "locks_ok (files s) a (p \<lparr> nRef := nRef p + 1 \<rparr>)"
      using r unfolding data_ok_def locks_ok_def by (auto simp: resizeable_def readonly_def)
    ultimately show ?thesis
      using True q n h by (auto simp: locks_ok_open)
  next
    case False
    then have "stores s b = Some q" using q by simp
    with fs_inv_parts(4) [OF inv this] False h show ?thesis by (simp add: locks_ok_open refs_ok_open)
  qed
  show "stores ?s b \<noteq> None \<and> e \<le> SQLITE_LOCK_EXCLUSIVE" if "file_of ?s k = Some (b, e)" for k b e
    using that fs_inv_parts(5) [OF inv, of k b e] h by (auto simp: file_of_upd split: if_splits)
  show "distinct (apMemStore ?s)" using fs_inv_parts(1) [OF inv] by simp
  have "map_option zFName (stores ?s b) = map_option zFName (stores s b)" for b using p(1) by simp
  then show "inj_on (\<lambda>b. map_option zFName (stores ?s b)) (set (apMemStore ?s))"
    using fs_inv_parts(3) [OF inv] by simp
  show "\<forall>b. b \<in> set (apMemStore ?s) \<longleftrightarrow> (\<exists>q. stores ?s b = Some q \<and> zFName q \<noteq> None)"
    using fs_inv_parts(2) [OF inv] p by simp
qed

text \<open>Opening a new store, shared or private.\<close>

lemma open_new:
  assumes inv: "fs_inv s" and h: "h < length (files s)" "files s ! h = None" and m: "mx < 2 ^ 62"
    and g: "nm = None \<and> g = apMemStore s \<and> r = 0 \<or>
      nm \<noteq> None \<and> g = apMemStore s @ [next_store s] \<and> r = 1 \<and> (\<forall>b \<in> set (apMemStore s). map_option zFName (stores s b) \<noteq> Some nm)"
  shows "fs_inv (s \<lparr> stores := (stores s)(next_store s \<mapsto> (new_store mx) \<lparr> zFName := nm, nRef := r \<rparr>), apMemStore := g,
    files := (files s)[h := Some (next_store s, 0)], next_store := next_store s + 1 \<rparr>)"
proof (rule fs_invI)
  let ?a = "next_store s" and ?p = "(new_store mx) \<lparr> zFName := nm, nRef := r \<rparr>"
  let ?s = "s \<lparr> stores := (stores s)(?a \<mapsto> ?p), apMemStore := g,
    files := (files s)[h := Some (?a, 0)], next_store := ?a + 1 \<rparr>"
  have dead: "stores s ?a = None" using fs_inv_parts(4) [OF inv, of ?a] by (cases "stores s ?a") auto
  note c0 = cnt_dead [OF inv dead]
  have notin: "?a \<notin> set (apMemStore s)" using fs_inv_parts(2) [OF inv] dead by auto
  show "b < next_store ?s \<and> data_ok q \<and> locks_ok (files ?s) b q \<and> refs_ok (files ?s) b q"
    if q: "stores ?s b = Some q" for b q
  proof (cases "b = ?a")
    case True
    have "refs_ok ((files s)[h := Some (?a, 0)]) ?a ?p"
      using g h c0 by (auto simp: refs_ok_def cnt_open new_store_def)
    moreover have "data_ok ?p" "locks_ok (files s) ?a ?p"
      using c0 m by (simp_all add: data_ok_def locks_ok_def new_store_def)
    ultimately show ?thesis using True q h by (auto simp: locks_ok_open)
  next
    case False
    then have "stores s b = Some q" using q by simp
    with fs_inv_parts(4) [OF inv this] False h show ?thesis by (simp add: locks_ok_open refs_ok_open less_Suc_eq)
  qed
  show "stores ?s b \<noteq> None \<and> e \<le> SQLITE_LOCK_EXCLUSIVE" if "file_of ?s k = Some (b, e)" for k b e
    using that fs_inv_parts(5) [OF inv, of k b e] h by (auto simp: file_of_upd split: if_splits)
  show "distinct (apMemStore ?s)" using fs_inv_parts(1) [OF inv] g notin by auto
  have same: "map_option zFName (stores ?s b) = map_option zFName (stores s b)" if "b \<in> set (apMemStore s)" for b
    using that notin by auto
  show "inj_on (\<lambda>b. map_option zFName (stores ?s b)) (set (apMemStore ?s))"
  proof -
    have "inj_on (\<lambda>b. map_option zFName (stores ?s b)) (set (apMemStore s))"
      using fs_inv_parts(3) [OF inv] same by (simp add: inj_on_def)
    moreover have "map_option zFName (stores ?s ?a) \<notin> (\<lambda>b. map_option zFName (stores ?s b)) ` set (apMemStore s)"
      if "nm \<noteq> None"
    proof
      assume "map_option zFName (stores ?s ?a) \<in> (\<lambda>b. map_option zFName (stores ?s b)) ` set (apMemStore s)"
      then obtain b where b: "b \<in> set (apMemStore s)" "map_option zFName (stores ?s b) = map_option zFName (stores ?s ?a)"
        by (rule imageE) (erule that, erule sym)
      have "map_option zFName (stores s b) = Some nm" using b(2) unfolding same [OF b(1)] by simp
      with g that b(1) show False by blast
    qed
    ultimately show ?thesis
      using g notin by (cases "nm = None") (simp_all only: memfs.simps, auto)
  qed
  show "\<forall>b. b \<in> set (apMemStore ?s) \<longleftrightarrow> (\<exists>q. stores ?s b = Some q \<and> zFName q \<noteq> None)"
    using fs_inv_parts(2) [OF inv] g notin by auto
qed

text \<open>Closing.\<close>

lemma del_store_ok:
  "distinct xs \<Longrightarrow> distinct (del_store a xs) \<and> set (del_store a xs) = set xs - {a}"
proof (induction a xs rule: del_store.induct)
  case (2 a x xs)
  then show ?case
  proof (cases "x = a \<and> xs \<noteq> []")
    case True
    then obtain ys y where "xs = ys @ [y]" by (cases xs rule: rev_cases) auto
    with True 2(2) show ?thesis by auto
  next
    case False
    with 2 show ?thesis by auto
  qed
qed simp

lemma close_last:
  assumes inv: "fs_inv s" and h: "h < length (files s)" "files s ! h = Some (a, 0)"
    and p: "stores s a = Some p" and one: "nRef p \<le> 1"
  shows "fs_inv (s \<lparr> stores := (stores s)(a := None),
    apMemStore := (if zFName p \<noteq> None \<and> nRef p = 1 then del_store a (apMemStore s) else apMemStore s),
    files := (files s)[h := None] \<rparr>)"
proof -
  define g where "g = (if zFName p \<noteq> None \<and> nRef p = 1 then del_store a (apMemStore s) else apMemStore s)"
  let ?s = "s \<lparr> stores := (stores s)(a := None), apMemStore := g, files := (files s)[h := None] \<rparr>"
  have r: "refs_ok (files s) a p" using fs_inv_parts(4) [OF inv p] by simp
  have c1: "cnt (holds a 0) (files s) = 1" and n1: "zFName p \<noteq> None \<longrightarrow> nRef p = 1"
    using r one by (auto simp: refs_ok_def split: if_splits)
  have gs: "distinct g" "set g = set (apMemStore s) - {a}"
    using del_store_ok [OF fs_inv_parts(1) [OF inv], of a] fs_inv_parts(1,2) [OF inv] n1 p
    by (auto simp: g_def)
  have "fs_inv ?s"
  proof (rule fs_invI)
    show "b < next_store ?s \<and> data_ok q \<and> locks_ok (files ?s) b q \<and> refs_ok (files ?s) b q"
      if q: "stores ?s b = Some q" for b q
    proof -
      have "b \<noteq> a" "stores s b = Some q" using q by (auto split: if_splits)
      with fs_inv_parts(4) [OF inv, of b q] h show ?thesis by (simp add: locks_ok_close refs_ok_close)
    qed
    show "stores ?s b \<noteq> None \<and> e \<le> SQLITE_LOCK_EXCLUSIVE" if k: "file_of ?s k = Some (b, e)" for k b e
    proof -
      have k': "file_of s k = Some (b, e)" "k < length (files s)" "k \<noteq> h"
        using k h file_ofD [of s k "(b, e)"] by (auto simp: file_of_upd split: if_splits)
      have "b \<noteq> a"
      proof
        assume "b = a"
        then have "2 \<le> cnt (holds a 0) (files s)"
          using cnt_two [of k "files s" h "holds a 0"] k' h file_ofD [OF k'(1)] by simp
        with c1 show False by simp
      qed
      with fs_inv_parts(5) [OF inv k'(1)] show ?thesis by simp
    qed
    show "distinct (apMemStore ?s)" using gs by simp
    show "\<forall>b. b \<in> set (apMemStore ?s) \<longleftrightarrow> (\<exists>q. stores ?s b = Some q \<and> zFName q \<noteq> None)"
      using fs_inv_parts(2) [OF inv] gs(2) by auto
    have "inj_on (\<lambda>b. map_option zFName (stores s b)) (set g)"
      using fs_inv_parts(3) [OF inv] gs(2) by (auto intro: inj_on_subset)
    then show "inj_on (\<lambda>b. map_option zFName (stores ?s b)) (set (apMemStore ?s))"
      using gs(2) by (simp add: inj_on_def)
  qed
  then show ?thesis by (simp only: g_def)
qed

lemma close_more:
  assumes inv: "fs_inv s" and h: "h < length (files s)" "files s ! h = Some (a, 0)"
    and p: "stores s a = Some p" and more: "1 < nRef p"
  shows "fs_inv (s \<lparr> stores := (stores s)(a \<mapsto> p \<lparr> nRef := nRef p - 1 \<rparr>),
    apMemStore := (if zFName p \<noteq> None \<and> nRef p = 1 then del_store a (apMemStore s) else apMemStore s),
    files := (files s)[h := None] \<rparr>)"
proof -
  let ?p = "p \<lparr> nRef := nRef p - 1 \<rparr>"
  let ?s = "s \<lparr> stores := (stores s)(a \<mapsto> ?p), apMemStore := apMemStore s, files := (files s)[h := None] \<rparr>"
  have r: "data_ok p \<and> locks_ok (files s) a p \<and> refs_ok (files s) a p" and n: "a < next_store s"
    using fs_inv_parts(4) [OF inv p] by auto
  have shared: "zFName p \<noteq> None" using r more by (cases "zFName p") (auto simp: refs_ok_def)
  have "fs_inv ?s"
  proof (rule fs_invI)
    show "b < next_store ?s \<and> data_ok q \<and> locks_ok (files ?s) b q \<and> refs_ok (files ?s) b q"
      if q: "stores ?s b = Some q" for b q
    proof (cases "b = a")
      case True
      have "refs_ok ((files s)[h := None]) a ?p"
        using r shared more h by (auto simp: refs_ok_def cnt_close)
      moreover have "data_ok ?p" "locks_ok (files s) a ?p"
        using r unfolding data_ok_def locks_ok_def by (auto simp: resizeable_def readonly_def)
      ultimately show ?thesis using True q n h by (auto simp: locks_ok_close)
    next
      case False
      then have "stores s b = Some q" using q by simp
      with fs_inv_parts(4) [OF inv this] False h show ?thesis by (simp add: locks_ok_close refs_ok_close)
    qed
    show "stores ?s b \<noteq> None \<and> e \<le> SQLITE_LOCK_EXCLUSIVE" if "file_of ?s k = Some (b, e)" for k b e
      using that fs_inv_parts(5) [OF inv, of k b e] h by (auto simp: file_of_upd split: if_splits)
    show "distinct (apMemStore ?s)" using fs_inv_parts(1) [OF inv] by simp
    have "map_option zFName (stores ?s b) = map_option zFName (stores s b)" for b using p by simp
    then show "inj_on (\<lambda>b. map_option zFName (stores ?s b)) (set (apMemStore ?s))"
      using fs_inv_parts(3) [OF inv] by simp
    show "\<forall>b. b \<in> set (apMemStore ?s) \<longleftrightarrow> (\<exists>q. stores ?s b = Some q \<and> zFName q \<noteq> None)"
      using fs_inv_parts(2) [OF inv] p by simp
  qed
  then show ?thesis using more by simp
qed

lemma open_ok:
  assumes inv: "fs_inv s" and c: "h < length (files s)" "file_of s h = None" and m: "mx < 2 ^ 62"
  shows "\<exists>rc s'. memdbOpen alloc mx h nm s = Some (rc, s') \<and> fs_inv s'"
proof -
  have h: "files s ! h = None" using c by (simp add: file_of_def)
  have priv: "fs_inv (s \<lparr> stores := (stores s)(next_store s \<mapsto> new_store mx),
      files := (files s)[h := Some (next_store s, 0)], next_store := next_store s + 1 \<rparr>)"
    using open_new [OF inv c(1) h m, of None "apMemStore s" 0] by (simp add: new_store_def)
  show ?thesis
  proof (cases "shared_name nm")
    case False
    with inv priv show ?thesis by (simp add: memdbOpen_def Let_def)
  next
    case True
    show ?thesis
    proof (cases "find (\<lambda>a. map_option zFName (stores s a) = Some nm) (apMemStore s)")
      case None
      then have "\<forall>b \<in> set (apMemStore s). map_option zFName (stores s b) \<noteq> Some nm"
        by (simp add: find_None_iff)
      moreover have "nm \<noteq> None" using True by (cases nm) (auto simp: shared_name_def)
      ultimately have "fs_inv (s \<lparr> stores := (stores s)(next_store s \<mapsto> (new_store mx) \<lparr> zFName := nm, nRef := 1 \<rparr>),
          apMemStore := apMemStore s @ [next_store s],
          files := (files s)[h := Some (next_store s, 0)], next_store := next_store s + 1 \<rparr>)"
        by (intro open_new [OF inv c(1) h m]) blast
      with True None inv show ?thesis by (simp add: memdbOpen_def Let_def)
    next
      case (Some a)
      then have a: "a \<in> set (apMemStore s)" by (auto simp: find_Some_iff in_set_conv_nth)
      then obtain p where p: "stores s a = Some p" "zFName p \<noteq> None" using fs_inv_parts(2) [OF inv] by blast
      with open_again [OF inv c(1) h p] True Some show ?thesis by (simp add: memdbOpen_def)
    qed
  qed
qed

lemma close_ok:
  assumes inv: "fs_inv s" and c: "file_of s h \<noteq> None" "lock_of s h = 0"
  shows "\<exists>s'. memdbClose h s = Some s' \<and> fs_inv s'"
proof -
  obtain a where f: "file_of s h = Some (a, 0)" using c by (auto simp: lock_of_def)
  have h: "h < length (files s)" "files s ! h = Some (a, 0)" using file_ofD [OF f] by auto
  obtain p where p: "stores s a = Some p" using fs_invD [OF inv f] by blast
  then have "zFName p \<noteq> None \<Longrightarrow> a \<in> set (apMemStore s)" using fs_inv_parts(2) [OF inv] by blast
  then have named: "zFName p = None \<or> a \<in> set (apMemStore s)"
    by blast
  show ?thesis
  proof (cases "nRef p \<le> 1")
    case True
    with close_last [OF inv h p True] h p named show ?thesis by (simp add: memdbClose_def rd_Some Let_def)
  next
    case False
    then have more: "1 < nRef p" by simp
    from close_more [OF inv h p more] False h p named show ?thesis by (simp add: memdbClose_def rd_Some Let_def)
  qed
qed

section \<open>Every allowed step is defined\<close>

lemma lock_of_file: "file_of s h = Some (a, e) \<Longrightarrow> lock_of s h = e"
  by (simp add: lock_of_def)

lemma store_of_file: "file_of s h = Some (a, e) \<Longrightarrow> store_of s h = stores s a"
  by (simp add: store_of_def)

lemma lock_of_pos: "0 < lock_of s h \<Longrightarrow> \<exists>a. file_of s h = Some (a, lock_of s h)"
  by (auto simp: lock_of_def split: option.splits)

lemma store_of_Some: "store_of s h = Some p \<Longrightarrow> \<exists>a. file_of s h = Some (a, lock_of s h) \<and> stores s a = Some p"
  by (auto simp: store_of_def lock_of_def split: option.splits)

lemma same_store_inv:
  assumes inv: "fs_inv s" and f: "file_of s h = Some (a, e)"
    and ok: "\<And>p. data_ok p \<Longrightarrow> stores s a = Some p \<Longrightarrow> \<exists>r p'. f p e = Some (r, p', e) \<and> data_ok p' \<and>
      nRdLock p' = nRdLock p \<and> nWrLock p' = nWrLock p \<and> (e = 0 \<or> readonly p' = readonly p) \<and>
      (readonly p' = readonly p \<or> zFName p = None) \<and> zFName p' = zFName p \<and> nRef p' = nRef p"
  shows "\<exists>r s'. on_store h f s = Some (r, s') \<and> fs_inv s'"
proof (rule on_store_inv [OF inv f])
  fix p assume p: "data_ok p" "locks_ok (files s) a p" "refs_ok (files s) a p" "stores s a = Some p"
  obtain r p' where r: "f p e = Some (r, p', e)" "data_ok p'" "nRdLock p' = nRdLock p" "nWrLock p' = nWrLock p"
      "e = 0 \<or> readonly p' = readonly p" "readonly p' = readonly p \<or> zFName p = None" "zFName p' = zFName p" "nRef p' = nRef p"
    using ok [OF p(1,4)] by blast
  have e: "e \<le> 4" using fs_invD [OF inv f] by blast
  have "local_ok p e p' e"
  proof (cases "readonly p' = readonly p")
    case True
    with local_same [OF p(2) f e] r show ?thesis by blast
  next
    case False
    then have "e = 0" "zFName p = None" using r by auto
    then have c: "cnt (holds a 0) (files s) = 1" using p(3) by (simp add: refs_ok_def)
    have "nWrLock p = 0"
    proof (rule ccontr)
      assume "nWrLock p \<noteq> 0"
      then have "0 < cnt (holds a 2) (files s)"
        using p(2) cnt_nonneg [of "holds a 2" "files s"] unfolding locks_ok_def by linarith
      then obtain i where i: "i < length (files s)" "holds a 2 (files s ! i)"
        by (auto simp: cnt_def filter_empty_conv in_set_conv_nth)
      have "i \<noteq> h" using i file_ofD [OF f] \<open>e = 0\<close> by auto
      moreover have "holds a 0 (files s ! i)" using i(2) by (auto simp: holds_def split: option.splits)
      ultimately have "2 \<le> cnt (holds a 0) (files s)"
        using cnt_two [of i "files s" h "holds a 0"] i file_ofD [OF f] by simp
      with c show False by simp
    qed
    with \<open>e = 0\<close> r show ?thesis by (simp add: local_ok_def)
  qed
  with r show "\<exists>r p' e'. f p e = Some (r, p', e') \<and> local_ok p e p' e' \<and> data_ok p'" by blast
qed

lemma data_ok_locks: "data_ok (p \<lparr> nRdLock := x, nWrLock := y \<rparr>) = data_ok p"
  by (simp add: data_ok_def resizeable_def)

lemma step_write:
  assumes inv: "fs_inv s" and f: "file_of s h = Some (a, e)" and e: "e = SQLITE_LOCK_EXCLUSIVE"
  shows "\<exists>r s'. mem_step env (OpWrite h z ofs) s = Some (r, s') \<and> fs_inv s'"
  unfolding mem_step.simps
proof (rule same_store_inv [OF inv f])
  fix p assume p: "data_ok p" "stores s a = Some p"
  have l: "locks_ok (files s) a p" using fs_inv_parts(4) [OF inv p(2)] by blast
  have "nWrLock p = 1" using holder_facts(4) [OF l f] e by simp
  then have "\<not> readonly p" using l by (simp add: locks_ok_def)
  moreover have "\<not> (resizeable p \<and> nMmap p > 0)" using p(1) by (auto simp: data_ok_def)
  ultimately have never: "\<not> write_never p (ofs + length z)"
    by (auto simp: write_never_def)
  obtain rc p' where w: "memdbWrite (me_fresh env) p z ofs = Some (rc, p')" "data_ok p'"
      "p' = p \<lparr> aData := aData p', szAlloc := szAlloc p', ms_sz := ms_sz p' \<rparr>"
    using memdbWrite_ok [OF p(1)] by blast
  have "nRdLock p' = nRdLock p \<and> nWrLock p' = nWrLock p \<and> readonly p' = readonly p \<and> zFName p' = zFName p \<and> nRef p' = nRef p"
    by (subst (1 2 3 4 5) w(3)) (simp add: readonly_def)
  with w(1,2) never show "\<exists>r p'. (if write_never p (ofs + length z) then None
      else map_option (\<lambda>(rc, p). ((rc, []), p, e)) (memdbWrite (me_fresh env) p z ofs)) = Some (r, p', e) \<and>
      data_ok p' \<and> nRdLock p' = nRdLock p \<and> nWrLock p' = nWrLock p \<and> (e = 0 \<or> readonly p' = readonly p) \<and>
      (readonly p' = readonly p \<or> zFName p = None) \<and> zFName p' = zFName p \<and> nRef p' = nRef p"
    by simp
qed

lemma step_lock:
  assumes inv: "fs_inv s" and f: "file_of s h = Some (a, e)" and k: "k \<le> 4" "1 < k \<longrightarrow> 1 \<le> e" "k = 3 \<longrightarrow> e \<noteq> 2"
  shows "\<exists>r s'. mem_step env (OpLock h k) s = Some (r, s') \<and> fs_inv s'"
  unfolding mem_step.simps
proof (rule on_store_inv [OF inv f])
  fix p assume p: "data_ok p" "locks_ok (files s) a p"
  have "e \<le> 4" using fs_invD [OF inv f] by blast
  with memdbLock_ok [OF p(2) f _ k] obtain rc p' e' where l: "memdbLock p e k = Some (rc, p', e')" "local_ok p e p' e'"
      "p' = p \<lparr> nRdLock := nRdLock p', nWrLock := nWrLock p' \<rparr>" by blast
  have "data_ok p'" by (subst l(3)) (simp add: data_ok_locks p(1))
  with l(1,2) show "\<exists>r p' e'. map_option (\<lambda>(rc, p, e). ((rc, []), p, e)) (memdbLock p e k) = Some (r, p', e') \<and>
      local_ok p e p' e' \<and> data_ok p'" by simp
qed

lemma step_unlock:
  assumes inv: "fs_inv s" and f: "file_of s h = Some (a, e)" and k: "k \<le> 1"
  shows "\<exists>r s'. mem_step env (OpUnlock h k) s = Some (r, s') \<and> fs_inv s'"
  unfolding mem_step.simps
proof (rule on_store_inv [OF inv f])
  fix p assume p: "data_ok p" "locks_ok (files s) a p"
  have "e \<le> 4" using fs_invD [OF inv f] by blast
  with memdbUnlock_ok [OF p(2) f _ k] obtain p' e' where l: "memdbUnlock p e k = Some (p', e')" "local_ok p e p' e'"
      "p' = p \<lparr> nRdLock := nRdLock p', nWrLock := nWrLock p' \<rparr>" by blast
  have "data_ok p'" by (subst l(3)) (simp add: data_ok_locks p(1))
  with l(1,2) show "\<exists>r p' e'. map_option (\<lambda>(p, e). ((SQLITE_OK, []), p, e)) (memdbUnlock p e k) = Some (r, p', e') \<and>
      local_ok p e p' e' \<and> data_ok p'" by simp
qed

lemmas store_defs = memdbTruncate_def memdbSizeLimit_def memdbFetch_def memdbUnfetch_def deserialize_fill_def
  data_ok_def resizeable_def readonly_def Let_def

lemma step_ok:
  assumes inv: "fs_inv s" and c: "caller_ok op s" and m: "me_max env < 2 ^ 62"
  shows "\<exists>r s'. mem_step env op s = Some (r, s') \<and> fs_inv s'"
proof (cases op)
  case (OpOpen h nm)
  with open_ok [OF inv _ _ m, of h "me_alloc env" nm] c show ?thesis by auto
next
  case (OpClose h)
  with close_ok [OF inv, of h] c show ?thesis by auto
next
  case (OpRead h n ofs)
  with c obtain a e where f: "file_of s h = Some (a, e)" by auto
  show ?thesis
    unfolding OpRead mem_step.simps
    by (rule same_store_inv [OF inv f]) (simp add: memdbRead_ok)
next
  case (OpWrite h z ofs)
  with c lock_of_pos [of s h] step_write [OF inv] show ?thesis by auto
next
  case (OpTruncate h n)
  with c lock_of_pos [of s h] obtain a where f: "file_of s h = Some (a, 4)" by auto
  show ?thesis
    unfolding OpTruncate mem_step.simps
    by (rule same_store_inv [OF inv f]) (auto simp: store_defs)
next
  case (OpLock h l)
  with c step_lock [OF inv, of h _ _ l env] show ?thesis by (auto simp: lock_of_file)
next
  case (OpUnlock h l)
  with c step_unlock [OF inv, of h _ _ l env] show ?thesis by auto
next
  case (OpLimit h l)
  with c obtain a e where f: "file_of s h = Some (a, e)" by auto
  have l: "l < 2 ^ 62" using OpLimit c by simp
  have d: "data_ok (fst (memdbSizeLimit p l))" if "data_ok p" for p
    using that l by (auto simp: store_defs)
  show ?thesis
    unfolding OpLimit mem_step.simps
    by (rule same_store_inv [OF inv f]) (auto simp: d, simp_all add: store_defs)
next
  case (OpFetch h n ofs)
  with c obtain a e where f: "file_of s h = Some (a, e)" by auto
  show ?thesis
    unfolding OpFetch mem_step.simps
    by (rule same_store_inv [OF inv f]) (auto simp: store_defs)
next
  case (OpUnfetch h)
  with c obtain p0 where p0: "store_of s h = Some p0" "0 < nMmap p0" by (auto split: option.splits)
  then obtain a e where f: "file_of s h = Some (a, e)" "stores s a = Some p0" using store_of_Some by blast
  show ?thesis
    unfolding OpUnfetch mem_step.simps
    by (rule same_store_inv [OF inv f(1)]) (use f(2) p0(2) in \<open>auto simp: store_defs\<close>)
next
  case (OpLoad h z n flags)
  with c obtain p0 where p0: "store_of s h = Some p0" "zFName p0 = None" "nMmap p0 = 0" "lock_of s h = 0"
      "n \<le> length z" "length z < 2 ^ 62" by (auto split: option.splits)
  then obtain a where f: "file_of s h = Some (a, 0)" "stores s a = Some p0" using store_of_Some by force
  show ?thesis
    unfolding OpLoad mem_step.simps
    by (rule same_store_inv [OF inv f(1)]) (use f(2) p0 m in \<open>auto simp: store_defs\<close>)
qed

lemma reach_inv: "mem_reach s \<Longrightarrow> fs_inv s"
proof (induction rule: mem_reach.induct)
  case (step s op env r s')
  with step_ok [OF step.IH step.hyps(2,3)] show ?case by auto
qed (rule fs_inv_init)

section \<open>Isolation\<close>

fun op_handle :: "memop \<Rightarrow> nat" where
  "op_handle (OpOpen h _) = h"
| "op_handle (OpClose h) = h"
| "op_handle (OpRead h _ _) = h"
| "op_handle (OpWrite h _ _) = h"
| "op_handle (OpTruncate h _) = h"
| "op_handle (OpLock h _) = h"
| "op_handle (OpUnlock h _) = h"
| "op_handle (OpLimit h _) = h"
| "op_handle (OpFetch h _ _) = h"
| "op_handle (OpUnfetch h) = h"
| "op_handle (OpLoad h _ _ _) = h"

lemma two_files:
  assumes inv: "fs_inv s" and f: "file_of s h = Some (a, e)" "file_of s k = Some (a, e')" "h \<noteq> k" and p: "stores s a = Some p"
  shows "zFName p \<noteq> None" "1 < nRef p" "1 \<le> e \<Longrightarrow> e' \<noteq> 4" "1 \<le> e \<Longrightarrow> 2 \<le> e' \<Longrightarrow> e = 1"
proof -
  have h: "h < length (files s)" "files s ! h = Some (a, e)" and k: "k < length (files s)" "files s ! k = Some (a, e')"
    using file_ofD f(1,2) by blast+
  have l: "locks_ok (files s) a p" and r: "refs_ok (files s) a p" using fs_inv_parts(4) [OF inv p] by auto
  have two: "2 \<le> cnt (holds a n) (files s)" if "n \<le> e" "n \<le> e'" for n
    using cnt_two [of h "files s" k "holds a n"] h k f(3) that by simp
  show "zFName p \<noteq> None" "1 < nRef p" using r two [of 0] by (auto simp: refs_ok_def split: if_splits)
  show "e' \<noteq> 4" if "1 \<le> e"
    using two [of 1] that l holder_facts(5) [OF l f(2)] by (auto simp: locks_ok_def)
  show "e = 1" if "1 \<le> e" "2 \<le> e'"
  proof (rule ccontr)
    assume "e \<noteq> 1"
    with two [of 2] that l show False by (auto simp: locks_ok_def)
  qed
qed

text \<open>The other file of a step, and its store as the step leaves it.\<close>

lemma on_store_other:
  assumes inv: "fs_inv s" and st: "on_store k f s = Some (r, s')" and h: "file_of s h = Some (a, e)" "h \<noteq> k"
    and same: "\<And>p ek r p' e'. file_of s k = Some (a, ek) \<Longrightarrow> stores s a = Some p \<Longrightarrow>
      f p ek = Some (r, p', e') \<Longrightarrow> mem_content p' = mem_content p"
  shows "file_of s' h = Some (a, e) \<and> map_option mem_content (stores s' a) = map_option mem_content (stores s a)"
proof -
  obtain b ek p p' e' where k: "rd (files s) k = Some (Some (b, ek))" "stores s b = Some p" "f p ek = Some (r, p', e')"
      "s' = s \<lparr> stores := (stores s)(b \<mapsto> p'), files := (files s)[k := Some (b, e')] \<rparr>"
    using st by (auto simp: on_store_def bind_eq_Some_conv split: option.splits)
  have "file_of s k = Some (b, ek)" using k(1) by (auto simp: file_of_def rd_eq_Some)
  with same [of ek p r p' e'] k h show ?thesis by (auto simp: file_of_upd)
qed

lemma step_isolated:
  assumes inv: "fs_inv s" and c: "caller_ok op s" and st: "mem_step env op s = Some (r, s')"
    and h: "file_of s h = Some (a, e)" "h \<noteq> op_handle op" "1 \<le> e"
  shows "file_of s' h = Some (a, e) \<and> map_option mem_content (stores s' a) = map_option mem_content (stores s a)"
proof -
  obtain p where p: "stores s a = Some p" using fs_invD [OF inv h(1)] by blast
  note two = two_files [OF inv h(1) _ h(2) p]
  have excl: False if "op_handle op = k" "lock_of s k = 4" "file_of s k = Some (a, ek)" for k ek
    using that two(3) [of ek] h(3) lock_of_file [of s k a ek] by auto
  show ?thesis
  proof (cases op)
    case (OpOpen k nm)
    with c have k: "k < length (files s)" "files s ! k = None" by (auto simp: file_of_def)
    have "a \<noteq> next_store s" using fs_inv_parts(4) [OF inv p] by auto
    with OpOpen st h k p show ?thesis
      by (auto simp: memdbOpen_def file_of_upd Let_def mem_content_def split: if_splits option.splits)
  next
    case (OpClose k)
    with c obtain b where k: "file_of s k = Some (b, 0)" by (auto simp: lock_of_def)
    note kk = file_ofD [OF k]
    show ?thesis
    proof (cases "b = a")
      case True
      then have "1 < nRef p" using two(2) [of 0] k OpClose by simp
      with True OpClose st h kk p show ?thesis
        by (auto simp: memdbClose_def rd_Some file_of_upd Let_def mem_content_def split: if_splits)
    next
      case False
      obtain q where "stores s b = Some q" using fs_invD [OF inv k] by blast
      with False OpClose st h kk p show ?thesis
        by (auto simp: memdbClose_def rd_Some file_of_upd Let_def mem_content_def split: if_splits)
    qed
  next
    case (OpRead k n ofs)
    with st show ?thesis by (intro on_store_other [OF inv _ h(1)]) (use h in \<open>auto\<close>)
  next
    case (OpWrite k z ofs)
    with st c h excl [of k] show ?thesis by (intro on_store_other [OF inv _ h(1), of k]) auto
  next
    case (OpTruncate k n)
    with st c h excl [of k] show ?thesis by (intro on_store_other [OF inv _ h(1), of k]) auto
  next
    case (OpLock k l)
    have same: "mem_content p' = mem_content q" if q: "file_of s k = Some (a, ek)" "stores s a = Some q"
        "memdbLock q ek l = Some (rc, p', e')" for ek q rc p' e'
    proof -
      have l: "locks_ok (files s) a q" using fs_inv_parts(4) [OF inv q(2)] by simp
      have "ek \<le> 4" using fs_invD [OF inv q(1)] by blast
      with memdbLock_ok [OF l q(1), of l] c OpLock q(1,3) have "p' = q \<lparr> nRdLock := nRdLock p', nWrLock := nWrLock p' \<rparr>"
        by (auto simp: lock_of_file)
      then show ?thesis by (metis memstore.surjective memstore.simps(1,4) mem_content_def memstore.update_convs(7,8))
    qed
    show ?thesis
      using st OpLock h same by (intro on_store_other [OF inv _ h(1), of k]) auto
  next
    case (OpUnlock k l)
    have same: "mem_content p' = mem_content q" if "memdbUnlock q ek l = Some (p', e')" for ek q p' e'
      using that by (auto simp: memdbUnlock_def mem_content_def Let_def split: if_splits)
    show ?thesis
      using st OpUnlock h same by (intro on_store_other [OF inv _ h(1), of k]) auto
  next
    case (OpLimit k l)
    with st h show ?thesis
      by (intro on_store_other [OF inv _ h(1), of k]) (auto simp: memdbSizeLimit_def mem_content_def Let_def)
  next
    case (OpFetch k n ofs)
    with st h show ?thesis
      by (intro on_store_other [OF inv _ h(1), of k]) (auto simp: memdbFetch_def mem_content_def)
  next
    case (OpUnfetch k)
    with st h show ?thesis
      by (intro on_store_other [OF inv _ h(1), of k]) (auto simp: memdbUnfetch_def mem_content_def)
  next
    case (OpLoad k z n flags)
    have False if "file_of s k = Some (a, ek)" for ek
      using two(1) [of ek] that c p OpLoad h(2) by (auto simp: store_of_file)
    with OpLoad st h show ?thesis by (intro on_store_other [OF inv _ h(1), of k]) auto
  qed
qed

section \<open>A store as a journal file\<close>

definition ms_read :: "memstore \<Rightarrow> nat \<Rightarrow> nat \<Rightarrow> (u8 list \<times> memstore) option" where
  "ms_read p n ofs = map_option (\<lambda>(rc, z). (z, p)) (memdbRead p n ofs)"

definition ms_append :: "(nat \<Rightarrow> u8) \<Rightarrow> memstore \<Rightarrow> u8 list \<Rightarrow> nat \<Rightarrow> memstore option" where
  "ms_append junk p z ofs =
     (case memdbWrite (Some junk) p z ofs of
        Some (rc, p') \<Rightarrow> (if rc = SQLITE_OK then Some p' else None) | None \<Rightarrow> None)"

definition ms_growing :: "memstore \<Rightarrow> bool" where
  "ms_growing p \<longleftrightarrow> data_ok p \<and> resizeable p \<and> \<not> readonly p"

lemma write_grows:
  assumes "ms_growing p" "ofs + length z \<le> szMax p"
  shows "\<exists>p'. memdbWrite (Some junk) p z ofs = Some (SQLITE_OK, p')"
proof -
  have d: "data_ok p" "resizeable p" "nMmap p = 0" "\<not> readonly p"
    using assms(1) by (auto simp: ms_growing_def data_ok_def)
  obtain rc p' where w: "memdbWrite (Some junk) p z ofs = Some (rc, p')" using memdbWrite_ok [OF d(1)] by blast
  have "rc = SQLITE_OK"
    using w assms(2) d
    by (auto simp: memdbWrite_def memdbEnlarge_def data_ok_def Let_def bind_eq_Some_conv split: if_splits)
  with w show ?thesis by simp
qed

interpretation memdb: journal_file ms_read "ms_append junk" ms_growing mem_content szMax for junk
proof
  fix p n ofs assume p: "ms_growing p" "0 < n" "ofs + n \<le> length (mem_content p)"
  then have "memdbRead p n ofs = Some (SQLITE_OK, file_read (mem_content p) ofs n)"
    using memdbRead_ok [of p n ofs] by (simp add: ms_growing_def length_mem_content)
  with p show "\<exists>s'. ms_read p n ofs = Some (take n (drop ofs (mem_content p)), s') \<and> ms_growing s' \<and> mem_content s' = mem_content p"
    by (simp add: ms_read_def file_read_def Let_def)
next
  fix p :: memstore and z :: "u8 list"
  assume p: "ms_growing p" "z \<noteq> []" "length (mem_content p) + length z \<le> szMax p"
  obtain rc p' where w: "memdbWrite (Some junk) p z (length (mem_content p)) = Some (rc, p')" "data_ok p'"
      "p' = p \<lparr> aData := aData p', szAlloc := szAlloc p', ms_sz := ms_sz p' \<rparr>"
      "mem_content p' = (if rc = SQLITE_OK then file_write (mem_content p) (length (mem_content p)) z else mem_content p)"
    using memdbWrite_ok [of p "Some junk" z "length (mem_content p)"] p(1) unfolding ms_growing_def by blast
  have "rc = SQLITE_OK" using write_grows [OF p(1,3), of junk] w(1) by simp
  moreover have "resizeable p' = resizeable p" "readonly p' = readonly p" "szMax p' = szMax p"
    by (subst w(3), simp add: resizeable_def readonly_def)+
  ultimately show "\<exists>s'. ms_append junk p z (length (mem_content p)) = Some s' \<and> ms_growing s' \<and>
      mem_content s' = mem_content p @ z \<and> szMax s' = szMax p"
    using w p(1) by (auto simp: ms_append_def ms_growing_def file_write_end)
qed

section \<open>Properties\<close>

text \<open>Runs from the initial state, for concrete examples.\<close>

fun mem_run :: "mem_env \<Rightarrow> memop list \<Rightarrow> memfs \<Rightarrow> memfs option" where
  "mem_run env [] s = Some s"
| "mem_run env (op # ops) s =
     (if caller_ok op s then (case mem_step env op s of None \<Rightarrow> None | Some (_, s') \<Rightarrow> mem_run env ops s') else None)"

lemma mem_run_reach: "mem_reach s \<Longrightarrow> me_max env < 2 ^ 62 \<Longrightarrow> mem_run env ops s = Some s' \<Longrightarrow> mem_reach s'"
proof (induction ops arbitrary: s)
  case (Cons op ops)
  then obtain r s1 where s1: "caller_ok op s" "mem_step env op s = Some (r, s1)" "mem_run env ops s1 = Some s'"
    by (auto split: if_splits option.splits)
  have "mem_reach s1" by (rule mem_reach.step [OF Cons.prems(1) s1(1) Cons.prems(2) s1(2)])
  then show ?case by (rule Cons.IH [OF _ Cons.prems(2) s1(3)])
qed simp

definition demo_env :: mem_env where
  "demo_env = \<lparr> me_alloc = (\<lambda>_. True), me_fresh = Some (\<lambda>_. 0), me_max = 1000 \<rparr>"

lemmas mem_eval = demo_env_def mem_init_def file_of_def lock_of_def memdbOpen_def shared_name_def new_store_def
  on_store_def rd_Some memdbLock_def readonly_def Let_def


text \<open>
  C10: Isolation. While a connection holds a shared lock or more on a store, no step of another
  connection changes the content of the store or its lock, nor frees the store.
\<close>

theorem memdb_isolation:
  assumes "mem_reach s" "caller_ok op s" "mem_step env op s = Some (r, s')"
    and "h \<noteq> op_handle op" "SQLITE_LOCK_SHARED \<le> lock_of s h"
  shows "lock_of s' h = lock_of s h \<and>
    map_option mem_content (store_of s' h) = map_option mem_content (store_of s h) \<and> store_of s h \<noteq> None"
proof -
  note inv = reach_inv [OF assms(1)]
  obtain a where h: "file_of s h = Some (a, lock_of s h)" using lock_of_pos [of s h] assms(5) by auto
  obtain p where p: "stores s a = Some p" using fs_invD [OF inv h] by blast
  have "file_of s' h = Some (a, lock_of s h)"
      "map_option mem_content (stores s' a) = map_option mem_content (stores s a)"
    using step_isolated [OF inv assms(2,3) h assms(4,5)] by blast+
  then show ?thesis
    using p unfolding store_of_file [OF h] by (simp add: lock_of_file store_of_file)
qed

lemma case_option_ex: "(case x of None \<Rightarrow> False | Some s \<Rightarrow> P s) \<Longrightarrow> \<exists>s. x = Some s \<and> P s"
  by (cases x) auto

lemma memdb_demo:
  "case mem_run demo_env [OpOpen 0 (Some [47, 97]), OpOpen 1 (Some [47, 97]), OpLock 0 1] (mem_init 2) of
      None \<Rightarrow> False | Some s \<Rightarrow> lock_of s 0 = 1 \<and> caller_ok (OpLock 1 1) s"
  by code_simp


lemma memdb_isolation_witness:
  "\<exists>s s' r. mem_run demo_env [OpOpen 0 (Some [47, 97]), OpOpen 1 (Some [47, 97]), OpLock 0 1] (mem_init 2) = Some s \<and>
    mem_step demo_env (OpLock 1 1) s = Some (r, s') \<and> lock_of s' 0 = 1"
proof -
  let ?nm = "Some [47, 97]"
  obtain s where s: "mem_run demo_env [OpOpen 0 ?nm, OpOpen 1 ?nm, OpLock 0 1] (mem_init 2) = Some s"
      "lock_of s 0 = 1" "caller_ok (OpLock 1 1) s"
    using case_option_ex [OF memdb_demo] by blast
  have max: "me_max demo_env < 2 ^ 62" by (simp add: demo_env_def)
  have reach: "mem_reach s" by (rule mem_run_reach [OF mem_reach.init max s(1)])
  obtain r s' where st: "mem_step demo_env (OpLock 1 1) s = Some (r, s')"
    using step_ok [OF reach_inv [OF reach] s(3) max] by blast
  with memdb_isolation [OF reach s(3) st, of 0] s show ?thesis by (intro exI [of _ s] exI [of _ s'] exI [of _ r]) (simp del: mem_run.simps mem_step.simps)
qed

text \<open>
  C22: The lock table. Of two files open on the same store, if one holds the exclusive lock the
  other holds none, and if one holds a reserved lock or more the other holds at most a shared one.
  A store is live exactly as long as some file is open on it, and shared stores of the same name
  are the same store.
\<close>

theorem memdb_locks:
  assumes "mem_reach s"
  shows "(file_of s h = Some (a, e) \<and> file_of s k = Some (a, e') \<and> h \<noteq> k \<longrightarrow>
      (e = SQLITE_LOCK_EXCLUSIVE \<longrightarrow> e' = SQLITE_LOCK_NONE) \<and> (SQLITE_LOCK_RESERVED \<le> e \<longrightarrow> e' \<le> SQLITE_LOCK_SHARED)) \<and>
    (stores s a \<noteq> None \<longleftrightarrow> (\<exists>h e. file_of s h = Some (a, e))) \<and>
    (stores s a = Some p \<and> stores s b = Some q \<and> zFName p = zFName q \<and> zFName p \<noteq> None \<longrightarrow> a = b)"
proof (intro conjI)
  note inv = reach_inv [OF assms]
  show "file_of s h = Some (a, e) \<and> file_of s k = Some (a, e') \<and> h \<noteq> k \<longrightarrow>
      (e = SQLITE_LOCK_EXCLUSIVE \<longrightarrow> e' = SQLITE_LOCK_NONE) \<and> (SQLITE_LOCK_RESERVED \<le> e \<longrightarrow> e' \<le> SQLITE_LOCK_SHARED)"
  proof
    assume f: "file_of s h = Some (a, e) \<and> file_of s k = Some (a, e') \<and> h \<noteq> k"
    then obtain p where p: "stores s a = Some p" using fs_invD [OF inv] by blast
    with two_files [OF inv, of k a e' h e] two_files [OF inv, of h a e k e'] f
    show "(e = SQLITE_LOCK_EXCLUSIVE \<longrightarrow> e' = SQLITE_LOCK_NONE) \<and> (SQLITE_LOCK_RESERVED \<le> e \<longrightarrow> e' \<le> SQLITE_LOCK_SHARED)"
      by force
  qed
  show "stores s a \<noteq> None \<longleftrightarrow> (\<exists>h e. file_of s h = Some (a, e))"
  proof
    assume "stores s a \<noteq> None"
    then have "0 < cnt (holds a 0) (files s)" using fs_inv_parts(4) [OF inv, of a] by (auto simp: refs_ok_def)
    then obtain i where "i < length (files s)" "holds a 0 (files s ! i)"
      by (auto simp: cnt_def filter_empty_conv in_set_conv_nth)
    then have "\<exists>e. file_of s i = Some (a, e)"
      by (auto simp: file_of_def holds_def split: option.splits)
    then show "\<exists>h e. file_of s h = Some (a, e)" by blast
  qed (use fs_inv_parts(5) [OF inv] in blast)
  show "stores s a = Some p \<and> stores s b = Some q \<and> zFName p = zFName q \<and> zFName p \<noteq> None \<longrightarrow> a = b"
  proof
    assume *: "stores s a = Some p \<and> stores s b = Some q \<and> zFName p = zFName q \<and> zFName p \<noteq> None"
    then have "a \<in> set (apMemStore s)" "b \<in> set (apMemStore s)" using fs_inv_parts(2) [OF inv] by metis+
    with inj_onD [OF fs_inv_parts(3) [OF inv]] * show "a = b" by simp
  qed
qed

definition demo_ops :: "memop list" where
  "demo_ops = [OpOpen 0 (Some [47, 97]), OpOpen 1 (Some [47, 97]), OpOpen 2 (Some [47, 98]), OpLock 0 1,
     OpLock 1 1, OpLock 0 2, OpUnlock 1 0, OpLock 0 4, OpUnlock 0 1, OpLock 1 1, OpLock 0 2]"

lemma memdb_locks_demo:
  "case mem_run demo_env demo_ops (mem_init 3) of None \<Rightarrow> False
   | Some s \<Rightarrow> file_of s 0 = Some (0, SQLITE_LOCK_RESERVED) \<and> file_of s 1 = Some (0, SQLITE_LOCK_SHARED) \<and>
       file_of s 2 = Some (1, SQLITE_LOCK_NONE) \<and> (stores s 0 \<bind> zFName) = Some [47, 97]"
  by code_simp

lemma memdb_locks_witness:
  "\<exists>s p. mem_run demo_env demo_ops (mem_init 3) = Some s \<and> mem_reach s \<and>
    file_of s 0 = Some (0, SQLITE_LOCK_RESERVED) \<and> file_of s 1 = Some (0, SQLITE_LOCK_SHARED) \<and>
    stores s 0 = Some p \<and> zFName p = Some [47, 97] \<and>
    (\<forall>b q. stores s b = Some q \<and> zFName q = Some [47, 97] \<longrightarrow> b = 0)"
proof -
  obtain s where s: "mem_run demo_env demo_ops (mem_init 3) = Some s"
      "file_of s 0 = Some (0, 2)" "file_of s 1 = Some (0, 1)" "(stores s 0 \<bind> zFName) = Some [47, 97]"
    using case_option_ex [OF memdb_locks_demo] by blast
  have reach: "mem_reach s"
    by (rule mem_run_reach [OF mem_reach.init _ s(1)]) (simp add: demo_env_def)
  obtain p where p: "stores s 0 = Some p" "zFName p = Some [47, 97]"
    using s(4) by (cases "stores s 0") auto
  have "b = 0" if "stores s b = Some q" "zFName q = Some [47, 97]" for b q
    using memdb_locks [OF reach, of 0 0 2 1 1 p b q] that p by simp
  moreover have "(1::nat) \<le> SQLITE_LOCK_SHARED"
    using memdb_locks [OF reach, of 0 0 2 1 1 p 0 p] s(2,3) by simp
  ultimately show ?thesis
    using s reach p by blast
qed

text \<open>
  C27: A write to a store is a file write (the gap reads as zeros), or an error that leaves the
  content as it was; a read gives the bytes of the file, zeros beyond its end, and the code tells
  whether it was short.
\<close>

theorem memdb_read_write:
  assumes "data_ok p"
  shows "\<exists>rc p'. memdbWrite fresh p z ofs = Some (rc, p') \<and> data_ok p' \<and>
    mem_content p' = (if rc = SQLITE_OK then file_write (mem_content p) ofs z else mem_content p) \<and>
    memdbRead p' n ofs' = Some (if ofs' + n > length (mem_content p') then SQLITE_IOERR_SHORT_READ else SQLITE_OK,
      file_read (mem_content p') ofs' n)"
proof -
  obtain rc p' where w: "memdbWrite fresh p z ofs = Some (rc, p')" "data_ok p'"
      "mem_content p' = (if rc = SQLITE_OK then file_write (mem_content p) ofs z else mem_content p)"
    using memdbWrite_ok [OF assms] by blast
  with memdbRead_ok [OF w(2)] length_mem_content [OF w(2)] show ?thesis by auto
qed

lemma memdb_read_write_witness:
  "\<exists>rc p'. memdbWrite (Some (\<lambda>_. 7)) (new_store 100) [1, 2] 3 = Some (rc, p') \<and>
    mem_content p' = (if rc = SQLITE_OK then [0, 0, 0, 1, 2] else [])"
proof -
  have "data_ok (new_store 100)" by (simp add: data_ok_def new_store_def)
  moreover have "mem_content (new_store 100) = []" by (simp add: mem_content_def new_store_def)
  moreover have "file_write [] 3 [1, 2] = [0, 0, 0, 1, 2]" by (simp add: file_write_def eval_nat_numeral)
  ultimately show ?thesis using memdb_read_write [of "new_store 100" "Some (\<lambda>_. 7)" "[1, 2]" 3] by metis
qed

text \<open>
  C40: The size limit is not an upper bound on the size of the database. Setting a limit of at
  least the present size is honoured and reported. A later write of a writable store that ends
  beyond the limit still succeeds exactly when it ends within the buffer as it was allocated
  before: \<open>memdbWrite\<close> compares with \<open>szMax\<close> only when the buffer must grow. The size then
  exceeds the limit; otherwise the content stays as it was.
\<close>

theorem memdb_limit_exceeded:
  assumes "data_ok p" "\<not> readonly p" "ms_sz p \<le> l" "l < 2 ^ 62" "l < ofs + length z"
  shows "\<exists>p1 rc p2. memdbSizeLimit p (int l) = (p1, l) \<and> memdbWrite fresh p1 z ofs = Some (rc, p2) \<and>
    (rc = SQLITE_OK \<longleftrightarrow> ofs + length z \<le> szAlloc p) \<and> szMax p2 = l \<and>
    (if rc = SQLITE_OK then memdbFileSize p2 = ofs + length z \<and> l < memdbFileSize p2
     else mem_content p2 = mem_content p)"
proof -
  define p1 where "p1 = p\<lparr>szMax := l\<rparr>"
  have lim: "memdbSizeLimit p (int l) = (p1, l)"
    using assms(3) by (simp add: memdbSizeLimit_def p1_def)
  have ok: "data_ok p1" using assms(1,4) by (simp add: p1_def data_ok_def resizeable_def)
  have same: "mem_content p1 = mem_content p" "szAlloc p1 = szAlloc p" "ms_sz p1 = ms_sz p" "szMax p1 = l"
    "readonly p1 = readonly p"
    by (simp_all add: p1_def mem_content_def readonly_def)
  obtain rc p2 where w: "memdbWrite fresh p1 z ofs = Some (rc, p2)" "data_ok p2"
      "p2 = p1\<lparr>aData := aData p2, szAlloc := szAlloc p2, ms_sz := ms_sz p2\<rparr>"
      "mem_content p2 = (if rc = SQLITE_OK then file_write (mem_content p1) ofs z else mem_content p1)"
    using memdbWrite_ok [OF ok] by blast
  have mx: "szMax p2 = l" by (subst w(3)) (simp add: same(4))
  have rc: "rc = SQLITE_OK \<longleftrightarrow> ofs + length z \<le> szAlloc p"
    using memdbWrite_code [OF ok, of ofs z fresh rc p2] w(1) assms(2,3,5) same by simp
  have "memdbFileSize p2 = ofs + length z" if "rc = SQLITE_OK"
  proof -
    have "memdbFileSize p2 = length (mem_content p2)"
      using length_mem_content [OF w(2)] by (simp add: memdbFileSize_def)
    moreover have "length (mem_content p1) = ms_sz p" using length_mem_content [OF ok] same(3) by simp
    ultimately show ?thesis
      using that w(4) assms(3,5) by (simp add: file_write_def)
  qed
  then show ?thesis
    using lim w(1,4) mx rc assms(5) same(1)
    by (intro exI [of _ p1] exI [of _ rc] exI [of _ p2]) auto
qed

text \<open>Six bytes are written, the limit is set to six, and six more bytes go in.\<close>

definition limited_store :: memstore where
  "limited_store = (new_store 100)\<lparr>aData := [1, 2, 3, 4, 5, 6, 0, 0, 0, 0, 0, 0], szAlloc := 12, ms_sz := 6\<rparr>"

theorem memdb_limit_exceeded_witness:
  "memdbWrite (Some (\<lambda>_. 0)) (new_store 100) [1, 2, 3, 4, 5, 6] 0 = Some (SQLITE_OK, limited_store) \<and>
   (\<exists>p1 rc p2. memdbSizeLimit limited_store 6 = (p1, 6) \<and>
     memdbWrite None p1 [1, 2, 3, 4, 5, 6] 6 = Some (rc, p2) \<and> rc = SQLITE_OK \<and> szMax p2 = 6 \<and> memdbFileSize p2 = 12)"
proof
  show "memdbWrite (Some (\<lambda>_. 0)) (new_store 100) [1, 2, 3, 4, 5, 6] 0 = Some (SQLITE_OK, limited_store)"
    by (simp add: memdbWrite_def memdbEnlarge_def new_store_def readonly_def limited_store_def
      resizeable_def realloc_def wr_bytes_def upt_rec)
  have "data_ok limited_store" "\<not> readonly limited_store"
    by (simp_all add: data_ok_def limited_store_def new_store_def resizeable_def readonly_def)
  from memdb_limit_exceeded [OF this, of 6 6 "[1, 2, 3, 4, 5, 6]" None]
  show "\<exists>p1 rc p2. memdbSizeLimit limited_store 6 = (p1, 6) \<and>
     memdbWrite None p1 [1, 2, 3, 4, 5, 6] 6 = Some (rc, p2) \<and> rc = SQLITE_OK \<and> szMax p2 = 6 \<and> memdbFileSize p2 = 12"
    by (force simp: limited_store_def)
qed

end
