(* ===== verification/Utf.thy ===== *)
theory Utf
  imports UtilText
begin

text \<open>
  Unicode text in \<^verbatim>\<open>src/utf.c\<close>: \<open>sqlite3Utf8Read\<close>, \<open>sqlite3Utf8ReadLimited\<close>, the macros
  \<open>READ_UTF8\<close>, \<open>WRITE_UTF8\<close>, \<open>WRITE_UTF16LE\<close> and \<open>WRITE_UTF16BE\<close>, \<open>sqlite3VdbeMemTranslate\<close>,
  \<open>sqlite3VdbeMemHandleBom\<close> and \<open>sqlite3Utf8CharLen\<close>. A byte is a number below 256; the 32-bit
  character is a number, its shifts and masks are written with \<open>*\<close>, \<open>div\<close> and \<open>mod\<close>, and a shift
  to the left is reduced modulo \<open>2 ^ 32\<close>.
\<close>

section \<open>Reading\<close>

definition sqlite3Utf8Trans1 :: "nat list" where
  "sqlite3Utf8Trans1 =
    [0x00, 0x01, 0x02, 0x03, 0x04, 0x05, 0x06, 0x07,
     0x08, 0x09, 0x0a, 0x0b, 0x0c, 0x0d, 0x0e, 0x0f,
     0x10, 0x11, 0x12, 0x13, 0x14, 0x15, 0x16, 0x17,
     0x18, 0x19, 0x1a, 0x1b, 0x1c, 0x1d, 0x1e, 0x1f,
     0x00, 0x01, 0x02, 0x03, 0x04, 0x05, 0x06, 0x07,
     0x08, 0x09, 0x0a, 0x0b, 0x0c, 0x0d, 0x0e, 0x0f,
     0x00, 0x01, 0x02, 0x03, 0x04, 0x05, 0x06, 0x07,
     0x00, 0x01, 0x02, 0x03, 0x00, 0x01, 0x00, 0x00]"

text \<open>\<open>(b & 0xc0) == 0x80\<close>\<close>

definition is_cont :: "nat \<Rightarrow> bool" where
  "is_cont b \<longleftrightarrow> 0x80 \<le> b \<and> b < 0xc0"

definition utf8_add :: "nat \<Rightarrow> nat \<Rightarrow> nat" where
  "utf8_add c b = (c * 64 + b mod 64) mod 2 ^ 32"

definition utf8_check :: "nat \<Rightarrow> nat" where
  "utf8_check c = (if c < 0x80 \<or> c div 0x800 = 27 \<or> c div 2 = 0x7fff then 0xFFFD else c)"

text \<open>Zero-terminated text, with its terminator in the list: running off the end is undefined.\<close>

fun utf8_more :: "nat \<Rightarrow> nat list \<Rightarrow> (nat \<times> nat list) option" where
  "utf8_more c [] = None"
| "utf8_more c (b # z) = (if is_cont b then utf8_more (utf8_add c b) z else Some (c, b # z))"

definition sqlite3Utf8Read :: "nat list \<Rightarrow> (nat \<times> nat list) option" where
  "sqlite3Utf8Read z =
     (case z of
        [] \<Rightarrow> None
      | c # z \<Rightarrow>
          (if c \<ge> 0xc0 then
             do { c \<leftarrow> rd sqlite3Utf8Trans1 (c - 0xc0); (c, z) \<leftarrow> utf8_more c z; Some (utf8_check c, z) }
           else Some (c, z)))"

text \<open>\<open>READ_UTF8\<close>: the text ends where the list ends.\<close>

fun utf8_more_term :: "nat \<Rightarrow> nat list \<Rightarrow> nat \<times> nat list" where
  "utf8_more_term c [] = (c, [])"
| "utf8_more_term c (b # z) = (if is_cont b then utf8_more_term (utf8_add c b) z else (c, b # z))"

definition READ_UTF8 :: "nat list \<Rightarrow> (nat \<times> nat list) option" where
  "READ_UTF8 z =
     (case z of
        [] \<Rightarrow> None
      | c # z \<Rightarrow>
          (if c \<ge> 0xc0 then
             do { c \<leftarrow> rd sqlite3Utf8Trans1 (c - 0xc0);
                  let (c, z) = utf8_more_term c z in Some (utf8_check c, z) }
           else Some (c, z)))"

fun utf8_limited :: "nat \<Rightarrow> nat list \<Rightarrow> nat \<Rightarrow> nat \<Rightarrow> nat \<times> nat" where
  "utf8_limited c z i 0 = (c, i)"
| "utf8_limited c z i (Suc k) =
     (if i < length z \<and> is_cont (z ! i) then utf8_limited (utf8_add c (z ! i)) z (Suc i) k else (c, i))"

text \<open>\<open>z\<close> is the buffer of \<open>n\<close> bytes; the result is the character and the number of bytes used.\<close>

definition sqlite3Utf8ReadLimited :: "nat list \<Rightarrow> (nat \<times> nat) option" where
  "sqlite3Utf8ReadLimited z =
     (case z of
        [] \<Rightarrow> None
      | c # _ \<Rightarrow>
          (if c \<ge> 0xc0 then
             map_option (\<lambda>c. utf8_limited c z 1 (min (length z) 4 - 1)) (rd sqlite3Utf8Trans1 (c - 0xc0))
           else Some (c, 1)))"

section \<open>Writing\<close>

definition WRITE_UTF8 :: "nat \<Rightarrow> nat list" where
  "WRITE_UTF8 c =
     (if c < 0x80 then [c mod 256]
      else if c < 0x800 then [0xC0 + c div 64 mod 32, 0x80 + c mod 64]
      else if c < 0x10000 then [0xE0 + c div 4096 mod 16, 0x80 + c div 64 mod 64, 0x80 + c mod 64]
      else [0xF0 + c div 262144 mod 8, 0x80 + c div 4096 mod 64, 0x80 + c div 64 mod 64, 0x80 + c mod 64])"

text \<open>
  \<open>((c>>10)&0x003F) + (((c-0x10000)>>10)&0x00C0)\<close>, and \<open>0xD8 + (((c-0x10000)>>18)&0x03)\<close>; the
  mask \<open>0xC0\<close> keeps the two bits above the lowest six.
\<close>

definition utf16_lead_lo :: "nat \<Rightarrow> nat" where
  "utf16_lead_lo c = c div 1024 mod 64 + (c - 0x10000) div 1024 div 64 mod 4 * 64"

definition utf16_lead_hi :: "nat \<Rightarrow> nat" where
  "utf16_lead_hi c = 0xD8 + (c - 0x10000) div 262144 mod 4"

definition WRITE_UTF16LE :: "nat \<Rightarrow> nat list" where
  "WRITE_UTF16LE c =
     (if c \<le> 0xFFFF then [c mod 256, c div 256 mod 256]
      else [utf16_lead_lo c, utf16_lead_hi c, c mod 256, 0xDC + c div 256 mod 4])"

definition WRITE_UTF16BE :: "nat \<Rightarrow> nat list" where
  "WRITE_UTF16BE c =
     (if c \<le> 0xFFFF then [c div 256 mod 256, c mod 256]
      else [utf16_lead_hi c, utf16_lead_lo c, 0xDC + c div 256 mod 4, c mod 256])"

section \<open>Translation\<close>

lemma utf8_more_term_le: "length (snd (utf8_more_term c z)) \<le> length z"
  by (induction c z rule: utf8_more_term.induct) auto

lemma READ_UTF8_less: "READ_UTF8 z = Some (c, r) \<Longrightarrow> length r < length z"
proof (cases z)
  case (Cons b y)
  assume r: "READ_UTF8 z = Some (c, r)"
  show ?thesis
  proof (cases "b \<ge> 0xc0")
    case True
    with r Cons obtain c0 where "r = snd (utf8_more_term c0 y)"
      by (auto simp: READ_UTF8_def bind_eq_Some_conv Let_def case_prod_unfold)
    with utf8_more_term_le [of c0 y] Cons show ?thesis by simp
  qed (use r Cons in \<open>simp add: READ_UTF8_def\<close>)
qed (simp add: READ_UTF8_def)

text \<open>UTF-8 to UTF-16.\<close>

function utf8_to_16 :: "(nat \<Rightarrow> nat list) \<Rightarrow> nat list \<Rightarrow> nat list option" where
  "utf8_to_16 write z =
     (if z = [] then Some []
      else case READ_UTF8 z of
             None \<Rightarrow> None
           | Some (c, r) \<Rightarrow> map_option ((@) (write c)) (utf8_to_16 write r))"
  by pat_completeness auto
termination by (relation "measure (\<lambda>(write, z). length z)") (auto dest: READ_UTF8_less)

declare utf8_to_16.simps [simp del]

text \<open>A surrogate pair as the code combines it.\<close>

definition utf16_pair :: "nat \<Rightarrow> nat \<Rightarrow> nat" where
  "utf16_pair c c2 = c2 mod 1024 + c mod 64 * 1024 + (c div 64 mod 16 * 64 + 64) * 1024"

text \<open>UTF-16 to UTF-8; \<open>unit\<close> puts the two bytes of a code unit together.\<close>

fun utf16_to_8 :: "(nat \<Rightarrow> nat \<Rightarrow> nat) \<Rightarrow> nat list \<Rightarrow> nat list option" where
  "utf16_to_8 unit [] = Some []"
| "utf16_to_8 unit [b] = None"
| "utf16_to_8 unit (b1 # b2 # z) =
     (let c = unit b1 b2
      in if 0xd800 \<le> c \<and> c < 0xe000 then
           (case z of
              [] \<Rightarrow> Some (WRITE_UTF8 c)
            | [b3] \<Rightarrow> None
            | b3 # b4 # z' \<Rightarrow> map_option ((@) (WRITE_UTF8 (utf16_pair c (unit b3 b4)))) (utf16_to_8 unit z'))
         else map_option ((@) (WRITE_UTF8 c)) (utf16_to_8 unit z))"

definition unit_le :: "nat \<Rightarrow> nat \<Rightarrow> nat" where
  "unit_le b1 b2 = b1 + b2 * 256"

definition unit_be :: "nat \<Rightarrow> nat \<Rightarrow> nat" where
  "unit_be b1 b2 = b1 * 256 + b2"

fun swap_bytes :: "nat list \<Rightarrow> nat list" where
  "swap_bytes (a # b # z) = b # a # swap_bytes z"
| "swap_bytes z = z"

text \<open>
  The string and the encoding of a \<open>Mem\<close>. \<open>alloc\<close> says whether memory is available (to make it
  writable, or for the new buffer); \<open>None\<close> is a failing assertion or a write beyond the buffer.
\<close>

definition sqlite3VdbeMemTranslate ::
  "bool \<Rightarrow> nat list \<times> text_enc \<Rightarrow> text_enc \<Rightarrow> (nat \<times> (nat list \<times> text_enc)) option"
where
  "sqlite3VdbeMemTranslate alloc pMem desiredEnc =
     (case pMem of (z, enc) \<Rightarrow>
        if enc = desiredEnc then None
        else if enc \<noteq> SQLITE_UTF8 \<and> desiredEnc \<noteq> SQLITE_UTF8 then
          (if alloc then Some (SQLITE_OK, (swap_bytes z, desiredEnc)) else Some (SQLITE_NOMEM, pMem))
        else
          let z = (if desiredEnc = SQLITE_UTF8 then take (length z div 2 * 2) z else z);
              len = 2 * length z + (if desiredEnc = SQLITE_UTF8 then 1 else 2);
              nul = (if desiredEnc = SQLITE_UTF8 then 1 else 2)
          in if \<not> alloc then Some (SQLITE_NOMEM, (z, enc))
             else
               do {
                 zOut \<leftarrow>
                   (case enc of
                      SQLITE_UTF8 \<Rightarrow>
                        (if desiredEnc = SQLITE_UTF16LE then utf8_to_16 WRITE_UTF16LE z
                         else utf8_to_16 WRITE_UTF16BE z)
                    | SQLITE_UTF16LE \<Rightarrow> utf16_to_8 unit_le z
                    | SQLITE_UTF16BE \<Rightarrow> utf16_to_8 unit_be z);
                 if length zOut + nul \<le> len then Some (SQLITE_OK, (zOut, desiredEnc)) else None
               })"

definition sqlite3VdbeMemHandleBom :: "bool \<Rightarrow> nat list \<times> text_enc \<Rightarrow> nat \<times> (nat list \<times> text_enc)" where
  "sqlite3VdbeMemHandleBom alloc pMem =
     (case pMem of (z, enc) \<Rightarrow>
        let bom = (if length z > 1 then
                     (if z ! 0 = 0xFF \<and> z ! 1 = 0xFE then Some SQLITE_UTF16LE
                      else if z ! 0 = 0xFE \<and> z ! 1 = 0xFF then Some SQLITE_UTF16BE else None)
                   else None)
        in case bom of
             None \<Rightarrow> (SQLITE_OK, pMem)
           | Some e \<Rightarrow> (if alloc then (SQLITE_OK, (drop 2 z, e)) else (SQLITE_NOMEM, pMem)))"

text \<open>\<open>SQLITE_SKIP_UTF8\<close>: over one character.\<close>

fun utf8_skip_cont :: "nat list \<Rightarrow> nat list option" where
  "utf8_skip_cont [] = None"
| "utf8_skip_cont (b # z) = (if is_cont b then utf8_skip_cont z else Some (b # z))"

definition SQLITE_SKIP_UTF8 :: "nat list \<Rightarrow> nat list option" where
  "SQLITE_SKIP_UTF8 z = (case z of [] \<Rightarrow> None | b # z \<Rightarrow> (if b \<ge> 0xc0 then utf8_skip_cont z else Some z))"

lemma utf8_skip_cont_le: "utf8_skip_cont z = Some r \<Longrightarrow> length r \<le> length z"
  by (induction z rule: utf8_skip_cont.induct) (auto split: if_splits)

lemma SKIP_UTF8_less: "SQLITE_SKIP_UTF8 z = Some r \<Longrightarrow> length r < length z"
  using utf8_skip_cont_le by (cases z) (auto simp: SQLITE_SKIP_UTF8_def less_Suc_eq_le split: if_splits)

text \<open>\<open>e\<close> is what is left of the text at \<open>zTerm\<close>: 0 when there is no limit but the terminator.\<close>

function utf8_count :: "nat list \<Rightarrow> nat \<Rightarrow> nat option" where
  "utf8_count z e =
     (case z of
        [] \<Rightarrow> None
      | b # _ \<Rightarrow>
          (if b \<noteq> 0 \<and> e < length z then
             (case SQLITE_SKIP_UTF8 z of None \<Rightarrow> None | Some r \<Rightarrow> map_option Suc (utf8_count r e))
           else Some 0))"
  by pat_completeness auto
termination by (relation "measure (\<lambda>(z, e). length z)") (auto dest: SKIP_UTF8_less)

declare utf8_count.simps [simp del]

definition sqlite3Utf8CharLen :: "nat list \<Rightarrow> int \<Rightarrow> nat option" where
  "sqlite3Utf8CharLen z nByte = utf8_count z (if nByte \<ge> 0 then length z - nat nByte else 0)"

section \<open>Reading what was written\<close>

lemma Trans1:
  "192 \<le> b \<Longrightarrow> b < 224 \<Longrightarrow> rd sqlite3Utf8Trans1 (b - 192) = Some (b - 192)"
  "224 \<le> b \<Longrightarrow> b < 240 \<Longrightarrow> rd sqlite3Utf8Trans1 (b - 192) = Some (b - 224)"
  "240 \<le> b \<Longrightarrow> b < 248 \<Longrightarrow> rd sqlite3Utf8Trans1 (b - 192) = Some (b - 240)"
proof -
  have t: "sqlite3Utf8Trans1 = [0..<32] @ [0..<16] @ [0..<8] @ [0, 1, 2, 3, 0, 1, 0, 0]"
    by code_simp
  show "192 \<le> b \<Longrightarrow> b < 224 \<Longrightarrow> rd sqlite3Utf8Trans1 (b - 192) = Some (b - 192)"
    "224 \<le> b \<Longrightarrow> b < 240 \<Longrightarrow> rd sqlite3Utf8Trans1 (b - 192) = Some (b - 224)"
    "240 \<le> b \<Longrightarrow> b < 248 \<Longrightarrow> rd sqlite3Utf8Trans1 (b - 192) = Some (b - 240)"
    unfolding t by (auto simp: rd_def nth_append dest!: le_Suc_ex)
qed

lemma Trans1_some: "192 \<le> b \<Longrightarrow> b < 256 \<Longrightarrow> \<exists>c. rd sqlite3Utf8Trans1 (b - 192) = Some c \<and> c < 32"
proof -
  assume b: "192 \<le> b" "b < 256"
  have l: "length sqlite3Utf8Trans1 = 64" "list_all (\<lambda>c. c < 32) sqlite3Utf8Trans1" by code_simp+
  then have "sqlite3Utf8Trans1 ! (b - 192) < 32" using b by (simp add: list_all_length)
  with l b show ?thesis by (simp add: rd_Some)
qed

definition no_cont :: "nat list \<Rightarrow> bool" where
  "no_cont z \<longleftrightarrow> (case z of [] \<Rightarrow> True | b # _ \<Rightarrow> \<not> is_cont b)"

lemma more_stop: "no_cont z \<Longrightarrow> z \<noteq> [] \<Longrightarrow> utf8_more c z = Some (c, z)"
  by (cases z) (auto simp: no_cont_def)

lemma more_term_stop: "no_cont z \<Longrightarrow> utf8_more_term c z = (c, z)"
  by (cases z) (auto simp: no_cont_def)

lemma is_cont_80 [simp]: "is_cont (0x80 + x mod 64)" "is_cont (Suc 127 + x mod 64)"
  by (simp_all add: is_cont_def)

lemma utf8_add_80: "utf8_add c (0x80 + x mod 64) = (c * 64 + x mod 64) mod 2 ^ 32"
proof -
  have "(0x80 + x mod 64) mod 64 = x mod 64"
    using mod_mult_self3 [of 2 64 "x mod 64"] by simp
  then show ?thesis by (simp only: utf8_add_def)
qed

text \<open>Putting the six-bit groups together again.\<close>

lemma groups2: "(c :: nat) div 64 * 64 + c mod 64 = c" by simp

lemma groups3: "(c div 4096 * 64 + c div 64 mod 64) * 64 + c mod 64 = (c :: nat)"
proof -
  have "c div 4096 = c div 64 div 64" by (simp add: div_mult2_eq [symmetric])
  then show ?thesis by simp
qed

lemma groups4: "((c div 262144 * 64 + c div 4096 mod 64) * 64 + c div 64 mod 64) * 64 + c mod 64 = (c :: nat)"
proof -
  have "c div 262144 = c div 4096 div 64" by (simp add: div_mult2_eq [symmetric])
  then have "c div 262144 * 64 + c div 4096 mod 64 = c div 4096" by simp
  then show ?thesis by (simp only: groups3)
qed

lemmas groups = groups3 [simplified] groups4 [simplified]

lemma write_read_term:
  assumes "c < 0x200000" "no_cont r"
  shows "READ_UTF8 (WRITE_UTF8 c @ r) = Some (if c < 0x80 then c else utf8_check c, r)"
proof -
  consider "c < 0x80" | "0x80 \<le> c" "c < 0x800" | "0x800 \<le> c" "c < 0x10000" | "0x10000 \<le> c" by linarith
  then show ?thesis
  proof cases
    case 1
    then show ?thesis by (simp add: READ_UTF8_def WRITE_UTF8_def)
  next
    case 2
    then have m: "c div 64 mod 32 = c div 64" by simp
    have t: "rd sqlite3Utf8Trans1 (192 + c div 64 - 192) = Some (c div 64)"
      using Trans1(1) [of "192 + c div 64"] 2 by simp
    show ?thesis
      using 2 t more_term_stop [OF assms(2)]
      by (simp add: READ_UTF8_def WRITE_UTF8_def m utf8_add_80 del: add_diff_cancel_left')
  next
    case 3
    then have m: "c div 4096 mod 16 = c div 4096" by simp
    have t: "rd sqlite3Utf8Trans1 (224 + c div 4096 - 192) = Some (c div 4096)"
      using Trans1(2) [of "224 + c div 4096"] 3 by simp
    have s: "(c div 4096 * 64 + c div 64 mod 64) mod 4294967296 = c div 4096 * 64 + c div 64 mod 64"
      using 3 by simp
    show ?thesis
      using 3 t more_term_stop [OF assms(2)]
      by (simp add: READ_UTF8_def WRITE_UTF8_def m utf8_add_80 s groups)
  next
    case 4
    then have m: "c div 262144 mod 8 = c div 262144" using assms(1) by simp
    have t: "rd sqlite3Utf8Trans1 (240 + c div 262144 - 192) = Some (c div 262144)"
      using Trans1(3) [of "240 + c div 262144"] assms(1) by simp
    have s: "(c div 262144 * 64 + c div 4096 mod 64) mod 4294967296 = c div 262144 * 64 + c div 4096 mod 64"
      "((c div 262144 * 64 + c div 4096 mod 64) * 64 + c div 64 mod 64) mod 4294967296 =
        (c div 262144 * 64 + c div 4096 mod 64) * 64 + c div 64 mod 64"
      using assms(1) by simp_all
    show ?thesis
      using 4 t more_term_stop [OF assms(2)] assms(1)
      by (simp add: READ_UTF8_def WRITE_UTF8_def m utf8_add_80 s groups)
  qed
qed

lemma more_term_more: "utf8_more c (z @ [0]) = Some (map_prod id (\<lambda>r. r @ [0]) (utf8_more_term c z))"
  by (induction c z rule: utf8_more_term.induct) (auto simp: is_cont_def)

lemma Utf8Read_term:
  "z \<noteq> [] \<Longrightarrow> sqlite3Utf8Read (z @ [0]) = map_option (map_prod id (\<lambda>r. r @ [0])) (READ_UTF8 z)"
  by (cases z; cases "rd sqlite3Utf8Trans1 (hd z - 192)")
    (auto simp: sqlite3Utf8Read_def READ_UTF8_def more_term_more Let_def case_prod_unfold)

section \<open>The output fits\<close>

definition bytes_ok :: "nat list \<Rightarrow> bool" where
  "bytes_ok z \<longleftrightarrow> list_all (\<lambda>b. b < 256) z"

lemma bytes_ok_simps [simp]: "bytes_ok []" "bytes_ok (b # z) \<longleftrightarrow> b < 256 \<and> bytes_ok z"
  "bytes_ok (y @ z) \<longleftrightarrow> bytes_ok y \<and> bytes_ok z"
  by (auto simp: bytes_ok_def)

lemma more_term_suffix: "\<exists>y. z = y @ snd (utf8_more_term c z)"
proof (induction c z rule: utf8_more_term.induct)
  case (2 c b z)
  then show ?case by (cases "is_cont b") (auto, metis append_Cons)
qed simp

lemma more_term_none: "length (snd (utf8_more_term c z)) = length z \<Longrightarrow> fst (utf8_more_term c z) = c"
proof (cases z)
  case (Cons b y)
  assume "length (snd (utf8_more_term c z)) = length z"
  with Cons utf8_more_term_le [of "utf8_add c b" y] show ?thesis by (auto split: if_splits)
qed simp

lemma READ_UTF8_ok:
  assumes "bytes_ok z" "z \<noteq> []"
  shows "\<exists>c r. READ_UTF8 z = Some (c, r) \<and> bytes_ok r \<and> (c > 0xFFFF \<longrightarrow> length r + 2 \<le> length z)"
proof -
  obtain b y where z: "z = b # y" "b < 256" "bytes_ok y" using assms by (cases z) auto
  show ?thesis
  proof (cases "0xc0 \<le> b")
    case True
    then obtain c0 where c0: "rd sqlite3Utf8Trans1 (b - 192) = Some c0" "c0 < 32" using Trans1_some z(2) by auto
    let ?c = "fst (utf8_more_term c0 y)" and ?r = "snd (utf8_more_term c0 y)"
    have r: "READ_UTF8 z = Some (utf8_check ?c, ?r)"
      using True z(1) c0(1) by (simp add: READ_UTF8_def Let_def case_prod_unfold)
    have b: "bytes_ok ?r" using z(3) more_term_suffix [of y c0] by (metis bytes_ok_simps(3))
    have "length ?r + 2 \<le> length z" if "utf8_check ?c > 0xFFFF"
    proof (rule ccontr)
      assume "\<not> length ?r + 2 \<le> length z"
      then have "length ?r = length y" using utf8_more_term_le [of c0 y] z(1) by simp
      then have "?c = c0" by (rule more_term_none)
      with that c0(2) show False by (simp add: utf8_check_def)
    qed
    with r b show ?thesis by blast
  next
    case False
    with z show ?thesis by (auto simp: READ_UTF8_def)
  qed
qed

lemma length_WRITE_UTF16: "length (WRITE_UTF16LE c) = (if c \<le> 0xFFFF then 2 else 4)"
  "length (WRITE_UTF16BE c) = (if c \<le> 0xFFFF then 2 else 4)"
  by (simp_all add: WRITE_UTF16LE_def WRITE_UTF16BE_def)

lemma utf8_to_16_fits:
  assumes "\<And>c. length (write c) = (if c \<le> 0xFFFF then 2 else 4)"
  shows "bytes_ok z \<Longrightarrow> \<exists>out. utf8_to_16 write z = Some out \<and> length out \<le> 2 * length z"
proof (induction "length z" arbitrary: z rule: less_induct)
  case less
  show ?case
  proof (cases "z = []")
    case True
    then show ?thesis by (simp add: utf8_to_16.simps)
  next
    case False
    obtain c r where r: "READ_UTF8 z = Some (c, r)" "bytes_ok r" "c > 0xFFFF \<longrightarrow> length r + 2 \<le> length z"
      using READ_UTF8_ok [OF less.prems False] by blast
    note lt = READ_UTF8_less [OF r(1)]
    obtain out where "utf8_to_16 write r = Some out" "length out \<le> 2 * length r"
      using less.hyps [OF lt r(2)] by blast
    with r lt False show ?thesis by (subst utf8_to_16.simps) (auto simp: assms)
  qed
qed

lemma length_WRITE_UTF8: "length (WRITE_UTF8 c) \<le> 4" "WRITE_UTF8 c \<noteq> []"
  by (simp_all add: WRITE_UTF8_def)

lemma utf16_to_8_fits: "even (length z) \<Longrightarrow> \<exists>out. utf16_to_8 unit z = Some out \<and> length out \<le> 2 * length z"
proof (induction unit z rule: utf16_to_8.induct)
  case (3 unit b1 b2 z)
  let ?c = "unit b1 b2"
  consider "0xd800 \<le> ?c \<and> ?c < 0xe000" "z = []" | b3 b4 z' where "0xd800 \<le> ?c \<and> ?c < 0xe000" "z = b3 # b4 # z'"
    | "\<not> (0xd800 \<le> ?c \<and> ?c < 0xe000)"
    using 3(3) by (cases z rule: list.exhaust; cases "tl z") auto
  then show ?case
  proof cases
    case 1
    with length_WRITE_UTF8(1) [of ?c] show ?thesis by (simp add: Let_def)
  next
    case 2
    with "3.IH"(1) [OF refl 2(1) 2(2) refl] 3(3) length_WRITE_UTF8(1) [of "utf16_pair ?c (unit b3 b4)"]
    show ?thesis by (auto simp: Let_def)
  next
    case 3
    with "3.IH"(2) [OF refl 3] "3.prems" length_WRITE_UTF8(1) [of ?c]
    show ?thesis by (auto simp: Let_def)
  qed
qed simp_all

lemma Translate_fits:
  assumes "bytes_ok z" "enc \<noteq> desired"
  shows "\<exists>out. sqlite3VdbeMemTranslate True (z, enc) desired = Some (SQLITE_OK, (out, desired))"
proof -
  let ?z = "take (length z div 2 * 2) z"
  have "length z div 2 * 2 \<le> length z" by simp
  then have e: "even (length ?z)" by (simp add: min_absorb2)
  have u8: "\<exists>out. utf8_to_16 WRITE_UTF16LE z = Some out \<and> length out \<le> 2 * length z"
    "\<exists>out. utf8_to_16 WRITE_UTF16BE z = Some out \<and> length out \<le> 2 * length z"
    using utf8_to_16_fits [OF length_WRITE_UTF16(1) assms(1)] utf8_to_16_fits [OF length_WRITE_UTF16(2) assms(1)] by blast+
  show ?thesis
    using u8 utf16_to_8_fits [OF e, of unit_le] utf16_to_8_fits [OF e, of unit_be] assms(2)
    by (cases enc; cases desired) (auto simp: sqlite3VdbeMemTranslate_def Let_def)
qed

section \<open>Round trips\<close>

definition scalar :: "nat \<Rightarrow> bool" where
  "scalar c \<longleftrightarrow> c < 0x110000 \<and> (c < 0x80 \<or> utf8_check c = c)"

lemma no_cont_WRITE: "no_cont (WRITE_UTF8 c @ z)"
  by (auto simp: WRITE_UTF8_def no_cont_def is_cont_def)

lemma no_cont_text: "no_cont (concat (map WRITE_UTF8 cs))"
  by (cases cs) (simp_all add: no_cont_WRITE, simp add: no_cont_def)

lemma utf8_to_16_text:
  "list_all scalar cs \<Longrightarrow> utf8_to_16 write (concat (map WRITE_UTF8 cs)) = Some (concat (map write cs))"
proof (induction cs)
  case (Cons c cs)
  have "READ_UTF8 (WRITE_UTF8 c @ concat (map WRITE_UTF8 cs)) = Some (c, concat (map WRITE_UTF8 cs))"
    using write_read_term [OF _ no_cont_text] Cons.prems by (auto simp: scalar_def)
  with Cons length_WRITE_UTF8(2) [of c] show ?case by (subst utf8_to_16.simps) simp
qed (simp add: utf8_to_16.simps)

lemma radix: "a < m \<Longrightarrow> (a + m * x) mod m = a" "a < m \<Longrightarrow> (a + m * x) div m = (x :: nat)"
  by simp_all

text \<open>The five groups of bits of a character above \<open>0xFFFF\<close>.\<close>

lemma pair_groups:
  assumes "0x10000 \<le> c" "c < (0x110000 :: nat)"
  obtains a b e p r where "a < 256" "b < 4" "e < 64" "p < 4" "r < 4"
    "c = a + 256 * (b + 4 * (e + 64 * (p + 4 * r + 1)))"
proof -
  define x y g where "x = c div 256" and "y = x div 4" and "g = y div 64"
  have e: "c = c mod 256 + 256 * x" "x = x mod 4 + 4 * y" "y = y mod 64 + 64 * g"
    by (simp_all add: x_def y_def g_def)
  have "1 \<le> g" "g < 17" using assms by (simp_all add: x_def y_def g_def less_mult_imp_div_less flip: div_mult2_eq)
  then have g: "g = (g - 1) mod 4 + 4 * ((g - 1) div 4) + 1" "(g - 1) div 4 < 4" by simp_all
  show ?thesis
    by (rule that [of "c mod 256" "x mod 4" "y mod 64" "(g - 1) mod 4" "(g - 1) div 4"])
      (use e g in simp_all)
qed

lemma pair_values:
  assumes b: "a < 256" "b < 4" "e < 64" "p < 4" "r < 4"
    and c: "c = a + 256 * (b + 4 * (e + 64 * (p + 4 * r + 1)))"
  shows "c mod 256 = a" "c div 256 mod 4 = b" "utf16_lead_lo c = e + p * 64" "utf16_lead_hi c = 0xD8 + r"
proof -
  have d: "c div 256 = b + 4 * (e + 64 * (p + 4 * r + 1))" unfolding c using b by (simp only: radix)
  have d': "c div 1024 = e + 64 * (p + 4 * r + 1)"
    using b radix(2) [of b 4] d by (simp add: div_mult2_eq [of c 256 4, simplified])
  have k: "c - 0x10000 = a + 256 * (b + 4 * (e + 64 * (p + 4 * r)))" using c by simp
  have kd: "(c - 0x10000) div 1024 = e + 64 * (p + 4 * r)"
    using b by (simp add: div_mult2_eq [of _ 256 4, simplified] k radix)
  then have kd': "(c - 0x10000) div 1024 div 64 = p + 4 * r" using b by simp
  have kd2: "(c - 0x10000) div 262144 = r"
    using kd' b by (simp add: div_mult2_eq [of _ 65536 4, simplified] div_mult2_eq [of _ 1024 64, simplified])
  show "c mod 256 = a" unfolding c using b by (simp only: radix)
  show "c div 256 mod 4 = b" unfolding d using b by (simp only: radix)
  show "utf16_lead_lo c = e + p * 64" unfolding utf16_lead_lo_def d' kd' using b by (simp only: radix)
  show "utf16_lead_hi c = 0xD8 + r" unfolding utf16_lead_hi_def kd2 using b by simp
qed

lemma pair_split:
  assumes "0x10000 \<le> c" "c < 0x110000"
  shows "utf16_lead_lo c < 256" "utf16_lead_hi c < 256" "0xDC + c div 256 mod 4 < 256"
    "0xd800 \<le> utf16_lead_lo c + utf16_lead_hi c * 256" "utf16_lead_lo c + utf16_lead_hi c * 256 < 0xe000"
    "utf16_pair (utf16_lead_lo c + utf16_lead_hi c * 256) (c mod 256 + (0xDC + c div 256 mod 4) * 256) = c"
proof -
  obtain a b e p r where b: "a < 256" "b < 4" "e < 64" "p < 4" "r < 4"
    and c: "c = a + 256 * (b + 4 * (e + 64 * (p + 4 * r + 1)))"
    using pair_groups [OF assms] by metis
  note v = pair_values [OF b c]
  show "utf16_lead_lo c < 256" "utf16_lead_hi c < 256" "0xDC + c div 256 mod 4 < 256"
    "0xd800 \<le> utf16_lead_lo c + utf16_lead_hi c * 256" "utf16_lead_lo c + utf16_lead_hi c * 256 < 0xe000"
    unfolding v using b by simp_all
  have u: "e + p * 64 + (0xD8 + r) * 256 = e + 64 * ((p + 4 * r) + 16 * 54)" by simp
  have t: "a + (0xDC + b) * 256 = (a + 256 * b) + 1024 * 55" by simp
  have "(a + 256 * b) < 1024" "p + 4 * r < 16" using b by linarith+
  then show "utf16_pair (utf16_lead_lo c + utf16_lead_hi c * 256) (c mod 256 + (0xDC + c div 256 mod 4) * 256) = c"
    unfolding utf16_pair_def v u t radix(1) [OF b(3)] radix(2) [OF b(3)] using c by (simp only: radix) simp
qed

lemma surrogate_div: "c div 0x800 = 27 \<longleftrightarrow> 0xD800 \<le> c \<and> c \<le> (0xDFFF :: nat)"
  using div_mult_mod_eq [of c 2048] mod_less_divisor [of 2048 c] by (auto intro!: div_nat_eqI)
lemma utf16_unit_text:
  assumes "scalar c" "c \<le> 0xFFFF"
  shows "c mod 256 + c div 256 mod 256 * 256 = c" "(0xd800 \<le> c \<and> c < 0xe000) = False"
proof -
  have "c div 256 mod 256 = c div 256" using assms(2) by simp
  then show "c mod 256 + c div 256 mod 256 * 256 = c" using div_mult_mod_eq [of c 256] by linarith
  show "(0xd800 \<le> c \<and> c < 0xe000) = False"
    using assms(1) surrogate_div [of c] by (auto simp: scalar_def utf8_check_def split: if_splits)
qed

text \<open>One character, for either order of the bytes.\<close>

lemma utf16_to_8_char:
  assumes "scalar c"
  shows "utf16_to_8 unit_le (WRITE_UTF16LE c @ z) = map_option ((@) (WRITE_UTF8 c)) (utf16_to_8 unit_le z) \<and>
    utf16_to_8 unit_be (WRITE_UTF16BE c @ z) = map_option ((@) (WRITE_UTF8 c)) (utf16_to_8 unit_be z)"
proof (cases "c \<le> 0xFFFF")
  case True
  note u = utf16_unit_text [OF assms True]
  have w: "WRITE_UTF16LE c = [c mod 256, c div 256 mod 256]" "WRITE_UTF16BE c = [c div 256 mod 256, c mod 256]"
    using True by (simp_all add: WRITE_UTF16LE_def WRITE_UTF16BE_def)
  have v: "unit_le (c mod 256) (c div 256 mod 256) = c" "unit_be (c div 256 mod 256) (c mod 256) = c"
    using u(1) by (simp_all only: unit_le_def unit_be_def add.commute)
  show ?thesis
    by (simp only: w append.simps utf16_to_8.simps v Let_def u(2) if_False simp_thms)
next
  case False
  then have "0x10000 \<le> c" "c < 0x110000" using assms by (simp_all add: scalar_def)
  note p = pair_split [OF this]
  have w: "WRITE_UTF16LE c = [utf16_lead_lo c, utf16_lead_hi c, c mod 256, 0xDC + c div 256 mod 4]"
    "WRITE_UTF16BE c = [utf16_lead_hi c, utf16_lead_lo c, 0xDC + c div 256 mod 4, c mod 256]"
    using False by (simp_all only: WRITE_UTF16LE_def WRITE_UTF16BE_def if_False)
  have v: "unit_be b1 b2 = b2 + b1 * 256" for b1 b2 by (simp only: unit_be_def add.commute)
  show ?thesis
    by (simp only: w append.simps utf16_to_8.simps unit_le_def v Let_def p(4-6) list.case simp_thms if_True)
qed

lemma utf16_to_8_text:
  assumes "list_all scalar cs"
  shows "utf16_to_8 unit_le (concat (map WRITE_UTF16LE cs)) = Some (concat (map WRITE_UTF8 cs))"
    "utf16_to_8 unit_be (concat (map WRITE_UTF16BE cs)) = Some (concat (map WRITE_UTF8 cs))"
  using assms by (induction cs) (simp_all add: utf16_to_8_char)

lemma bytes_WRITE_UTF16: "c < 0x110000 \<Longrightarrow> bytes_ok (WRITE_UTF16LE c)" "c < 0x110000 \<Longrightarrow> bytes_ok (WRITE_UTF16BE c)"
  using pair_split(1-3) [of c] by (auto simp: WRITE_UTF16LE_def WRITE_UTF16BE_def)

lemma bytes_WRITE_UTF8: "c < 0x110000 \<Longrightarrow> bytes_ok (WRITE_UTF8 c)"
  by (auto simp: WRITE_UTF8_def)

lemma bytes_text: "list_all scalar cs \<Longrightarrow> (\<And>c. c < 0x110000 \<Longrightarrow> bytes_ok (write c)) \<Longrightarrow> bytes_ok (concat (map write cs))"
  by (induction cs) (auto simp: scalar_def)

lemma even_text16: "even (length (concat (map WRITE_UTF16LE cs)))" "even (length (concat (map WRITE_UTF16BE cs)))"
  by (induction cs) (auto simp: length_WRITE_UTF16)

fun encode :: "text_enc \<Rightarrow> nat list \<Rightarrow> nat list" where
  "encode SQLITE_UTF8 cs = concat (map WRITE_UTF8 cs)"
| "encode SQLITE_UTF16LE cs = concat (map WRITE_UTF16LE cs)"
| "encode SQLITE_UTF16BE cs = concat (map WRITE_UTF16BE cs)"

lemma swap_app: "even (length y) \<Longrightarrow> swap_bytes (y @ z) = swap_bytes y @ swap_bytes z"
  by (induction y rule: swap_bytes.induct) auto

lemma swap_text: "swap_bytes (concat (map WRITE_UTF16LE cs)) = concat (map WRITE_UTF16BE cs)"
  "swap_bytes (concat (map WRITE_UTF16BE cs)) = concat (map WRITE_UTF16LE cs)"
proof -
  have e: "even (length (WRITE_UTF16LE c))" "even (length (WRITE_UTF16BE c))" for c
    by (simp_all add: length_WRITE_UTF16)
  have s: "swap_bytes (WRITE_UTF16LE c) = WRITE_UTF16BE c" "swap_bytes (WRITE_UTF16BE c) = WRITE_UTF16LE c" for c
    by (simp_all add: WRITE_UTF16LE_def WRITE_UTF16BE_def)
  show "swap_bytes (concat (map WRITE_UTF16LE cs)) = concat (map WRITE_UTF16BE cs)"
    "swap_bytes (concat (map WRITE_UTF16BE cs)) = concat (map WRITE_UTF16LE cs)"
    by (induction cs) (simp_all add: swap_app e s)
qed

lemma Translate_text:
  assumes "list_all scalar cs" "enc \<noteq> desired"
  shows "sqlite3VdbeMemTranslate True (encode enc cs, enc) desired = Some (SQLITE_OK, (encode desired cs, desired))"
proof -
  have b: "bytes_ok (encode enc cs)"
    using assms(1) bytes_text bytes_WRITE_UTF8 bytes_WRITE_UTF16 by (cases enc) simp_all
  obtain out where o: "sqlite3VdbeMemTranslate True (encode enc cs, enc) desired = Some (SQLITE_OK, (out, desired))"
    using Translate_fits [OF b assms(2)] by blast
  have t: "take (length z div 2 * 2) z = z" if "even (length z)" for z :: "nat list" using that by simp
  have "out = encode desired cs"
    using o assms(2) utf8_to_16_text [OF assms(1)] utf16_to_8_text [OF assms(1)]
      swap_text t [OF even_text16(1)] t [OF even_text16(2)]
    by (cases enc; cases desired) (auto simp: sqlite3VdbeMemTranslate_def Let_def split: if_splits)
  with o show ?thesis by simp
qed

section \<open>Properties\<close>

text \<open>
  C23: Whatever bytes a string holds, valid text or not, translating it to another encoding stays
  within the buffer allocated for it, for all six pairs of encodings, and reads no byte beyond the
  string.
\<close>

theorem utf_translate_fits:
  assumes "bytes_ok z" "enc \<noteq> desired"
  shows "\<exists>out. sqlite3VdbeMemTranslate True (z, enc) desired = Some (SQLITE_OK, (out, desired))"
  by (rule Translate_fits [OF assms])

lemma utf_translate_fits_witness:
  "\<exists>out. sqlite3VdbeMemTranslate True ([0xF4, 0x90, 0xC3], SQLITE_UTF8) SQLITE_UTF16BE = Some (SQLITE_OK, (out, SQLITE_UTF16BE))"
  using utf_translate_fits [of "[0xF4, 0x90, 0xC3]" SQLITE_UTF8 SQLITE_UTF16BE] by simp

text \<open>
  C24: Text of Unicode scalar values survives the translation: the encoding of a text in any of the
  three encodings is translated to its encoding in the other, surrogate pairs and four-byte
  sequences included, so translating there and back is the identity.
\<close>

theorem utf_translate_text:
  assumes "list_all scalar cs" "enc \<noteq> desired"
  shows "sqlite3VdbeMemTranslate True (encode enc cs, enc) desired = Some (SQLITE_OK, (encode desired cs, desired)) \<and>
    sqlite3VdbeMemTranslate True (encode desired cs, desired) enc = Some (SQLITE_OK, (encode enc cs, enc))"
  using Translate_text [OF assms] Translate_text [OF assms(1) assms(2) [symmetric]] by simp

lemma utf_translate_text_witness:
  "sqlite3VdbeMemTranslate True (encode SQLITE_UTF8 [0x41, 0xE9, 0x20AC, 0x1F600], SQLITE_UTF8) SQLITE_UTF16LE =
    Some (SQLITE_OK, ([0x41, 0, 0xE9, 0, 0xAC, 0x20, 0x3D, 0xD8, 0x00, 0xDE], SQLITE_UTF16LE))"
proof -
  have "encode SQLITE_UTF16LE [0x41, 0xE9, 0x20AC, 0x1F600] = [0x41, 0, 0xE9, 0, 0xAC, 0x20, 0x3D, 0xD8, 0x00, 0xDE]"
    by (simp add: WRITE_UTF16LE_def utf16_lead_lo_def utf16_lead_hi_def)
  with utf_translate_text [of "[0x41, 0xE9, 0x20AC, 0x1F600]" SQLITE_UTF8 SQLITE_UTF16LE] show ?thesis
    by (simp add: scalar_def utf8_check_def del: encode.simps)
qed

text \<open>
  C18: The self-test of the code, for every character: reading what \<open>WRITE_UTF8\<close> wrote gives the
  character back and stops behind it, with surrogates and the two non-characters replaced.
\<close>

theorem utf8_write_read:
  assumes "c < 0x110000" "no_cont r"
  shows "length (WRITE_UTF8 c) \<le> 4 \<and>
    sqlite3Utf8Read (WRITE_UTF8 c @ r @ [0]) =
      Some (if 0xD800 \<le> c \<and> c \<le> 0xDFFF \<or> c = 0xFFFE \<or> c = 0xFFFF then 0xFFFD else c, r @ [0])"
proof -
  have "READ_UTF8 (WRITE_UTF8 c @ r) = Some (if c < 0x80 then c else utf8_check c, r)"
    using write_read_term [OF _ assms(2), of c] assms(1) by simp
  then have "sqlite3Utf8Read ((WRITE_UTF8 c @ r) @ [0]) = Some (if c < 0x80 then c else utf8_check c, r @ [0])"
    using Utf8Read_term [of "WRITE_UTF8 c @ r"] length_WRITE_UTF8(2) [of c] by simp
  moreover have "c div 2 = 0x7fff \<longleftrightarrow> c = 0xFFFE \<or> c = 0xFFFF" by auto
  ultimately show ?thesis using length_WRITE_UTF8(1) [of c] by (auto simp: utf8_check_def surrogate_div)
qed

lemma utf8_write_read_witness: "sqlite3Utf8Read (WRITE_UTF8 0xDABC @ [0x41] @ [0]) = Some (0xFFFD, [0x41, 0])"
  using utf8_write_read [where c = "0xDABC" and r = "[0x41]"] by (simp add: no_cont_def is_cont_def)

end
