(* ===== verification/Tokenize.thy ===== *)
theory Tokenize
  imports UtilText
begin

text \<open>
  The tokenizer of \<^verbatim>\<open>src/tokenize.c\<close>: the character classes, \<open>sqlite3GetToken\<close>, the lookahead that
  tells the keywords WINDOW, OVER and FILTER from identifiers, and \<open>sqlite3RunParser\<close>, which
  drives the parser.

  The text \<open>z\<close> is the list of bytes from the current one to the terminating zero, which is in the
  list: reading behind it is undefined (\<open>None\<close>). \<open>keywordCode\<close> is generated by
  \<^verbatim>\<open>tool/mkkeywordhash.c\<close> and always returns its argument \<open>n\<close>: it is the parameter \<open>kw\<close> from the
  characters of a word to the token. The parser and \<open>sqlite3ParserFallback\<close> are generated
  from the grammar and parameters as well.
\<close>

section \<open>Tokens and character classes\<close>

text \<open>The token codes the tokenizer mentions; \<open>TK_EOF\<close> is 0, the other keywords are \<open>TK_KW\<close>.\<close>

datatype token =
    TK_EOF | TK_SEMI | TK_LP | TK_RP | TK_COMMA | TK_DOT | TK_PLUS | TK_MINUS | TK_STAR | TK_SLASH
  | TK_REM | TK_EQ | TK_NE | TK_LT | TK_LE | TK_GT | TK_GE | TK_LSHIFT | TK_RSHIFT | TK_BITAND
  | TK_BITOR | TK_BITNOT | TK_CONCAT | TK_PTR | TK_ID | TK_STRING | TK_BLOB | TK_INTEGER | TK_FLOAT
  | TK_VARIABLE | TK_JOIN_KW | TK_AS | TK_NULL | TK_IS | TK_NOT | TK_IN | TK_SELECT | TK_KW nat
  | TK_WINDOW | TK_OVER | TK_FILTER | TK_QNUMBER | TK_SPACE | TK_ILLEGAL

text \<open>\<open>tokenType>=TK_WINDOW\<close>: the grammar numbers these last.\<close>

definition tk_special :: "token \<Rightarrow> bool" where
  "tk_special t \<longleftrightarrow> t \<in> {TK_WINDOW, TK_OVER, TK_FILTER, TK_QNUMBER, TK_SPACE, TK_ILLEGAL}"

abbreviation (input) CC_X :: nat where "CC_X \<equiv> 0"
abbreviation (input) CC_KYWD0 :: nat where "CC_KYWD0 \<equiv> 1"
abbreviation (input) CC_KYWD :: nat where "CC_KYWD \<equiv> 2"
abbreviation (input) CC_DIGIT :: nat where "CC_DIGIT \<equiv> 3"
abbreviation (input) CC_DOLLAR :: nat where "CC_DOLLAR \<equiv> 4"
abbreviation (input) CC_VARALPHA :: nat where "CC_VARALPHA \<equiv> 5"
abbreviation (input) CC_VARNUM :: nat where "CC_VARNUM \<equiv> 6"
abbreviation (input) CC_SPACE :: nat where "CC_SPACE \<equiv> 7"
abbreviation (input) CC_QUOTE :: nat where "CC_QUOTE \<equiv> 8"
abbreviation (input) CC_QUOTE2 :: nat where "CC_QUOTE2 \<equiv> 9"
abbreviation (input) CC_PIPE :: nat where "CC_PIPE \<equiv> 10"
abbreviation (input) CC_MINUS :: nat where "CC_MINUS \<equiv> 11"
abbreviation (input) CC_LT :: nat where "CC_LT \<equiv> 12"
abbreviation (input) CC_GT :: nat where "CC_GT \<equiv> 13"
abbreviation (input) CC_EQ :: nat where "CC_EQ \<equiv> 14"
abbreviation (input) CC_BANG :: nat where "CC_BANG \<equiv> 15"
abbreviation (input) CC_SLASH :: nat where "CC_SLASH \<equiv> 16"
abbreviation (input) CC_LP :: nat where "CC_LP \<equiv> 17"
abbreviation (input) CC_RP :: nat where "CC_RP \<equiv> 18"
abbreviation (input) CC_SEMI :: nat where "CC_SEMI \<equiv> 19"
abbreviation (input) CC_PLUS :: nat where "CC_PLUS \<equiv> 20"
abbreviation (input) CC_STAR :: nat where "CC_STAR \<equiv> 21"
abbreviation (input) CC_PERCENT :: nat where "CC_PERCENT \<equiv> 22"
abbreviation (input) CC_COMMA :: nat where "CC_COMMA \<equiv> 23"
abbreviation (input) CC_AND :: nat where "CC_AND \<equiv> 24"
abbreviation (input) CC_TILDA :: nat where "CC_TILDA \<equiv> 25"
abbreviation (input) CC_DOT :: nat where "CC_DOT \<equiv> 26"
abbreviation (input) CC_ID :: nat where "CC_ID \<equiv> 27"
abbreviation (input) CC_ILLEGAL :: nat where "CC_ILLEGAL \<equiv> 28"
abbreviation (input) CC_NUL :: nat where "CC_NUL \<equiv> 29"
abbreviation (input) CC_BOM :: nat where "CC_BOM \<equiv> 30"

definition aiClass :: "nat list" where
  "aiClass =
     [29, 28, 28, 28, 28, 28, 28, 28, 28,  7,  7, 28,  7,  7, 28, 28,
      28, 28, 28, 28, 28, 28, 28, 28, 28, 28, 28, 28, 28, 28, 28, 28,
       7, 15,  8,  5,  4, 22, 24,  8, 17, 18, 21, 20, 23, 11, 26, 16,
       3,  3,  3,  3,  3,  3,  3,  3,  3,  3,  5, 19, 12, 14, 13,  6,
       5,  1,  1,  1,  1,  1,  1,  1,  1,  1,  1,  1,  1,  1,  1,  1,
       1,  1,  1,  1,  1,  1,  1,  1,  0,  2,  2,  9, 28, 28, 28,  2,
       8,  1,  1,  1,  1,  1,  1,  1,  1,  1,  1,  1,  1,  1,  1,  1,
       1,  1,  1,  1,  1,  1,  1,  1,  0,  2,  2, 28, 10, 28, 25, 28,
      27, 27, 27, 27, 27, 27, 27, 27, 27, 27, 27, 27, 27, 27, 27, 27,
      27, 27, 27, 27, 27, 27, 27, 27, 27, 27, 27, 27, 27, 27, 27, 27,
      27, 27, 27, 27, 27, 27, 27, 27, 27, 27, 27, 27, 27, 27, 27, 27,
      27, 27, 27, 27, 27, 27, 27, 27, 27, 27, 27, 27, 27, 27, 27, 27,
      27, 27, 27, 27, 27, 27, 27, 27, 27, 27, 27, 27, 27, 27, 27, 27,
      27, 27, 27, 27, 27, 27, 27, 27, 27, 27, 27, 27, 27, 27, 27, 27,
      27, 27, 27, 27, 27, 27, 27, 27, 27, 27, 27, 27, 27, 27, 27, 30,
      27, 27, 27, 27, 27, 27, 27, 27, 27, 27, 27, 27, 27, 27, 27, 27]"

definition char_class :: "nat \<Rightarrow> nat" where
  "char_class c = aiClass ! c"

section \<open>One token\<close>

text \<open>\<open>for(i=k; P(z[i]); i++)\<close>\<close>

fun span :: "(nat \<Rightarrow> bool) \<Rightarrow> nat list \<Rightarrow> nat option" where
  "span P [] = None"
| "span P (c # z) = (if P c then map_option Suc (span P z) else Some 0)"

definition scan :: "(nat \<Rightarrow> bool) \<Rightarrow> nat list \<Rightarrow> nat \<Rightarrow> nat option" where
  "scan P z k = map_option ((+) k) (span P (drop k z))"

definition tok_space :: "nat list \<Rightarrow> (nat \<times> token) option" where
  "tok_space z = do { i \<leftarrow> scan sqlite3Isspace z 1; Some (i, TK_SPACE) }"

definition tok_minus :: "nat list \<Rightarrow> (nat \<times> token) option" where
  "tok_minus z =
     do {
       c \<leftarrow> rd z 1;
       if c = ch CHR ''-'' then do { i \<leftarrow> scan (\<lambda>c. c \<noteq> 0 \<and> c \<noteq> 10) z 2; Some (i, TK_SPACE) }
       else if c = ch CHR ''>'' then do { c \<leftarrow> rd z 2; Some (if c = ch CHR ''>'' then 3 else 2, TK_PTR) }
       else Some (1, TK_MINUS)
     }"

text \<open>The loop over a comment: \<open>c\<close> is the previous character, \<open>z\<close> the text from \<open>z[i]\<close> on.\<close>

fun comment_loop :: "nat \<Rightarrow> nat list \<Rightarrow> (nat \<times> nat) option" where
  "comment_loop c [] = None"
| "comment_loop c (d # z) =
     (if c = ch CHR ''*'' \<and> d = ch CHR ''/'' then Some (0, c)
      else if d = 0 then Some (0, d)
      else map_option (apfst Suc) (comment_loop d z))"

definition tok_slash :: "nat list \<Rightarrow> (nat \<times> token) option" where
  "tok_slash z =
     do {
       c \<leftarrow> rd z 1;
       if c \<noteq> ch CHR ''*'' then Some (1, TK_SLASH)
       else do {
         c \<leftarrow> rd z 2;
         if c = 0 then Some (1, TK_SLASH)
         else do {
           (k, c) \<leftarrow> comment_loop c (drop 3 z);
           Some (if c \<noteq> 0 then 3 + k + 1 else 3 + k, TK_SPACE)
         }
       }
     }"

text \<open>Operators of one or two characters.\<close>

definition tok_eq :: "nat list \<Rightarrow> (nat \<times> token) option" where
  "tok_eq z = do { c \<leftarrow> rd z 1; Some (if c = ch CHR ''='' then 2 else 1, TK_EQ) }"

definition tok_lt :: "nat list \<Rightarrow> (nat \<times> token) option" where
  "tok_lt z =
     do {
       c \<leftarrow> rd z 1;
       Some (if c = ch CHR ''='' then (2, TK_LE)
             else if c = ch CHR ''>'' then (2, TK_NE)
             else if c = ch CHR ''<'' then (2, TK_LSHIFT)
             else (1, TK_LT))
     }"

definition tok_gt :: "nat list \<Rightarrow> (nat \<times> token) option" where
  "tok_gt z =
     do {
       c \<leftarrow> rd z 1;
       Some (if c = ch CHR ''='' then (2, TK_GE)
             else if c = ch CHR ''>'' then (2, TK_RSHIFT)
             else (1, TK_GT))
     }"

definition tok_bang :: "nat list \<Rightarrow> (nat \<times> token) option" where
  "tok_bang z = do { c \<leftarrow> rd z 1; Some (if c \<noteq> ch CHR ''='' then (1, TK_ILLEGAL) else (2, TK_NE)) }"

definition tok_pipe :: "nat list \<Rightarrow> (nat \<times> token) option" where
  "tok_pipe z = do { c \<leftarrow> rd z 1; Some (if c \<noteq> ch CHR ''|'' then (1, TK_BITOR) else (2, TK_CONCAT)) }"

text \<open>A quoted text: how far the loop goes from \<open>z[1]\<close> on, and the character it stops at.\<close>

fun quote_loop :: "nat \<Rightarrow> nat list \<Rightarrow> (nat \<times> nat) option" where
  "quote_loop delim [] = None"
| "quote_loop delim (c # z) =
     (if c = 0 then Some (0, c)
      else if c = delim then
        (case z of
           [] \<Rightarrow> None
         | d # z' \<Rightarrow> (if d = delim then map_option (apfst ((+) 2)) (quote_loop delim z') else Some (0, c)))
      else map_option (apfst Suc) (quote_loop delim z))"

definition tok_quote :: "nat list \<Rightarrow> (nat \<times> token) option" where
  "tok_quote z =
     do {
       delim \<leftarrow> rd z 0;
       (k, c) \<leftarrow> quote_loop delim (drop 1 z);
       Some (if c = ch CHR 0x27 then (1 + k + 1, TK_STRING)
             else if c \<noteq> 0 then (1 + k + 1, TK_ID)
             else (1 + k, TK_ILLEGAL))
     }"

text \<open>
  Digits and separators from \<open>z[i]\<close> on, while they pass the test \<open>P\<close>: how many, and the token type,
  which a separator turns into \<open>TK_QNUMBER\<close>.
\<close>

fun digit_loop :: "(nat \<Rightarrow> bool) \<Rightarrow> token \<Rightarrow> nat list \<Rightarrow> (nat \<times> token) option" where
  "digit_loop P t [] = None"
| "digit_loop P t (c # z) =
     (if P c then map_option (apfst Suc) (digit_loop P t z)
      else if c = ch CHR ''_'' then map_option (apfst Suc) (digit_loop P TK_QNUMBER z)
      else Some (0, t))"

definition digits_from :: "(nat \<Rightarrow> bool) \<Rightarrow> token \<Rightarrow> nat list \<Rightarrow> nat \<Rightarrow> (nat \<times> token) option" where
  "digits_from P t z i = map_option (apfst ((+) i)) (digit_loop P t (drop i z))"

definition to_float :: "token \<Rightarrow> token" where
  "to_float t = (if t = TK_INTEGER then TK_FLOAT else t)"

definition tok_fraction :: "nat list \<Rightarrow> nat \<times> token \<Rightarrow> (nat \<times> token) option" where
  "tok_fraction z p =
     (case p of (i, t) \<Rightarrow>
        do {
          c \<leftarrow> rd z i;
          if c = ch CHR ''.'' then digits_from sqlite3Isdigit (to_float t) z (i + 1) else Some (i, t)
        })"

definition exp_digits :: "nat list \<Rightarrow> nat \<Rightarrow> bool option" where
  "exp_digits z i =
     do {
       c \<leftarrow> rd z (i + 1);
       if sqlite3Isdigit c then Some True
       else if c = ch CHR ''+'' \<or> c = ch CHR ''-'' then do { d \<leftarrow> rd z (i + 2); Some (sqlite3Isdigit d) }
       else Some False
     }"

definition tok_exponent :: "nat list \<Rightarrow> nat \<times> token \<Rightarrow> (nat \<times> token) option" where
  "tok_exponent z p =
     (case p of (i, t) \<Rightarrow>
        do {
          c \<leftarrow> rd z i;
          e \<leftarrow> (if c = ch CHR ''e'' \<or> c = ch CHR ''E'' then exp_digits z i else Some False);
          if e then digits_from sqlite3Isdigit (to_float t) z (i + 2) else Some (i, t)
        })"

definition is_hex_prefix :: "nat list \<Rightarrow> bool option" where
  "is_hex_prefix z =
     do {
       c \<leftarrow> rd z 0;
       if c = ch CHR ''0'' then do {
         c \<leftarrow> rd z 1;
         if c = ch CHR ''x'' \<or> c = ch CHR ''X'' then do { c \<leftarrow> rd z 2; Some (sqlite3Isxdigit c) } else Some False
       } else Some False
     }"

definition tok_number :: "nat list \<Rightarrow> (nat \<times> token) option" where
  "tok_number z =
     do {
       hex \<leftarrow> is_hex_prefix z;
       (i, t) \<leftarrow>
         (if hex then digits_from sqlite3Isxdigit TK_INTEGER z 3
          else do {
            p \<leftarrow> digits_from sqlite3Isdigit TK_INTEGER z 0;
            p \<leftarrow> tok_fraction z p;
            tok_exponent z p
          });
       j \<leftarrow> scan IdChar z i;
       Some (j, if j > i then TK_ILLEGAL else t)
     }"

text \<open>\<open>for(i=1, c=z[0]; c!=']' && (c=z[i])!=0; i++)\<close>, with \<open>c\<close> the previous character.\<close>

fun bracket_loop :: "nat \<Rightarrow> nat list \<Rightarrow> (nat \<times> nat) option" where
  "bracket_loop c z =
     (if c = ch CHR '']'' then Some (0, c)
      else case z of
             [] \<Rightarrow> None
           | d # z' \<Rightarrow> (if d = 0 then Some (0, d) else map_option (apfst Suc) (bracket_loop d z')))"

declare bracket_loop.simps [simp del]

definition tok_bracket :: "nat list \<Rightarrow> (nat \<times> token) option" where
  "tok_bracket z =
     do {
       c \<leftarrow> rd z 0;
       (k, c) \<leftarrow> bracket_loop c (drop 1 z);
       Some (1 + k, if c = ch CHR '']'' then TK_ID else TK_ILLEGAL)
     }"

definition tok_varnum :: "nat list \<Rightarrow> (nat \<times> token) option" where
  "tok_varnum z = do { i \<leftarrow> scan sqlite3Isdigit z 1; Some (i, TK_VARIABLE) }"

text \<open>
  The loop over a variable from \<open>z[i]\<close> on: its length, the number \<open>n\<close> of identifier characters and
  the token type. The parenthesis of a Tcl array ends at \<open>)\<close>; a space or the end makes it illegal.
\<close>

definition var_paren :: "nat list \<Rightarrow> (nat \<times> token) option" where
  "var_paren z =
     do {
       i \<leftarrow> scan (\<lambda>c. c \<noteq> 0 \<and> \<not> sqlite3Isspace c \<and> c \<noteq> ch CHR '')'') z 1;
       c \<leftarrow> rd z i;
       Some (if c = ch CHR '')'' then (i + 1, TK_VARIABLE) else (i, TK_ILLEGAL))
     }"

fun var_loop :: "nat \<Rightarrow> nat list \<Rightarrow> (nat \<times> nat \<times> token) option" where
  "var_loop n [] = None"
| "var_loop n (c # z) =
     (if c = 0 then Some (0, n, TK_VARIABLE)
      else if IdChar c then map_option (apfst Suc) (var_loop (n + 1) z)
      else if c = ch CHR ''('' \<and> n > 0 then map_option (\<lambda>(i, t). (i, n, t)) (var_paren (c # z))
      else if c = ch CHR '':'' then
        (case z of
           [] \<Rightarrow> None
         | d # z' \<Rightarrow>
             (if d = ch CHR '':'' then map_option (apfst ((+) 2)) (var_loop n z') else Some (0, n, TK_VARIABLE)))
      else Some (0, n, TK_VARIABLE))"

definition tok_variable :: "nat list \<Rightarrow> (nat \<times> token) option" where
  "tok_variable z =
     do { (k, n, t) \<leftarrow> var_loop 0 (drop 1 z); Some (1 + k, if n = 0 then TK_ILLEGAL else t) }"

text \<open>The end of the function, \<open>while( IdChar(z[i]) ){ i++; }\<close>.\<close>

definition tok_id :: "nat list \<Rightarrow> nat \<Rightarrow> (nat \<times> token) option" where
  "tok_id z i = do { i \<leftarrow> scan IdChar z i; Some (i, TK_ID) }"

definition tok_keyword :: "(ctext \<Rightarrow> token) \<Rightarrow> nat list \<Rightarrow> (nat \<times> token) option" where
  "tok_keyword kw z =
     do {
       c \<leftarrow> rd z 1;
       if char_class c > CC_KYWD then tok_id z 1
       else do {
         i \<leftarrow> scan (\<lambda>c. char_class c \<le> CC_KYWD) z 2;
         c \<leftarrow> rd z i;
         if IdChar c then tok_id z (i + 1) else Some (i, kw (take i z))
       }
     }"

definition tok_x :: "nat list \<Rightarrow> (nat \<times> token) option" where
  "tok_x z =
     do {
       c \<leftarrow> rd z 1;
       if c = ch CHR 0x27 then do {
         i \<leftarrow> scan sqlite3Isxdigit z 2;
         c \<leftarrow> rd z i;
         (i, t) \<leftarrow> (if c \<noteq> ch CHR 0x27 \<or> i mod 2 \<noteq> 0
                    then do { i \<leftarrow> scan (\<lambda>c. c \<noteq> 0 \<and> c \<noteq> ch CHR 0x27) z i; Some (i, TK_ILLEGAL) }
                    else Some (i, TK_BLOB));
         c \<leftarrow> rd z i;
         Some (if c \<noteq> 0 then i + 1 else i, t)
       } else tok_id z 1
     }"

definition tok_bom :: "nat list \<Rightarrow> (nat \<times> token) option" where
  "tok_bom z =
     do {
       c \<leftarrow> rd z 1;
       if c = 0xbb then do { c \<leftarrow> rd z 2; if c = 0xbf then Some (3, TK_SPACE) else tok_id z 1 }
       else tok_id z 1
     }"

definition sqlite3GetToken :: "(ctext \<Rightarrow> token) \<Rightarrow> nat list \<Rightarrow> (nat \<times> token) option" where
  "sqlite3GetToken kw z =
     do {
       c \<leftarrow> rd z 0;
       let cc = char_class c in
       if cc = CC_SPACE then tok_space z
       else if cc = CC_MINUS then tok_minus z
       else if cc = CC_LP then Some (1, TK_LP)
       else if cc = CC_RP then Some (1, TK_RP)
       else if cc = CC_SEMI then Some (1, TK_SEMI)
       else if cc = CC_PLUS then Some (1, TK_PLUS)
       else if cc = CC_STAR then Some (1, TK_STAR)
       else if cc = CC_SLASH then tok_slash z
       else if cc = CC_PERCENT then Some (1, TK_REM)
       else if cc = CC_EQ then tok_eq z
       else if cc = CC_LT then tok_lt z
       else if cc = CC_GT then tok_gt z
       else if cc = CC_BANG then tok_bang z
       else if cc = CC_PIPE then tok_pipe z
       else if cc = CC_COMMA then Some (1, TK_COMMA)
       else if cc = CC_AND then Some (1, TK_BITAND)
       else if cc = CC_TILDA then Some (1, TK_BITNOT)
       else if cc = CC_QUOTE then tok_quote z
       else if cc = CC_DOT then
         do { c \<leftarrow> rd z 1; if \<not> sqlite3Isdigit c then Some (1, TK_DOT) else tok_number z }
       else if cc = CC_DIGIT then tok_number z
       else if cc = CC_QUOTE2 then tok_bracket z
       else if cc = CC_VARNUM then tok_varnum z
       else if cc = CC_DOLLAR \<or> cc = CC_VARALPHA then tok_variable z
       else if cc = CC_KYWD0 then tok_keyword kw z
       else if cc = CC_X then tok_x z
       else if cc = CC_KYWD \<or> cc = CC_ID then tok_id z 1
       else if cc = CC_BOM then tok_bom z
       else if cc = CC_NUL then Some (0, TK_ILLEGAL)
       else Some (1, TK_ILLEGAL)
     }"


section \<open>A token fits in the text\<close>

text \<open>
  A token ends within the text and, unless the text is at its end, is not empty. \<open>t\<close> is the text
  before the terminator.
\<close>

definition tok_fits :: "nat list \<Rightarrow> (nat \<times> token) option \<Rightarrow> bool" where
  "tok_fits t r \<longleftrightarrow> (\<exists>n ty. r = Some (n, ty) \<and> 0 < n \<and> n \<le> length t)"

lemma rd_term: "i \<le> length t \<Longrightarrow> rd (t @ [0]) i = Some (at t i)"
  by (auto simp: rd_def at_def nth_append)

lemma at_less: "at t i \<noteq> 0 \<Longrightarrow> i < length t"
  by (auto simp: at_def split: if_splits)

lemma span_term: "\<not> P 0 \<Longrightarrow> span P (t @ [0]) = Some (length (takeWhile P t))"
  by (induction t) auto

lemma scan_term:
  assumes "i \<le> length t" "\<not> P 0"
  shows "scan P (t @ [0]) i = Some (i + length (takeWhile P (drop i t)))"
    "i + length (takeWhile P (drop i t)) \<le> length t"
  using assms span_term [of P "drop i t"] length_takeWhile_le [of P "drop i t"] by (auto simp: scan_def)

lemma IdChar_0 [simp]: "\<not> IdChar 0"
  by (simp add: IdChar_def sqlite3CtypeMap_def)

lemma char_class_0 [simp]: "char_class 0 = CC_NUL"
  by (simp add: char_class_def aiClass_def)

lemma scan_fits: "0 < i \<Longrightarrow> i \<le> length t \<Longrightarrow> \<not> P 0 \<Longrightarrow>
    tok_fits t (map_option (\<lambda>i. (i, ty)) (scan P (t @ [0]) i))"
  using scan_term [of i t P] by (auto simp: tok_fits_def)

lemma comment_loop_term: "\<exists>k d. comment_loop c (t @ [0]) = Some (k, d) \<and> (if d = 0 then k \<le> length t else k < length t)"
proof (induction t arbitrary: c)
  case (Cons x t)
  obtain k d where "comment_loop x (t @ [0]) = Some (k, d)" "if d = 0 then k \<le> length t else k < length t"
    using Cons.IH by blast
  then show ?case by (auto split: if_splits)
qed simp

lemma quote_loop_term: "\<exists>k d. quote_loop q (t @ [0]) = Some (k, d) \<and> (if d = 0 then k \<le> length t else k < length t)"
proof (induction q t rule: quote_loop.induct)
  case (2 q x t)
  consider "x = 0" | "x \<noteq> 0" "x \<noteq> q" | "x \<noteq> 0" "x = q" "t = []" | y u where "x \<noteq> 0" "x = q" "t = y # u"
    by (cases t) auto
  then show ?case
  proof cases
    case 2
    obtain k d where "quote_loop q (t @ [0]) = Some (k, d)" "if d = 0 then k \<le> length t else k < length t"
      using "2.IH"(2) [OF 2] by blast
    with 2 show ?thesis by (auto split: if_splits)
  next
    case 4
    show ?thesis
    proof (cases "y = q")
      case True
      obtain k d where "quote_loop q (u @ [0]) = Some (k, d)" "if d = 0 then k \<le> length u else k < length u"
        using "2.IH"(1) [OF 4(1,2,3) True] by blast
      with 4 True show ?thesis by (auto split: if_splits)
    qed (use 4 in simp)
  qed auto
qed simp

lemma digit_loop_term: "\<not> P 0 \<Longrightarrow> \<exists>k ty. digit_loop P u (t @ [0]) = Some (k, ty) \<and> k \<le> length t"
proof (induction t arbitrary: u)
  case (Cons c t)
  obtain k ty k' ty' where "digit_loop P u (t @ [0]) = Some (k, ty)" "k \<le> length t"
    "digit_loop P TK_QNUMBER (t @ [0]) = Some (k', ty')" "k' \<le> length t"
    using Cons by meson
  then show ?case by auto
qed simp

lemma digits_from_term:
  assumes "\<not> P 0" "i \<le> length t"
  shows "\<exists>j ty. digits_from P u (t @ [0]) i = Some (j, ty) \<and> i \<le> j \<and> j \<le> length t"
proof -
  obtain k ty where "digit_loop P u (drop i t @ [0]) = Some (k, ty)" "k \<le> length (drop i t)"
    using digit_loop_term [of P u "drop i t"] assms(1) by blast
  with assms(2) show ?thesis by (auto simp: digits_from_def)
qed

lemma bracket_loop_term: "\<exists>k d. bracket_loop c (t @ [0]) = Some (k, d) \<and> k \<le> length t"
proof (induction t arbitrary: c)
  case (Cons x t)
  obtain k d where "bracket_loop x (t @ [0]) = Some (k, d)" "k \<le> length t" using Cons.IH by blast
  then show ?case by (subst bracket_loop.simps) auto
qed (subst bracket_loop.simps, simp)

lemma var_paren_term: "\<exists>k ty. var_paren (c # t @ [0]) = Some (k, ty) \<and> 0 < k \<and> k \<le> Suc (length t)"
proof -
  let ?P = "\<lambda>c. c \<noteq> 0 \<and> \<not> sqlite3Isspace c \<and> c \<noteq> ch CHR '')''"
  define i where "i = 1 + length (takeWhile ?P t)"
  have s: "scan ?P ((c # t) @ [0]) 1 = Some i" "i \<le> length (c # t)"
    using scan_term [of 1 "c # t" ?P] by (simp_all add: i_def)
  have r: "rd ((c # t) @ [0]) i = Some (at (c # t) i)" by (rule rd_term [OF s(2)])
  have "0 < i" by (simp add: i_def)
  with s r at_less [of "c # t" i] show ?thesis
    by (cases "at (c # t) i = ch CHR '')''") (auto simp: var_paren_def)
qed

lemma var_loop_term: "\<exists>k m ty. var_loop n (t @ [0]) = Some (k, m, ty) \<and> k \<le> length t"
proof (induction n t rule: var_loop.induct)
  case (2 n x t)
  consider "x = 0" | "x \<noteq> 0" "IdChar x" | "x \<noteq> 0" "\<not> IdChar x" "x = ch CHR ''('' \<and> n > 0"
    | "x \<noteq> 0" "\<not> IdChar x" "\<not> (x = ch CHR ''('' \<and> n > 0)" "x = ch CHR '':''"
    | "x \<noteq> 0" "\<not> IdChar x" "\<not> (x = ch CHR ''('' \<and> n > 0)" "x \<noteq> ch CHR '':''" by blast
  then show ?case
  proof cases
    case 2
    from "2.IH"(1) [OF this] obtain k m ty where "var_loop (n + 1) (t @ [0]) = Some (k, m, ty)" "k \<le> length t" by blast
    with 2 show ?thesis by simp
  next
    case 3
    with var_paren_term [of x t] show ?thesis by auto
  next
    case 4
    show ?thesis
    proof (cases t)
      case (Cons y u)
      show ?thesis
      proof (cases "y = ch CHR '':''")
        case True
        from "2.IH"(2) [OF 4 Cons True] obtain k m ty where "var_loop n (u @ [0]) = Some (k, m, ty)" "k \<le> length u" by blast
        with 4 Cons True show ?thesis by simp
      qed (use 4 Cons in auto)
    qed (use 4 in auto)
  qed auto
qed simp

lemma tok_fits_I: "r = Some (n, ty) \<Longrightarrow> 0 < n \<Longrightarrow> n \<le> length t \<Longrightarrow> tok_fits t r"
  by (auto simp: tok_fits_def)

lemma tok_fits_Some [simp]: "tok_fits t (Some (n, ty)) \<longleftrightarrow> 0 < n \<and> n \<le> length t"
  by (auto simp: tok_fits_def)

lemma tok_id_fits: "0 < i \<Longrightarrow> i \<le> length t \<Longrightarrow> tok_fits t (tok_id (t @ [0]) i)"
  using scan_term [of i t IdChar] by (simp add: tok_id_def)

lemma tok_simple_fits:
  assumes "t \<noteq> []"
  shows "tok_fits t (tok_space (t @ [0]))" "tok_fits t (tok_minus (t @ [0]))" "tok_fits t (tok_varnum (t @ [0]))"
    "tok_fits t (tok_eq (t @ [0]))" "tok_fits t (tok_lt (t @ [0]))" "tok_fits t (tok_gt (t @ [0]))"
    "tok_fits t (tok_bang (t @ [0]))" "tok_fits t (tok_pipe (t @ [0]))"
proof -
  have l: "Suc 0 \<le> length t" using assms by (cases t) auto
  note r = rd_term [OF l]
  have two: "2 \<le> length t" if "at t 1 \<noteq> 0" using at_less [OF that] by simp
  show "tok_fits t (tok_space (t @ [0]))" "tok_fits t (tok_varnum (t @ [0]))"
    using l scan_term [OF l] by (simp_all add: tok_space_def tok_varnum_def)
  show "tok_fits t (tok_eq (t @ [0]))" "tok_fits t (tok_lt (t @ [0]))" "tok_fits t (tok_gt (t @ [0]))"
    "tok_fits t (tok_bang (t @ [0]))" "tok_fits t (tok_pipe (t @ [0]))"
    using l two by (auto simp: tok_eq_def tok_lt_def tok_gt_def tok_bang_def tok_pipe_def r)
  show "tok_fits t (tok_minus (t @ [0]))"
  proof (cases "at t 1 = ch CHR ''-'' \<or> at t 1 = ch CHR ''>''")
    case True
    then have l2: "2 \<le> length t" using two by auto
    have three: "3 \<le> length t" if "at t 2 = ch CHR ''>''" using at_less [of t 2] that by simp
    show ?thesis
      using True l2 three scan_term [OF l2] by (auto simp: tok_minus_def r rd_term [OF l2])
  qed (use l in \<open>auto simp: tok_minus_def r\<close>)
qed

lemma tok_slash_fits: "t \<noteq> [] \<Longrightarrow> tok_fits t (tok_slash (t @ [0]))"
proof -
  assume "t \<noteq> []"
  then have l: "Suc 0 \<le> length t" by (cases t) auto
  show ?thesis
  proof (cases "at t 1 = ch CHR ''*''")
    case True
    then have l2: "2 \<le> length t" using at_less [of t 1] by simp
    show ?thesis
    proof (cases "at t 2 = 0")
      case False
      then have l3: "3 \<le> length t" using at_less [of t 2] by simp
      obtain k d where "comment_loop (at t 2) (drop 3 t @ [0]) = Some (k, d)"
        "if d = 0 then k \<le> length (drop 3 t) else k < length (drop 3 t)"
        using comment_loop_term [of "at t 2" "drop 3 t"] by blast
      with True False l3 show ?thesis
        by (auto simp: tok_slash_def rd_term [OF l] rd_term [OF l2] split: if_splits)
    qed (use l l2 True in \<open>simp add: tok_slash_def rd_term [OF l] rd_term [OF l2]\<close>)
  qed (use l in \<open>simp add: tok_slash_def rd_term [OF l]\<close>)
qed

lemma tok_quote_fits: "t \<noteq> [] \<Longrightarrow> tok_fits t (tok_quote (t @ [0]))"
proof -
  assume t: "t \<noteq> []"
  then obtain q u where "t = q # u" by (cases t) auto
  with quote_loop_term [of q u] show ?thesis by (auto simp: tok_quote_def split: if_splits)
qed

lemma tok_bracket_fits: "t \<noteq> [] \<Longrightarrow> tok_fits t (tok_bracket (t @ [0]))"
proof -
  assume t: "t \<noteq> []"
  then obtain q u where "t = q # u" by (cases t) auto
  with bracket_loop_term [of q u] show ?thesis by (auto simp: tok_bracket_def)
qed

lemma tok_variable_fits: "t \<noteq> [] \<Longrightarrow> tok_fits t (tok_variable (t @ [0]))"
proof -
  assume t: "t \<noteq> []"
  then obtain q u where "t = q # u" by (cases t) auto
  with var_loop_term [of 0 u] show ?thesis by (auto simp: tok_variable_def)
qed

lemma tok_keyword_fits: "t \<noteq> [] \<Longrightarrow> tok_fits t (tok_keyword kw (t @ [0]))"
proof -
  assume "t \<noteq> []"
  then have l: "Suc 0 \<le> length t" by (cases t) auto
  show ?thesis
  proof (cases "char_class (at t 1) > CC_KYWD")
    case True
    then show ?thesis using tok_id_fits [OF _ l] by (simp add: tok_keyword_def rd_term [OF l])
  next
    case False
    then have "at t 1 \<noteq> 0" by (intro notI) simp
    then have l2: "2 \<le> length t" using at_less [of t 1] by simp
    let ?P = "\<lambda>c. char_class c \<le> CC_KYWD"
    define i where "i = 2 + length (takeWhile ?P (drop 2 t))"
    have s: "scan ?P (t @ [0]) 2 = Some i" "i \<le> length t" "2 \<le> i"
      using scan_term [OF l2, of ?P] by (simp_all add: i_def)
    have "i + 1 \<le> length t" if "IdChar (at t i)"
      using at_less [of t i] that by (cases "at t i = 0") auto
    with False s l tok_id_fits [of "i + 1" t] show ?thesis
      by (auto simp: tok_keyword_def rd_term [OF l] rd_term [OF s(2)])
  qed
qed

lemma tok_x_fits: "t \<noteq> [] \<Longrightarrow> tok_fits t (tok_x (t @ [0]))"
proof -
  assume "t \<noteq> []"
  then have l: "Suc 0 \<le> length t" by (cases t) auto
  show ?thesis
  proof (cases "at t 1 = ch CHR 0x27")
    case True
    then have l2: "2 \<le> length t" using at_less [of t 1] by simp
    obtain i where s: "scan sqlite3Isxdigit (t @ [0]) 2 = Some i" "i \<le> length t" "2 \<le> i"
      using scan_term [OF l2, of sqlite3Isxdigit] by simp
    let ?P = "\<lambda>c. c \<noteq> 0 \<and> c \<noteq> ch CHR 0x27"
    obtain j where s': "scan ?P (t @ [0]) i = Some j" "j \<le> length t" "2 \<le> j"
      using scan_term [OF s(2), of ?P] s(3) by simp
    have n: "at t k \<noteq> 0 \<Longrightarrow> k + 1 \<le> length t" for k using at_less [of t k] by simp
    show ?thesis
      using True s s' n [of i] n [of j]
      by (simp add: tok_x_def rd_term [OF l] rd_term [OF s(2)] rd_term [OF s'(2)])
  qed (use l tok_id_fits [OF _ l] in \<open>simp add: tok_x_def rd_term [OF l]\<close>)
qed

lemma tok_bom_fits: "t \<noteq> [] \<Longrightarrow> tok_fits t (tok_bom (t @ [0]))"
proof -
  assume "t \<noteq> []"
  then have l: "Suc 0 \<le> length t" by (cases t) auto
  show ?thesis
  proof (cases "at t 1 = 0xbb")
    case True
    then have l2: "2 \<le> length t" using at_less [of t 1] by simp
    have "3 \<le> length t" if "at t 2 = 0xbf" using at_less [of t 2] that by simp
    with True show ?thesis
      using tok_id_fits [OF _ l] by (simp add: tok_bom_def rd_term [OF l] rd_term [OF l2])
  qed (use l tok_id_fits [OF _ l] in \<open>simp add: tok_bom_def rd_term [OF l]\<close>)
qed


lemma tok_number_fits:
  assumes "t \<noteq> []" "sqlite3Isdigit (at t 0) \<or> at t 0 = ch CHR ''.'' \<and> sqlite3Isdigit (at t 1)"
  shows "tok_fits t (tok_number (t @ [0]))"
proof -
  have r: "rd (t @ [0]) i = Some (at t i)" if "i \<le> length t" for i using rd_term [OF that] .
  have l: "1 \<le> length t" using assms(1) by (cases t) auto
  have n: "i + 1 \<le> length t" if "at t i \<noteq> 0" for i using at_less [OF that] by simp
  have d: "at t i \<noteq> 0" if "sqlite3Isdigit (at t i)" for i using that by (intro notI) simp
  have tail: "tok_fits t (do { j \<leftarrow> scan IdChar (t @ [0]) i; Some (j, f j i) })" if "0 < i" "i \<le> length t" for i f
    using scan_term [OF that(2), of IdChar] that by simp
  obtain hex where hex: "is_hex_prefix (t @ [0]) = Some hex" "hex \<longrightarrow> 3 \<le> length t"
  proof (cases "at t 0 = ch CHR ''0'' \<and> (at t 1 = ch CHR ''x'' \<or> at t 1 = ch CHR ''X'')")
    case True
    then have "2 \<le> length t" using n [of 1] by auto
    moreover have "3 \<le> length t" if "sqlite3Isxdigit (at t 2)"
      using that n [of 2] by (cases "at t 2 = 0") auto
    ultimately show ?thesis
      using True l by (intro that [of "sqlite3Isxdigit (at t 2)"]) (auto simp: is_hex_prefix_def r)
  next
    case False
    then show ?thesis using l by (intro that [of False]) (auto simp: is_hex_prefix_def r [simplified] r)
  qed
  show ?thesis
  proof (cases hex)
    case True
    then obtain j ty where "digits_from sqlite3Isxdigit TK_INTEGER (t @ [0]) 3 = Some (j, ty)" "3 \<le> j" "j \<le> length t"
      using digits_from_term [of sqlite3Isxdigit 3 t TK_INTEGER] hex(2) by auto
    with True hex(1) tail [of j] show ?thesis by (simp add: tok_number_def)
  next
    case False
    obtain j ty where j: "digits_from sqlite3Isdigit TK_INTEGER (t @ [0]) 0 = Some (j, ty)" "j \<le> length t"
      using digits_from_term [of sqlite3Isdigit 0 t TK_INTEGER] by auto
    have j0: "0 < j \<or> at t j = ch CHR ''.''"
      using assms(2) j(1) by (cases t) (auto simp: digits_from_def Isdigit_eq [of 46])
    obtain k ty' where k: "tok_fraction (t @ [0]) (j, ty) = Some (k, ty')" "k \<le> length t" "0 < k"
    proof (cases "at t j = ch CHR ''.''")
      case True
      then have "j + 1 \<le> length t" using n [of j] by simp
      then obtain k ty' where "digits_from sqlite3Isdigit (to_float ty) (t @ [0]) (j + 1) = Some (k, ty')" "j + 1 \<le> k" "k \<le> length t"
        using digits_from_term [of sqlite3Isdigit "j + 1" t "to_float ty"] by auto
      with True j(2) show ?thesis by (intro that [of k ty']) (simp_all add: tok_fraction_def r)
    next
      case False
      with j j0 show ?thesis by (intro that [of j ty]) (auto simp: tok_fraction_def r)
    qed
    have "\<exists>e. (if at t k = ch CHR ''e'' \<or> at t k = ch CHR ''E'' then exp_digits (t @ [0]) k else Some False) = Some e \<and>
        (e \<longrightarrow> k + 2 \<le> length t)"
    proof (cases "at t k = ch CHR ''e'' \<or> at t k = ch CHR ''E''")
      case True
      then have k1: "k + 1 \<le> length t" using n [of k] by auto
      have k2: "at t (k + 1) \<noteq> 0 \<Longrightarrow> k + 2 \<le> length t" using n [of "k + 1"] by simp
      have "sqlite3Isdigit (at t (k + 1)) \<Longrightarrow> k + 2 \<le> length t" using d k2 by blast
      with True k1 k2 show ?thesis by (auto simp: exp_digits_def r [OF k1] r)
    qed auto
    then obtain e where e: "(if at t k = ch CHR ''e'' \<or> at t k = ch CHR ''E'' then exp_digits (t @ [0]) k else Some False) = Some e"
      "e \<longrightarrow> k + 2 \<le> length t" by blast
    obtain m ty'' where m: "tok_exponent (t @ [0]) (k, ty') = Some (m, ty'')" "m \<le> length t" "0 < m"
    proof (cases e)
      case True
      then show ?thesis
        using digits_from_term [of sqlite3Isdigit "k + 2" t "to_float ty'"] e k(2) that by (auto simp: tok_exponent_def r)
    next
      case False
      then show ?thesis using e k that by (auto simp: tok_exponent_def r)
    qed
    show ?thesis using False hex(1) j(1) k(1) m tail [of m] by (simp add: tok_number_def)
  qed
qed

lemma classes:
  "list_all (\<lambda>(c, k). (k = 29 \<longleftrightarrow> c = 0) \<and> (k = 3 \<longleftrightarrow> 48 \<le> c \<and> c \<le> 57) \<and> (k = 26 \<longleftrightarrow> c = 46) \<and>
     (k = 0 \<or> k = 1 \<or> k = 2 \<longleftrightarrow> 65 \<le> c \<and> c \<le> 90 \<or> 97 \<le> c \<and> c \<le> 122 \<or> c = 95) \<and>
     (k = 27 \<or> k = 30 \<longleftrightarrow> 128 \<le> c) \<and> (k \<noteq> 0 \<or> c = 88 \<or> c = 120) \<and> (k \<noteq> 30 \<or> c = 239)) (enumerate 0 aiClass)"
  by code_simp

lemma class_iff:
  assumes "c < 256"
  shows "char_class c = CC_NUL \<longleftrightarrow> c = 0" "char_class c = CC_DIGIT \<longleftrightarrow> 48 \<le> c \<and> c \<le> 57"
    "char_class c = CC_DOT \<longleftrightarrow> c = 46"
    "char_class c = CC_X \<or> char_class c = CC_KYWD0 \<or> char_class c = CC_KYWD \<longleftrightarrow>
      65 \<le> c \<and> c \<le> 90 \<or> 97 \<le> c \<and> c \<le> 122 \<or> c = 95"
    "char_class c = CC_ID \<or> char_class c = CC_BOM \<longleftrightarrow> 128 \<le> c"
    "char_class c = CC_X \<Longrightarrow> c \<in> {88, 120}" "char_class c = CC_BOM \<Longrightarrow> c = 239"
proof -
  have "length aiClass = 256" by (simp add: aiClass_def)
  then have "(c, char_class c) \<in> set (enumerate 0 aiClass)"
    using assms by (simp add: in_set_enumerate_eq char_class_def)
  then have "case (c, char_class c) of (c, k) \<Rightarrow> (k = 29 \<longleftrightarrow> c = 0) \<and> (k = 3 \<longleftrightarrow> 48 \<le> c \<and> c \<le> 57) \<and> (k = 26 \<longleftrightarrow> c = 46) \<and>
     (k = 0 \<or> k = 1 \<or> k = 2 \<longleftrightarrow> 65 \<le> c \<and> c \<le> 90 \<or> 97 \<le> c \<and> c \<le> 122 \<or> c = 95) \<and>
     (k = 27 \<or> k = 30 \<longleftrightarrow> 128 \<le> c) \<and> (k \<noteq> 0 \<or> c = 88 \<or> c = 120) \<and> (k \<noteq> 30 \<or> c = 239)"
    using classes unfolding list_all_iff by (rule bspec [rotated])
  then show "char_class c = CC_NUL \<longleftrightarrow> c = 0" "char_class c = CC_DIGIT \<longleftrightarrow> 48 \<le> c \<and> c \<le> 57"
    "char_class c = CC_DOT \<longleftrightarrow> c = 46"
    "char_class c = CC_X \<or> char_class c = CC_KYWD0 \<or> char_class c = CC_KYWD \<longleftrightarrow>
      65 \<le> c \<and> c \<le> 90 \<or> 97 \<le> c \<and> c \<le> 122 \<or> c = 95"
    "char_class c = CC_ID \<or> char_class c = CC_BOM \<longleftrightarrow> 128 \<le> c"
    "char_class c = CC_X \<Longrightarrow> c \<in> {88, 120}" "char_class c = CC_BOM \<Longrightarrow> c = 239"
    by simp_all
qed

lemma class_text:
  assumes "0 < c" "c < 256"
  shows "char_class c \<noteq> CC_NUL" "char_class c = CC_DIGIT \<Longrightarrow> sqlite3Isdigit c" "char_class c = CC_DOT \<Longrightarrow> c = ch CHR ''.''"
  using assms class_iff(1-3) [OF assms(2)] by (simp_all add: Isdigit_eq)

lemma GetToken_fits:
  assumes "is_text t" "t \<noteq> []"
  shows "tok_fits t (sqlite3GetToken kw (t @ [0]))"
proof -
  have l: "Suc 0 \<le> length t" using assms(2) by (cases t) auto
  have c: "0 < at t 0" "at t 0 < 256" using assms by (cases t; simp)+
  note k = class_text [OF c]
  have r: "rd (t @ [0]) 0 = Some (at t 0)" "rd (t @ [0]) (Suc 0) = Some (at t (Suc 0))"
    using rd_term [of 0 t] rd_term [OF l] by simp_all
  have n: "char_class (at t 0) = CC_DIGIT \<Longrightarrow> tok_fits t (tok_number (t @ [0]))"
    "char_class (at t 0) = CC_DOT \<Longrightarrow> sqlite3Isdigit (at t (Suc 0)) \<Longrightarrow> tok_fits t (tok_number (t @ [0]))"
    using tok_number_fits [OF assms(2)] k(2,3) by auto
  show ?thesis
    unfolding sqlite3GetToken_def r bind.bind_lunit Let_def
    using l n k(1) tok_simple_fits [OF assms(2)] tok_id_fits [OF _ l] tok_slash_fits [OF assms(2)] tok_quote_fits [OF assms(2)]
      tok_bracket_fits [OF assms(2)] tok_variable_fits [OF assms(2)] tok_keyword_fits [OF assms(2)] tok_x_fits [OF assms(2)]
      tok_bom_fits [OF assms(2)]
    by (simp add: r)
qed

lemma GetToken_end: "sqlite3GetToken kw [0] = Some (0, TK_ILLEGAL)"
  by (simp add: sqlite3GetToken_def)

end
