(* ===== verification/ParseLoop.thy ===== *)
theory ParseLoop
  imports Tokenize
begin

text \<open>
  How \<^verbatim>\<open>src/tokenize.c\<close> drives the parser: the lookahead that tells the keywords WINDOW, OVER and
  FILTER from identifiers (\<open>analyzeWindowKeyword\<close>, \<open>analyzeOverKeyword\<close>, \<open>analyzeFilterKeyword\<close>),
  and \<open>sqlite3RunParser\<close>. The parser and \<open>sqlite3ParserFallback\<close>, generated from the grammar,
  are the parameters \<open>parser\<close> and \<open>fallback\<close>.
\<close>

section \<open>Lookahead\<close>

partial_function (option) next_token ::
  "(ctext \<Rightarrow> token) \<Rightarrow> nat list \<Rightarrow> (token \<times> nat list) option"
where
  "next_token kw z =
     do {
       (n, t) \<leftarrow> sqlite3GetToken kw z;
       if t = TK_SPACE then next_token kw (drop n z) else Some (t, drop n z)
     }"

definition getToken ::
  "(ctext \<Rightarrow> token) \<Rightarrow> (token \<Rightarrow> token) \<Rightarrow> nat list \<Rightarrow> (token \<times> nat list) option"
where
  "getToken kw fallback z =
     do {
       (t, z) \<leftarrow> next_token kw z;
       Some (if t \<in> {TK_ID, TK_STRING, TK_JOIN_KW, TK_WINDOW, TK_OVER} \<or> fallback t = TK_ID then TK_ID else t, z)
     }"

definition analyzeWindowKeyword :: "(ctext \<Rightarrow> token) \<Rightarrow> (token \<Rightarrow> token) \<Rightarrow> nat list \<Rightarrow> token option" where
  "analyzeWindowKeyword kw fallback z =
     do {
       (t, z) \<leftarrow> getToken kw fallback z;
       if t \<noteq> TK_ID then Some TK_ID
       else do {
         (t, z) \<leftarrow> getToken kw fallback z;
         Some (if t \<noteq> TK_AS then TK_ID else TK_WINDOW)
       }
     }"

definition analyzeOverKeyword ::
  "(ctext \<Rightarrow> token) \<Rightarrow> (token \<Rightarrow> token) \<Rightarrow> nat list \<Rightarrow> token option \<Rightarrow> token option"
where
  "analyzeOverKeyword kw fallback z lastToken =
     (if lastToken = Some TK_RP then
        do { (t, z) \<leftarrow> getToken kw fallback z; Some (if t = TK_LP \<or> t = TK_ID then TK_OVER else TK_ID) }
      else Some TK_ID)"

definition analyzeFilterKeyword ::
  "(ctext \<Rightarrow> token) \<Rightarrow> (token \<Rightarrow> token) \<Rightarrow> nat list \<Rightarrow> token option \<Rightarrow> token option"
where
  "analyzeFilterKeyword kw fallback z lastToken =
     (if lastToken = Some TK_RP then
        do { (t, z) \<leftarrow> getToken kw fallback z; Some (if t = TK_LP then TK_FILTER else TK_ID) }
      else Some TK_ID)"

section \<open>The loop\<close>

text \<open>
  The part of \<open>Parse\<close> and of its connection that the loop uses; \<open>p_engine\<close> is the state of the
  generated parser. \<open>parser\<close> is \<open>sqlite3Parser\<close>: it takes a token and its text and may change
  the whole record.
\<close>

record 'p parse =
  p_engine :: 'p
  p_rc :: nat
  p_nErr :: nat
  p_zErrMsg :: bool
  p_suppressErr :: bool
  p_mallocFailed :: bool

abbreviation (input) SQLITE_INTERRUPT :: nat where "SQLITE_INTERRUPT \<equiv> 9"
abbreviation (input) SQLITE_TOOBIG :: nat where "SQLITE_TOOBIG \<equiv> 18"
abbreviation (input) SQLITE_DONE :: nat where "SQLITE_DONE \<equiv> 101"

definition sqlite3ErrorMsg :: "'p parse \<Rightarrow> 'p parse" where
  "sqlite3ErrorMsg p =
     (if p_suppressErr p then
        (if p_mallocFailed p then p\<lparr>p_nErr := p_nErr p + 1, p_rc := SQLITE_NOMEM\<rparr> else p)
      else p\<lparr>p_nErr := p_nErr p + 1, p_zErrMsg := True, p_rc := SQLITE_ERROR\<rparr>)"

text \<open>What the loop holds: the rest of the text, \<open>mxSqlLen\<close>, \<open>lastTokenParsed\<close> (none is -1), the record.\<close>

type_synonym 'p loop_state = "nat list \<times> int \<times> token option \<times> 'p parse"

text \<open>\<open>sqlite3Parser\<close> and what follows it in the loop.\<close>

definition feed ::
  "(token \<Rightarrow> ctext \<Rightarrow> 'p parse \<Rightarrow> 'p parse) \<Rightarrow> token \<Rightarrow> nat \<Rightarrow> 'p loop_state \<Rightarrow> 'p loop_state + nat list \<times> 'p parse"
where
  "feed parser t n s =
     (case s of (z, mx, lastT, p) \<Rightarrow>
        let p' = parser t (take n z) p
        in if p_rc p' \<noteq> SQLITE_OK then Inr (drop n z, p') else Inl (drop n z, mx, Some t, p'))"

text \<open>
  One iteration; \<open>intr\<close> is whether \<open>isInterrupted\<close> is read as set. \<open>Inl\<close> goes on, \<open>Inr\<close> is \<open>break\<close>.
  A failing assertion is \<open>None\<close>; the one after the call of the parser, that it reports running out
  of memory in \<open>rc\<close>, is a promise of the generated parser, which is a parameter here, and is not
  checked.
\<close>

definition parse_step ::
  "(ctext \<Rightarrow> token) \<Rightarrow> (token \<Rightarrow> token) \<Rightarrow> (token \<Rightarrow> ctext \<Rightarrow> 'p parse \<Rightarrow> 'p parse) \<Rightarrow> bool \<Rightarrow>
    'p loop_state \<Rightarrow> ('p loop_state + nat list \<times> 'p parse) option"
where
  "parse_step kw fallback parser intr s =
     (case s of (z, mx, lastT, p) \<Rightarrow>
        do {
          (n, t) \<leftarrow> sqlite3GetToken kw z;
          let mx = mx - int n; s = (z, mx, lastT, p) in
          if mx < 0 then Some (Inr (z, p\<lparr>p_rc := SQLITE_TOOBIG, p_nErr := p_nErr p + 1\<rparr>))
          else if \<not> tk_special t then Some (feed parser t n s)
          else if intr then Some (Inr (z, p\<lparr>p_rc := SQLITE_INTERRUPT, p_nErr := p_nErr p + 1\<rparr>))
          else if t = TK_SPACE then Some (Inl (drop n z, mx, lastT, p))
          else do {
            c \<leftarrow> rd z 0;
            if c = 0 then
              (if lastT = Some TK_SEMI then Some (feed parser TK_EOF 0 s)
               else if lastT = Some TK_EOF then Some (Inr (z, p))
               else Some (feed parser TK_SEMI 0 s))
            else if t = TK_WINDOW then
              (if n \<noteq> 6 then None
               else do { t \<leftarrow> analyzeWindowKeyword kw fallback (drop 6 z); Some (feed parser t n s) })
            else if t = TK_OVER then
              (if n \<noteq> 4 then None
               else do { t \<leftarrow> analyzeOverKeyword kw fallback (drop 4 z) lastT; Some (feed parser t n s) })
            else if t = TK_FILTER then
              (if n \<noteq> 6 then None
               else do { t \<leftarrow> analyzeFilterKeyword kw fallback (drop 6 z) lastT; Some (feed parser t n s) })
            else if t \<noteq> TK_QNUMBER then Some (Inr (z, sqlite3ErrorMsg p))
            else Some (feed parser t n s)
          }
        })"

text \<open>\<open>intr k\<close> is what iteration \<open>k\<close> reads.\<close>

partial_function (option) parse_loop ::
  "(ctext \<Rightarrow> token) \<Rightarrow> (token \<Rightarrow> token) \<Rightarrow> (token \<Rightarrow> ctext \<Rightarrow> 'p parse \<Rightarrow> 'p parse) \<Rightarrow> (nat \<Rightarrow> bool) \<Rightarrow>
    nat \<Rightarrow> 'p loop_state \<Rightarrow> (nat list \<times> 'p parse) option"
where
  "parse_loop kw fallback parser intr k s =
     do {
       r \<leftarrow> parse_step kw fallback parser (intr k) s;
       case r of Inr out \<Rightarrow> Some out | Inl s \<Rightarrow> parse_loop kw fallback parser intr (k + 1) s
     }"

text \<open>After the loop: the number of errors returned, and the record.\<close>

definition parser_done :: "'p parse \<Rightarrow> nat \<times> 'p parse" where
  "parser_done p =
     (let p = (if p_mallocFailed p then p\<lparr>p_rc := SQLITE_NOMEM\<rparr> else p)
      in if p_zErrMsg p \<or> (p_rc p \<noteq> SQLITE_OK \<and> p_rc p \<noteq> SQLITE_DONE) then (1, p\<lparr>p_zErrMsg := True\<rparr>)
         else (0, p))"

text \<open>
  \<open>engine\<close> is the new parser, none when memory runs out. The result is the number of errors
  returned, \<open>zTail\<close> (what was not parsed) and the record.
\<close>

definition sqlite3RunParser ::
  "(ctext \<Rightarrow> token) \<Rightarrow> (token \<Rightarrow> token) \<Rightarrow> (token \<Rightarrow> ctext \<Rightarrow> 'p parse \<Rightarrow> 'p parse) \<Rightarrow> (nat \<Rightarrow> bool) \<Rightarrow>
    'p option \<Rightarrow> nat \<Rightarrow> nat list \<Rightarrow> 'p parse \<Rightarrow> (nat \<times> nat list \<times> 'p parse) option"
where
  "sqlite3RunParser kw fallback parser intr engine mxSqlLen zSql p =
     (let p = p\<lparr>p_rc := SQLITE_OK\<rparr> in
      case engine of
        None \<Rightarrow> Some (SQLITE_NOMEM, zSql, p\<lparr>p_mallocFailed := True\<rparr>)
      | Some e \<Rightarrow>
          do {
            (z, p) \<leftarrow> parse_loop kw fallback parser intr 0 (zSql, int mxSqlLen, None, p\<lparr>p_engine := e\<rparr>);
            let (nErr, p) = parser_done p in Some (nErr, z, p)
          })"

section \<open>Where the lookahead keywords come from\<close>

text \<open>What the generated keyword table promises.\<close>

definition kw_ok :: "(ctext \<Rightarrow> token) \<Rightarrow> bool" where
  "kw_ok kw \<longleftrightarrow> (\<forall>w. kw w \<notin> {TK_EOF, TK_SPACE, TK_ILLEGAL, TK_QNUMBER} \<and>
     (kw w = TK_WINDOW \<longrightarrow> length w = 6) \<and> (kw w = TK_OVER \<longrightarrow> length w = 4) \<and> (kw w = TK_FILTER \<longrightarrow> length w = 6))"

definition tok_own :: "(nat \<times> token) option \<Rightarrow> bool" where
  "tok_own r \<longleftrightarrow> (case r of None \<Rightarrow> True | Some (n, t) \<Rightarrow> t \<notin> {TK_EOF, TK_WINDOW, TK_OVER, TK_FILTER})"

lemma tok_own_simps [simp]: "tok_own None" "tok_own (Some (n, t)) \<longleftrightarrow> t \<notin> {TK_EOF, TK_WINDOW, TK_OVER, TK_FILTER}"
  by (simp_all add: tok_own_def)

lemma tok_own_bind: "(\<And>x. m = Some x \<Longrightarrow> tok_own (f x)) \<Longrightarrow> tok_own (m \<bind> f)"
  by (cases m) auto

lemma tok_own_bind': "tok_own m \<Longrightarrow> (\<And>p. tok_own (Some p) \<Longrightarrow> tok_own (f p)) \<Longrightarrow> tok_own (m \<bind> f)"
  by (cases m) auto

lemma tok_own_apfst [simp]: "tok_own (map_option (apfst f) r) \<longleftrightarrow> tok_own r"
  by (cases r) auto

lemma digit_loop_own: "t \<notin> {TK_EOF, TK_WINDOW, TK_OVER, TK_FILTER} \<Longrightarrow> tok_own (digit_loop P t z)"
  by (induction P t z rule: digit_loop.induct) auto

lemma digits_from_own: "t \<notin> {TK_EOF, TK_WINDOW, TK_OVER, TK_FILTER} \<Longrightarrow> tok_own (digits_from P t z i)"
  using digit_loop_own [of t P "drop i z"] by (simp add: digits_from_def)

lemma tok_own_float: "t \<notin> {TK_EOF, TK_WINDOW, TK_OVER, TK_FILTER} \<Longrightarrow> to_float t \<notin> {TK_EOF, TK_WINDOW, TK_OVER, TK_FILTER}"
  by (simp add: to_float_def)

lemma tok_number_own: "tok_own (tok_number z)"
proof -
  have f: "tok_own (tok_fraction z p)" and e: "tok_own (tok_exponent z p)" if "tok_own (Some p)" for p
    using that digits_from_own [OF tok_own_float, of "snd p" sqlite3Isdigit z]
    by (cases p; auto simp: tok_fraction_def tok_exponent_def intro!: tok_own_bind)+
  have d: "tok_own (digits_from P TK_INTEGER z i)" for P i by (rule digits_from_own) simp
  have "tok_own (if hex then digits_from sqlite3Isxdigit TK_INTEGER z 3
          else do { p \<leftarrow> digits_from sqlite3Isdigit TK_INTEGER z 0; p \<leftarrow> tok_fraction z p; tok_exponent z p })" for hex
    by (simp add: d) (intro impI tok_own_bind' [OF d] tok_own_bind' [OF f] e)
  then show ?thesis
    unfolding tok_number_def by (intro tok_own_bind tok_own_bind') (auto intro!: tok_own_bind)
qed

lemma var_loop_own: "var_loop n z = Some (k, m, t) \<Longrightarrow> t \<in> {TK_VARIABLE, TK_ILLEGAL}"
  by (induction n z arbitrary: k rule: var_loop.induct)
    (auto simp: var_paren_def bind_eq_Some_conv split: if_splits list.splits)

lemma tok_own_all:
  "tok_own (tok_space z)" "tok_own (tok_minus z)" "tok_own (tok_slash z)" "tok_own (tok_eq z)" "tok_own (tok_lt z)"
  "tok_own (tok_gt z)" "tok_own (tok_bang z)" "tok_own (tok_pipe z)" "tok_own (tok_quote z)" "tok_own (tok_bracket z)"
  "tok_own (tok_varnum z)" "tok_own (tok_id z i)" "tok_own (tok_bom z)"
  by (auto simp: tok_space_def tok_minus_def tok_slash_def tok_eq_def tok_lt_def tok_gt_def tok_bang_def tok_pipe_def
      tok_quote_def tok_bracket_def tok_varnum_def tok_id_def tok_bom_def intro!: tok_own_bind split: prod.splits)

lemma tok_variable_own: "tok_own (tok_variable z)"
  by (auto simp: tok_variable_def intro!: tok_own_bind dest: var_loop_own)

lemma tok_x_own: "tok_own (tok_x z)"
proof -
  have "tok_own (if b then do { i \<leftarrow> scan P z i; Some (i, TK_ILLEGAL) } else Some (i, TK_BLOB))" for b P i
    by (auto intro!: tok_own_bind)
  then have "tok_own (case p of (i, t) \<Rightarrow> do { c \<leftarrow> rd z i; Some (if c \<noteq> 0 then i + 1 else i, t) })"
    if "(if b then do { i \<leftarrow> scan P z i; Some (i, TK_ILLEGAL) } else Some (i, TK_BLOB)) = Some p" for b P i p
    using that by (cases p) (auto intro!: tok_own_bind simp: bind_eq_Some_conv split: if_splits)
  then show ?thesis
    unfolding tok_x_def
    by (intro tok_own_bind, simp only: split: if_split) (intro conjI impI tok_own_bind tok_own_all, assumption?)
qed

lemma tok_id_type: "tok_id z i = Some (n, t) \<Longrightarrow> t = TK_ID"
  by (auto simp: tok_id_def bind_eq_Some_conv)

lemma tok_keyword_own:
  assumes "tok_keyword kw z = Some (n, t)" "t \<in> {TK_EOF, TK_WINDOW, TK_OVER, TK_FILTER}" "n \<le> length z"
  shows "\<exists>w. t = kw w \<and> n = length w"
proof -
  have "t \<noteq> TK_ID" using assms(2) by auto
  then have "t = kw (take n z)"
    using assms(1) by (auto simp: tok_keyword_def bind_eq_Some_conv dest!: tok_id_type split: if_splits)
  with assms(3) show ?thesis by (intro exI [of _ "take n z"]) simp
qed

lemma GetToken_keyword:
  assumes "sqlite3GetToken kw z = Some (n, t)" "t \<in> {TK_EOF, TK_WINDOW, TK_OVER, TK_FILTER}" "n \<le> length z"
  shows "\<exists>w. t = kw w \<and> n = length w"
proof -
  obtain c where c: "rd z 0 = Some c" using assms(1) by (auto simp: sqlite3GetToken_def bind_eq_Some_conv)
  have o: "\<not> tok_own (sqlite3GetToken kw z)" using assms(1,2) by simp
  have "char_class c = CC_KYWD0"
  proof (rule ccontr)
    assume "char_class c \<noteq> CC_KYWD0"
    then have "tok_own (sqlite3GetToken kw z)"
      using c tok_own_all [of z] tok_variable_own [of z] tok_number_own [of z] tok_x_own [of z]
      by (auto simp: sqlite3GetToken_def Let_def intro!: tok_own_bind)
    with o show False ..
  qed
  then have "sqlite3GetToken kw z = tok_keyword kw z" using c by (simp add: sqlite3GetToken_def)
  with assms tok_keyword_own show ?thesis by simp
qed

lemma GetToken_lookahead:
  assumes "kw_ok kw" "sqlite3GetToken kw z = Some (n, t)" "n \<le> length z"
  shows "t = TK_WINDOW \<Longrightarrow> n = 6" "t = TK_OVER \<Longrightarrow> n = 4" "t = TK_FILTER \<Longrightarrow> n = 6" "t \<noteq> TK_EOF"
  using GetToken_keyword [OF assms(2) _ assms(3)] assms(1) unfolding kw_ok_def by (auto, metis)


section \<open>The tokens of a text\<close>

text \<open>\<open>t\<close> is the text before its terminator; a token that does not fit ends the list.\<close>

function tokens :: "(ctext \<Rightarrow> token) \<Rightarrow> ctext \<Rightarrow> (token \<times> ctext) list" where
  "tokens kw t =
     (if t = [] then []
      else case sqlite3GetToken kw (t @ [0]) of
             None \<Rightarrow> []
           | Some (n, ty) \<Rightarrow> (if 0 < n \<and> n \<le> length t then (ty, take n t) # tokens kw (drop n t) else []))"
  by pat_completeness auto
termination by (relation "measure (\<lambda>(kw, t). length t)") auto

declare tokens.simps [simp del]

definition words :: "(ctext \<Rightarrow> token) \<Rightarrow> ctext \<Rightarrow> (token \<times> ctext) list" where
  "words kw t = filter (\<lambda>(ty, w). ty \<noteq> TK_SPACE) (tokens kw t)"

lemma GetToken_some:
  assumes "is_text t" "t \<noteq> []"
  obtains n ty where "sqlite3GetToken kw (t @ [0]) = Some (n, ty)" "0 < n" "n \<le> length t"
    "tokens kw t = (ty, take n t) # tokens kw (drop n t)" "is_text (drop n t)"
    "drop n (t @ [0]) = drop n t @ [0]" "take n (t @ [0]) = take n t"
proof -
  obtain n ty where g: "sqlite3GetToken kw (t @ [0]) = Some (n, ty)" "0 < n" "n \<le> length t"
    using GetToken_fits [OF assms, of kw] by (auto simp: tok_fits_def)
  have "is_text (drop n t)"
    using assms(1) is_text_simps(3) [of "take n t" "drop n t"] by simp
  with g assms(2) show ?thesis
    by (intro that [of n ty]) (simp_all add: tokens.simps [of kw t])
qed

lemma tokens_Nil [simp]: "tokens kw [] = []" "words kw [] = []"
  by (simp_all add: tokens.simps words_def)

lemma text_induct [consumes 1, case_names empty token]:
  assumes "is_text t" "P []"
    and "\<And>t n ty. is_text t \<Longrightarrow> t \<noteq> [] \<Longrightarrow> sqlite3GetToken kw (t @ [0]) = Some (n, ty) \<Longrightarrow> 0 < n \<Longrightarrow> n \<le> length t \<Longrightarrow>
      tokens kw t = (ty, take n t) # tokens kw (drop n t) \<Longrightarrow> drop n (t @ [0]) = drop n t @ [0] \<Longrightarrow>
      take n (t @ [0]) = take n t \<Longrightarrow> P (drop n t) \<Longrightarrow> P t"
  shows "P t"
  using assms(1)
proof (induction "length t" arbitrary: t rule: less_induct)
  case less
  show ?case
  proof (cases "t = []")
    case False
    obtain n ty where g: "sqlite3GetToken kw (t @ [0]) = Some (n, ty)" "0 < n" "n \<le> length t"
      "tokens kw t = (ty, take n t) # tokens kw (drop n t)" "is_text (drop n t)"
      "drop n (t @ [0]) = drop n t @ [0]" "take n (t @ [0]) = take n t"
      by (rule GetToken_some [OF less.prems False])
    have "P (drop n t)" using less.hyps [OF _ g(5)] g(2,3) False by simp
    with assms(3) [OF less.prems False g(1-4,6,7)] show ?thesis .
  qed (use assms(2) in simp)
qed

lemma tokens_partition: "is_text t \<Longrightarrow> concat (map snd (tokens kw t)) = t \<and> [] \<notin> snd ` set (tokens kw t)"
  by (induction t rule: text_induct [where kw = kw]) auto

lemma next_token_words:
  "is_text t \<Longrightarrow> \<exists>u. is_text u \<and> next_token kw (t @ [0]) =
     Some (case words kw t of [] \<Rightarrow> TK_ILLEGAL | (ty, w) # ws \<Rightarrow> ty, u @ [0]) \<and> words kw u = tl (words kw t)"
proof (induction t rule: text_induct [where kw = kw])
  case empty
  show ?case by (intro exI [of _ "[]"]) (subst next_token.simps, simp add: GetToken_end)
next
  case (token t n ty)
  have d: "is_text (drop n t)" using token(1) is_text_simps(3) [of "take n t" "drop n t"] by simp
  show ?case
  proof (cases "ty = TK_SPACE")
    case True
    then have "words kw t = words kw (drop n t)" by (simp add: words_def token(6))
    with token True show ?thesis by (subst next_token.simps) simp
  next
    case False
    then have "words kw t = (ty, take n t) # words kw (drop n t)" by (simp add: words_def token(6))
    with token False d show ?thesis by (subst next_token.simps) auto
  qed
qed

section \<open>What the parser is given\<close>

text \<open>\<open>getToken\<close> sees the words, some of them as identifiers; after the last it sees \<open>TK_ILLEGAL\<close>.\<close>

definition as_id :: "(token \<Rightarrow> token) \<Rightarrow> token \<Rightarrow> token" where
  "as_id fallback t =
     (if t \<in> {TK_ID, TK_STRING, TK_JOIN_KW, TK_WINDOW, TK_OVER} \<or> fallback t = TK_ID then TK_ID else t)"

definition look :: "(token \<Rightarrow> token) \<Rightarrow> (token \<times> ctext) list \<Rightarrow> token" where
  "look fallback ws = as_id fallback (case ws of [] \<Rightarrow> TK_ILLEGAL | (ty, w) # ws \<Rightarrow> ty)"

text \<open>The token the parser is given for a word, from the token before it and the words after it.\<close>

definition resolve :: "(token \<Rightarrow> token) \<Rightarrow> token option \<Rightarrow> token \<Rightarrow> (token \<times> ctext) list \<Rightarrow> token" where
  "resolve fallback lastT ty ws =
     (if ty = TK_WINDOW then
        (if look fallback ws = TK_ID \<and> look fallback (tl ws) = TK_AS then TK_WINDOW else TK_ID)
      else if ty = TK_OVER then
        (if lastT = Some TK_RP \<and> look fallback ws \<in> {TK_LP, TK_ID} then TK_OVER else TK_ID)
      else if ty = TK_FILTER then
        (if lastT = Some TK_RP \<and> look fallback ws = TK_LP then TK_FILTER else TK_ID)
      else ty)"

lemma getToken_words:
  "is_text t \<Longrightarrow> \<exists>u. is_text u \<and> getToken kw fallback (t @ [0]) = Some (look fallback (words kw t), u @ [0]) \<and>
     words kw u = tl (words kw t)"
  using next_token_words [of t kw] by (auto simp: getToken_def look_def as_id_def)

lemma analyze_words:
  assumes "is_text t"
  shows "analyzeWindowKeyword kw fallback (t @ [0]) = Some (resolve fallback lastT TK_WINDOW (words kw t))"
    "analyzeOverKeyword kw fallback (t @ [0]) lastT = Some (resolve fallback lastT TK_OVER (words kw t))"
    "analyzeFilterKeyword kw fallback (t @ [0]) lastT = Some (resolve fallback lastT TK_FILTER (words kw t))"
proof -
  obtain u where u: "is_text u" "getToken kw fallback (t @ [0]) = Some (look fallback (words kw t), u @ [0])"
    "words kw u = tl (words kw t)" using getToken_words [OF assms] by blast
  obtain v where v: "getToken kw fallback (u @ [0]) = Some (look fallback (tl (words kw t)), v @ [0])"
    using getToken_words [OF u(1)] u(3) by metis
  show "analyzeWindowKeyword kw fallback (t @ [0]) = Some (resolve fallback lastT TK_WINDOW (words kw t))"
    "analyzeOverKeyword kw fallback (t @ [0]) lastT = Some (resolve fallback lastT TK_OVER (words kw t))"
    "analyzeFilterKeyword kw fallback (t @ [0]) lastT = Some (resolve fallback lastT TK_FILTER (words kw t))"
    using u(2) v by (simp_all add: analyzeWindowKeyword_def analyzeOverKeyword_def analyzeFilterKeyword_def resolve_def)
qed

text \<open>
  The words of a text driven through the parser: a semicolon is added when the last one is missing,
  then the end of the input; an error of the parser or an illegal word ends it.
\<close>

fun drive ::
  "(token \<Rightarrow> token) \<Rightarrow> (token \<Rightarrow> ctext \<Rightarrow> 'p parse \<Rightarrow> 'p parse) \<Rightarrow> token option \<Rightarrow> 'p parse \<Rightarrow>
    (token \<times> ctext) list \<Rightarrow> 'p parse"
where
  "drive fallback parser lastT p [] =
     (if lastT = Some TK_SEMI then parser TK_EOF [] p
      else let p = parser TK_SEMI [] p in if p_rc p \<noteq> SQLITE_OK then p else parser TK_EOF [] p)"
| "drive fallback parser lastT p ((ty, w) # ws) =
     (if ty = TK_ILLEGAL then sqlite3ErrorMsg p
      else let ty = resolve fallback lastT ty ws; p = parser ty w p
           in if p_rc p \<noteq> SQLITE_OK then p else drive fallback parser (Some ty) p ws)"


section \<open>The loop drives the words through the parser\<close>

lemma parse_step_token:
  assumes "kw_ok kw" "is_text t" "t \<noteq> []" "sqlite3GetToken kw (t @ [0]) = Some (n, ty)" "n \<le> length t"
  shows "parse_step kw fallback parser intr (t @ [0], mx, lastT, p) =
    Some (if mx - int n < 0 then Inr (t @ [0], p\<lparr>p_rc := SQLITE_TOOBIG, p_nErr := p_nErr p + 1\<rparr>)
          else if tk_special ty \<and> intr then Inr (t @ [0], p\<lparr>p_rc := SQLITE_INTERRUPT, p_nErr := p_nErr p + 1\<rparr>)
          else if ty = TK_SPACE then Inl (drop n (t @ [0]), mx - int n, lastT, p)
          else if ty = TK_ILLEGAL then Inr (t @ [0], sqlite3ErrorMsg p)
          else feed parser (resolve fallback lastT ty (words kw (drop n t))) n (t @ [0], mx - int n, lastT, p))"
proof -
  have nz: "rd (t @ [0]) 0 = Some (at t 0)" "at t 0 \<noteq> 0"
    using assms(2,3) rd_term [of 0 t] by (cases t; simp)+
  have d: "is_text (drop n t)" using assms(2) is_text_simps(3) [of "take n t" "drop n t"] by simp
  note k = GetToken_lookahead [OF assms(1,4)]
  have six: "is_text (drop 6 t)" "n = 6 \<Longrightarrow> drop 6 (t @ [0]) = drop 6 t @ [0]" "n = 6 \<Longrightarrow> words kw (drop n t) = words kw (drop 6 t)"
    and four: "is_text (drop 4 t)" "n = 4 \<Longrightarrow> drop 4 (t @ [0]) = drop 4 t @ [0]" "n = 4 \<Longrightarrow> words kw (drop n t) = words kw (drop 4 t)"
    using assms(2,5) is_text_simps(3) [of "take 6 t" "drop 6 t"] is_text_simps(3) [of "take 4 t" "drop 4 t"] by simp_all
  have r: "resolve fallback lastT ty ws = ty" if "ty \<notin> {TK_WINDOW, TK_OVER, TK_FILTER}" for ws
    using that by (simp add: resolve_def)
  consider "\<not> tk_special ty" | "ty = TK_WINDOW" | "ty = TK_OVER" | "ty = TK_FILTER" | "ty = TK_QNUMBER" | "ty = TK_SPACE" | "ty = TK_ILLEGAL"
    by (auto simp: tk_special_def)
  then show ?thesis
  proof cases
    case 1
    then show ?thesis using assms(4) r by (auto simp: parse_step_def Let_def tk_special_def)
  next
    case 2
    with k(1) assms(4,5) nz six analyze_words(1) [OF six(1), of kw fallback lastT] show ?thesis
      by (simp add: parse_step_def Let_def tk_special_def)
  next
    case 3
    with k(2) assms(4,5) nz four analyze_words(2) [OF four(1)] show ?thesis
      by (simp add: parse_step_def Let_def tk_special_def)
  next
    case 4
    with k(3) assms(4,5) nz six analyze_words(3) [OF six(1)] show ?thesis
      by (simp add: parse_step_def Let_def tk_special_def)
  qed (use assms(4) r nz in \<open>simp_all add: parse_step_def Let_def tk_special_def\<close>)
qed

lemma parse_step_out:
  assumes "kw_ok kw" "is_text t" "t \<noteq> []" "sqlite3GetToken kw (t @ [0]) = Some (n, ty)" "n \<le> length t"
  shows "(\<exists>mx' lastT' p'. 0 \<le> mx' \<and>
        parse_step kw fallback parser intr (t @ [0], mx, lastT, p) = Some (Inl (drop n t @ [0], mx', lastT', p'))) \<or>
    (\<exists>i p'. i \<le> length t \<and> parse_step kw fallback parser intr (t @ [0], mx, lastT, p) = Some (Inr (drop i t @ [0], p')))"
proof -
  have stop: ?thesis if "parse_step kw fallback parser intr (t @ [0], mx, lastT, p) = Some (Inr (t @ [0], p'))" for p'
    using that by (intro disjI2 exI [of _ 0]) auto
  note st = parse_step_token [OF assms, of fallback parser intr mx lastT p]
  have d: "drop n (t @ [0]) = drop n t @ [0]" using assms(5) by simp
  consider "mx - int n < 0" | "\<not> mx - int n < 0" "tk_special ty \<and> intr" | "\<not> mx - int n < 0" "\<not> (tk_special ty \<and> intr)" "ty = TK_SPACE"
    | "\<not> mx - int n < 0" "\<not> (tk_special ty \<and> intr)" "ty = TK_ILLEGAL"
    | "\<not> mx - int n < 0" "\<not> (tk_special ty \<and> intr)" "ty \<noteq> TK_SPACE" "ty \<noteq> TK_ILLEGAL" by blast
  then show ?thesis
  proof cases
    case 4
    then have "parse_step kw fallback parser intr (t @ [0], mx, lastT, p) = Some (Inr (t @ [0], sqlite3ErrorMsg p))"
      using st by auto
    then show ?thesis by (rule stop)
  next
    case 3
    with st d show ?thesis by (intro disjI1 exI [of _ "mx - int n"]) simp
  next
    case 5
    let ?p = "parser (resolve fallback lastT ty (words kw (drop n t))) (take n (t @ [0])) p"
    have s: "parse_step kw fallback parser intr (t @ [0], mx, lastT, p) =
        Some (feed parser (resolve fallback lastT ty (words kw (drop n t))) n (t @ [0], mx - int n, lastT, p))"
      using st 5 by simp
    show ?thesis
    proof (cases "p_rc ?p = SQLITE_OK")
      case True
      with s d 5(1) show ?thesis by (intro disjI1 exI [of _ "mx - int n"]) (simp add: feed_def Let_def)
    next
      case False
      with s d assms(5) show ?thesis by (intro disjI2 exI [of _ n]) (simp add: feed_def Let_def)
    qed
  qed (rule stop, use st in simp)+
qed

lemma parse_step_end:
  "0 \<le> mx \<Longrightarrow> parse_step kw fallback parser intr ([0], mx, lastT, p) =
    Some (if intr then Inr ([0], p\<lparr>p_rc := SQLITE_INTERRUPT, p_nErr := p_nErr p + 1\<rparr>)
          else if lastT = Some TK_SEMI then feed parser TK_EOF 0 ([0], mx, lastT, p)
          else if lastT = Some TK_EOF then Inr ([0], p)
          else feed parser TK_SEMI 0 ([0], mx, lastT, p))"
  by (simp add: parse_step_def GetToken_end tk_special_def Let_def)

lemma parse_step_end_big: "mx < 0 \<Longrightarrow> \<exists>out. parse_step kw fallback parser intr ([0], mx, lastT, p) = Some (Inr out)"
  by (simp add: parse_step_def GetToken_end Let_def)

lemma parse_loop_end_of_file: "0 \<le> mx \<Longrightarrow>
    \<exists>p'. parse_loop kw fallback parser intr k ([0], mx, Some TK_EOF, p) = Some ([0], p')"
  by (subst parse_loop.simps) (simp add: parse_step_end)

lemma parse_loop_after_semi: "0 \<le> mx \<Longrightarrow>
    \<exists>p'. parse_loop kw fallback parser intr k ([0], mx, Some TK_SEMI, p) = Some ([0], p')"
  using parse_loop_end_of_file [of mx kw fallback parser intr "k + 1"]
  by (subst parse_loop.simps) (auto simp: parse_step_end feed_def Let_def)

lemma parse_loop_at_end: "0 \<le> mx \<Longrightarrow> \<exists>p'. parse_loop kw fallback parser intr k ([0], mx, lastT, p) = Some ([0], p')"
  using parse_loop_after_semi [of mx kw fallback parser intr "k + 1"] parse_loop_end_of_file [of mx kw fallback parser intr "k + 1"]
  by (subst parse_loop.simps) (auto simp: parse_step_end feed_def Let_def)

lemma parse_loop_total:
  assumes "kw_ok kw"
  shows "is_text t \<Longrightarrow> 0 \<le> mx \<Longrightarrow>
    \<exists>i p'. i \<le> length t \<and> parse_loop kw fallback parser intr k (t @ [0], mx, lastT, p) = Some (drop i t @ [0], p')"
proof (induction t arbitrary: mx lastT p k rule: text_induct [where kw = kw])
  case empty
  then show ?case using parse_loop_at_end [of mx kw fallback parser intr k lastT p] by simp
next
  case (token t n ty)
  from parse_step_out [OF assms token(1,2,3,5), of fallback parser "intr k" mx lastT p] show ?case
  proof (elim disjE exE conjE)
    fix mx' lastT' p'
    assume g: "0 \<le> mx'" "parse_step kw fallback parser (intr k) (t @ [0], mx, lastT, p) = Some (Inl (drop n t @ [0], mx', lastT', p'))"
    obtain i p'' where "i \<le> length (drop n t)"
      "parse_loop kw fallback parser intr (k + 1) (drop n t @ [0], mx', lastT', p') = Some (drop i (drop n t) @ [0], p'')"
      using token.IH [OF g(1)] by blast
    with g(2) token(5) show ?case by (intro exI [of _ "i + n"]) (subst parse_loop.simps, auto)
  next
    fix i p'
    assume "i \<le> length t" "parse_step kw fallback parser (intr k) (t @ [0], mx, lastT, p) = Some (Inr (drop i t @ [0], p'))"
    then show ?case by (intro exI [of _ i]) (subst parse_loop.simps, simp)
  qed
qed

lemma parse_loop_drive:
  assumes "kw_ok kw"
  shows "is_text t \<Longrightarrow> int (length t) \<le> mx \<Longrightarrow> lastT \<noteq> Some TK_EOF \<Longrightarrow>
    \<exists>rest. parse_loop kw fallback parser (\<lambda>_. False) k (t @ [0], mx, lastT, p) = Some (rest, drive fallback parser lastT p (words kw t))"
proof (induction t arbitrary: mx lastT p k rule: text_induct [where kw = kw])
  case empty
  have e: "parse_loop kw fallback parser (\<lambda>_. False) k ([0], mx, Some TK_EOF, p) = Some ([0], p)" for k p
    using empty by (subst parse_loop.simps) (simp add: parse_step_end)
  have s: "parse_loop kw fallback parser (\<lambda>_. False) k ([0], mx, Some TK_SEMI, p) = Some ([0], parser TK_EOF [] p)" for k p
    using empty e by (subst parse_loop.simps) (simp add: parse_step_end feed_def Let_def)
  show ?case
  proof (cases "lastT = Some TK_SEMI")
    case False
    with empty s show ?thesis by (subst parse_loop.simps) (simp add: parse_step_end feed_def Let_def)
  qed (simp add: s)
next
  case (token t n ty)
  note st = parse_step_token [OF assms token(1,2,3,5), of fallback parser False mx lastT p]
  have mx: "0 \<le> mx - int n" "int (length (drop n t)) \<le> mx - int n" using token(4,5) token.prems(1) by simp_all
  show ?case
  proof (cases "ty = TK_SPACE")
    case True
    then have w: "words kw t = words kw (drop n t)" by (simp add: words_def token(6))
    from True st mx token(7) have "parse_step kw fallback parser False (t @ [0], mx, lastT, p) =
      Some (Inl (drop n t @ [0], mx - int n, lastT, p))" by simp
    with token.IH [OF mx(2) token.prems(2)] w show ?thesis by (subst parse_loop.simps) simp
  next
    case False
    then have w: "words kw t = (ty, take n t) # words kw (drop n t)" by (simp add: words_def token(6))
    show ?thesis
    proof (cases "ty = TK_ILLEGAL")
      case True
      with st mx w show ?thesis by (subst parse_loop.simps) simp
    next
      case False': False
      let ?ty = "resolve fallback lastT ty (words kw (drop n t))"
      let ?p = "parser ?ty (take n t) p"
      have ne: "?ty \<noteq> TK_EOF"
        using GetToken_lookahead(4) [OF assms token(3)] token(5) by (auto simp: resolve_def split: if_splits)
      have s: "parse_step kw fallback parser False (t @ [0], mx, lastT, p) =
          Some (feed parser ?ty n (t @ [0], mx - int n, lastT, p))"
        using st mx False False' by simp
      show ?thesis
      proof (cases "p_rc ?p = SQLITE_OK")
        case True
        then have "parse_step kw fallback parser False (t @ [0], mx, lastT, p) =
            Some (Inl (drop n t @ [0], mx - int n, Some ?ty, ?p))"
          using s token(7,8) by (simp add: feed_def Let_def)
        with token.IH [OF mx(2), of "Some ?ty" "k + 1" ?p] ne w False' True show ?thesis
          by (subst parse_loop.simps) (simp add: Let_def)
      next
        case False
        with s w False' token(7,8) show ?thesis by (subst parse_loop.simps) (simp add: feed_def Let_def)
      qed
    qed
  qed
qed


section \<open>Words and quoted texts\<close>

lemma class_id: "c < 256 \<Longrightarrow> char_class c \<in> {CC_X, CC_KYWD0, CC_KYWD, CC_ID, CC_BOM} \<Longrightarrow> IdChar c"
  using class_iff(4,5) [of c] by (auto simp: IdChar_eq Isalnum_eq Isalpha_eq)

lemma takeWhile_skip:
  assumes "list_all P (take i t)" "i \<le> length t"
  shows "i + length (takeWhile P (drop i t)) = length (takeWhile P t)"
proof -
  have "takeWhile P (take i t @ drop i t) = take i t @ takeWhile P (drop i t)"
    using assms(1) by (intro takeWhile_append2) (simp add: list_all_iff)
  then have "length (takeWhile P t) = length (take i t @ takeWhile P (drop i t))" by simp
  with assms(2) show ?thesis by simp
qed

lemma tok_id_word:
  assumes "list_all IdChar (take i t)" "i \<le> length t"
  shows "tok_id (t @ [0]) i = Some (length (takeWhile IdChar t), TK_ID)"
  using scan_term [OF assms(2), of IdChar] takeWhile_skip [OF assms] by (simp add: tok_id_def)

definition plain_word :: "ctext \<Rightarrow> bool" where
  "plain_word w \<longleftrightarrow> char_class (hd w) = CC_KYWD0 \<and> 2 \<le> length w \<and> list_all (\<lambda>c. char_class c \<le> CC_KYWD) w"

lemma tok_keyword_word:
  assumes "is_text t" "t \<noteq> []" "char_class (hd t) = CC_KYWD0"
  defines "w \<equiv> takeWhile IdChar t"
  shows "tok_keyword kw (t @ [0]) = Some (length w, if plain_word w then kw w else TK_ID)"
proof -
  obtain c u where t: "t = c # u" using assms(2) by (cases t) auto
  have c: "0 < c" "c < 256" "char_class c = CC_KYWD0" "is_text u" using assms(1,3) t by auto
  have id: "IdChar x" if "x \<in> set t" "char_class x \<le> CC_KYWD" for x
  proof -
    have "x < 256" using that(1) assms(1) by (auto simp: is_text_def list_all_iff)
    moreover have "char_class x = 0 \<or> char_class x = 1 \<or> char_class x = 2" using that(2) by linarith
    ultimately show ?thesis using class_id [of x] by auto
  qed
  have idc: "IdChar c" using id [of c] c(3) t by simp
  then have w: "w = c # takeWhile IdChar u" by (simp add: w_def t)
  have l: "Suc 0 \<le> length t" by (simp add: t)
  note r = rd_term [OF l]
  show ?thesis
  proof (cases "char_class (at t 1) > CC_KYWD")
    case True
    have "\<not> plain_word w"
      using True by (cases u) (auto simp: plain_word_def w t split: if_splits)
    moreover have "tok_id (t @ [0]) 1 = Some (length w, TK_ID)"
      unfolding w_def using tok_id_word [of 1 t] idc t by simp
    ultimately show ?thesis using True by (simp add: tok_keyword_def r)
  next
    case False
    let ?P = "\<lambda>c. char_class c \<le> CC_KYWD"
    from False obtain d v where u: "u = d # v" "char_class d \<le> CC_KYWD" by (cases u) (auto simp: t)
    define i where "i = 2 + length (takeWhile ?P v)"
    have s: "scan ?P (t @ [0]) 2 = Some i" "i \<le> length t"
      using scan_term [of 2 t ?P] by (simp_all add: i_def t u)
    have tk: "take i t = c # d # takeWhile ?P v" by (simp add: i_def t u takeWhile_eq_take [symmetric])
    have cls: "list_all ?P (take i t)" using c(3) u(2) by (simp add: tk list_all_iff) (auto dest: set_takeWhileD)
    then have ids: "list_all IdChar (take i t)" using id by (auto simp: list_all_iff dest: in_set_takeD)
    have rest: "\<not> ?P (at t i)"
    proof (cases "i < length t")
      case True
      then have "length (takeWhile ?P v) < length v" by (simp add: i_def t u)
      then have "\<not> ?P (v ! length (takeWhile ?P v))" by (rule nth_length_takeWhile)
      with True show ?thesis by (simp add: at_def i_def t u)
    qed (simp add: at_def)
    show ?thesis
    proof (cases "IdChar (at t i)")
      case True
      then have i: "i < length t" using at_less [of t i] by (cases "at t i = 0") auto
      then have tk1: "take (Suc i) t = take i t @ [at t i]" by (simp add: take_Suc_conv_app_nth at_def)
      have id1: "list_all IdChar (take (i + 1) t)" using ids True tk1 by simp
      have g: "tok_id (t @ [0]) (i + 1) = Some (length w, TK_ID)"
        unfolding w_def using tok_id_word [OF id1] i by simp
      have "w = takeWhile IdChar (take (i + 1) t @ drop (i + 1) t)" unfolding append_take_drop_id by (simp add: w_def)
      also have "\<dots> = take (i + 1) t @ takeWhile IdChar (drop (i + 1) t)"
        using id1 by (intro takeWhile_append2) (simp add: list_all_iff)
      finally have "w = take i t @ at t i # takeWhile IdChar (drop (i + 1) t)" using tk1 by simp
      then have "\<not> plain_word w" using rest by (simp add: plain_word_def)
      with False True g s show ?thesis by (simp add: tok_keyword_def r rd_term [OF s(2)])
    next
      case False': False
      have "takeWhile IdChar (drop i t) = []"
        using False' by (cases "drop i t") (auto simp: at_def split: if_splits dest: nth_via_drop)
      then have w': "w = take i t" using takeWhile_append2 [of "take i t" IdChar "drop i t"] ids
        by (simp add: w_def list_all_iff)
      then have "plain_word w" "length w = i" using cls c(3) s(2) by (auto simp: plain_word_def i_def t)
      with False False' s w' show ?thesis by (simp add: tok_keyword_def r rd_term [OF s(2)])
    qed
  qed
qed

lemma quote_loop_double:
  assumes "is_text s" "q \<noteq> 0" "r = [] \<or> hd r \<noteq> q"
  shows "quote_loop q (double q s @ q # r @ [0]) = Some (length (double q s), q)"
  using assms(1)
proof (induction s)
  case Nil
  with assms(2,3) show ?case by (cases r) auto
qed (use assms(2) in auto)

lemma quoted_one_token:
  assumes "is_text s" "q \<in> {34, 39, 96}" "r = [] \<or> hd r \<noteq> q"
  shows "sqlite3GetToken kw ((q # double q s @ [q]) @ r @ [0]) =
    Some (length (q # double q s @ [q]), if q = 39 then TK_STRING else TK_ID)"
proof -
  have "char_class q = CC_QUOTE" using assms(2) by (auto simp: char_class_def aiClass_def)
  with quote_loop_double [OF assms(1) _ assms(3)] assms(2) show ?thesis
    by (auto simp: sqlite3GetToken_def tok_quote_def)
qed

section \<open>Properties\<close>

text \<open>
  C33: \<open>sqlite3GetToken\<close> cuts every text into tokens: called again and again it never reads behind
  the terminator, every token is at least one byte long, and the tokens joined are the text.
\<close>

theorem tokenizer_partition:
  assumes "is_text t"
  shows "(t \<noteq> [] \<longrightarrow> (\<exists>n ty. sqlite3GetToken kw (t @ [0]) = Some (n, ty) \<and> 0 < n \<and> n \<le> length t)) \<and>
    concat (map snd (tokens kw t)) = t \<and> [] \<notin> snd ` set (tokens kw t)"
  using GetToken_fits [OF assms, of kw] tokens_partition [OF assms, of kw] by (auto simp: tok_fits_def)

lemma tokenizer_partition_witness:
  "concat (map snd (tokens (\<lambda>_. TK_ID) (map ch ''a<>1.5--x''))) = map ch ''a<>1.5--x''"
  using tokenizer_partition [of "map ch ''a<>1.5--x''" "\<lambda>_. TK_ID"] by simp

text \<open>
  C35: Words. Where an identifier or keyword starts (and no blob literal), the token is the longest
  run of identifier characters; it is looked up among the keywords exactly when it consists of
  at least two letters or underscores and starts with a letter other than x, y or z.
\<close>

theorem word_token:
  assumes "is_text t" "t \<noteq> []" "sqlite3Isalpha (hd t) \<or> hd t = 95 \<or> 128 \<le> hd t" "take 2 t \<notin> {[120, 39], [88, 39]}"
    and "take 3 t \<noteq> [0xef, 0xbb, 0xbf]"
  defines "w \<equiv> takeWhile IdChar t"
  shows "sqlite3GetToken kw (t @ [0]) =
    Some (length w, if char_class (hd w) = 1 \<and> 2 \<le> length w \<and>
      list_all (\<lambda>c. sqlite3Isalpha c \<or> c = 95) w then kw w else TK_ID)"
proof -
  obtain c u where t: "t = c # u" using assms(2) by (cases t) auto
  have b: "c < 256" "0 < c" using assms(1) t by simp_all
  have cl: "char_class x \<le> 2 \<longleftrightarrow> sqlite3Isalpha x \<or> x = 95" if "x < 256" for x
    using class_iff(4) [OF that] Isalpha_eq [OF that] by arith
  have id: "IdChar c" using assms(3) b t by (auto simp: IdChar_eq Isalnum_eq)
  then have w: "w = c # takeWhile IdChar u" by (simp add: w_def t)
  have lw: "tok_id (t @ [0]) 1 = Some (length w, TK_ID)" unfolding w_def using tok_id_word [of 1 t] id t by simp
  have wt: "list_all (\<lambda>x. x < 256) w" using assms(1)
    by (auto simp: w_def list_all_iff is_text_def dest: set_takeWhileD)
  have pw: "plain_word w \<longleftrightarrow> char_class (hd w) = 1 \<and> 2 \<le> length w \<and> list_all (\<lambda>c. sqlite3Isalpha c \<or> c = 95) w"
    using wt cl by (auto simp: plain_word_def list_all_iff)
  have k: "char_class c = CC_X \<or> char_class c = CC_KYWD0 \<or> char_class c = CC_KYWD \<or> char_class c = CC_ID \<or> char_class c = CC_BOM"
    using class_iff(4,5) [OF b(1)] assms(3) Isalpha_eq [OF b(1)] t by auto
  have l: "Suc 0 \<le> length t" using t by simp
  note r = rd_term [OF l]
  have x: "tok_x (t @ [0]) = tok_id (t @ [0]) 1" if "char_class c = CC_X"
  proof -
    have "c \<in> {88, 120}" using that class_iff(6) [OF b(1)] by blast
    then have "at t 1 \<noteq> 39" using assms(4) t by (cases u) auto
    then show ?thesis by (simp add: tok_x_def r)
  qed
  have y: "tok_bom (t @ [0]) = tok_id (t @ [0]) 1" if "char_class c = CC_BOM"
  proof -
    have "c = 0xef" using that class_iff(7) [OF b(1)] by blast
    then have "\<not> (at t 1 = 0xbb \<and> at t 2 = 0xbf)" using assms(5) t by (cases u; cases "tl u") auto
    moreover have "rd (t @ [0]) 2 = Some (at t 2)" if "at t 1 = 0xbb" using at_less [of t 1] rd_term [of 2 t] that by simp
    ultimately show ?thesis by (auto simp: tok_bom_def r)
  qed
  have "rd (t @ [0]) 0 = Some c" by (simp add: t)
  moreover have "tok_keyword kw (t @ [0]) = Some (length w, if plain_word w then kw w else TK_ID)" if "char_class c = CC_KYWD0"
    unfolding w_def by (rule tok_keyword_word) (use assms(1,2) that t in simp_all)
  ultimately show ?thesis
    unfolding pw [symmetric]
    using k lw x y by (auto simp: sqlite3GetToken_def plain_word_def w)
qed

lemma word_token_witness:
  "sqlite3GetToken (\<lambda>w. if w = map ch ''select'' then TK_SELECT else TK_ID) (map ch ''select_1 from t'' @ [0]) =
    Some (8, TK_ID)"
proof -
  have "takeWhile IdChar (map ch ''select_1 from t'') = map ch ''select_1''" by code_simp
  moreover have "\<not> list_all (\<lambda>c. sqlite3Isalpha c \<or> c = 95) (map ch ''select_1'')" "sqlite3Isalpha (ch CHR ''s'')"
    by code_simp+
  ultimately show ?thesis
    using word_token [of "map ch ''select_1 from t''" "\<lambda>w. if w = map ch ''select'' then TK_SELECT else TK_ID"] by simp
qed

text \<open>
  C12: A quoted text is one token, whatever characters it contains, as long as its quotes are doubled
  inside: the token ends at the closing quote, and removing the quotes gives the text back, so
  quoted data can never be read as SQL.
\<close>

theorem quoted_token:
  assumes "is_text s" "q \<in> {34, 39, 96}" "r = [] \<or> hd r \<noteq> q"
  shows "sqlite3GetToken kw ((q # double q s @ [q]) @ r @ [0]) =
      Some (length (q # double q s @ [q]), if q = 39 then TK_STRING else TK_ID) \<and>
    sqlite3Dequote (Some (q # double q s @ [q])) = Some (Some s)"
  using quoted_one_token [OF assms] Dequote_double [of q q s] assms(2) by auto

lemma quoted_token_witness:
  "sqlite3GetToken (\<lambda>_. TK_ID) ((39 # double 39 (39 # map ch ''; drop table t; --'') @ [39]) @ map ch '', 1'' @ [0]) =
      Some (22, TK_STRING)"
  using quoted_token [of "39 # map ch ''; drop table t; --''" 39 "map ch '', 1''" "\<lambda>_. TK_ID"] by simp

text \<open>
  C32: The parser loop ends, for every text, keyword table, parser, limit and pattern of interrupts, with
  no read behind the terminator and every lookahead keyword of the length it asserts; what it reports
  as not parsed is a suffix of the text.
\<close>

theorem run_parser_total:
  assumes "kw_ok kw" "is_text t"
  shows "\<exists>nErr i p'. i \<le> length t \<and>
    sqlite3RunParser kw fallback parser intr engine mxSqlLen (t @ [0]) p = Some (nErr, drop i t @ [0], p')"
proof (cases engine)
  case None
  then show ?thesis by (intro exI [of _ SQLITE_NOMEM] exI [of _ 0]) (simp add: sqlite3RunParser_def Let_def)
next
  case (Some e)
  obtain i p' where l: "i \<le> length t" "parse_loop kw fallback parser intr 0
      (t @ [0], int mxSqlLen, None, p\<lparr>p_rc := SQLITE_OK, p_engine := e\<rparr>) = Some (drop i t @ [0], p')"
    using parse_loop_total [OF assms, of "int mxSqlLen" fallback parser intr 0 None] by force
  obtain n p'' where "parser_done p' = (n, p'')" by force
  with l Some show ?thesis by (intro exI [of _ n] exI [of _ i] exI [of _ p'']) (simp add: sqlite3RunParser_def Let_def)
qed

definition demo_kw :: "ctext \<Rightarrow> token" where
  "demo_kw w =
     (if w = map ch ''window'' then TK_WINDOW else if w = map ch ''over'' then TK_OVER
      else if w = map ch ''select'' then TK_SELECT else if w = map ch ''as'' then TK_AS else TK_ID)"

lemma demo_kw_ok: "kw_ok demo_kw"
  by (auto simp: kw_ok_def demo_kw_def)

definition demo_parse :: "'p \<Rightarrow> 'p parse" where
  "demo_parse e = \<lparr>p_engine = e, p_rc = 0, p_nErr = 0, p_zErrMsg = False, p_suppressErr = False, p_mallocFailed = False\<rparr>"

lemma run_parser_total_witness:
  "\<exists>nErr i p'. i \<le> length (map ch ''select 1'') \<and>
    sqlite3RunParser demo_kw id (\<lambda>t w p. p) (\<lambda>k. k > 5) (Some ()) 7 (map ch ''select 1'' @ [0]) (demo_parse ()) =
      Some (nErr, drop i (map ch ''select 1'') @ [0], p')"
  by (rule run_parser_total [OF demo_kw_ok]) simp

text \<open>
  C13: What the parser is given: for a text within the length limit and no interrupt, \<open>sqlite3RunParser\<close>
  feeds the parser the words of the text in order, WINDOW, OVER and FILTER resolved by their
  neighbours, then a semicolon unless the text ends with one, then the end of input; it stops at the
  first illegal word, with an error, or when the parser reports one.
\<close>

theorem run_parser_drives:
  assumes "kw_ok kw" "is_text t" "length t \<le> mxSqlLen"
  shows "\<exists>rest. sqlite3RunParser kw fallback parser (\<lambda>_. False) (Some e) mxSqlLen (t @ [0]) p =
    (let (nErr, p') = parser_done (drive fallback parser None (p\<lparr>p_rc := SQLITE_OK, p_engine := e\<rparr>) (words kw t))
     in Some (nErr, rest, p'))"
proof -
  obtain rest where "parse_loop kw fallback parser (\<lambda>_. False) 0
      (t @ [0], int mxSqlLen, None, p\<lparr>p_rc := SQLITE_OK, p_engine := e\<rparr>) =
      Some (rest, drive fallback parser None (p\<lparr>p_rc := SQLITE_OK, p_engine := e\<rparr>) (words kw t))"
    using parse_loop_drive [OF assms(1,2), of "int mxSqlLen" None] assms(3) by force
  then show ?thesis by (intro exI [of _ rest]) (simp add: sqlite3RunParser_def Let_def split: prod.splits)
qed

lemma run_parser_drives_witness:
  "\<exists>rest. sqlite3RunParser demo_kw id (\<lambda>t w p. p\<lparr>p_engine := p_engine p @ [(t, w)]\<rparr>) (\<lambda>_. False) (Some []) 100
      (map ch ''select over'' @ [0]) (demo_parse []) =
    (let (nErr, p') = parser_done (drive id (\<lambda>t w p. p\<lparr>p_engine := p_engine p @ [(t, w)]\<rparr>) None
       (demo_parse []\<lparr>p_rc := SQLITE_OK, p_engine := []\<rparr>) (words demo_kw (map ch ''select over'')))
     in Some (nErr, rest, p'))"
  by (rule run_parser_drives [OF demo_kw_ok]) simp_all

end
