(* ===== verification/Complete.thy ===== *)
theory Complete
  imports Tokenize
begin

text \<open>
  \<^verbatim>\<open>src/complete.c\<close>: \<open>sqlite3_complete\<close>, which decides whether a text ends at the end of an SQL
  statement, with its own small tokenizer and its table-driven state machine. The text is the list
  of its bytes with the terminating zero; reading behind it is undefined (\<open>None\<close>).
\<close>

section \<open>Tokens and states\<close>

abbreviation (input) tkSEMI :: nat where "tkSEMI \<equiv> 0"
abbreviation (input) tkWS :: nat where "tkWS \<equiv> 1"
abbreviation (input) tkOTHER :: nat where "tkOTHER \<equiv> 2"
abbreviation (input) tkEXPLAIN :: nat where "tkEXPLAIN \<equiv> 3"
abbreviation (input) tkCREATE :: nat where "tkCREATE \<equiv> 4"
abbreviation (input) tkTEMP :: nat where "tkTEMP \<equiv> 5"
abbreviation (input) tkTRIGGER :: nat where "tkTRIGGER \<equiv> 6"
abbreviation (input) tkEND :: nat where "tkEND \<equiv> 7"

definition trans :: "nat list list" where
  "trans =
     [[1, 0, 2, 3, 4, 2, 2, 2],
      [1, 1, 2, 3, 4, 2, 2, 2],
      [1, 2, 2, 2, 2, 2, 2, 2],
      [1, 3, 3, 2, 4, 2, 2, 2],
      [1, 4, 2, 2, 2, 4, 5, 2],
      [6, 5, 5, 5, 5, 5, 5, 5],
      [6, 6, 5, 5, 5, 5, 5, 7],
      [1, 7, 5, 5, 5, 5, 5, 5]]"

section \<open>The tokenizer\<close>

text \<open>\<open>while( *zSql && !P( *zSql ) ){ zSql++; }\<close> and the loop over a C comment: where they stop.\<close>

fun skip_until :: "(nat \<Rightarrow> bool) \<Rightarrow> nat list \<Rightarrow> nat list option" where
  "skip_until P [] = None"
| "skip_until P (c # z) = (if c = 0 \<or> P c then Some (c # z) else skip_until P z)"

fun skip_comment :: "nat list \<Rightarrow> nat list option" where
  "skip_comment [] = None"
| "skip_comment (c # z) =
     (if c = 0 then Some (c # z)
      else if c = ch CHR ''*'' then do { d \<leftarrow> rd z 0; if d = ch CHR ''/'' then Some (c # z) else skip_comment z }
      else skip_comment z)"

definition complete_keyword :: "nat list \<Rightarrow> nat \<Rightarrow> nat" where
  "complete_keyword z nId =
     (let is = (\<lambda>w. nId = length w \<and> sqlite3_strnicmp (Some z) (Some w) (int (length w)) = 0); c = z ! 0
      in if c = ch CHR ''c'' \<or> c = ch CHR ''C'' then
           (if is (map ch ''create'') then tkCREATE else tkOTHER)
         else if c = ch CHR ''t'' \<or> c = ch CHR ''T'' then
           (if is (map ch ''trigger'') then tkTRIGGER
            else if is (map ch ''temp'') then tkTEMP
            else if is (map ch ''temporary'') then tkTEMP
            else tkOTHER)
         else if c = ch CHR ''e'' \<or> c = ch CHR ''E'' then
           (if is (map ch ''end'') then tkEND
            else if is (map ch ''explain'') then tkEXPLAIN
            else tkOTHER)
         else tkOTHER)"

text \<open>
  One pass of the \<open>switch\<close>: a token and the text from its last character on, or one of the
  returns: 0, or whether the state is 1.
\<close>

datatype lexeme = Tok nat "nat list" | Return0 | ReturnState

definition complete_lex :: "nat list \<Rightarrow> lexeme option" where
  "complete_lex z =
     do {
       c \<leftarrow> rd z 0;
       if c = ch CHR '';'' then Some (Tok tkSEMI z)
       else if c = 32 \<or> c = 13 \<or> c = 9 \<or> c = 10 \<or> c = 12 then Some (Tok tkWS z)
       else if c = ch CHR ''/'' then do {
         d \<leftarrow> rd z 1;
         if d \<noteq> ch CHR ''*'' then Some (Tok tkOTHER z)
         else do {
           z \<leftarrow> skip_comment (drop 2 z);
           d \<leftarrow> rd z 0;
           Some (if d = 0 then Return0 else Tok tkWS (drop 1 z))
         }
       }
       else if c = ch CHR ''-'' then do {
         d \<leftarrow> rd z 1;
         if d \<noteq> ch CHR ''-'' then Some (Tok tkOTHER z)
         else do {
           z \<leftarrow> skip_until (\<lambda>c. c = 10) z;
           d \<leftarrow> rd z 0;
           Some (if d = 0 then ReturnState else Tok tkWS z)
         }
       }
       else if c = ch CHR ''['' then do {
         z \<leftarrow> skip_until (\<lambda>c. c = ch CHR '']'') (drop 1 z);
         d \<leftarrow> rd z 0;
         Some (if d = 0 then Return0 else Tok tkOTHER z)
       }
       else if c = 96 \<or> c = 34 \<or> c = 39 then do {
         z \<leftarrow> skip_until (\<lambda>d. d = c) (drop 1 z);
         d \<leftarrow> rd z 0;
         Some (if d = 0 then Return0 else Tok tkOTHER z)
       }
       else if IdChar c then do {
         nId \<leftarrow> scan IdChar z 1;
         Some (Tok (complete_keyword z nId) (drop (nId - 1) z))
       }
       else Some (Tok tkOTHER z)
     }"

partial_function (option) complete_loop :: "nat \<Rightarrow> nat list \<Rightarrow> bool option" where
  "complete_loop state z =
     do {
       c \<leftarrow> rd z 0;
       if c = 0 then Some (state = 1)
       else do {
         l \<leftarrow> complete_lex z;
         (case l of
            Return0 \<Rightarrow> Some False
          | ReturnState \<Rightarrow> Some (state = 1)
          | Tok t z \<Rightarrow> do { row \<leftarrow> rd trans state; state \<leftarrow> rd row t; complete_loop state (drop 1 z) })
       }
     }"

definition sqlite3_complete :: "nat list \<Rightarrow> bool option" where
  "sqlite3_complete zSql = complete_loop 0 zSql"

section \<open>The statements the machine accepts\<close>

text \<open>
  The grammar, over the tokens without white space. A trigger starts with CREATE, TEMP and
  TRIGGER, perhaps explained, and ends at the first semicolon, END, semicolon. Any other
  statement ends at its first semicolon.
\<close>

definition trigger_start :: "nat list \<Rightarrow> bool" where
  "trigger_start ts \<longleftrightarrow> (\<exists>e n m. ts = e @ replicate n tkOTHER @ [tkCREATE] @ replicate m tkTEMP @ [tkTRIGGER] \<and>
     (e = [] \<and> n = 0 \<or> e = [tkEXPLAIN]))"

inductive statement :: "nat list \<Rightarrow> bool" where
  plain: "tkSEMI \<notin> set ts \<Longrightarrow> (\<And>p q. ts = p @ q \<Longrightarrow> \<not> trigger_start p) \<Longrightarrow> statement (ts @ [tkSEMI])"
| trigger: "trigger_start ts \<Longrightarrow> (\<And>p q. b @ [tkSEMI, tkEND] \<noteq> p @ [tkSEMI, tkEND, tkSEMI] @ q) \<Longrightarrow>
     statement (ts @ b @ [tkSEMI, tkEND, tkSEMI])"

inductive statements :: "nat list \<Rightarrow> bool" where
  one: "statement ts \<Longrightarrow> statements ts"
| more: "statements us \<Longrightarrow> statement ts \<Longrightarrow> statements (us @ ts)"

definition step :: "nat \<Rightarrow> nat \<Rightarrow> nat" where
  "step s t = trans ! s ! t"

abbreviation run :: "nat \<Rightarrow> nat list \<Rightarrow> nat" where
  "run s ts \<equiv> foldl step s ts"


section \<open>The machine accepts sequences of statements\<close>

definition tk_ok :: "nat list \<Rightarrow> bool" where
  "tk_ok ts \<longleftrightarrow> list_all (\<lambda>t. t < 8 \<and> t \<noteq> tkWS) ts"

lemma tk_ok_simps [simp]: "tk_ok []" "tk_ok (ts @ us) \<longleftrightarrow> tk_ok ts \<and> tk_ok us"
  "tk_ok (t # ts) \<longleftrightarrow> t < 8 \<and> t \<noteq> tkWS \<and> tk_ok ts"
  by (auto simp: tk_ok_def)

lemma tok_cases: "t < 8 \<Longrightarrow> t \<noteq> tkWS \<Longrightarrow> t \<in> {0, 2, 3, 4, 5, 6, 7}"
  by auto

lemma trans_steps [simp]:
  "step 0 0 = 1" "step 0 2 = 2" "step 0 3 = 3" "step 0 4 = 4" "step 0 5 = 2" "step 0 6 = 2" "step 0 7 = 2"
  "step (Suc 0) 0 = 1" "step (Suc 0) 2 = 2" "step (Suc 0) 3 = 3" "step (Suc 0) 4 = 4" "step (Suc 0) 5 = 2"
  "step (Suc 0) 6 = 2" "step (Suc 0) 7 = 2"
  "step 2 0 = 1" "step 2 2 = 2" "step 2 3 = 2" "step 2 4 = 2" "step 2 5 = 2" "step 2 6 = 2" "step 2 7 = 2"
  "step 3 0 = 1" "step 3 2 = 3" "step 3 3 = 2" "step 3 4 = 4" "step 3 5 = 2" "step 3 6 = 2" "step 3 7 = 2"
  "step 4 0 = 1" "step 4 2 = 2" "step 4 3 = 2" "step 4 4 = 2" "step 4 5 = 4" "step 4 6 = 5" "step 4 7 = 2"
  "step 5 0 = 6" "step 5 2 = 5" "step 5 3 = 5" "step 5 4 = 5" "step 5 5 = 5" "step 5 6 = 5" "step 5 7 = 5"
  "step 6 0 = 6" "step 6 2 = 5" "step 6 3 = 5" "step 6 4 = 5" "step 6 5 = 5" "step 6 6 = 5" "step 6 7 = 7"
  "step 7 0 = 1" "step 7 2 = 5" "step 7 3 = 5" "step 7 4 = 5" "step 7 5 = 5" "step 7 6 = 5" "step 7 7 = 5"
  by (simp_all add: step_def trans_def)

lemma run_replicate: "run 3 (replicate n tkOTHER) = 3" "run 4 (replicate n tkTEMP) = 4"
  by (induction n) simp_all

lemma run_trigger_start:
  assumes "trigger_start ts" "s \<in> {0, 1}"
  shows "run s ts = 5"
proof -
  obtain e n m where "ts = e @ replicate n tkOTHER @ [tkCREATE] @ replicate m tkTEMP @ [tkTRIGGER]"
    "e = [] \<and> n = 0 \<or> e = [tkEXPLAIN]" using assms(1) by (auto simp: trigger_start_def)
  with assms(2) run_replicate [of n] run_replicate [of m] show ?thesis by auto
qed

lemma run_5: "tk_ok ts \<Longrightarrow> tkSEMI \<notin> set ts \<Longrightarrow> run 5 ts = 5"
proof (induction ts)
  case (Cons t ts)
  then have "t \<in> {2, 3, 4, 5, 6, 7}" using tok_cases [of t] by auto
  with Cons show ?case by auto
qed simp

text \<open>What the states mean before the first semicolon.\<close>

definition explained :: "nat list \<Rightarrow> bool" where
  "explained ts \<longleftrightarrow> (\<exists>n. ts = tkEXPLAIN # replicate n tkOTHER)"

definition created :: "nat list \<Rightarrow> bool" where
  "created ts \<longleftrightarrow> (\<exists>e n m. ts = e @ replicate n tkOTHER @ [tkCREATE] @ replicate m tkTEMP \<and> (e = [] \<and> n = 0 \<or> e = [tkEXPLAIN]))"

definition in_trigger :: "nat list \<Rightarrow> bool" where
  "in_trigger ts \<longleftrightarrow> (\<exists>p q. ts = p @ q \<and> trigger_start p)"

lemma explained_I: "explained [tkEXPLAIN]" "explained ts \<Longrightarrow> explained (ts @ [tkOTHER])"
proof -
  show "explained [tkEXPLAIN]" unfolding explained_def by (intro exI [of _ 0]) simp
  assume "explained ts"
  then obtain n where "ts = tkEXPLAIN # replicate n tkOTHER" unfolding explained_def by blast
  then have "ts @ [tkOTHER] = tkEXPLAIN # replicate (Suc n) tkOTHER" by (simp add: replicate_append_same)
  then show "explained (ts @ [tkOTHER])" unfolding explained_def by blast
qed

lemma created_I: "created [tkCREATE]" "explained ts \<Longrightarrow> created (ts @ [tkCREATE])" "created ts \<Longrightarrow> created (ts @ [tkTEMP])"
proof -
  show "created [tkCREATE]" unfolding created_def by (intro exI [of _ "[]"] exI [of _ 0]) simp
  show "created (ts @ [tkCREATE])" if "explained ts"
  proof -
    from that obtain n where "ts = tkEXPLAIN # replicate n tkOTHER" unfolding explained_def by blast
    then have "ts @ [tkCREATE] = [tkEXPLAIN] @ replicate n tkOTHER @ [tkCREATE] @ replicate 0 tkTEMP" by simp
    then show ?thesis unfolding created_def by blast
  qed
  show "created (ts @ [tkTEMP])" if "created ts"
  proof -
    from that obtain e n m where e: "ts = e @ replicate n tkOTHER @ [tkCREATE] @ replicate m tkTEMP" "e = [] \<and> n = 0 \<or> e = [tkEXPLAIN]"
      unfolding created_def by blast
    then have "ts @ [tkTEMP] = e @ replicate n tkOTHER @ [tkCREATE] @ replicate (Suc m) tkTEMP"
      by (simp add: replicate_append_same)
    with e(2) show ?thesis unfolding created_def by blast
  qed
qed

lemma in_trigger_I: "created ts \<Longrightarrow> in_trigger (ts @ [tkTRIGGER])" "in_trigger ts \<Longrightarrow> in_trigger (ts @ [t])"
proof -
  show "in_trigger (ts @ [tkTRIGGER])" if "created ts"
  proof -
    have "trigger_start (ts @ [tkTRIGGER])" using that unfolding created_def trigger_start_def by auto
    then show ?thesis unfolding in_trigger_def by (metis append_Nil2)
  qed
  show "in_trigger (ts @ [t])" if "in_trigger ts"
    using that unfolding in_trigger_def by (metis append_assoc)
qed

lemma run_prefix:
  assumes "s \<in> {0, 1}"
  shows "tk_ok ts \<Longrightarrow> tkSEMI \<notin> set ts \<Longrightarrow>
    ts = [] \<and> run s ts = s \<or> run s ts = 2 \<or> run s ts = 3 \<and> explained ts \<or> run s ts = 4 \<and> created ts \<or>
    run s ts = 5 \<and> in_trigger ts"
proof (induction ts rule: rev_induct)
  case (snoc t ts)
  have t: "t \<in> {2, 3, 4, 5, 6, 7}" using snoc.prems tok_cases [of t] by auto
  from snoc have "ts = [] \<and> run s ts = s \<or> run s ts = 2 \<or> run s ts = 3 \<and> explained ts \<or> run s ts = 4 \<and> created ts \<or>
    run s ts = 5 \<and> in_trigger ts" by simp
  with t assms show ?case
    using explained_I created_I in_trigger_I by (elim disjE conjE insertE emptyE) simp_all
qed simp

definition ends_trigger :: "nat list \<Rightarrow> bool" where
  "ends_trigger c \<longleftrightarrow> (\<exists>p q. c = p @ [tkSEMI, tkEND, tkSEMI] @ q)"

lemma run_body:
  "tk_ok c \<Longrightarrow> \<not> ends_trigger c \<Longrightarrow>
    run 5 c = 7 \<and> (\<exists>b. c = b @ [tkSEMI, tkEND]) \<or> run 5 c = 6 \<and> (\<exists>b. c = b @ [tkSEMI]) \<or>
    run 5 c = 5 \<and> (\<forall>b. c \<noteq> b @ [tkSEMI]) \<and> (\<forall>b. c \<noteq> b @ [tkSEMI, tkEND])"
proof (induction c rule: rev_induct)
  case (snoc t c)
  have t: "t \<in> {0, 2, 3, 4, 5, 6, 7}" using snoc.prems tok_cases [of t] by auto
  have "\<not> ends_trigger c" using snoc.prems(2) unfolding ends_trigger_def by (metis append.assoc)
  with snoc consider b where "run 5 c = 7" "c = b @ [tkSEMI, tkEND]" | b where "run 5 c = 6" "c = b @ [tkSEMI]"
    | "run 5 c = 5" "\<forall>b. c \<noteq> b @ [tkSEMI]" by auto
  then show ?case
  proof cases
    case 1
    have "t \<noteq> 0"
    proof
      assume "t = 0"
      with 1 have "c @ [t] = b @ [tkSEMI, tkEND, tkSEMI] @ []" by simp
      with snoc.prems(2) show False unfolding ends_trigger_def by blast
    qed
    with 1 t show ?thesis by auto
  next
    case 2
    with t show ?thesis by auto
  next
    case 3
    have "c @ [t] \<noteq> b @ [tkSEMI, tkEND]" for b
    proof
      assume "c @ [t] = b @ [tkSEMI, tkEND]"
      then have "c = b @ [tkSEMI]" by (metis append_Cons append_Nil append_assoc butlast_snoc)
      with 3 show False by blast
    qed
    with 3 t show ?thesis by auto
  qed
qed simp

lemma run_body_end: "tk_ok (b @ [tkSEMI, tkEND]) \<Longrightarrow> \<not> ends_trigger (b @ [tkSEMI, tkEND]) \<Longrightarrow>
    run 5 (b @ [tkSEMI, tkEND, tkSEMI]) = 1"
  using run_body [of "b @ [tkSEMI, tkEND]"] by auto

lemma first_end:
  "ends_trigger d \<Longrightarrow> \<exists>p q. d = p @ [tkSEMI, tkEND, tkSEMI] @ q \<and> \<not> ends_trigger (p @ [tkSEMI, tkEND])"
proof (induction "length d" arbitrary: d rule: less_induct)
  case less
  then obtain p q where d: "d = p @ [tkSEMI, tkEND, tkSEMI] @ q" unfolding ends_trigger_def by blast
  show ?case
  proof (cases "ends_trigger (p @ [tkSEMI, tkEND])")
    case True
    from less.hyps [OF _ this] d obtain p' q' where "p @ [tkSEMI, tkEND] = p' @ [tkSEMI, tkEND, tkSEMI] @ q'"
      "\<not> ends_trigger (p' @ [tkSEMI, tkEND])" by auto
    then have "d = p' @ [tkSEMI, tkEND, tkSEMI] @ (q' @ [tkSEMI] @ q) \<and> \<not> ends_trigger (p' @ [tkSEMI, tkEND])"
      using d by (metis append.assoc append_Cons append_Nil)
    then show ?thesis by blast
  qed (use d in blast)
qed

lemma statement_run:
  assumes "s \<in> {0, 1}"
  shows "statement ts \<Longrightarrow> tk_ok ts \<Longrightarrow> run s ts = 1"
proof (induction rule: statement.induct)
  case (plain ts)
  then have "\<not> in_trigger ts" unfolding in_trigger_def by blast
  with run_prefix [OF assms, of ts] plain assms show ?case by auto
next
  case (trigger ts b)
  then have "\<not> ends_trigger (b @ [tkSEMI, tkEND])" unfolding ends_trigger_def by blast
  with trigger.prems run_body_end [of b] run_trigger_start [OF trigger.hyps(1) assms] show ?case by simp
qed

lemma statements_run: "statements ts \<Longrightarrow> tk_ok ts \<Longrightarrow> run 0 ts = 1"
  by (induction rule: statements.induct) (simp_all add: statement_run)

lemma statements_Cons: "statements ts \<Longrightarrow> statement us \<Longrightarrow> statements (us @ ts)"
proof (induction rule: statements.induct)
  case (one ts)
  then show ?case using statements.more [OF statements.one] by blast
next
  case (more vs ts)
  then have "statements ((us @ vs) @ ts)" using statements.more by blast
  then show ?case by (simp only: append.assoc)
qed

lemma run_statement:
  assumes s: "s \<in> {0, 1}" and ok: "tk_ok u" and ne: "u \<noteq> []" and one: "run s u = 1"
    and first: "\<And>p q. u = p @ q \<Longrightarrow> p \<noteq> [] \<Longrightarrow> q \<noteq> [] \<Longrightarrow> run s p \<noteq> 1"
  shows "statement u"
proof -
  obtain w t where u: "u = w @ [t]" using ne by (metis rev_exhaust)
  have st: "step x t = 1 \<Longrightarrow> x < 8 \<Longrightarrow> t = 0 \<and> x \<notin> {5, 6}" for x
    using ok u tok_cases [of t] by (auto simp: step_def trans_def less_Suc_eq numeral_eq_Suc)
  have lt: "run s v < 8" if "tk_ok v" for v
    using that s
  proof (induction v rule: rev_induct)
    case (snoc x v)
    then have "run s v \<in> {0, 1, 2, 3, 4, 5, 6, 7}" "x \<in> {0, 2, 3, 4, 5, 6, 7}" using tok_cases [of x] by auto
    then show ?case by auto
  qed auto
  have okw: "tk_ok w" using ok u by simp
  then have t: "t = 0" "run s w \<notin> {5, 6}" using st [of "run s w"] one u lt [of w] by auto
  show ?thesis
  proof (cases "tkSEMI \<in> set w")
    case False
    have "\<not> trigger_start p" if "w = p @ q" for p q
    proof
      assume "trigger_start p"
      then have "run s w = run 5 q" using run_trigger_start [OF _ s] that by simp
      also have "\<dots> = 5" using run_5 [of q] that okw False by auto
      finally show False using t(2) by simp
    qed
    with False show ?thesis using statement.plain [of w] u t(1) by blast
  next
    case True
    then obtain a c where w: "w = a @ tkSEMI # c" "tkSEMI \<notin> set a" by (meson split_list_first)
    have "run s (a @ [tkSEMI]) \<noteq> 1" using first [of "a @ [tkSEMI]" "c @ [t]"] u w(1) by simp
    then obtain p q where a: "run s a = 5" "a = p @ q" "trigger_start p"
      using run_prefix [OF s, of a] okw w s by (auto simp: in_trigger_def)
    define d where "d = q @ tkSEMI # c"
    have d: "w = p @ d" "tk_ok d" using okw w a(2) by (auto simp: d_def)
    have r: "run s (p @ v) = run 5 v" for v using run_trigger_start [OF a(3) s] by simp
    have n: "\<not> ends_trigger d"
    proof
      assume "ends_trigger d"
      then obtain b e where b: "d = b @ [tkSEMI, tkEND, tkSEMI] @ e" "\<not> ends_trigger (b @ [tkSEMI, tkEND])"
        using first_end by blast
      then have "run s (p @ b @ [tkSEMI, tkEND, tkSEMI]) = 1" using run_body_end [of b] d(2) r by simp
      moreover have "u = (p @ b @ [tkSEMI, tkEND, tkSEMI]) @ (e @ [t])" using u d(1) b(1) by simp
      ultimately show False using first by blast
    qed
    moreover have "run 5 d \<notin> {5, 6}" using t(2) d(1) r by simp
    ultimately obtain b where b: "d = b @ [tkSEMI, tkEND]" using run_body [OF d(2)] by auto
    have "statement (p @ b @ [tkSEMI, tkEND, tkSEMI])"
      by (rule statement.trigger [OF a(3)]) (use n b in \<open>auto simp: ends_trigger_def\<close>)
    then show ?thesis using u d(1) b t(1) by simp
  qed
qed

lemma run_statements: "s \<in> {0, 1} \<Longrightarrow> tk_ok ts \<Longrightarrow> ts \<noteq> [] \<Longrightarrow> run s ts = 1 \<Longrightarrow> statements ts"
proof (induction "length ts" arbitrary: ts s rule: less_induct)
  case less
  define P where "P k \<longleftrightarrow> 0 < k \<and> k \<le> length ts \<and> run s (take k ts) = 1" for k
  have "P (length ts)" using less.prems by (simp add: P_def)
  then obtain k where k: "P k" and m: "\<And>j. j < k \<Longrightarrow> \<not> P j" using exists_least_iff [of P] by blast
  note k = k [unfolded P_def]
  define u v where "u = take k ts" and "v = drop k ts"
  have ts: "ts = u @ v" "tk_ok u" "tk_ok v" "u \<noteq> []" "run s u = 1"
    using less.prems(2,3) k tk_ok_simps(2) [of "take k ts" "drop k ts"] by (auto simp: u_def v_def)
  have st: "statement u"
  proof (rule run_statement [OF less.prems(1) ts(2,4,5)])
    fix p q assume pq: "u = p @ q" "p \<noteq> []" "q \<noteq> []"
    have "length u \<le> k" by (simp add: u_def)
    moreover have "take (length p) u = p" by (simp add: pq(1))
    ultimately have "length p < k" "take (length p) ts = p" using pq(1,3) ts(1) by (cases q; simp)+
    with m [of "length p"] pq(2) k show "run s p \<noteq> 1" by (simp add: P_def)
  qed
  show ?case
  proof (cases "v = []")
    case True
    with st ts(1) show ?thesis by (simp add: statements.one)
  next
    case False
    have "run 1 v = 1" using less.prems(4) ts(1,5) by simp
    moreover have "length v < length ts" using ts(1,4) by simp
    ultimately have "statements v" using less.hyps [of v 1] ts(3) False by simp
    then show ?thesis using statements_Cons [OF _ st, of v] ts(1) by simp
  qed
qed

lemma statements_nonempty: "statements ts \<Longrightarrow> ts \<noteq> []"
  by (induction rule: statements.induct) (auto elim: statement.cases)

lemma run_iff: "tk_ok ts \<Longrightarrow> run 0 ts = 1 \<longleftrightarrow> statements ts"
  using run_statements [of 0 ts] statements_run [of ts] by (cases "ts = []") (auto dest: statements_nonempty)

section \<open>The tokens of a text\<close>

text \<open>
  The tokens up to the end of the text; \<open>Some None\<close> when a quoted text or a C comment does not end.
\<close>

partial_function (option) lexemes :: "nat list \<Rightarrow> nat list option option" where
  "lexemes z =
     do {
       c \<leftarrow> rd z 0;
       if c = 0 then Some (Some [])
       else do {
         l \<leftarrow> complete_lex z;
         (case l of
            Return0 \<Rightarrow> Some None
          | ReturnState \<Rightarrow> Some (Some [])
          | Tok t z \<Rightarrow> do { r \<leftarrow> lexemes (drop 1 z); Some (map_option ((#) t) r) })
       }
     }"

text \<open>A token leaves a shorter text.\<close>

definition lex_ok :: "ctext \<Rightarrow> lexeme option \<Rightarrow> bool" where
  "lex_ok t r \<longleftrightarrow> (case r of
      None \<Rightarrow> False
    | Some (Tok k z) \<Rightarrow> k < 8 \<and> (\<exists>c u. z = c # u @ [0] \<and> is_text u \<and> length u < length t)
    | Some l \<Rightarrow> True)"

lemma lex_ok_simps [simp]: "lex_ok t (Some Return0)" "lex_ok t (Some ReturnState)"
  "lex_ok t (Some (Tok k z)) \<longleftrightarrow> k < 8 \<and> (\<exists>c u. z = c # u @ [0] \<and> is_text u \<and> length u < length t)"
  by (simp_all add: lex_ok_def)

lemma skip_until_text: "is_text t \<Longrightarrow> \<exists>u. skip_until P (t @ [0]) = Some (u @ [0]) \<and> is_text u \<and> length u \<le> length t"
proof (induction t)
  case (Cons c t)
  then show ?case by (cases "P c") (auto intro: exI [of _ "c # t"] le_SucI)
qed simp

lemma skip_comment_text:
  "is_text t \<Longrightarrow> \<exists>u. skip_comment (t @ [0]) = Some (u @ [0]) \<and> is_text u \<and> length u \<le> length t \<and> (u = [] \<or> tl u \<noteq> [])"
proof (induction t)
  case (Cons c t)
  then obtain u where u: "skip_comment (t @ [0]) = Some (u @ [0])" "is_text u" "length u \<le> length t" "u = [] \<or> tl u \<noteq> []"
    by auto
  show ?case
  proof (cases "c = ch CHR ''*'' \<and> at t 0 = ch CHR ''/''")
    case True
    with Cons.prems show ?thesis by (intro exI [of _ "c # t"]) (cases t; auto)
  next
    case False
    have "rd (t @ [0]) 0 = Some (at t 0)" by (rule rd_term) simp
    with False u Cons.prems show ?thesis by (intro exI [of _ u]) auto
  qed
qed simp

lemma complete_keyword_less: "complete_keyword z n < 8"
  by (simp add: complete_keyword_def Let_def)

lemma complete_lex_ok:
  assumes "is_text t" "t \<noteq> []"
  shows "lex_ok t (complete_lex (t @ [0]))"
proof -
  obtain c u where t: "t = c # u" using assms(2) by (cases t) auto
  have u: "is_text u" and c: "c \<noteq> 0" using assms(1) t by auto
  have r0: "rd (t @ [0]) 0 = Some c" by (simp add: t)
  have tok: "lex_ok t (Some (Tok k (t @ [0])))" if "k < 8" for k using that u by (simp add: t)
  have r1: "rd (t @ [0]) (Suc 0) = Some (at t (Suc 0))" by (rule rd_term) (simp add: t)
  have d: "lex_ok t (do { z \<leftarrow> skip_until P (v @ [0]); d \<leftarrow> rd z 0; Some (if d = 0 then l else Tok k z) })"
    if "is_text v" "length v \<le> length t" "k < 8" "l = Return0 \<or> l = ReturnState" for P v k l
  proof -
    from skip_until_text [OF that(1), of P]
    obtain w where w: "skip_until P (v @ [0]) = Some (w @ [0])" "is_text w" "length w \<le> length v" by blast
    with that(2-4) show ?thesis by (cases w) auto
  qed
  have com: "lex_ok t (do { z \<leftarrow> skip_comment (drop 2 (t @ [0])); d \<leftarrow> rd z 0; Some (if d = 0 then Return0 else Tok tkWS (drop 1 z)) })"
    if "at t (Suc 0) = ch CHR ''*''"
  proof -
    from that t have "u \<noteq> []" "hd u = ch CHR ''*''" by (cases u; simp)+
    then obtain v where v: "t = c # ch CHR ''*'' # v" using t by (cases u) auto
    then have "is_text v" using u t by simp
    then obtain w where w: "skip_comment (v @ [0]) = Some (w @ [0])" "is_text w" "length w \<le> length v" "w = [] \<or> tl w \<noteq> []"
      using skip_comment_text by blast
    then show ?thesis using v by (cases w; cases "tl w") auto
  qed
  have id: "lex_ok t (do { nId \<leftarrow> scan IdChar (t @ [0]) 1; Some (Tok (complete_keyword (t @ [0]) nId) (drop (nId - 1) (t @ [0]))) })"
  proof -
    have l: "1 \<le> length t" by (simp add: t)
    obtain n where n: "scan IdChar (t @ [0]) 1 = Some n" "1 \<le> n" "n \<le> length t"
      using scan_term [OF l, of IdChar] by auto
    have "is_text (drop n t)" using assms(1) is_text_simps(3) [of "take n t" "drop n t"] by simp
    moreover have "drop (n - 1) (t @ [0]) = t ! (n - 1) # drop n t @ [0]"
      using n(2,3) Cons_nth_drop_Suc [of "n - 1" t] by simp
    ultimately show ?thesis using n complete_keyword_less by auto
  qed
  have dr: "drop 1 (t @ [0]) = u @ [0]" "length u \<le> length t" by (simp_all add: t)
  have if_ok: "lex_ok t (if b then x else y)" if "b \<Longrightarrow> lex_ok t x" "\<not> b \<Longrightarrow> lex_ok t y" for b x y
    using that by simp
  have slash: "lex_ok t (do {
      d \<leftarrow> rd (t @ [0]) 1;
      if d \<noteq> ch CHR ''*'' then Some (Tok tkOTHER (t @ [0]))
      else do { z \<leftarrow> skip_comment (drop 2 (t @ [0])); d \<leftarrow> rd z 0; Some (if d = 0 then Return0 else Tok tkWS (drop 1 z)) } })"
    unfolding One_nat_def r1 bind.bind_lunit
    by (intro if_ok tok com [unfolded One_nat_def]) simp_all
  have dash: "lex_ok t (do {
      d \<leftarrow> rd (t @ [0]) 1;
      if d \<noteq> ch CHR ''-'' then Some (Tok tkOTHER (t @ [0]))
      else do { z \<leftarrow> skip_until (\<lambda>c. c = 10) (t @ [0]); d \<leftarrow> rd z 0; Some (if d = 0 then ReturnState else Tok tkWS z) } })"
    unfolding One_nat_def r1 bind.bind_lunit
    by (intro if_ok tok d [OF assms(1)]) simp_all
  show ?thesis
    unfolding complete_lex_def r0 bind.bind_lunit
    by (intro if_ok slash dash id; (rule tok, simp)?; unfold dr; (rule d [OF u dr(2)]; simp)?)
qed

lemma step_ws: "s < 8 \<Longrightarrow> step s (Suc 0) = s"
  by (auto simp: step_def trans_def less_Suc_eq numeral_eq_Suc)

lemma step_less: "s < 8 \<Longrightarrow> t < 8 \<Longrightarrow> step s t < 8"
  by (auto simp: step_def trans_def less_Suc_eq numeral_eq_Suc)

lemma run_less: "s < 8 \<Longrightarrow> list_all (\<lambda>t. t < 8) ts \<Longrightarrow> run s ts < 8"
  by (induction ts arbitrary: s) (simp_all add: step_less)

lemma run_ws: "s < 8 \<Longrightarrow> list_all (\<lambda>t. t < 8) ts \<Longrightarrow> run s (filter (\<lambda>t. t \<noteq> tkWS) ts) = run s ts"
  by (induction ts arbitrary: s) (simp_all add: step_ws step_less)

lemma trans_rd: "s < 8 \<Longrightarrow> t < 8 \<Longrightarrow> \<exists>row. rd trans s = Some row \<and> rd row t = Some (step s t)"
  by (auto simp: step_def trans_def less_Suc_eq numeral_eq_Suc)

lemma complete_loop_run:
  "is_text t \<Longrightarrow> \<exists>r. lexemes (t @ [0]) = Some r \<and> (\<forall>ts. r = Some ts \<longrightarrow> list_all (\<lambda>t. t < 8) ts) \<and>
    (\<forall>s < 8. complete_loop s (t @ [0]) = Some (case r of None \<Rightarrow> False | Some ts \<Rightarrow> run s ts = 1))"
proof (induction "length t" arbitrary: t rule: less_induct)
  case less
  show ?case
  proof (cases "t = []")
    case True
    then show ?thesis
      by (intro exI [of _ "Some []"]) (subst lexemes.simps, subst complete_loop.simps, simp)
  next
    case False
    have c: "rd (t @ [0]) 0 = Some (at t 0)" "at t 0 \<noteq> 0"
      using rd_term [of 0 t] less.prems False by (cases t; simp)+
    obtain l where l: "complete_lex (t @ [0]) = Some l" "lex_ok t (Some l)"
      using complete_lex_ok [OF less.prems False] by (cases "complete_lex (t @ [0])") (auto simp: lex_ok_def)
    show ?thesis
    proof (cases l)
      case (Tok k z)
      with l obtain d u where u: "z = d # u @ [0]" "is_text u" "length u < length t" "k < 8" by auto
      obtain r where r: "lexemes (u @ [0]) = Some r" "\<And>ts. r = Some ts \<Longrightarrow> list_all (\<lambda>t. t < 8) ts"
        "\<And>s. s < 8 \<Longrightarrow> complete_loop s (u @ [0]) = Some (case r of None \<Rightarrow> False | Some ts \<Rightarrow> run s ts = 1)"
        using less.hyps [OF u(3,2)] by blast
      have "complete_loop s (t @ [0]) = Some (case map_option ((#) k) r of None \<Rightarrow> False | Some ts \<Rightarrow> run s ts = 1)" if "s < 8" for s
        using trans_rd [OF that u(4)] c l(1) Tok u(1) r(3) [OF step_less [OF that u(4)]]
        by (subst complete_loop.simps) (auto split: option.splits)
      moreover have "lexemes (t @ [0]) = Some (map_option ((#) k) r)"
        using c l(1) Tok u(1) r(1) by (subst lexemes.simps) simp
      ultimately show ?thesis using r(2) u(4) by (intro exI [of _ "map_option ((#) k) r"]) auto
    next
      case Return0
      with c l show ?thesis
        by (intro exI [of _ None]) (subst lexemes.simps, subst complete_loop.simps, simp)
    next
      case ReturnState
      with c l show ?thesis
        by (intro exI [of _ "Some []"]) (subst lexemes.simps, subst complete_loop.simps, simp)
    qed
  qed
qed

section \<open>Property\<close>

text \<open>
  C34: \<open>sqlite3_complete\<close> returns for every text, without reading behind the terminator, and returns
  true exactly when the text has no unfinished quotes or comment and its tokens are one or more
  statements: plain ones, ended by their first semicolon, and triggers, ended by \<open>; END ;\<close>.
\<close>

theorem complete_statements:
  assumes "is_text t"
  shows "\<exists>r. lexemes (t @ [0]) = Some r \<and>
    sqlite3_complete (t @ [0]) = Some (case r of None \<Rightarrow> False | Some ts \<Rightarrow> statements (filter (\<lambda>k. k \<noteq> tkWS) ts))"
proof -
  obtain r where r: "lexemes (t @ [0]) = Some r" "\<And>ts. r = Some ts \<Longrightarrow> list_all (\<lambda>t. t < 8) ts"
    "complete_loop 0 (t @ [0]) = Some (case r of None \<Rightarrow> False | Some ts \<Rightarrow> run 0 ts = 1)"
    using complete_loop_run [OF assms] by force
  have "run 0 ts = 1 \<longleftrightarrow> statements (filter (\<lambda>k. k \<noteq> tkWS) ts)" if "r = Some ts" for ts
  proof -
    have ok: "tk_ok (filter (\<lambda>k. k \<noteq> tkWS) ts)" using r(2) [OF that] by (auto simp: tk_ok_def list_all_iff)
    have "run 0 ts = run 0 (filter (\<lambda>k. k \<noteq> tkWS) ts)" using run_ws [of 0 ts] r(2) [OF that] by simp
    with run_iff [OF ok] show ?thesis by simp
  qed
  with r show ?thesis by (cases r) (auto simp: sqlite3_complete_def)
qed

lemma complete_statements_witness:
  "\<exists>r. lexemes (map ch ''create trigger t begin select 1; end;'' @ [0]) = Some r \<and>
    sqlite3_complete (map ch ''create trigger t begin select 1; end;'' @ [0]) =
      Some (case r of None \<Rightarrow> False | Some ts \<Rightarrow> statements (filter (\<lambda>k. k \<noteq> tkWS) ts))"
  by (rule complete_statements) simp

end
