(* ===== verification/Pattern.thy ===== *)
theory Pattern
  imports Utf
begin

text \<open>
  The matcher behind LIKE and GLOB in \<^verbatim>\<open>src/func.c\<close>: \<open>patternCompare\<close>, \<open>sqlite3_strglob\<close> and
  \<open>sqlite3_strlike\<close>. Pattern and string are lists of bytes with their terminating zero; reading
  behind it is undefined (\<open>None\<close>).
\<close>

section \<open>The matcher\<close>

record compareInfo =
  matchAll :: nat
  matchOne :: nat
  matchSet :: nat
  noCase :: bool

definition globInfo :: compareInfo where
  "globInfo = \<lparr>matchAll = ch CHR ''*'', matchOne = ch CHR ''?'', matchSet = ch CHR ''['', noCase = False\<rparr>"

definition likeInfoNorm :: compareInfo where
  "likeInfoNorm = \<lparr>matchAll = ch CHR ''%'', matchOne = ch CHR ''_'', matchSet = 0, noCase = True\<rparr>"

abbreviation (input) SQLITE_MATCH :: nat where "SQLITE_MATCH \<equiv> 0"
abbreviation (input) SQLITE_NOMATCH :: nat where "SQLITE_NOMATCH \<equiv> 1"
abbreviation (input) SQLITE_NOWILDCARDMATCH :: nat where "SQLITE_NOWILDCARDMATCH \<equiv> 2"

definition Utf8Read :: "nat list \<Rightarrow> (nat \<times> nat list) option" where
  "Utf8Read z = (case z of [] \<Rightarrow> None | c # r \<Rightarrow> (if c < 0x80 then Some (c, r) else sqlite3Utf8Read z))"

lemma utf8_more_le: "utf8_more c z = Some (d, r) \<Longrightarrow> length r \<le> length z"
  by (induction c z rule: utf8_more.induct) (auto split: if_splits)

lemma sqlite3Utf8Read_less: "sqlite3Utf8Read z = Some (c, r) \<Longrightarrow> length r < length z"
  by (cases z) (auto simp: sqlite3Utf8Read_def bind_eq_Some_conv less_Suc_eq_le dest: utf8_more_le split: if_splits)

lemma Utf8Read_eq: "Utf8Read z = sqlite3Utf8Read z"
  by (cases z) (simp_all add: Utf8Read_def sqlite3Utf8Read_def)

lemma Utf8Read_less: "Utf8Read z = Some (c, r) \<Longrightarrow> length r < length z"
  using sqlite3Utf8Read_less by (simp add: Utf8Read_eq)

text \<open>
  The stars and question marks behind a star; \<open>None\<close> inside is the return of
  \<open>SQLITE_NOWILDCARDMATCH\<close> when the string is too short for the question marks.
\<close>

function skip_stars ::
  "compareInfo \<Rightarrow> nat list \<Rightarrow> nat list \<Rightarrow> (nat \<times> nat list \<times> nat list) option option"
where
  "skip_stars info p s =
     do {
       (c, p) \<leftarrow> Utf8Read p;
       if c = matchAll info then skip_stars info p s
       else if c = matchOne info \<and> matchOne info \<noteq> 0 then
         do { (d, s) \<leftarrow> sqlite3Utf8Read s; if d = 0 then Some None else skip_stars info p s }
       else Some (Some (c, p, s))
     }"
  by pat_completeness auto
termination by (relation "measure (\<lambda>(info, p, s). length p)") (auto dest: Utf8Read_less)

declare skip_stars.simps [simp del]

text \<open>
  The loop over a set \<open>[...]\<close>: \<open>c\<close> is the character looked for, \<open>c2\<close> the one just read from the
  pattern; the result is the \<open>c2\<close> it ends with, \<open>seen\<close> and the rest of the pattern.
\<close>

function set_loop :: "nat \<Rightarrow> nat \<Rightarrow> nat \<Rightarrow> bool \<Rightarrow> nat list \<Rightarrow> (nat \<times> bool \<times> nat list) option" where
  "set_loop c c2 prior seen p =
     (if c2 \<noteq> 0 \<and> c2 \<noteq> ch CHR '']'' then
        do {
          range \<leftarrow> (if c2 = ch CHR ''-'' then do { b \<leftarrow> rd p 0; Some (b \<noteq> ch CHR '']'' \<and> b \<noteq> 0 \<and> prior > 0) }
                   else Some False);
          if range then do {
            (c2, p) \<leftarrow> sqlite3Utf8Read p;
            let seen = (seen \<or> prior \<le> c \<and> c \<le> c2) in
            do { (c2, p) \<leftarrow> sqlite3Utf8Read p; set_loop c c2 0 seen p }
          }
          else do {
            let seen = (seen \<or> c = c2); prior = c2 in
            do { (c2, p) \<leftarrow> sqlite3Utf8Read p; set_loop c c2 prior seen p }
          }
        }
      else Some (c2, seen, p))"
  by pat_completeness auto
termination
  by (relation "measure (\<lambda>(c, c2, prior, seen, p). length p)") (auto dest!: sqlite3Utf8Read_less)

declare set_loop.simps [simp del]

text \<open>A set behind its \<open>[\<close>: the \<open>c2\<close> at its end, \<open>seen\<close>, \<open>invert\<close> and the rest of the pattern.\<close>

definition set_compare :: "nat \<Rightarrow> nat list \<Rightarrow> (nat \<times> bool \<times> bool \<times> nat list) option" where
  "set_compare c p =
     do {
       (c2, p) \<leftarrow> sqlite3Utf8Read p;
       (invert, c2, p) \<leftarrow>
         (if c2 = ch CHR ''^'' then do { (c2, p) \<leftarrow> sqlite3Utf8Read p; Some (True, c2, p) } else Some (False, c2, p));
       (seen, c2, p) \<leftarrow>
         (if c2 = ch CHR '']'' then do { (c2, p) \<leftarrow> sqlite3Utf8Read p; Some (c = ch CHR '']'', c2, p) } else Some (False, c2, p));
       (c2, seen, p) \<leftarrow> set_loop c c2 0 seen p;
       Some (c2, seen, invert, p)
     }"

lemma set_loop_le: "set_loop c c2 prior seen p = Some (e, seen', r) \<Longrightarrow> length r \<le> length p"
proof (induction c c2 prior seen p arbitrary: e seen' r rule: set_loop.induct)
  case (1 c c2 prior seen p)
  show ?case
  proof (cases "c2 \<noteq> 0 \<and> c2 \<noteq> ch CHR '']''")
    case True
    from "1.prems" True obtain range where range: "(if c2 = ch CHR ''-'' then do { b \<leftarrow> rd p 0; Some (b \<noteq> ch CHR '']'' \<and> b \<noteq> 0 \<and> prior > 0) }
        else Some False) = Some range"
      by (subst (asm) set_loop.simps) (auto simp: bind_eq_Some_conv)
    show ?thesis
    proof (cases range)
      case r: True
      with "1.prems" True range obtain d q d' q' where q: "sqlite3Utf8Read p = Some (d, q)" "sqlite3Utf8Read q = Some (d', q')"
        "set_loop c d' 0 (seen \<or> prior \<le> c \<and> c \<le> d) q' = Some (e, seen', r)"
        by (subst (asm) set_loop.simps) (auto simp: bind_eq_Some_conv Let_def split: if_splits)
      from "1.IH"(1) [OF True range r q(1) refl refl q(2) refl q(3)] show ?thesis
        using sqlite3Utf8Read_less [OF q(1)] sqlite3Utf8Read_less [OF q(2)] by linarith
    next
      case r: False
      with "1.prems" True range obtain d q where q: "sqlite3Utf8Read p = Some (d, q)"
        "set_loop c d c2 (seen \<or> c = c2) q = Some (e, seen', r)"
        by (subst (asm) set_loop.simps) (auto simp: bind_eq_Some_conv Let_def split: if_splits)
      from "1.IH"(2) [OF True range r refl refl q(1) refl q(2)] show ?thesis
        using sqlite3Utf8Read_less [OF q(1)] by linarith
    qed
  next
    case False
    with "1.prems" show ?thesis by (subst (asm) set_loop.simps) auto
  qed
qed

lemma set_compare_less: "set_compare c p = Some (e, seen, iv, r) \<Longrightarrow> length r < length p"
  by (auto simp: set_compare_def bind_eq_Some_conv dest!: set_loop_le sqlite3Utf8Read_less split: if_splits)

lemma skip_stars_less: "skip_stars info p s = Some (Some (c, q, r)) \<Longrightarrow> length q < length p"
proof (induction info p s arbitrary: c q r rule: skip_stars.induct)
  case (1 info p s)
  from "1.prems" obtain d p1 where p1: "Utf8Read p = Some (d, p1)"
    by (subst (asm) skip_stars.simps) (auto simp: bind_eq_Some_conv)
  note l = Utf8Read_less [OF p1]
  consider "d = matchAll info" | "d \<noteq> matchAll info" "d = matchOne info \<and> matchOne info \<noteq> 0"
    | "d \<noteq> matchAll info" "\<not> (d = matchOne info \<and> matchOne info \<noteq> 0)" by blast
  then show ?case
  proof cases
    case 1
    with "1.prems" p1 have "skip_stars info p1 s = Some (Some (c, q, r))" by (subst (asm) skip_stars.simps) simp
    from "1.IH"(1) [OF p1 refl 1 this] l show ?thesis by simp
  next
    case 2
    with "1.prems" p1 obtain e s1 where s1: "sqlite3Utf8Read s = Some (e, s1)" "e \<noteq> 0" "skip_stars info p1 s1 = Some (Some (c, q, r))"
      by (subst (asm) skip_stars.simps) (auto simp: bind_eq_Some_conv split: if_splits)
    from "1.IH"(2) [OF p1 refl 2 s1(1) refl s1(2,3)] l show ?thesis by simp
  next
    case 3
    with "1.prems" p1 l show ?thesis by (subst (asm) skip_stars.simps) auto
  qed
qed

text \<open>
  The three searches behind a star. \<open>f\<close> is the recursive call at a position of the string. The first
  merges \<open>strcspn\<close> over the bytes \<open>stops\<close> with the loop around it.
\<close>

fun ascii_search :: "(nat list \<Rightarrow> nat option) \<Rightarrow> nat list \<Rightarrow> nat list \<Rightarrow> nat option" where
  "ascii_search f stops [] = None"
| "ascii_search f stops (b # s) =
     (if b = 0 then Some SQLITE_NOWILDCARDMATCH
      else if b \<in> set stops then
        do { m \<leftarrow> f s; if m \<noteq> SQLITE_NOMATCH then Some m else ascii_search f stops s }
      else ascii_search f stops s)"

function char_search :: "(nat list \<Rightarrow> nat option) \<Rightarrow> nat \<Rightarrow> nat list \<Rightarrow> nat option" where
  "char_search f c s =
     do {
       (c2, s) \<leftarrow> Utf8Read s;
       if c2 = 0 then Some SQLITE_NOWILDCARDMATCH
       else if c2 \<noteq> c then char_search f c s
       else do { m \<leftarrow> f s; if m \<noteq> SQLITE_NOMATCH then Some m else char_search f c s }
     }"
  by pat_completeness auto
termination by (relation "measure (\<lambda>(f, c, s). length s)") (auto dest: Utf8Read_less)

declare char_search.simps [simp del]

function set_search :: "(nat list \<Rightarrow> nat option) \<Rightarrow> nat list \<Rightarrow> nat option" where
  "set_search f s =
     do {
       b \<leftarrow> rd s 0;
       if b = 0 then Some SQLITE_NOWILDCARDMATCH
       else do {
         m \<leftarrow> f s;
         if m \<noteq> SQLITE_NOMATCH then Some m
         else do { s \<leftarrow> SQLITE_SKIP_UTF8 s; set_search f s }
       }
     }"
  by pat_completeness auto
termination by (relation "measure (\<lambda>(f, s). length s)") (auto dest: SKIP_UTF8_less)

declare set_search.simps [simp del]

definition zStop :: "compareInfo \<Rightarrow> nat \<Rightarrow> nat list" where
  "zStop info c = (if noCase info then [sqlite3Toupper c, UpperToLower c] else [c])"

text \<open>
  \<open>zEscaped\<close> can only equal \<open>zPattern\<close> in the pass that set it: it is the flag \<open>esc\<close> here.
\<close>

function patternCompare :: "compareInfo \<Rightarrow> nat \<Rightarrow> nat list \<Rightarrow> nat list \<Rightarrow> nat option" where
  "patternCompare info matchOther p s =
     do {
       (c, p1) \<leftarrow> Utf8Read p;
       if c = 0 then do { b \<leftarrow> rd s 0; Some (if b = 0 then SQLITE_MATCH else SQLITE_NOMATCH) }
       else if c = matchAll info then do {
         r \<leftarrow> skip_stars info p1 s;
         (case r of
            None \<Rightarrow> Some SQLITE_NOWILDCARDMATCH
          | Some (c, p2, s) \<Rightarrow>
              (if c = 0 then Some SQLITE_MATCH
               else if c = matchOther \<and> matchSet info \<noteq> 0 then
                 (if matchOther < 0x80 then set_search (\<lambda>s. patternCompare info matchOther (c # p2) s) s else None)
               else do {
                 (c, p3) \<leftarrow> (if c = matchOther then sqlite3Utf8Read p2 else Some (c, p2));
                 if c = 0 then Some SQLITE_NOWILDCARDMATCH
                 else if c < 0x80 then ascii_search (\<lambda>s. patternCompare info matchOther p3 s) (zStop info c) s
                 else char_search (\<lambda>s. patternCompare info matchOther p3 s) c s
               }))
       }
       else if c = matchOther \<and> matchSet info \<noteq> 0 then do {
         (c, s) \<leftarrow> sqlite3Utf8Read s;
         if c = 0 then Some SQLITE_NOMATCH
         else do {
           (c2, seen, invert, p2) \<leftarrow> set_compare c p1;
           if c2 = 0 \<or> seen = invert then Some SQLITE_NOMATCH else patternCompare info matchOther p2 s
         }
       }
       else do {
         (c, p2, esc) \<leftarrow> (if c = matchOther then do { (c, p) \<leftarrow> sqlite3Utf8Read p1; Some (c, p, True) } else Some (c, p1, False));
         if c = 0 then Some SQLITE_NOMATCH
         else do {
           (c2, s) \<leftarrow> Utf8Read s;
           if c = c2 then patternCompare info matchOther p2 s
           else if noCase info \<and> UpperToLower (c mod 256) = UpperToLower (c2 mod 256) \<and> c < 0x80 \<and> c2 < 0x80 then
             patternCompare info matchOther p2 s
           else if c = matchOne info \<and> \<not> esc \<and> c2 \<noteq> 0 then patternCompare info matchOther p2 s
           else Some SQLITE_NOMATCH
         }
       }
     }"
  by pat_completeness auto
termination
  by (relation "measure (\<lambda>(info, m, p, s). length p)")
    (auto dest!: Utf8Read_less sqlite3Utf8Read_less skip_stars_less set_compare_less simp: bind_eq_Some_conv split: if_splits)

declare patternCompare.simps [simp del]

definition sqlite3_strglob :: "nat list option \<Rightarrow> nat list option \<Rightarrow> nat option" where
  "sqlite3_strglob zGlobPattern zString =
     (case zString of
        None \<Rightarrow> Some (if zGlobPattern \<noteq> None then 1 else 0)
      | Some s \<Rightarrow> (case zGlobPattern of None \<Rightarrow> Some 1 | Some p \<Rightarrow> patternCompare globInfo (ch CHR ''['') p s))"

definition sqlite3_strlike :: "nat list option \<Rightarrow> nat list option \<Rightarrow> nat \<Rightarrow> nat option" where
  "sqlite3_strlike zPattern zStr esc =
     (case zStr of
        None \<Rightarrow> Some (if zPattern \<noteq> None then 1 else 0)
      | Some s \<Rightarrow> (case zPattern of None \<Rightarrow> Some 1 | Some p \<Rightarrow> patternCompare likeInfoNorm esc p s))"


section \<open>What a pattern means\<close>

datatype atom = Lit nat | One | Star | Set bool "(nat \<times> nat) list" | Fail

text \<open>The ranges of a set, single characters being ranges too, and what ends it.\<close>

function set_items :: "nat \<Rightarrow> nat \<Rightarrow> nat list \<Rightarrow> ((nat \<times> nat) list \<times> nat \<times> nat list) option" where
  "set_items c2 prior p =
     (if c2 \<noteq> 0 \<and> c2 \<noteq> ch CHR '']'' then
        do {
          (d, q) \<leftarrow> sqlite3Utf8Read p;
          if c2 = ch CHR ''-'' \<and> d \<noteq> ch CHR '']'' \<and> d \<noteq> 0 \<and> prior > 0 then
            do { (d', q) \<leftarrow> sqlite3Utf8Read q; (its, e, r) \<leftarrow> set_items d' 0 q; Some ((prior, d) # its, e, r) }
          else do { (its, e, r) \<leftarrow> set_items d c2 q; Some ((c2, c2) # its, e, r) }
        }
      else Some ([], c2, p))"
  by pat_completeness auto
termination
  by (relation "measure (\<lambda>(c2, prior, p). length p)") (auto dest!: sqlite3Utf8Read_less)

declare set_items.simps [simp del]

definition parse_set :: "nat list \<Rightarrow> (bool \<times> (nat \<times> nat) list \<times> nat \<times> nat list) option" where
  "parse_set p =
     do {
       (c2, p) \<leftarrow> sqlite3Utf8Read p;
       (iv, c2, p) \<leftarrow>
         (if c2 = ch CHR ''^'' then do { (c2, p) \<leftarrow> sqlite3Utf8Read p; Some (True, c2, p) } else Some (False, c2, p));
       (its, c2, p) \<leftarrow>
         (if c2 = ch CHR '']'' then do { (c2, p) \<leftarrow> sqlite3Utf8Read p; Some ([(ch CHR '']'', ch CHR '']'')], c2, p) }
          else Some ([], c2, p));
       (its', e, p) \<leftarrow> set_items c2 0 p;
       Some (iv, its @ its', e, p)
     }"

definition in_items :: "nat \<Rightarrow> (nat \<times> nat) list \<Rightarrow> bool" where
  "in_items c its \<longleftrightarrow> list_ex (\<lambda>(lo, hi). lo \<le> c \<and> c \<le> hi) its"

lemma in_items_simps [simp]: "\<not> in_items c []" "in_items c ((lo, hi) # its) \<longleftrightarrow> lo \<le> c \<and> c \<le> hi \<or> in_items c its"
  "in_items c (as @ bs) \<longleftrightarrow> in_items c as \<or> in_items c bs"
  by (simp_all add: in_items_def)

lemma in_items_one [simp]: "d \<le> c \<and> c \<le> d \<longleftrightarrow> c = (d :: nat)" by auto

lemma set_items_le: "set_items c2 prior p = Some (its, e, r) \<Longrightarrow> length r \<le> length p"
proof (induction c2 prior p arbitrary: its e r rule: set_items.induct)
  case (1 c2 prior p)
  show ?case
  proof (cases "c2 \<noteq> 0 \<and> c2 \<noteq> ch CHR '']''")
    case True
    with "1.prems" obtain d q where q: "sqlite3Utf8Read p = Some (d, q)"
      by (subst (asm) set_items.simps) (auto simp: bind_eq_Some_conv)
    note l = sqlite3Utf8Read_less [OF q]
    show ?thesis
    proof (cases "c2 = ch CHR ''-'' \<and> d \<noteq> ch CHR '']'' \<and> d \<noteq> 0 \<and> prior > 0")
      case r: True
      with "1.prems" True q obtain d' q' its' where q': "sqlite3Utf8Read q = Some (d', q')" "set_items d' 0 q' = Some (its', e, r)"
        by (subst (asm) set_items.simps) (auto simp: bind_eq_Some_conv)
      from "1.IH"(1) [OF True q refl r q'(1) refl q'(2)] show ?thesis using l sqlite3Utf8Read_less [OF q'(1)] by linarith
    next
      case r: False
      with "1.prems" True q obtain its' where q': "set_items d c2 q = Some (its', e, r)"
        by (subst (asm) set_items.simps) (auto simp: bind_eq_Some_conv split: if_splits)
      from "1.IH"(2) [OF True q refl r q'] show ?thesis using l by linarith
    qed
  next
    case False
    with "1.prems" show ?thesis by (subst (asm) set_items.simps) auto
  qed
qed

lemma parse_set_less: "parse_set p = Some (iv, its, e, r) \<Longrightarrow> length r < length p"
  by (auto simp: parse_set_def bind_eq_Some_conv dest!: set_items_le sqlite3Utf8Read_less split: if_splits)

text \<open>The atoms of a pattern, \<open>c\<close> being its first character and \<open>p\<close> the rest.\<close>

function parse_at :: "compareInfo \<Rightarrow> nat \<Rightarrow> nat \<Rightarrow> nat list \<Rightarrow> atom list option" where
  "parse_at info matchOther c p =
     (if c = 0 then Some []
      else if c = matchAll info then
        do { (d, q) \<leftarrow> sqlite3Utf8Read p; as \<leftarrow> parse_at info matchOther d q; Some (Star # as) }
      else if c = matchOther \<and> matchSet info \<noteq> 0 then
        do {
          (iv, its, e, q) \<leftarrow> parse_set p;
          if e = 0 then Some [Fail]
          else do { (d, q) \<leftarrow> sqlite3Utf8Read q; as \<leftarrow> parse_at info matchOther d q; Some (Set iv its # as) }
        }
      else if c = matchOther then
        do {
          (c, q) \<leftarrow> sqlite3Utf8Read p;
          if c = 0 then Some [Fail]
          else do { (d, q) \<leftarrow> sqlite3Utf8Read q; as \<leftarrow> parse_at info matchOther d q; Some (Lit c # as) }
        }
      else do {
        (d, q) \<leftarrow> sqlite3Utf8Read p;
        as \<leftarrow> parse_at info matchOther d q;
        Some ((if c = matchOne info then One else Lit c) # as)
      })"
  by pat_completeness auto
termination
  by (relation "measure (\<lambda>(info, m, c, p). length p)") (auto dest!: sqlite3Utf8Read_less parse_set_less)

declare parse_at.simps [simp del]

definition parse_pat :: "compareInfo \<Rightarrow> nat \<Rightarrow> nat list \<Rightarrow> atom list option" where
  "parse_pat info matchOther p = do { (c, q) \<leftarrow> sqlite3Utf8Read p; parse_at info matchOther c q }"

fun atom_ok :: "compareInfo \<Rightarrow> atom \<Rightarrow> nat \<Rightarrow> bool" where
  "atom_ok info (Lit c) d \<longleftrightarrow> c = d \<or> noCase info \<and> c < 0x80 \<and> d < 0x80 \<and> UpperToLower c = UpperToLower d"
| "atom_ok info One d \<longleftrightarrow> True"
| "atom_ok info (Set iv its) d \<longleftrightarrow> in_items d its \<noteq> iv"
| "atom_ok info Star d \<longleftrightarrow> False"
| "atom_ok info Fail d \<longleftrightarrow> False"

fun matches :: "compareInfo \<Rightarrow> atom list \<Rightarrow> nat list \<Rightarrow> bool" where
  "matches info [] ds \<longleftrightarrow> ds = []"
| "matches info (Star # as) [] \<longleftrightarrow> matches info as []"
| "matches info (Star # as) (d # ds) \<longleftrightarrow> matches info as (d # ds) \<or> matches info (Star # as) ds"
| "matches info (a # as) [] \<longleftrightarrow> False"
| "matches info (a # as) (d # ds) \<longleftrightarrow> atom_ok info a d \<and> matches info as ds"

lemma matches_Star: "matches info (Star # as) ds \<longleftrightarrow> (\<exists>u v. ds = u @ v \<and> matches info as v)"
proof (induction ds)
  case (Cons d ds)
  show ?case
  proof
    assume "matches info (Star # as) (d # ds)"
    then show "\<exists>u v. d # ds = u @ v \<and> matches info as v"
      using Cons.IH by (auto intro: exI [of _ "[]"] exI [of _ "d # _"]) (metis append_Cons)
  next
    assume "\<exists>u v. d # ds = u @ v \<and> matches info as v"
    then obtain u v where "d # ds = u @ v" "matches info as v" by blast
    then show "matches info (Star # as) (d # ds)" using Cons.IH by (cases u) auto
  qed
qed simp

lemma matches_atom: "a \<noteq> Star \<Longrightarrow> matches info (a # as) ds \<longleftrightarrow> (\<exists>d v. ds = d # v \<and> atom_ok info a d \<and> matches info as v)"
  by (cases a; cases ds) auto

section \<open>The characters of a text\<close>

function chars :: "ctext \<Rightarrow> nat list" where
  "chars t = (case READ_UTF8 t of None \<Rightarrow> [] | Some (c, r) \<Rightarrow> c # chars r)"
  by pat_completeness auto
termination by (relation "measure length") (auto dest: READ_UTF8_less)

declare chars.simps [simp del]

lemma chars_Nil [simp]: "chars [] = []"
  by (simp add: chars.simps READ_UTF8_def)

lemma text_bytes: "is_text t \<Longrightarrow> bytes_ok t"
  by (auto simp: is_text_def bytes_ok_def list_all_iff)

lemma utf8_check_ge: "0x80 \<le> utf8_check c"
  by (simp add: utf8_check_def)

lemma more_term_conts: "\<exists>y. z = y @ snd (utf8_more_term c z) \<and> list_all (\<lambda>b. 0x80 \<le> b) y"
proof (induction c z rule: utf8_more_term.induct)
  case (2 c b z)
  show ?case
  proof (cases "is_cont b")
    case True
    with 2 obtain y where "z = y @ snd (utf8_more_term (utf8_add c b) z)" "list_all (\<lambda>b. 0x80 \<le> b) y" by blast
    with True show ?thesis by (intro exI [of _ "b # y"]) (simp add: is_cont_def)
  qed (auto intro: exI [of _ "[]"])
qed simp

lemma read_text:
  assumes "is_text t" "t \<noteq> []"
  obtains pre c r where "t = pre @ r" "pre \<noteq> []" "c \<noteq> 0" "chars t = c # chars r" "is_text r"
    "sqlite3Utf8Read (t @ [0]) = Some (c, r @ [0])" "c < 0x80 \<and> pre = [c] \<or> 0x80 \<le> c \<and> list_all (\<lambda>b. 0x80 \<le> b) pre"
proof -
  obtain b y where t: "t = b # y" "0 < b" "b < 256" "is_text y" using assms by (cases t) auto
  show ?thesis
  proof (cases "0xc0 \<le> b")
    case True
    then obtain c0 where c0: "rd sqlite3Utf8Trans1 (b - 192) = Some c0" using Trans1_some t(3) by auto
    let ?c = "fst (utf8_more_term c0 y)" and ?r = "snd (utf8_more_term c0 y)"
    have r: "READ_UTF8 t = Some (utf8_check ?c, ?r)"
      using True t(1) c0(1) by (simp add: READ_UTF8_def Let_def case_prod_unfold)
    obtain w where w: "y = w @ ?r" "list_all (\<lambda>b. 0x80 \<le> b) w" using more_term_conts by blast
    show ?thesis
    proof (rule that [of "b # w" ?r "utf8_check ?c"])
      show "t = (b # w) @ ?r" using t(1) w(1) by simp
      show "is_text ?r" using t(4) w(1) is_text_simps(3) [of w ?r] by simp
      show "chars t = utf8_check ?c # chars ?r" by (subst chars.simps) (simp add: r)
      show "sqlite3Utf8Read (t @ [0]) = Some (utf8_check ?c, ?r @ [0])" using Utf8Read_term [OF assms(2)] r by simp
      show "utf8_check ?c < 0x80 \<and> b # w = [utf8_check ?c] \<or> 0x80 \<le> utf8_check ?c \<and> list_all (\<lambda>b. 0x80 \<le> b) (b # w)"
        using utf8_check_ge [of ?c] w(2) True by simp
      show "utf8_check ?c \<noteq> 0" using utf8_check_ge [of ?c] by simp
    qed simp
  next
    case False
    then have r: "READ_UTF8 t = Some (b, y)" using t(1) by (simp add: READ_UTF8_def)
    show ?thesis
    proof (rule that [of "[b]" y b])
      show "chars t = b # chars y" by (subst chars.simps) (simp add: r)
      show "sqlite3Utf8Read (t @ [0]) = Some (b, y @ [0])" using Utf8Read_term [OF assms(2)] r by simp
    qed (use t in auto)
  qed
qed

lemma read_end: "sqlite3Utf8Read [0] = Some (0, [])"
  by (simp add: sqlite3Utf8Read_def)

lemma skip_cont_more: "utf8_more c z = Some (d, r) \<Longrightarrow> utf8_skip_cont z = Some r"
  by (induction c z rule: utf8_more.induct) (auto split: if_splits)

lemma SKIP_read: "sqlite3Utf8Read z = Some (c, r) \<Longrightarrow> SQLITE_SKIP_UTF8 z = Some r"
  by (cases z) (auto simp: sqlite3Utf8Read_def SQLITE_SKIP_UTF8_def bind_eq_Some_conv dest: skip_cont_more split: if_splits)


section \<open>The matcher decides the meaning\<close>

text \<open>A character read from a text, and what is left of the text.\<close>

definition pt :: "nat \<Rightarrow> nat list \<Rightarrow> bool" where
  "pt c p \<longleftrightarrow> c = 0 \<and> p = [] \<or> c \<noteq> 0 \<and> (\<exists>P. p = P @ [0] \<and> is_text P)"

lemma read_pt: "is_text P \<Longrightarrow> \<exists>c q. sqlite3Utf8Read (P @ [0]) = Some (c, q) \<and> pt c q"
proof (cases "P = []")
  case False
  assume "is_text P"
  then show ?thesis by (rule read_text [OF _ False]) (auto simp: pt_def)
qed (simp add: read_end pt_def)

lemma pt_text: "pt c p \<Longrightarrow> c \<noteq> 0 \<Longrightarrow> \<exists>P. p = P @ [0] \<and> is_text P"
  by (auto simp: pt_def)

lemma pt_0 [simp]: "pt 0 p \<longleftrightarrow> p = []"
  by (auto simp: pt_def)

lemma read_first:
  "sqlite3Utf8Read p = Some (d, q) \<Longrightarrow> \<exists>b. rd p 0 = Some b \<and> (b < 0x80 \<longrightarrow> d = b) \<and> (0x80 \<le> b \<longrightarrow> 0x80 \<le> d)"
  using utf8_check_ge by (cases p) (auto simp: sqlite3Utf8Read_def bind_eq_Some_conv split: if_splits)

lemma set_items_pt: "pt c2 p \<Longrightarrow> \<exists>its e r. set_items c2 prior p = Some (its, e, r) \<and> pt e r"
proof (induction "length p" arbitrary: c2 prior p rule: less_induct)
  case less
  show ?case
  proof (cases "c2 \<noteq> 0 \<and> c2 \<noteq> ch CHR '']''")
    case True
    then obtain P where P: "p = P @ [0]" "is_text P" using pt_text [OF less.prems] by blast
    obtain d q where q: "sqlite3Utf8Read p = Some (d, q)" "pt d q" using read_pt [OF P(2)] P(1) by blast
    note l = sqlite3Utf8Read_less [OF q(1)]
    show ?thesis
    proof (cases "c2 = ch CHR ''-'' \<and> d \<noteq> ch CHR '']'' \<and> d \<noteq> 0 \<and> prior > 0")
      case r: True
      then obtain Q where Q: "q = Q @ [0]" "is_text Q" using pt_text [OF q(2)] by blast
      obtain d' q' where q': "sqlite3Utf8Read q = Some (d', q')" "pt d' q'" using read_pt [OF Q(2)] Q(1) by blast
      from l sqlite3Utf8Read_less [OF q'(1)] have "length q' < length p" by linarith
      from less.hyps [OF this q'(2)] obtain its e t where "set_items d' 0 q' = Some (its, e, t)" "pt e t" by blast
      with True q(1) r q'(1) show ?thesis by (subst set_items.simps) simp
    next
      case r: False
      from less.hyps [OF l q(2)] obtain its e t where "set_items d c2 q = Some (its, e, t)" "pt e t" by blast
      with True q(1) r show ?thesis by (subst set_items.simps) auto
    qed
  next
    case False
    with less.prems show ?thesis by (subst set_items.simps) auto
  qed
qed

lemma set_loop_items:
  "set_items c2 prior p = Some (its, e, r) \<Longrightarrow> set_loop c c2 prior seen p = Some (e, seen \<or> in_items c its, r)"
proof (induction c2 prior p arbitrary: its e r seen rule: set_items.induct)
  case (1 c2 prior p)
  show ?case
  proof (cases "c2 \<noteq> 0 \<and> c2 \<noteq> ch CHR '']''")
    case True
    with "1.prems" obtain d q where q: "sqlite3Utf8Read p = Some (d, q)"
      by (subst (asm) set_items.simps) (auto simp: bind_eq_Some_conv)
    obtain b where b: "rd p 0 = Some b" "b < 0x80 \<longrightarrow> d = b" "0x80 \<le> b \<longrightarrow> 0x80 \<le> d" using read_first [OF q] by blast
    have bd: "b = x \<longleftrightarrow> d = x" if "x < 0x80" for x using b(2,3) that by (cases "b < 0x80") auto
    have cond: "(b \<noteq> ch CHR '']'' \<and> b \<noteq> 0 \<and> prior > 0) = (d \<noteq> ch CHR '']'' \<and> d \<noteq> 0 \<and> prior > 0)"
      using bd [of 93] bd [of 0] by simp
    show ?thesis
    proof (cases "c2 = ch CHR ''-'' \<and> d \<noteq> ch CHR '']'' \<and> d \<noteq> 0 \<and> prior > 0")
      case r: True
      with "1.prems" True q obtain d' q' its' where q': "sqlite3Utf8Read q = Some (d', q')" "set_items d' 0 q' = Some (its', e, r)"
        "its = (prior, d) # its'"
        by (subst (asm) set_items.simps) (auto simp: bind_eq_Some_conv)
      from "1.IH"(1) [OF True q refl r q'(1) refl q'(2), of "seen \<or> prior \<le> c \<and> c \<le> d"] True q r b(1) cond q'(1,3) show ?thesis
        by (subst set_loop.simps) (simp add: disj_assoc)
    next
      case r: False
      with "1.prems" True q obtain its' where q': "set_items d c2 q = Some (its', e, r)" "its = (c2, c2) # its'"
        by (subst (asm) set_items.simps) (auto simp: bind_eq_Some_conv split: if_splits)
      have g: "(if c2 = ch CHR ''-'' then do { b \<leftarrow> rd p 0; Some (b \<noteq> ch CHR '']'' \<and> b \<noteq> 0 \<and> prior > 0) } else Some False) = Some False"
        using r b(1) cond by auto
      from "1.IH"(2) [OF True q refl r q'(1), of "seen \<or> c = c2"] True q q'(2) show ?thesis
        by (subst set_loop.simps) (simp only: g, simp add: disj_assoc)
    qed
  next
    case False
    with "1.prems" show ?thesis by (subst (asm) set_items.simps, subst set_loop.simps) auto
  qed
qed

lemma parse_set_pt:
  assumes "is_text P"
  shows "\<exists>iv its e r. parse_set (P @ [0]) = Some (iv, its, e, r) \<and> pt e r \<and>
    (\<forall>c. set_compare c (P @ [0]) = Some (e, in_items c its, iv, r))"
proof -
  obtain c2 p where r: "sqlite3Utf8Read (P @ [0]) = Some (c2, p)" "pt c2 p" using read_pt [OF assms] by blast
  obtain iv c3 p3 where i: "(if c2 = ch CHR ''^'' then do { (c2, p) \<leftarrow> sqlite3Utf8Read p; Some (True, c2, p) }
      else Some (False, c2, p)) = Some (iv, c3, p3)" "pt c3 p3"
  proof (cases "c2 = ch CHR ''^''")
    case True
    then obtain Q where "p = Q @ [0]" "is_text Q" using pt_text [OF r(2)] by auto
    with read_pt [of Q] obtain c3 p3 where "sqlite3Utf8Read p = Some (c3, p3)" "pt c3 p3" by blast
    with True show ?thesis by (intro that [of True c3 p3]) simp_all
  qed (use r in \<open>intro that [of False c2 p], simp_all\<close>)
  obtain its c4 p4 where j: "(if c3 = ch CHR '']'' then do { (c2, p) \<leftarrow> sqlite3Utf8Read p3; Some ([(ch CHR '']'', ch CHR '']'')], c2, p) }
      else Some ([], c3, p3)) = Some (its, c4, p4)" "pt c4 p4"
    "\<And>c. (if c3 = ch CHR '']'' then do { (c2, p) \<leftarrow> sqlite3Utf8Read p3; Some (c = ch CHR '']'', c2, p) }
      else Some (False, c3, p3)) = Some (in_items c its, c4, p4)"
  proof (cases "c3 = ch CHR '']''")
    case True
    then obtain Q where "p3 = Q @ [0]" "is_text Q" using pt_text [OF i(2)] by auto
    with read_pt [of Q] obtain c4 p4 where "sqlite3Utf8Read p3 = Some (c4, p4)" "pt c4 p4" by blast
    with True show ?thesis by (intro that [of "[(93, 93)]" c4 p4]) auto
  qed (use i in \<open>intro that [of "[]" c3 p3], simp_all\<close>)
  obtain its' e q where s: "set_items c4 0 p4 = Some (its', e, q)" "pt e q" using set_items_pt [OF j(2)] by blast
  show ?thesis
    using r(1) i(1) j(1,3) s(2) set_loop_items [OF s(1)] s(1)
    by (intro exI [of _ iv] exI [of _ "its @ its'"] exI [of _ e] exI [of _ q]) (simp add: parse_set_def set_compare_def)
qed

lemma parse_at_total: "pt c p \<Longrightarrow> \<exists>as. parse_at info m c p = Some as"
proof (induction "length p" arbitrary: c p rule: less_induct)
  case less
  show ?case
  proof (cases "c = 0")
    case True
    then show ?thesis by (subst parse_at.simps) simp
  next
    case False
    then obtain P where P: "p = P @ [0]" "is_text P" using pt_text [OF less.prems] by blast
    obtain d q where q: "sqlite3Utf8Read p = Some (d, q)" "pt d q" using read_pt [OF P(2)] P(1) by blast
    have rec: "\<exists>as. (do { (d, q) \<leftarrow> sqlite3Utf8Read r; as \<leftarrow> parse_at info m d q; Some (g # as) }) = Some as"
      if "r = R @ [0]" "is_text R" "length r \<le> length p" for r R and g :: atom
    proof -
      from read_pt [OF that(2)] that(1) obtain d q where q: "sqlite3Utf8Read r = Some (d, q)" "pt d q" by blast
      from sqlite3Utf8Read_less [OF q(1)] that(3) have "length q < length p" by linarith
      from less.hyps [OF this q(2)] q(1) show ?thesis by auto
    qed
    obtain iv its e r where s: "parse_set p = Some (iv, its, e, r)" "pt e r" using parse_set_pt [OF P(2)] P(1) by blast
    have set: "\<exists>as. (if e = 0 then Some [Fail] else do { (d, q) \<leftarrow> sqlite3Utf8Read r; as \<leftarrow> parse_at info m d q; Some (Set iv its # as) }) = Some as"
    proof (cases "e = 0")
      case False
      with pt_text [OF s(2)] obtain R where R: "r = R @ [0]" "is_text R" by blast
      have "length r \<le> length p" using parse_set_less [OF s(1)] by simp
      from rec [OF R this] False show ?thesis by simp
    qed simp
    have esc: "\<exists>as. (if d = 0 then Some [Fail] else do { (d', q) \<leftarrow> sqlite3Utf8Read q; as \<leftarrow> parse_at info m d' q; Some (Lit d # as) }) = Some as"
    proof (cases "d = 0")
      case False
      with pt_text [OF q(2)] obtain R where R: "q = R @ [0]" "is_text R" by blast
      have "length q \<le> length p" using sqlite3Utf8Read_less [OF q(1)] by simp
      from rec [OF R this] False show ?thesis by simp
    qed simp
    show ?thesis
      using rec [OF P order_refl, of Star] rec [OF P order_refl, of "if c = matchOne info then One else Lit c"] set esc False s(1) q(1)
      by (subst parse_at.simps) (simp split del: if_split, simp split: if_split)
  qed
qed


text \<open>
  What a result says: a match, or, for \<open>SQLITE_NOWILDCARDMATCH\<close>, that no suffix of the string
  matches either.
\<close>

definition says :: "compareInfo \<Rightarrow> atom list \<Rightarrow> nat list \<Rightarrow> nat \<Rightarrow> bool" where
  "says info as ds r \<longleftrightarrow> r \<in> {0, 1, 2} \<and> (r = SQLITE_MATCH \<longleftrightarrow> matches info as ds) \<and>
     (r = SQLITE_NOWILDCARDMATCH \<longrightarrow> (\<forall>u v. ds = u @ v \<longrightarrow> \<not> matches info as v))"

definition decides :: "compareInfo \<Rightarrow> (nat list \<Rightarrow> nat option) \<Rightarrow> atom list \<Rightarrow> bool" where
  "decides info f as \<longleftrightarrow> (\<forall>S. is_text S \<longrightarrow> (\<exists>r. f (S @ [0]) = Some r \<and> says info as (chars S) r))"

lemma star_suffix: "matches info (Star # as) v \<Longrightarrow> matches info (Star # as) (u @ v)"
  unfolding matches_Star by (metis append.assoc)

lemma says_star: "says info (Star # as) ds (if matches info (Star # as) ds then SQLITE_MATCH else SQLITE_NOWILDCARDMATCH)"
  using star_suffix by (auto simp: says_def simp del: matches.simps)

lemma says_step: "says info as ds r \<Longrightarrow> atom_ok info a d \<Longrightarrow> a \<noteq> Star \<Longrightarrow> says info (a # as) (d # ds) r"
  unfolding says_def
proof (intro conjI impI allI; elim conjE)
  fix u v
  assume *: "r = 2 \<longrightarrow> (\<forall>u v. ds = u @ v \<longrightarrow> \<not> matches info as v)" "r = 2" "d # ds = u @ v" "a \<noteq> Star"
  show "\<not> matches info (a # as) v"
  proof
    assume "matches info (a # as) v"
    then obtain e w where "v = e # w" "matches info as w" using matches_atom [OF *(4)] by blast
    then have "\<exists>u'. ds = u' @ w" using *(3) by (cases u) auto
    with * \<open>matches info as w\<close> show False by blast
  qed
qed (auto simp: matches_atom)

lemma says_miss: "\<not> matches info as ds \<Longrightarrow> says info as ds SQLITE_NOMATCH"
  by (simp add: says_def)

text \<open>One more character in a search behind a star.\<close>

lemma search_step:
  assumes "a \<noteq> Star"
  shows "matches info (Star # a # as) (c # ds) \<longleftrightarrow> atom_ok info a c \<and> matches info as ds \<or> matches info (Star # a # as) ds"
  using assms by (simp add: matches_atom)

lemma search_stop:
  assumes "a \<noteq> Star" "says info as ds SQLITE_NOWILDCARDMATCH"
  shows "\<not> matches info (Star # a # as) ds"
proof
  assume "matches info (Star # a # as) ds"
  then obtain u v where "ds = u @ v" "matches info (a # as) v" unfolding matches_Star by blast
  then obtain d w where "ds = (u @ [d]) @ w" "matches info as w" using matches_atom [OF assms(1)] by auto
  with assms(2) show False unfolding says_def by blast
qed

definition found :: "bool \<Rightarrow> nat option" where
  "found b = Some (if b then SQLITE_MATCH else SQLITE_NOWILDCARDMATCH)"

lemma search_try:
  assumes "decides info f as" "is_text S" "a \<noteq> Star" "atom_ok info a c" "chars T = c # chars S"
    and "rest = found (matches info (Star # a # as) (chars S))"
  shows "(do { m \<leftarrow> f (S @ [0]); if m \<noteq> SQLITE_NOMATCH then Some m else rest }) = found (matches info (Star # a # as) (chars T))"
proof -
  obtain m where m: "f (S @ [0]) = Some m" "says info as (chars S) m" using assms(1,2) unfolding decides_def by blast
  consider "m = 0" | "m = 1" | "m = 2" using m(2) unfolding says_def by blast
  then show ?thesis
  proof cases
    case 1
    with m assms show ?thesis by (simp add: found_def says_def search_step del: matches.simps)
  next
    case 2
    with m assms show ?thesis by (simp add: found_def says_def search_step del: matches.simps)
  next
    case 3
    with m search_stop [OF assms(3)] have "\<not> matches info (Star # a # as) (chars S)" by blast
    moreover have "\<not> matches info as (chars S)" using m 3 by (simp add: says_def)
    ultimately show ?thesis using m(1) 3 assms(3,5) by (simp add: found_def search_step del: matches.simps)
  qed
qed

lemma search_nil: "a \<noteq> Star \<Longrightarrow> \<not> matches info (Star # a # as) []"
  by (simp add: matches_atom)

lemma ascii_search_skip: "list_all (\<lambda>b. b \<noteq> 0 \<and> b \<notin> set stops) pre \<Longrightarrow> ascii_search f stops (pre @ s) = ascii_search f stops s"
  by (induction pre) auto

lemma ascii_search_ok:
  assumes "decides info f as" "a \<noteq> Star" "list_all (\<lambda>b. b < 0x80) stops"
    and "\<And>d. atom_ok info a d \<longleftrightarrow> d \<in> set stops"
  shows "is_text S \<Longrightarrow> ascii_search f stops (S @ [0]) = found (matches info (Star # a # as) (chars S))"
proof (induction "length S" arbitrary: S rule: less_induct)
  case less
  show ?case
  proof (cases "S = []")
    case True
    with search_nil [OF assms(2)] show ?thesis by (simp add: found_def del: matches.simps)
  next
    case False
    obtain pre c r where R: "S = pre @ r" "pre \<noteq> []" "c \<noteq> 0" "chars S = c # chars r" "is_text r"
      "sqlite3Utf8Read (S @ [0]) = Some (c, r @ [0])" "c < 0x80 \<and> pre = [c] \<or> 0x80 \<le> c \<and> list_all (\<lambda>b. 0x80 \<le> b) pre"
      by (rule read_text [OF less.prems False])
    have IH: "ascii_search f stops (r @ [0]) = found (matches info (Star # a # as) (chars r))"
      using less.hyps [OF _ R(5)] R(1,2) by simp
    show ?thesis
    proof (cases "c \<in> set stops")
      case True
      then have "c < 0x80" using assms(3) by (auto simp: list_all_iff)
      then have "S = c # r" using R(1,7) by auto
      with True R(3) search_try [OF assms(1) R(5) assms(2) _ R(4) IH] assms(4) show ?thesis by simp
    next
      case False
      have "list_all (\<lambda>b. b \<noteq> 0 \<and> b \<notin> set stops) pre"
        using R(3,7) False assms(3) by (auto simp: list_all_iff) (meson leD)+
      then have "ascii_search f stops (S @ [0]) = ascii_search f stops (r @ [0])" using R(1) ascii_search_skip by simp
      with IH R(4) False assms(2,4) show ?thesis by (simp add: search_step del: matches.simps)
    qed
  qed
qed

lemma char_search_ok:
  assumes "decides info f as" "a \<noteq> Star" "\<And>d. atom_ok info a d \<longleftrightarrow> d = c"
  shows "is_text S \<Longrightarrow> char_search f c (S @ [0]) = found (matches info (Star # a # as) (chars S))"
proof (induction "length S" arbitrary: S rule: less_induct)
  case less
  show ?case
  proof (cases "S = []")
    case True
    with search_nil [OF assms(2)] show ?thesis
      by (subst char_search.simps) (simp add: found_def Utf8Read_eq read_end del: matches.simps)
  next
    case False
    obtain pre d r where R: "S = pre @ r" "pre \<noteq> []" "d \<noteq> 0" "chars S = d # chars r" "is_text r"
      "sqlite3Utf8Read (S @ [0]) = Some (d, r @ [0])"
      by (rule read_text [OF less.prems False])
    have IH: "char_search f c (r @ [0]) = found (matches info (Star # a # as) (chars r))"
      using less.hyps [OF _ R(5)] R(1,2) by simp
    show ?thesis
    proof (cases "d = c")
      case True
      with R(3,6) search_try [OF assms(1) R(5) assms(2) _ R(4) IH] assms(3) show ?thesis
        by (subst char_search.simps) (simp add: Utf8Read_eq)
    next
      case False
      with R IH assms(2,3) show ?thesis
        by (subst char_search.simps) (simp add: Utf8Read_eq search_step del: matches.simps)
    qed
  qed
qed

lemma set_search_ok:
  assumes "decides info f (a # as)" "a \<noteq> Star"
  shows "is_text S \<Longrightarrow> set_search f (S @ [0]) = found (matches info (Star # a # as) (chars S))"
proof (induction "length S" arbitrary: S rule: less_induct)
  case less
  show ?case
  proof (cases "S = []")
    case True
    with search_nil [OF assms(2)] show ?thesis
      by (subst set_search.simps) (simp add: found_def del: matches.simps)
  next
    case False
    obtain pre d r where R: "S = pre @ r" "pre \<noteq> []" "d \<noteq> 0" "chars S = d # chars r" "is_text r"
      "sqlite3Utf8Read (S @ [0]) = Some (d, r @ [0])"
      by (rule read_text [OF less.prems False])
    have IH: "set_search f (r @ [0]) = found (matches info (Star # a # as) (chars r))"
      using less.hyps [OF _ R(5)] R(1,2) by simp
    obtain m where m: "f (S @ [0]) = Some m" "says info (a # as) (chars S) m" using assms(1) less.prems unfolding decides_def by blast
    have b: "rd (S @ [0]) 0 = Some (S ! 0)" "S ! 0 \<noteq> 0" using less.prems False by (cases S; simp)+
    have sk: "SQLITE_SKIP_UTF8 (S @ [0]) = Some (r @ [0])" by (rule SKIP_read [OF R(6)])
    have st: "matches info (Star # a # as) (chars S) \<longleftrightarrow> matches info (a # as) (chars S) \<or> matches info (Star # a # as) (chars r)"
      using R(4) by simp
    consider "m = 0" | "m = 1" | "m = 2" using m(2) unfolding says_def by blast
    then show ?thesis
    proof cases
      case 1
      with m b st show ?thesis by (subst set_search.simps) (simp add: found_def says_def del: matches.simps)
    next
      case 2
      with m b st sk IH show ?thesis by (subst set_search.simps) (simp add: found_def says_def del: matches.simps)
    next
      case 3
      then have "\<not> matches info (Star # a # as) (chars S)" using m(2) unfolding says_def matches_Star by blast
      with 3 m(1) b show ?thesis by (subst set_search.simps) (simp add: found_def del: matches.simps)
    qed
  qed
qed


lemma star_star: "matches info (Star # Star # as) ds \<longleftrightarrow> matches info (Star # as) ds"
  unfolding matches_Star [of info "Star # as"] using star_suffix by (metis append_Nil)

lemma star_one: "matches info (Star # One # as) (d # ds) \<longleftrightarrow> matches info (Star # as) ds"
proof -
  have "matches info (Star # One # as) (d # ds) \<longleftrightarrow> (\<exists>u v. d # ds = u @ v \<and> (\<exists>e w. v = e # w \<and> matches info as w))"
    by (simp add: matches_Star matches_atom del: matches.simps)
  also have "\<dots> \<longleftrightarrow> (\<exists>u w. ds = u @ w \<and> matches info as w)"
  proof
    assume "\<exists>u v. d # ds = u @ v \<and> (\<exists>e w. v = e # w \<and> matches info as w)"
    then obtain u e w where "d # ds = (u @ [e]) @ w" "matches info as w" by auto
    then show "\<exists>u w. ds = u @ w \<and> matches info as w" by (metis Cons_eq_append_conv append_is_Nil_conv list.distinct(1))
  next
    assume "\<exists>u w. ds = u @ w \<and> matches info as w"
    then obtain u w where "d # ds = (d # u) @ w" "ds = u @ w" "matches info as w" by auto
    then show "\<exists>u v. d # ds = u @ v \<and> (\<exists>e w. v = e # w \<and> matches info as w)"
      by (cases u rule: rev_cases) (fastforce intro: exI [of _ "[]"], metis append.assoc append_Cons append_Nil)
  qed
  finally show ?thesis by (simp add: matches_Star)
qed

lemma skip_stars_ok:
  assumes "m \<noteq> matchOne info \<or> m = 0" "matchAll info \<noteq> 0"
  shows "is_text P \<Longrightarrow> is_text S \<Longrightarrow> parse_pat info m (P @ [0]) = Some as \<Longrightarrow>
    \<exists>x. skip_stars info (P @ [0]) (S @ [0]) = Some x \<and>
      (case x of
         None \<Rightarrow> \<not> matches info (Star # as) (chars S)
       | Some (c, p, s) \<Rightarrow> pt c p \<and> c \<noteq> matchAll info \<and> (c \<noteq> 0 \<longrightarrow> c \<noteq> matchOne info) \<and>
           (\<exists>T bs. s = T @ [0] \<and> is_text T \<and> parse_at info m c p = Some bs \<and>
              (matches info (Star # as) (chars S) \<longleftrightarrow> matches info (Star # bs) (chars T))))"
proof (induction "length P" arbitrary: P S as rule: less_induct)
  case less
  obtain c q where q: "sqlite3Utf8Read (P @ [0]) = Some (c, q)" "pt c q" using read_pt [OF less.prems(1)] by blast
  have pa: "parse_at info m c q = Some as" using less.prems(3) q(1) by (simp add: parse_pat_def)
  have Q: "\<exists>Q. q = Q @ [0] \<and> is_text Q \<and> length Q < length P" if "c \<noteq> 0"
    using pt_text [OF q(2) that] sqlite3Utf8Read_less [OF q(1)] by auto
  show ?case
  proof (cases "c \<noteq> 0 \<and> c = matchAll info")
    case True
    then obtain Q where Q: "q = Q @ [0]" "is_text Q" "length Q < length P" using Q by blast
    obtain bs where bs: "as = Star # bs" "parse_pat info m (Q @ [0]) = Some bs"
      using pa True Q(1) by (subst (asm) parse_at.simps) (auto simp: bind_eq_Some_conv parse_pat_def)
    have "skip_stars info (P @ [0]) (S @ [0]) = skip_stars info (Q @ [0]) (S @ [0])"
      using q(1) True Q(1) by (subst skip_stars.simps) (simp add: Utf8Read_eq)
    then show ?thesis
      using less.hyps [OF Q(3,2) less.prems(2) bs(2)] unfolding bs(1) star_star by simp
  next
    case F: False
    show ?thesis
    proof (cases "c \<noteq> 0 \<and> c = matchOne info")
      case True
      then obtain Q where Q: "q = Q @ [0]" "is_text Q" "length Q < length P" using Q by blast
      have "c \<noteq> m" using True assms by auto
      then obtain bs where bs: "as = One # bs" "parse_pat info m (Q @ [0]) = Some bs"
        using pa True F Q(1) by (subst (asm) parse_at.simps) (auto simp: bind_eq_Some_conv parse_pat_def)
      show ?thesis
      proof (cases "S = []")
        case S: True
        have "skip_stars info (P @ [0]) (S @ [0]) = Some None"
          using q(1) True F Q(1) S by (subst skip_stars.simps) (auto simp: Utf8Read_eq read_end)
        moreover have "\<not> matches info (Star # as) (chars S)" using bs(1) S search_nil by simp
        ultimately show ?thesis by (intro exI [of _ None]) simp
      next
        case S: False
        obtain pre d r where R: "S = pre @ r" "pre \<noteq> []" "d \<noteq> 0" "chars S = d # chars r" "is_text r"
          "sqlite3Utf8Read (S @ [0]) = Some (d, r @ [0])" by (rule read_text [OF less.prems(2) S])
        have "skip_stars info (P @ [0]) (S @ [0]) = skip_stars info (Q @ [0]) (r @ [0])"
          using q(1) True F Q(1) R(3,6) by (subst skip_stars.simps) (auto simp: Utf8Read_eq)
        then show ?thesis
          using less.hyps [OF Q(3,2) R(5) bs(2)] unfolding bs(1) R(4) star_one by simp
      qed
    next
      case F': False
      have n: "c \<noteq> matchAll info" "\<not> (c = matchOne info \<and> matchOne info \<noteq> 0)" using F F' assms(2) by auto
      then have "skip_stars info (P @ [0]) (S @ [0]) = Some (Some (c, q, S @ [0]))"
        using q(1) by (subst skip_stars.simps) (auto simp: Utf8Read_eq)
      with n q(2) pa less.prems(2) F' show ?thesis by (intro exI [of _ "Some (c, q, S @ [0])"]) auto
    qed
  qed
qed

text \<open>The comparison of one character.\<close>

lemma zStop_ok:
  assumes "c < 0x80" "c \<noteq> 0"
  shows "list_all (\<lambda>b. b < 0x80) (zStop info c)" "atom_ok info (Lit c) d \<longleftrightarrow> d \<in> set (zStop info c)"
proof -
  show "list_all (\<lambda>b. b < 0x80) (zStop info c)"
    using assms by (auto simp: zStop_def Toupper_eq UpperToLower_eq)
  show "atom_ok info (Lit c) d \<longleftrightarrow> d \<in> set (zStop info c)"
  proof (cases "d < 0x80")
    case True
    with assms show ?thesis by (auto simp: zStop_def Toupper_eq UpperToLower_eq split: if_splits)
  next
    case False
    with assms show ?thesis by (auto simp: zStop_def Toupper_eq UpperToLower_eq)
  qed
qed

lemma found_says: "found (matches info (Star # as) ds) = Some r \<Longrightarrow> says info (Star # as) ds r"
  using says_star [of info as ds] by (simp add: found_def del: matches.simps split: if_splits)

text \<open>Hypotheses under which the characters of the matcher do not get in each other's way.\<close>

definition info_ok :: "compareInfo \<Rightarrow> nat \<Rightarrow> bool" where
  "info_ok info m \<longleftrightarrow> (m \<noteq> matchOne info \<or> m = 0) \<and> (matchSet info \<noteq> 0 \<longrightarrow> m < 0x80)"

lemma lit_search:
  assumes f: "decides info f as" and c: "c \<noteq> 0" and T: "is_text T"
  shows "(if c < 0x80 then ascii_search f (zStop info c) (T @ [0]) else char_search f c (T @ [0])) =
    found (matches info (Star # Lit c # as) (chars T))"
proof (cases "c < 0x80")
  case True
  have "ascii_search f (zStop info c) (T @ [0]) = found (matches info (Star # Lit c # as) (chars T))"
    by (rule ascii_search_ok [OF f _ zStop_ok(1) zStop_ok(2) T]) (use True c in simp_all)
  with True show ?thesis by simp
next
  case False
  have "char_search f c (T @ [0]) = found (matches info (Star # Lit c # as) (chars T))"
    by (rule char_search_ok [OF f _ _ T]) (use False in auto)
  with False show ?thesis by simp
qed

lemma star_case:
  assumes ok: "info_ok info m" "matchAll info \<noteq> 0"
    and IH: "\<And>P' as. length P' < length P \<Longrightarrow> is_text P' \<Longrightarrow> parse_pat info m (P' @ [0]) = Some as \<Longrightarrow>
      decides info (patternCompare info m (P' @ [0])) as"
    and P: "is_text P" "sqlite3Utf8Read (P @ [0]) = Some (matchAll info, Q @ [0])" "is_text Q"
    and as: "parse_pat info m (Q @ [0]) = Some as"
  shows "decides info (patternCompare info m (P @ [0])) (Star # as)"
  unfolding decides_def
proof (intro allI impI)
  fix S assume S: "is_text S"
  have m: "m \<noteq> matchOne info \<or> m = 0" using ok(1) by (simp add: info_ok_def)
  from skip_stars_ok [OF m ok(2) P(3) S as] obtain x where x: "skip_stars info (Q @ [0]) (S @ [0]) = Some x"
    "case x of None \<Rightarrow> \<not> matches info (Star # as) (chars S)
       | Some (c, p, s) \<Rightarrow> pt c p \<and> c \<noteq> matchAll info \<and> (c \<noteq> 0 \<longrightarrow> c \<noteq> matchOne info) \<and>
           (\<exists>T bs. s = T @ [0] \<and> is_text T \<and> parse_at info m c p = Some bs \<and>
              (matches info (Star # as) (chars S) \<longleftrightarrow> matches info (Star # bs) (chars T)))"
    by (elim exE conjE) rule
  let ?pc = "patternCompare info m"
  show "\<exists>r. ?pc (P @ [0]) (S @ [0]) = Some r \<and> says info (Star # as) (chars S) r"
  proof (cases x)
    case None
    with x P(2) ok(2) have "?pc (P @ [0]) (S @ [0]) = Some 2"
      by (subst patternCompare.simps) (simp add: Utf8Read_eq)
    moreover have "says info (Star # as) (chars S) 2" using x(2) None says_star [of info as "chars S"] by (simp del: matches.simps)
    ultimately show ?thesis by blast
  next
    case (Some y)
    obtain c p s where y: "y = (c, p, s)" by (cases y)
    from x(2) Some y obtain T bs where c: "pt c p" "c \<noteq> matchAll info" "c \<noteq> 0 \<longrightarrow> c \<noteq> matchOne info"
      and T: "s = T @ [0]" "is_text T" "parse_at info m c p = Some bs"
        "matches info (Star # as) (chars S) \<longleftrightarrow> matches info (Star # bs) (chars T)" by auto
    have sk: "skip_stars info (Q @ [0]) (S @ [0]) = Some (Some (c, p, T @ [0]))" using x(1) Some y T(1) by simp
    have lp: "length p \<le> length Q" using skip_stars_less [OF sk] by simp
    have lQ: "length Q < length P" using sqlite3Utf8Read_less [OF P(2)] by simp
    have fin: ?thesis if "?pc (P @ [0]) (S @ [0]) = found (matches info (Star # bs) (chars T))"
    proof -
      obtain r where r: "found (matches info (Star # bs) (chars T)) = Some r" by (simp add: found_def)
      then have "says info (Star # as) (chars S) r" using T(4) found_says [of info as "chars S" r] by (simp add: found_def del: matches.simps)
      with that r show ?thesis by auto
    qed
    consider "c = 0" | "c \<noteq> 0" "c = m" "matchSet info \<noteq> 0" | "c \<noteq> 0" "c = m" "matchSet info = 0" | "c \<noteq> 0" "c \<noteq> m" by blast
    then show ?thesis
    proof cases
      case 1
      then have "bs = []" using T(3) by (subst (asm) parse_at.simps) simp
      moreover have "matches info [] []" by simp
      ultimately have "matches info (Star # bs) (chars T)" unfolding matches_Star
        by (intro exI [of _ "chars T"] exI [of _ "[]"]) simp
      moreover have "?pc (P @ [0]) (S @ [0]) = Some 0"
        using sk P(2) ok(2) 1 by (subst patternCompare.simps) (simp add: Utf8Read_eq)
      ultimately show ?thesis by (intro fin) (simp add: found_def)
    next
      case 2
      obtain R where R: "p = R @ [0]" "is_text R" using pt_text [OF c(1) 2(1)] by blast
      have m: "m < 0x80" using ok(1) 2(3) by (simp add: info_ok_def)
      obtain a bs' where bs: "bs = a # bs'" "a \<noteq> Star"
        using T(3) 2 c(2) by (subst (asm) parse_at.simps) (auto simp: bind_eq_Some_conv split: if_splits)
      have "sqlite3Utf8Read ((m # R) @ [0]) = Some (m, p)" using m R(1) by (simp add: sqlite3Utf8Read_def)
      then have "parse_pat info m ((m # R) @ [0]) = Some bs" using T(3) 2(2) by (simp add: parse_pat_def)
      moreover have "is_text (m # R)" "length (m # R) < length P" using m R 2 lp lQ by simp_all
      ultimately have d: "decides info (?pc ((m # R) @ [0])) (a # bs')" using IH [of "m # R" bs] bs(1) by blast
      have "?pc (P @ [0]) (S @ [0]) = set_search (\<lambda>s. ?pc (m # p) s) (T @ [0])"
        using sk P(2) ok(2) 2 m by (subst patternCompare.simps) (simp add: Utf8Read_eq)
      with set_search_ok [OF d bs(2) T(2)] R(1) bs(1) show ?thesis by (intro fin) simp
    next
      case 3
      obtain R where R: "p = R @ [0]" "is_text R" using pt_text [OF c(1) 3(1)] by blast
      obtain d q where q: "sqlite3Utf8Read p = Some (d, q)" "pt d q" using read_pt [OF R(2)] R(1) by blast
      have step: "?pc (P @ [0]) (S @ [0]) =
          (if d = 0 then Some 2 else if d < 0x80 then ascii_search (\<lambda>s. ?pc q s) (zStop info d) (T @ [0])
           else char_search (\<lambda>s. ?pc q s) d (T @ [0]))"
        using sk P(2) ok(2) 3 q(1) by (subst patternCompare.simps) (simp add: Utf8Read_eq)
      show ?thesis
      proof (cases "d = 0")
        case True
        then have "bs = [Fail]" using T(3) 3 c(2) q(1) by (subst (asm) parse_at.simps) simp
        then have "\<not> matches info (Star # bs) (chars T)" unfolding matches_Star by (auto simp: matches_atom)
        with step True show ?thesis by (intro fin) (simp add: found_def)
      next
        case False
        obtain R' where R': "q = R' @ [0]" "is_text R'" using pt_text [OF q(2) False] by blast
        obtain bs' where bs: "bs = Lit d # bs'" "parse_pat info m (R' @ [0]) = Some bs'"
          using T(3) 3 c(2) q(1) False R'(1) by (subst (asm) parse_at.simps) (auto simp: bind_eq_Some_conv parse_pat_def)
        have "length R' < length P" using sqlite3Utf8Read_less [OF q(1)] lp lQ R'(1) by simp
        then have dc: "decides info (?pc q) bs'" using IH [OF _ R'(2) bs(2)] R'(1) by simp
        have "?pc (P @ [0]) (S @ [0]) = found (matches info (Star # Lit d # bs') (chars T))"
          using step False lit_search [OF dc False T(2)] by simp
        then show ?thesis unfolding bs(1) [symmetric] by (rule fin)
      qed
    next
      case 4
      obtain R where R: "p = R @ [0]" "is_text R" using pt_text [OF c(1) 4(1)] by blast
      obtain bs' where bs: "bs = Lit c # bs'" "parse_pat info m (R @ [0]) = Some bs'"
        using T(3) 4 c(2,3) R(1) by (subst (asm) parse_at.simps) (auto simp: bind_eq_Some_conv parse_pat_def)
      have "length R < length P" using lp lQ R(1) by simp
      then have dc: "decides info (?pc p) bs'" using IH [OF _ R(2) bs(2)] R(1) by simp
      have "?pc (P @ [0]) (S @ [0]) =
          (if c < 0x80 then ascii_search (\<lambda>s. ?pc p s) (zStop info c) (T @ [0]) else char_search (\<lambda>s. ?pc p s) c (T @ [0]))"
        using sk P(2) ok(2) 4 by (subst patternCompare.simps) (simp add: Utf8Read_eq)
      also have "\<dots> = found (matches info (Star # Lit c # bs') (chars T))" by (rule lit_search [OF dc 4(1) T(2)])
      finally show ?thesis unfolding bs(1) [symmetric] by (rule fin)
    qed
  qed
qed

lemma lit_test:
  assumes "c \<noteq> 0" "d \<noteq> 0"
  shows "c = d \<or> noCase info \<and> UpperToLower (c mod 256) = UpperToLower (d mod 256) \<and> c < 0x80 \<and> d < 0x80 \<or> c = matchOne info \<and> \<not> esc \<longleftrightarrow>
    atom_ok info (if c = matchOne info \<and> \<not> esc then One else Lit c) d"
  by auto

lemma lit_end: "c \<noteq> 0 \<Longrightarrow> c < 0x80 \<Longrightarrow> UpperToLower (c mod 256) \<noteq> UpperToLower 0"
  using UpperToLower_eq_0 [of c] by simp

text \<open>The function, one equation for each kind of pattern character.\<close>

lemma pc_end: "sqlite3Utf8Read p = Some (0, q) \<Longrightarrow>
    patternCompare info m p z = do { b \<leftarrow> rd z 0; Some (if b = 0 then SQLITE_MATCH else SQLITE_NOMATCH) }"
  by (subst patternCompare.simps) (simp add: Utf8Read_eq)

lemma pc_set: "sqlite3Utf8Read p = Some (c, q) \<Longrightarrow> c \<noteq> 0 \<Longrightarrow> c \<noteq> matchAll info \<Longrightarrow> c = m \<Longrightarrow> matchSet info \<noteq> 0 \<Longrightarrow>
    patternCompare info m p z = do {
      (c, s) \<leftarrow> sqlite3Utf8Read z;
      if c = 0 then Some SQLITE_NOMATCH
      else do {
        (c2, seen, invert, p2) \<leftarrow> set_compare c q;
        if c2 = 0 \<or> seen = invert then Some SQLITE_NOMATCH else patternCompare info m p2 s
      } }"
  by (subst patternCompare.simps) (simp add: Utf8Read_eq)

definition pc_lit :: "compareInfo \<Rightarrow> (nat list \<Rightarrow> nat option) \<Rightarrow> nat \<Rightarrow> bool \<Rightarrow> nat list \<Rightarrow> nat option" where
  "pc_lit info f c esc z = do {
      (c2, s) \<leftarrow> Utf8Read z;
      if c = c2 then f s
      else if noCase info \<and> UpperToLower (c mod 256) = UpperToLower (c2 mod 256) \<and> c < 0x80 \<and> c2 < 0x80 then f s
      else if c = matchOne info \<and> \<not> esc \<and> c2 \<noteq> 0 then f s
      else Some SQLITE_NOMATCH }"

lemma pc_esc: "sqlite3Utf8Read p = Some (c, q) \<Longrightarrow> c \<noteq> 0 \<Longrightarrow> c \<noteq> matchAll info \<Longrightarrow> c = m \<Longrightarrow> matchSet info = 0 \<Longrightarrow>
    sqlite3Utf8Read q = Some (d, r) \<Longrightarrow>
    patternCompare info m p z = (if d = 0 then Some SQLITE_NOMATCH else pc_lit info (patternCompare info m r) d True z)"
  by (subst patternCompare.simps) (simp add: Utf8Read_eq pc_lit_def)

lemma pc_chr: "sqlite3Utf8Read p = Some (c, q) \<Longrightarrow> c \<noteq> 0 \<Longrightarrow> c \<noteq> matchAll info \<Longrightarrow> c \<noteq> m \<Longrightarrow>
    patternCompare info m p z = pc_lit info (patternCompare info m q) c False z"
  by (subst patternCompare.simps) (simp add: Utf8Read_eq pc_lit_def)

lemma lit_step:
  assumes S: "is_text S" and c: "c \<noteq> 0"
    and f: "decides info f as" and a: "a = (if c = matchOne info \<and> \<not> esc then One else Lit c)"
  shows "\<exists>r. pc_lit info f c esc (S @ [0]) = Some r \<and> says info (a # as) (chars S) r"
proof (cases "S = []")
  case True
  have "\<not> matches info (a # as) []" using a by simp
  with True c lit_end [OF c] says_miss [of info "a # as" "[]"] show ?thesis by (auto simp: pc_lit_def Utf8Read_eq read_end)
next
  case False
  obtain pre d r where R: "S = pre @ r" "d \<noteq> 0" "chars S = d # chars r" "is_text r"
    "sqlite3Utf8Read (S @ [0]) = Some (d, r @ [0])" by (rule read_text [OF S False])
  have aS: "a \<noteq> Star" using a by simp
  obtain x where x: "f (r @ [0]) = Some x" "says info as (chars r) x" using f R(4) unfolding decides_def by blast
  show ?thesis
  proof (cases "atom_ok info a d")
    case True
    with lit_test [OF c R(2), of info esc] a have "c = d \<or> noCase info \<and> UpperToLower (c mod 256) = UpperToLower (d mod 256) \<and> c < 0x80 \<and> d < 0x80 \<or>
      c = matchOne info \<and> \<not> esc" by simp
    with x(1) R(2,5) says_step [OF x(2) True aS] R(3) show ?thesis by (auto simp: pc_lit_def Utf8Read_eq)
  next
    case F: False
    with lit_test [OF c R(2), of info esc] a have "\<not> (c = d \<or> noCase info \<and> UpperToLower (c mod 256) = UpperToLower (d mod 256) \<and> c < 0x80 \<and> d < 0x80 \<or>
      c = matchOne info \<and> \<not> esc)" by simp
    moreover have "\<not> matches info (a # as) (chars S)" using F aS R(3) by (auto simp: matches_atom)
    ultimately show ?thesis using R(5) says_miss by (auto simp: pc_lit_def Utf8Read_eq)
  qed
qed

lemma set_case:
  assumes "is_text S" "is_text Q" "parse_set (Q @ [0]) = Some (iv, its, e, q)"
    and "\<And>c. set_compare c (Q @ [0]) = Some (e, in_items c its, iv, q)"
    and "e = 0 \<and> as = [Fail] \<or> e \<noteq> 0 \<and> (\<exists>bs. as = Set iv its # bs \<and> decides info (f q) bs)"
  shows "\<exists>r. (do {
      (c, s) \<leftarrow> sqlite3Utf8Read (S @ [0]);
      if c = 0 then Some SQLITE_NOMATCH
      else do {
        (c2, seen, invert, p2) \<leftarrow> set_compare c (Q @ [0]);
        if c2 = 0 \<or> seen = invert then Some SQLITE_NOMATCH else f p2 s
      } }) = Some r \<and> says info as (chars S) r"
proof (cases "S = []")
  case True
  have "\<not> matches info as []" using assms(5) by auto
  with True says_miss [of info as "[]"] show ?thesis by (auto simp: read_end)
next
  case False
  obtain pre d r where R: "S = pre @ r" "d \<noteq> 0" "chars S = d # chars r" "is_text r"
    "sqlite3Utf8Read (S @ [0]) = Some (d, r @ [0])" by (rule read_text [OF assms(1) False])
  show ?thesis
  proof (cases "e = 0 \<or> in_items d its = iv")
    case True
    then have "\<not> matches info as (chars S)" using assms(5) R(3) by auto
    with True R(2,5) assms(4) says_miss show ?thesis by auto
  next
    case F: False
    with assms(5) obtain bs where bs: "as = Set iv its # bs" "decides info (f q) bs" by blast
    obtain x where x: "f q (r @ [0]) = Some x" "says info bs (chars r) x" using bs(2) R(4) unfolding decides_def by blast
    have "says info as (chars S) x" using says_step [OF x(2), of "Set iv its" d] F bs(1) R(3) by simp
    with F R(2,5) assms(4) x(1) show ?thesis by auto
  qed
qed

lemma chars_Nil_iff:
  assumes "is_text S"
  shows "chars S = [] \<longleftrightarrow> S = []"
proof (cases "S = []")
  case False
  show ?thesis by (rule read_text [OF assms False]) simp
qed simp

lemma decidesI: "(\<And>S. is_text S \<Longrightarrow> \<exists>r. f (S @ [0]) = Some r \<and> says info as (chars S) r) \<Longrightarrow> decides info f as"
  by (simp add: decides_def)

lemma pa_end: "parse_at info m 0 q = Some []"
  by (subst parse_at.simps) simp

lemma pa_star: "matchAll info \<noteq> 0 \<Longrightarrow> parse_at info m (matchAll info) q = do { as \<leftarrow> parse_pat info m q; Some (Star # as) }"
  by (subst parse_at.simps) (auto simp: parse_pat_def bind_eq_Some_conv split: Option.bind_split)

lemma pa_set: "m \<noteq> 0 \<Longrightarrow> m \<noteq> matchAll info \<Longrightarrow> matchSet info \<noteq> 0 \<Longrightarrow> parse_set q = Some (iv, its, e, r) \<Longrightarrow>
    parse_at info m m q = (if e = 0 then Some [Fail] else do { as \<leftarrow> parse_pat info m r; Some (Set iv its # as) })"
  by (subst parse_at.simps) (auto simp: parse_pat_def split: Option.bind_split)

lemma pa_esc: "m \<noteq> 0 \<Longrightarrow> m \<noteq> matchAll info \<Longrightarrow> matchSet info = 0 \<Longrightarrow> sqlite3Utf8Read q = Some (d, r) \<Longrightarrow>
    parse_at info m m q = (if d = 0 then Some [Fail] else do { as \<leftarrow> parse_pat info m r; Some (Lit d # as) })"
  by (subst parse_at.simps) (auto simp: parse_pat_def split: Option.bind_split)

lemma pa_chr: "c \<noteq> 0 \<Longrightarrow> c \<noteq> matchAll info \<Longrightarrow> c \<noteq> m \<Longrightarrow>
    parse_at info m c q = do { as \<leftarrow> parse_pat info m q; Some ((if c = matchOne info then One else Lit c) # as) }"
  by (subst parse_at.simps) (auto simp: parse_pat_def split: Option.bind_split)

lemma set_decides:
  assumes IH: "\<And>R bs. length R < length P \<Longrightarrow> is_text R \<Longrightarrow> parse_pat info m (R @ [0]) = Some bs \<Longrightarrow>
      decides info (patternCompare info m (R @ [0])) bs"
    and c: "m \<noteq> 0" "m \<noteq> matchAll info" "matchSet info \<noteq> 0"
    and P: "sqlite3Utf8Read (P @ [0]) = Some (m, Q @ [0])" "is_text Q" "parse_at info m m (Q @ [0]) = Some as"
  shows "decides info (patternCompare info m (P @ [0])) as"
proof -
  obtain iv its e r where s: "parse_set (Q @ [0]) = Some (iv, its, e, r)" "pt e r"
    "\<And>c. set_compare c (Q @ [0]) = Some (e, in_items c its, iv, r)" using parse_set_pt [OF P(2)] by blast
  have lQ: "length Q < length P" using sqlite3Utf8Read_less [OF P(1)] by simp
  have pa: "(if e = 0 then Some [Fail] else do { as \<leftarrow> parse_pat info m r; Some (Set iv its # as) }) = Some as"
    using P(3) pa_set [OF c s(1)] by simp
  have e: "e = 0 \<and> as = [Fail] \<or> e \<noteq> 0 \<and> (\<exists>bs. as = Set iv its # bs \<and> decides info (patternCompare info m r) bs)"
  proof (cases "e = 0")
    case True
    with pa show ?thesis by simp
  next
    case False
    then obtain R where R: "r = R @ [0]" "is_text R" using pt_text [OF s(2)] by blast
    from pa False R(1) obtain bs where bs: "as = Set iv its # bs" "parse_pat info m (R @ [0]) = Some bs"
      by (auto simp: bind_eq_Some_conv)
    have "length R < length P" using parse_set_less [OF s(1)] lQ R(1) by simp
    from IH [OF this R(2) bs(2)] bs(1) R(1) False show ?thesis by simp
  qed
  show ?thesis
  proof (rule decidesI)
    fix S :: "nat list"
    assume S: "is_text S"
    show "\<exists>r. patternCompare info m (P @ [0]) (S @ [0]) = Some r \<and> says info as (chars S) r"
      unfolding pc_set [OF P(1) c(1,2) refl c(3)] by (rule set_case [where f = "patternCompare info m", OF S P(2) s(1) s(3) e])
  qed
qed

lemma lit_decides:
  assumes f: "decides info (patternCompare info m q) as" and c: "c \<noteq> 0"
    and a: "a = (if c = matchOne info \<and> \<not> esc then One else Lit c)"
    and pc: "\<And>z. patternCompare info m p z = pc_lit info (patternCompare info m q) c esc z"
  shows "decides info (patternCompare info m p) (a # as)"
  unfolding pc by (rule decidesI) (rule lit_step [OF _ c f a])

lemma esc_decides:
  assumes IH: "\<And>R bs. length R < length P \<Longrightarrow> is_text R \<Longrightarrow> parse_pat info m (R @ [0]) = Some bs \<Longrightarrow>
      decides info (patternCompare info m (R @ [0])) bs"
    and c: "m \<noteq> 0" "m \<noteq> matchAll info" "matchSet info = 0"
    and P: "sqlite3Utf8Read (P @ [0]) = Some (m, Q @ [0])" "is_text Q" "parse_at info m m (Q @ [0]) = Some as"
  shows "decides info (patternCompare info m (P @ [0])) as"
proof -
  obtain d r where r: "sqlite3Utf8Read (Q @ [0]) = Some (d, r)" "pt d r" using read_pt [OF P(2)] by blast
  have pa: "(if d = 0 then Some [Fail] else do { as \<leftarrow> parse_pat info m r; Some (Lit d # as) }) = Some as"
    using P(3) pa_esc [OF c r(1)] by simp
  note pc = pc_esc [OF P(1) c(1,2) refl c(3) r(1)]
  show ?thesis
  proof (cases "d = 0")
    case True
    have "\<not> matches info [Fail] ds" for ds by (cases ds) simp_all
    with True pa says_miss pc show ?thesis by (auto simp: decides_def)
  next
    case False
    then obtain R where R: "r = R @ [0]" "is_text R" using pt_text [OF r(2)] by blast
    from pa False R(1) obtain bs where bs: "as = Lit d # bs" "parse_pat info m (R @ [0]) = Some bs"
      by (auto simp: bind_eq_Some_conv)
    have "length R < length P" using sqlite3Utf8Read_less [OF r(1)] sqlite3Utf8Read_less [OF P(1)] R(1) by simp
    note dc = IH [OF this R(2) bs(2), folded R(1)]
    show ?thesis unfolding bs(1) by (rule lit_decides [OF dc False, where esc = True]) (simp_all add: pc False)
  qed
qed

lemma patternCompare_decides:
  assumes "info_ok info m"
  shows "is_text P \<Longrightarrow> parse_pat info m (P @ [0]) = Some as \<Longrightarrow> decides info (patternCompare info m (P @ [0])) as"
proof (induction "length P" arbitrary: P as rule: less_induct)
  case less
  obtain c q where q: "sqlite3Utf8Read (P @ [0]) = Some (c, q)" "pt c q" using read_pt [OF less.prems(1)] by blast
  have pa: "parse_at info m c q = Some as" using less.prems(2) q(1) by (simp add: parse_pat_def)
  show ?case
  proof (cases "c = 0")
    case True
    have "as = []" using pa True by (simp add: pa_end)
    moreover have "patternCompare info m (P @ [0]) (S @ [0]) = Some (if S = [] then 0 else 1)" if "is_text S" for S
      using pc_end [of "P @ [0]" q info m "S @ [0]"] q(1) True that by (cases S) auto
    ultimately show ?thesis by (auto simp: decides_def says_def chars_Nil_iff)
  next
    case F: False
    then obtain Q where Q: "q = Q @ [0]" "is_text Q" using pt_text [OF q(2)] by blast
    have lQ: "length Q < length P" using sqlite3Utf8Read_less [OF q(1)] Q(1) by simp
    have P: "sqlite3Utf8Read (P @ [0]) = Some (c, Q @ [0])" using q(1) Q(1) by simp
    have pQ: "parse_at info m c (Q @ [0]) = Some as" using pa Q(1) by simp
    consider "c = matchAll info" | "c \<noteq> matchAll info" "c = m" "matchSet info \<noteq> 0" | "c \<noteq> matchAll info" "c = m" "matchSet info = 0"
      | "c \<noteq> matchAll info" "c \<noteq> m" by blast
    then show ?thesis
    proof cases
      case 1
      from pQ F pa_star [of info m "Q @ [0]"] 1 obtain bs where bs: "as = Star # bs" "parse_pat info m (Q @ [0]) = Some bs"
        by (auto simp: bind_eq_Some_conv)
      show ?thesis unfolding bs(1)
        by (rule star_case [OF assms _ less.hyps less.prems(1) P [unfolded 1] Q(2) bs(2)]) (use F 1 in simp_all)
    next
      case 2
      show ?thesis
        by (rule set_decides [OF less.hyps _ _ 2(3) P [unfolded 2(2)] Q(2) pQ [unfolded 2(2)]]) (use F 2 in simp_all)
    next
      case 3
      show ?thesis
        by (rule esc_decides [OF less.hyps _ _ 3(3) P [unfolded 3(2)] Q(2) pQ [unfolded 3(2)]]) (use F 3 in simp_all)
    next
      case 4
      from pQ pa_chr [OF F 4] obtain bs where bs: "as = (if c = matchOne info then One else Lit c) # bs" "parse_pat info m (Q @ [0]) = Some bs"
        by (auto simp: bind_eq_Some_conv)
      show ?thesis unfolding bs(1)
        by (rule lit_decides [OF less.hyps [OF lQ Q(2) bs(2)] F, where esc = False]) (simp_all add: pc_chr [OF P F 4])
    qed
  qed
qed

section \<open>Properties\<close>

text \<open>
  C31: \<open>patternCompare\<close> returns on every pattern and every string, without reading behind a
  terminator, and reports a match exactly when the string matches the atoms of the pattern:
  literals (up to ASCII case for LIKE), escaped characters, single wildcards, sets with ranges and
  stars. \<open>SQLITE_NOWILDCARDMATCH\<close>, which ends the searches of all stars around it, is reported
  only when no suffix of the string matches, so giving up early loses no match.
\<close>

theorem pattern_compare_decides:
  assumes "is_text P" "is_text S" "m \<noteq> matchOne info \<or> m = 0" "matchSet info \<noteq> 0 \<longrightarrow> m < 0x80"
  shows "\<exists>as r. parse_pat info m (P @ [0]) = Some as \<and> patternCompare info m (P @ [0]) (S @ [0]) = Some r \<and>
    r \<in> {SQLITE_MATCH, SQLITE_NOMATCH, SQLITE_NOWILDCARDMATCH} \<and>
    (r = SQLITE_MATCH \<longleftrightarrow> matches info as (chars S)) \<and>
    (r = SQLITE_NOWILDCARDMATCH \<longrightarrow> (\<forall>u v. chars S = u @ v \<longrightarrow> \<not> matches info as v))"
proof -
  obtain c q where q: "sqlite3Utf8Read (P @ [0]) = Some (c, q)" "pt c q" using read_pt [OF assms(1)] by blast
  then obtain as where as: "parse_pat info m (P @ [0]) = Some as"
    using parse_at_total [OF q(2), of info m] by (auto simp: parse_pat_def)
  have "info_ok info m" using assms(3,4) by (simp add: info_ok_def)
  from patternCompare_decides [OF this assms(1) as] assms(2) as show ?thesis
    unfolding decides_def says_def by blast
qed

text \<open>The pattern \<open>a*[b-d]\<close> of GLOB and the string \<open>axyc\<close>.\<close>

theorem pattern_compare_decides_witness:
  "\<exists>as r. parse_pat globInfo 91 ([97, 42, 91, 98, 45, 100, 93] @ [0]) = Some as \<and>
    patternCompare globInfo 91 ([97, 42, 91, 98, 45, 100, 93] @ [0]) ([97, 120, 121, 99] @ [0]) = Some r \<and>
    r \<in> {SQLITE_MATCH, SQLITE_NOMATCH, SQLITE_NOWILDCARDMATCH} \<and>
    (r = SQLITE_MATCH \<longleftrightarrow> matches globInfo as (chars [97, 120, 121, 99])) \<and>
    (r = SQLITE_NOWILDCARDMATCH \<longrightarrow> (\<forall>u v. chars [97, 120, 121, 99] = u @ v \<longrightarrow> \<not> matches globInfo as v))"
  by (rule pattern_compare_decides) (simp_all add: globInfo_def)

lemma demo_glob: "sqlite3_strglob (Some [97, 42, 91, 98, 45, 100, 93, 0]) (Some [97, 120, 121, 99, 0]) = Some 0"
  by code_simp

lemma demo_like: "sqlite3_strlike (Some [65, 37, 90, 0]) (Some [97, 120, 121, 99, 0]) 0 = Some 2"
  by code_simp

end
