(* ===== verification/WalIndex.thy ===== *)
theory WalIndex
  imports Probe
begin

text \<open>
  The wal-index of \<^verbatim>\<open>src/wal.c\<close>: for every frame of the write-ahead log the number of the
  database page it holds, with a hash table over each block of frames. The index lives in memory
  shared by the connections (\<open>walShm\<close>); a connection (\<open>Wal\<close>) maps its pages one by one and keeps
  a private copy of the header. What the operating system answers to a mapping request and whether
  memory can be allocated are parameters (\<open>walEnv\<close>).
\<close>

section \<open>Data\<close>

abbreviation (input) HASHTABLE_NPAGE :: nat where "HASHTABLE_NPAGE \<equiv> 4096"
abbreviation (input) HASHTABLE_HASH_1 :: nat where "HASHTABLE_HASH_1 \<equiv> 383"
abbreviation (input) HASHTABLE_NSLOT :: nat where "HASHTABLE_NSLOT \<equiv> 8192"
abbreviation (input) WALINDEX_HDR_SIZE :: nat where "WALINDEX_HDR_SIZE \<equiv> 136"
abbreviation (input) HASHTABLE_NPAGE_ONE :: nat where "HASHTABLE_NPAGE_ONE \<equiv> 4062"
abbreviation (input) WALINDEX_PGSZ :: nat where "WALINDEX_PGSZ \<equiv> 32768"
abbreviation (input) WAL_HEAPMEMORY_MODE :: nat where "WAL_HEAPMEMORY_MODE \<equiv> 2"
abbreviation (input) WAL_SHM_RDONLY :: nat where "WAL_SHM_RDONLY \<equiv> 2"

record WalIndexHdr =
  iVersion :: nat
  iChange :: nat
  isInit :: bool
  bigEndCksum :: bool
  hszPage :: nat
  mxFrame :: nat
  nPage :: nat
  aFrameCksum :: "u32 \<times> u32"
  aSalt :: "u8 list"
  aCksum :: "u32 \<times> u32"

record WalCkptInfo =
  nBackfill :: nat
  aReadMark :: "nat list"
  nBackfillAttempted :: nat

text \<open>A page of the index: the page numbers of a block of frames and the hash table over them.\<close>

record walPage =
  aPgno :: "nat list"
  aHash :: "nat list"

record walShm =
  wiHdr :: "WalIndexHdr \<times> WalIndexHdr"
  ckptInfo :: WalCkptInfo
  wiPage :: "nat \<Rightarrow> walPage"

text \<open>\<open>apWiData\<close> tells which pages of the index the connection has mapped.\<close>

record Wal =
  apWiData :: "bool list"
  szPage :: nat
  readLock :: int
  exclusiveMode :: nat
  writeLock :: bool
  ckptLock :: bool
  readOnly :: nat
  bShmUnreliable :: bool
  hdr :: WalIndexHdr
  minFrame :: nat
  iReCksum :: nat
  nCkpt :: nat
  syncHeader :: bool
  padToSectorBoundary :: bool
  truncateOnCommit :: bool
  mxWalSize :: int
  iCallback :: nat

record walEnv =
  mallocOk :: "nat \<Rightarrow> bool"
  osShmMap :: "nat \<Rightarrow> bool \<Rightarrow> nat \<times> bool"

section \<open>Mapping a page\<close>

definition wi_cap :: "nat \<Rightarrow> nat" where
  "wi_cap h = (if h = 0 then HASHTABLE_NPAGE_ONE else HASHTABLE_NPAGE)"

definition zero_page :: "nat \<Rightarrow> walPage" where
  "zero_page h = \<lparr>aPgno = replicate (wi_cap h) 0, aHash = replicate HASHTABLE_NSLOT 0\<rparr>"

definition walIndexPageRealloc :: "walEnv \<Rightarrow> Wal \<Rightarrow> walShm \<Rightarrow> nat \<Rightarrow> Wal \<times> walShm \<times> nat \<times> bool" where
  "walIndexPageRealloc E w s iPage =
     (if length (apWiData w) \<le> iPage \<and> \<not> mallocOk E (8 * (iPage + 1)) then (w, s, SQLITE_NOMEM, False)
      else
        let w = w\<lparr>apWiData := apWiData w @ replicate (iPage + 1 - length (apWiData w)) False\<rparr>
        in if exclusiveMode w = WAL_HEAPMEMORY_MODE then
             (if mallocOk E WALINDEX_PGSZ then
                (w\<lparr>apWiData := (apWiData w)[iPage := True]\<rparr>,
                 s\<lparr>wiPage := (wiPage s)(iPage := zero_page iPage)\<rparr>, SQLITE_OK, True)
              else (w, s, SQLITE_NOMEM, False))
           else
             let (rc, p) = osShmMap E iPage (writeLock w);
                 w = w\<lparr>apWiData := (apWiData w)[iPage := p]\<rparr>
             in if rc mod 256 = SQLITE_READONLY then
                  (w\<lparr>readOnly := (readOnly w OR WAL_SHM_RDONLY)\<rparr>, s,
                   (if rc = SQLITE_READONLY then SQLITE_OK else rc), p)
                else (w, s, rc, p))"

definition walIndexPage :: "walEnv \<Rightarrow> Wal \<Rightarrow> walShm \<Rightarrow> nat \<Rightarrow> Wal \<times> walShm \<times> nat \<times> bool" where
  "walIndexPage E w s iPage =
     (if length (apWiData w) \<le> iPage \<or> \<not> apWiData w ! iPage then walIndexPageRealloc E w s iPage
      else (w, s, SQLITE_OK, True))"

text \<open>\<open>apWiData[h]\<close> can be used.\<close>

definition mapped :: "Wal \<Rightarrow> nat \<Rightarrow> bool" where
  "mapped w h \<longleftrightarrow> h < length (apWiData w) \<and> apWiData w ! h"

section \<open>Hash tables\<close>

definition walHash :: "nat \<Rightarrow> nat" where
  "walHash iPage = (iPage * HASHTABLE_HASH_1 mod 2 ^ 32) AND (HASHTABLE_NSLOT - 1)"

definition walNextHash :: "nat \<Rightarrow> nat" where
  "walNextHash iPriorHash = (iPriorHash + 1) AND (HASHTABLE_NSLOT - 1)"

text \<open>
  A hash location is the number of an index page, whose arrays are \<open>aPgno\<close> and \<open>aHash\<close>, with
  \<open>iZero\<close>, the number of the last frame before the page.
\<close>

definition iZero :: "nat \<Rightarrow> nat" where
  "iZero iHash = (if iHash = 0 then 0 else HASHTABLE_NPAGE_ONE + (iHash - 1) * HASHTABLE_NPAGE)"

definition walHashGet :: "walEnv \<Rightarrow> Wal \<Rightarrow> walShm \<Rightarrow> nat \<Rightarrow> Wal \<times> walShm \<times> nat" where
  "walHashGet E w s iHash =
     (let (w, s, rc, p) = walIndexPage E w s iHash
      in (w, s, if p then rc else if rc = SQLITE_OK then SQLITE_ERROR else rc))"

definition walFramePage :: "nat \<Rightarrow> nat" where
  "walFramePage iFrame = (iFrame + HASHTABLE_NPAGE - HASHTABLE_NPAGE_ONE - 1) div HASHTABLE_NPAGE"

definition walFramePgno :: "Wal \<Rightarrow> walShm \<Rightarrow> nat \<Rightarrow> nat option" where
  "walFramePgno w s iFrame =
     (let iHash = walFramePage iFrame
      in if \<not> mapped w iHash then None
         else if iHash = 0 then (if iFrame = 0 then None else rd (aPgno (wiPage s 0)) (iFrame - 1))
         else rd (aPgno (wiPage s iHash)) ((iFrame - 1 - HASHTABLE_NPAGE_ONE) mod HASHTABLE_NPAGE))"

definition walCleanupHash :: "walEnv \<Rightarrow> Wal \<Rightarrow> walShm \<Rightarrow> Wal \<times> walShm" where
  "walCleanupHash E w s =
     (if mxFrame (hdr w) = 0 then (w, s)
      else
        let h = walFramePage (mxFrame (hdr w));
            (w, s, rc) = walHashGet E w s h
        in if rc \<noteq> SQLITE_OK then (w, s)
           else
             let iLimit = mxFrame (hdr w) - iZero h;
                 p = wiPage s h
             in (w, s\<lparr>wiPage := (wiPage s)(h := p\<lparr>
                   aHash := map (\<lambda>x. if iLimit < x then 0 else x) (aHash p),
                   aPgno := take iLimit (aPgno p) @ replicate (length (aPgno p) - iLimit) 0\<rparr>)\<rparr>))"

text \<open>Looking for a free slot; \<open>None\<close> is the answer \<open>SQLITE_CORRUPT\<close>.\<close>

fun free_slot :: "nat list \<Rightarrow> nat \<Rightarrow> nat \<Rightarrow> nat option" where
  "free_slot t iKey nCollide =
     (if t ! iKey = 0 then Some iKey
      else case nCollide of 0 \<Rightarrow> None | Suc n \<Rightarrow> free_slot t (walNextHash iKey) n)"

definition walIndexAppend :: "walEnv \<Rightarrow> Wal \<Rightarrow> walShm \<Rightarrow> nat \<Rightarrow> nat \<Rightarrow> (Wal \<times> walShm \<times> nat) option" where
  "walIndexAppend E w s iFrame iPage =
     (let h = walFramePage iFrame;
          (w, s, rc) = walHashGet E w s h
      in if rc \<noteq> SQLITE_OK then Some (w, s, rc)
         else
           let idx = iFrame - iZero h;
               s = (if idx = 1 then s\<lparr>wiPage := (wiPage s)(h := zero_page h)\<rparr> else s)
           in do {
             x \<leftarrow> rd (aPgno (wiPage s h)) (idx - 1);
             let (w, s) = (if x \<noteq> 0 then walCleanupHash E w s else (w, s));
             let p = wiPage s h;
             (case free_slot (aHash p) (walHash iPage) idx of
                None \<Rightarrow> Some (w, s, SQLITE_CORRUPT)
              | Some iKey \<Rightarrow>
                  Some (w, s\<lparr>wiPage := (wiPage s)(h := p\<lparr>aPgno := (aPgno p)[idx - 1 := iPage],
                    aHash := (aHash p)[iKey := idx mod 2 ^ 16]\<rparr>)\<rparr>, SQLITE_OK))
           })"

section \<open>Looking a page up\<close>

text \<open>
  The assertion that the frames of a page ascend along the chain holds by its second disjunct,
  \<open>CORRUPT_DB\<close>, unless a test has set \<open>neverCorrupt\<close>.
\<close>

fun find_slots :: "walPage \<Rightarrow> nat \<Rightarrow> nat \<Rightarrow> nat \<Rightarrow> nat \<Rightarrow> nat \<Rightarrow> nat \<Rightarrow> nat \<Rightarrow> (nat \<times> nat) option" where
  "find_slots p zero iLast lo pgno iKey nCollide iRead =
     do {
       iH \<leftarrow> rd (aHash p) iKey;
       if iH = 0 then Some (SQLITE_OK, iRead)
       else do {
         let iFrame = iH + zero;
         iRead \<leftarrow> (if iFrame \<le> iLast \<and> lo \<le> iFrame then
            do { x \<leftarrow> rd (aPgno p) (iH - 1); Some (if x = pgno then iFrame else iRead) } else Some iRead);
         (case nCollide of
            0 \<Rightarrow> Some (SQLITE_CORRUPT, 0)
          | Suc n \<Rightarrow> find_slots p zero iLast lo pgno (walNextHash iKey) n iRead)
       }
     }"

text \<open>The tables \<open>iMinHash + k - 1\<close> down to \<open>iMinHash\<close>.\<close>

primrec find_tables :: "walEnv \<Rightarrow> nat \<Rightarrow> nat \<Rightarrow> nat \<Rightarrow> Wal \<Rightarrow> walShm \<Rightarrow> (Wal \<times> walShm \<times> nat \<times> nat) option" where
  "find_tables E pgno iMinHash 0 w s = Some (w, s, SQLITE_OK, 0)"
| "find_tables E pgno iMinHash (Suc k) w s =
     (let iHash = iMinHash + k;
          (w, s, rc) = walHashGet E w s iHash
      in if rc \<noteq> SQLITE_OK then Some (w, s, rc, 0)
         else do {
           (rc, iRead) \<leftarrow> find_slots (wiPage s iHash) (iZero iHash) (mxFrame (hdr w)) (minFrame w) pgno
              (walHash pgno) HASHTABLE_NSLOT 0;
           if rc \<noteq> SQLITE_OK \<or> iRead \<noteq> 0 then Some (w, s, rc, iRead)
           else find_tables E pgno iMinHash k w s
         })"

definition walFindFrame :: "walEnv \<Rightarrow> Wal \<Rightarrow> walShm \<Rightarrow> nat \<Rightarrow> (Wal \<times> walShm \<times> nat \<times> nat) option" where
  "walFindFrame E w s pgno =
     (let iLast = mxFrame (hdr w)
      in if iLast = 0 \<or> readLock w = 0 \<and> \<not> bShmUnreliable w then Some (w, s, SQLITE_OK, 0)
         else let iMinHash = walFramePage (minFrame w)
              in find_tables E pgno iMinHash (walFramePage iLast + 1 - iMinHash) w s)"

declare free_slot.simps [simp del] find_slots.simps [simp del]


section \<open>Mapping keeps the contents\<close>

text \<open>A connection whose index is in heap memory has no other: mapping a page creates it.\<close>

definition shared :: "Wal \<Rightarrow> bool" where
  "shared w \<longleftrightarrow> exclusiveMode w \<noteq> WAL_HEAPMEMORY_MODE"

text \<open>The page is there for the connection to read.\<close>

definition has_page :: "Wal \<Rightarrow> nat \<Rightarrow> bool" where
  "has_page w h \<longleftrightarrow> shared w \<or> mapped w h"

text \<open>What mapping a page leaves alone.\<close>

definition same_wal :: "Wal \<Rightarrow> Wal \<Rightarrow> bool" where
  "same_wal w w' \<longleftrightarrow> (\<exists>a r. w' = w\<lparr>apWiData := a, readOnly := r\<rparr>) \<and> (\<forall>h. mapped w h \<longrightarrow> mapped w' h)"

lemma same_wal_refl [simp]: "same_wal w w"
proof -
  have "w = w\<lparr>apWiData := apWiData w, readOnly := readOnly w\<rparr>" by simp
  then show ?thesis unfolding same_wal_def by blast
qed

lemma same_wal_fields:
  assumes "same_wal w w'"
  shows "szPage w' = szPage w" "readLock w' = readLock w" "exclusiveMode w' = exclusiveMode w"
    "writeLock w' = writeLock w" "ckptLock w' = ckptLock w" "bShmUnreliable w' = bShmUnreliable w"
    "hdr w' = hdr w" "minFrame w' = minFrame w" "iReCksum w' = iReCksum w" "nCkpt w' = nCkpt w"
    "shared w' = shared w"
  using assms by (auto simp: same_wal_def shared_def)

lemma same_wal_mapped: "same_wal w w' \<Longrightarrow> mapped w h \<Longrightarrow> mapped w' h"
  by (simp add: same_wal_def)

lemma same_wal_page: "same_wal w w' \<Longrightarrow> has_page w h \<Longrightarrow> has_page w' h"
  using same_wal_fields(11) same_wal_mapped by (auto simp: has_page_def)

lemma same_wal_trans:
  assumes "same_wal w w1" "same_wal w1 w2"
  shows "same_wal w w2"
proof -
  from assms obtain a r b t where "w1 = w\<lparr>apWiData := a, readOnly := r\<rparr>" "w2 = w1\<lparr>apWiData := b, readOnly := t\<rparr>"
    unfolding same_wal_def by (elim exE conjE) rule
  then have "w2 = w\<lparr>apWiData := b, readOnly := t\<rparr>" by simp
  with assms show ?thesis unfolding same_wal_def by (metis (no_types))
qed

lemma walIndexPageRealloc_cases:
  assumes "walIndexPageRealloc E w s h = (w', s', rc, p)"
  obtains a r where "w' = w\<lparr>apWiData := a, readOnly := r\<rparr>" "p \<Longrightarrow> h < length a \<and> a ! h"
    "\<And>i. i \<noteq> h \<Longrightarrow> i < length (apWiData w) \<Longrightarrow> apWiData w ! i \<Longrightarrow> i < length a \<and> a ! i"
    "s' = s \<or> \<not> shared w \<and> s' = s\<lparr>wiPage := (wiPage s)(h := zero_page h)\<rparr>"
proof (cases "length (apWiData w) \<le> h \<and> \<not> mallocOk E (8 * (h + 1))")
  case True
  with assms that [where a = "apWiData w" and r = "readOnly w"] show ?thesis by (simp add: walIndexPageRealloc_def)
next
  case ok: False
  let ?b = "apWiData w @ replicate (h + 1 - length (apWiData w)) False"
  have lb: "h < length ?b" "\<And>i. i < length (apWiData w) \<Longrightarrow> apWiData w ! i \<Longrightarrow> ?b ! i" by (auto simp: nth_append)
  show ?thesis
  proof (cases "exclusiveMode w = WAL_HEAPMEMORY_MODE")
    case True
    show ?thesis
    proof (cases "mallocOk E WALINDEX_PGSZ")
      case m: True
      with True assms ok lb that [where a = "?b[h := True]" and r = "readOnly w"] show ?thesis
        by (auto simp: walIndexPageRealloc_def Let_def shared_def)
    next
      case m: False
      with True assms ok lb that [where a = "?b" and r = "readOnly w"] show ?thesis
        by (auto simp: walIndexPageRealloc_def Let_def shared_def)
    qed
  next
    case False
    obtain c q where m: "osShmMap E h (writeLock w) = (c, q)" by fastforce
    let ?r = "if c mod 256 = SQLITE_READONLY then readOnly w OR WAL_SHM_RDONLY else readOnly w"
    show ?thesis
      using assms ok lb False m that [where a = "?b[h := q]" and r = ?r]
      by (auto simp: walIndexPageRealloc_def Let_def split: if_splits)
  qed
qed

lemma walIndexPage_ok:
  assumes "walIndexPage E w s h = (w', s', rc, p)"
  shows "same_wal w w'" "has_page w h \<Longrightarrow> s' = s" "p \<Longrightarrow> has_page w' h"
    "\<And>k. k \<noteq> h \<Longrightarrow> wiPage s' k = wiPage s k" "wiHdr s' = wiHdr s" "ckptInfo s' = ckptInfo s"
proof -
  have "same_wal w w' \<and> (has_page w h \<longrightarrow> s' = s) \<and> (p \<longrightarrow> has_page w' h) \<and>
    (\<forall>k. k \<noteq> h \<longrightarrow> wiPage s' k = wiPage s k) \<and> wiHdr s' = wiHdr s \<and> ckptInfo s' = ckptInfo s"
  proof (cases "length (apWiData w) \<le> h \<or> \<not> apWiData w ! h")
    case True
    with assms have "walIndexPageRealloc E w s h = (w', s', rc, p)" by (simp add: walIndexPage_def)
    then show ?thesis
    proof (rule walIndexPageRealloc_cases)
      fix a r
      assume a: "w' = w\<lparr>apWiData := a, readOnly := r\<rparr>" "p \<Longrightarrow> h < length a \<and> a ! h"
        "\<And>i. i \<noteq> h \<Longrightarrow> i < length (apWiData w) \<Longrightarrow> apWiData w ! i \<Longrightarrow> i < length a \<and> a ! i"
        "s' = s \<or> \<not> shared w \<and> s' = s\<lparr>wiPage := (wiPage s)(h := zero_page h)\<rparr>"

      have "same_wal w w'" unfolding same_wal_def
      proof (intro conjI allI impI)
        show "\<exists>a r. w' = w\<lparr>apWiData := a, readOnly := r\<rparr>" using a(1) by blast
      next
        fix k assume "mapped w k"
        then show "mapped w' k" using a(1,3) True by (cases "k = h") (auto simp: mapped_def)
      qed
      moreover have "has_page w' h" if p using a(1,2) that by (simp add: has_page_def mapped_def)
      moreover have "s' = s" if "has_page w h" using a(4) that True by (auto simp: has_page_def mapped_def)
      ultimately show ?thesis using a(4) by auto
    qed
  next
    case False
    with assms show ?thesis by (auto simp: walIndexPage_def has_page_def mapped_def not_le)
  qed
  then show "same_wal w w'" "has_page w h \<Longrightarrow> s' = s" "p \<Longrightarrow> has_page w' h"
    "\<And>k. k \<noteq> h \<Longrightarrow> wiPage s' k = wiPage s k" "wiHdr s' = wiHdr s" "ckptInfo s' = ckptInfo s" by auto
qed

lemma walHashGet_ok:
  assumes "walHashGet E w s h = (w', s', rc)"
  shows "same_wal w w'" "has_page w h \<Longrightarrow> s' = s" "rc = SQLITE_OK \<Longrightarrow> has_page w' h"
    "\<And>k. k \<noteq> h \<Longrightarrow> wiPage s' k = wiPage s k" "wiHdr s' = wiHdr s" "ckptInfo s' = ckptInfo s"
proof -
  obtain w1 s1 c p where g: "walIndexPage E w s h = (w1, s1, c, p)" by (cases "walIndexPage E w s h") auto
  with assms have "w1 = w'" "s1 = s'" "rc = SQLITE_OK \<longrightarrow> p" by (auto simp: walHashGet_def split: if_splits)
  with walIndexPage_ok [OF g] show "same_wal w w'" "has_page w h \<Longrightarrow> s' = s" "rc = SQLITE_OK \<Longrightarrow> has_page w' h"
    "\<And>k. k \<noteq> h \<Longrightarrow> wiPage s' k = wiPage s k" "wiHdr s' = wiHdr s" "ckptInfo s' = ckptInfo s" by auto
qed

section \<open>Frames and tables\<close>

lemma AND_slots: "(n::nat) AND 8191 = n mod HASHTABLE_NSLOT"
  using take_bit_eq_mask [of 13 n] by (simp add: take_bit_eq_mod mask_eq_exp_minus_1)

lemma walHash_eq: "walHash k = k * HASHTABLE_HASH_1 mod HASHTABLE_NSLOT"
proof -
  have "(8192::nat) dvd 2 ^ 32" by simp
  then show ?thesis unfolding walHash_def by (simp add: AND_slots mod_mod_cancel)
qed

lemma walHash_less [simp]: "walHash k < HASHTABLE_NSLOT"
  by (simp add: walHash_eq)

lemma walNextHash_eq: "walNextHash k = Suc k mod HASHTABLE_NSLOT"
  by (simp add: walNextHash_def AND_slots)

lemma div_eq_range: "0 < (d::nat) \<Longrightarrow> n div d = h \<longleftrightarrow> h * d \<le> n \<and> n < h * d + d"
  by (metis add.commute div_nat_eqI dividend_less_times_div div_times_less_eq_dividend mult.commute mult_Suc_right)

lemma walFramePage_iff: "0 < i \<Longrightarrow> walFramePage i = h \<longleftrightarrow> iZero h < i \<and> i \<le> iZero h + wi_cap h"
  by (cases h) (auto simp: walFramePage_def iZero_def wi_cap_def div_eq_range)

lemma iZero_Suc: "iZero (Suc h) = iZero h + wi_cap h"
  by (cases h) (simp_all add: iZero_def wi_cap_def)

lemma iZero_mono: "h < k \<Longrightarrow> iZero h + wi_cap h \<le> iZero k"
  by (induction k) (auto simp: less_Suc_eq iZero_Suc)

lemma walFramePage_mono: "i \<le> j \<Longrightarrow> walFramePage i \<le> walFramePage j"
  by (simp add: walFramePage_def div_le_mono)


section \<open>One table\<close>

text \<open>
  The table of a block whose frames hold the pages \<open>ks\<close>: slot numbers are used once, and on the
  way from the home of an entry to its place there are only older entries, so that the probe for
  a page meets its frames in the order they were written.
\<close>

definition table_ok :: "nat list \<Rightarrow> nat list \<Rightarrow> bool" where
  "table_ok ks t \<longleftrightarrow> length t = HASHTABLE_NSLOT \<and>
     (\<forall>a<HASHTABLE_NSLOT. \<forall>b<HASHTABLE_NSLOT. t ! a = t ! b \<longrightarrow> t ! a \<noteq> 0 \<longrightarrow> a = b) \<and>
     (\<forall>a<HASHTABLE_NSLOT. t ! a \<le> length ks) \<and>
     (\<forall>j<length ks. \<exists>d. slot t (walHash (ks ! j) + d) = Suc j \<and> (\<forall>i<d. 0 < slot t (walHash (ks ! j) + i) \<and> slot t (walHash (ks ! j) + i) \<le> j))"

definition page_ok :: "nat \<Rightarrow> nat list \<Rightarrow> walPage \<Rightarrow> bool" where
  "page_ok cap ks p \<longleftrightarrow> length ks \<le> cap \<and> aPgno p = ks @ replicate (cap - length ks) 0 \<and> 0 \<notin> set ks \<and> table_ok ks (aHash p)"

lemma table_okD:
  assumes "table_ok ks t"
  shows "length t = HASHTABLE_NSLOT" "\<And>a. a < HASHTABLE_NSLOT \<Longrightarrow> t ! a \<le> length ks" "slot t a \<le> length ks"
    "\<And>a b. a < HASHTABLE_NSLOT \<Longrightarrow> b < HASHTABLE_NSLOT \<Longrightarrow> t ! a = t ! b \<Longrightarrow> t ! a \<noteq> 0 \<Longrightarrow> a = b"
    "\<And>j. j < length ks \<Longrightarrow> \<exists>d. slot t (walHash (ks ! j) + d) = Suc j \<and> (\<forall>i<d. 0 < slot t (walHash (ks ! j) + i) \<and> slot t (walHash (ks ! j) + i) \<le> j)"
  using assms by (auto simp: table_ok_def slot_def)

lemma table_ok_empty: "table_ok [] (replicate HASHTABLE_NSLOT 0)"
  by (simp add: table_ok_def)

lemma used_le:
  assumes "table_ok ks t"
  shows "used t \<le> length ks"
proof -
  let ?K = "{k. k < length t \<and> t ! k \<noteq> 0}"
  have "inj_on ((!) t) ?K" using table_okD [OF assms] by (auto intro!: inj_onI)
  moreover have "(!) t ` ?K \<subseteq> {1..length ks}" using table_okD(1,2) [OF assms] by auto
  ultimately have "card ?K \<le> card {1..length ks}" by (rule card_inj_on_le) simp
  then show ?thesis by (simp add: used_def length_filter_conv_card)
qed

lemma mod_offset_less:
  fixes h i j n :: nat
  assumes "(h + i) mod n = (h + j) mod n" "j < n"
  shows "\<not> i < j"
proof
  assume "i < j"
  then have "n dvd (h + j) - (h + i)" using mod_eq_dvd_iff_nat [of "h + i" "h + j" n] assms(1) by simp
  then have "n dvd j - i" by simp
  with \<open>i < j\<close> assms(2) show False by (auto dest: dvd_imp_le)
qed

lemma mod_offset_inj:
  fixes h i j n :: nat
  assumes "(h + i) mod n = (h + j) mod n" "i < n" "j < n"
  shows "i = j"
  using mod_offset_less [of h i n j] mod_offset_less [of h j n i] assms by linarith

lemma visited_le_used:
  assumes "first_free t h e" "e < length t"
  shows "e \<le> used t"
proof -
  let ?g = "\<lambda>j. (h + j) mod length t"
  have "inj_on ?g {..<e}"
  proof (rule inj_onI)
    fix i j
    assume "i \<in> {..<e}" "j \<in> {..<e}" "?g i = ?g j"
    with assms(2) show "i = j" by (intro mod_offset_inj [of h i "length t" j]) simp_all
  qed
  moreover have "?g ` {..<e} \<subseteq> {k. k < length t \<and> t ! k \<noteq> 0}"
  proof -
    have "t \<noteq> []" using assms(2) by auto
    then show ?thesis using assms(1) by (auto simp: first_free_def slot_def)
  qed
  moreover have "finite {k. k < length t \<and> t ! k \<noteq> 0}" by simp
  ultimately have "card {..<e} \<le> card {k. k < length t \<and> t ! k \<noteq> 0}" by (rule card_inj_on_le)
  then show ?thesis by (simp add: used_def length_filter_conv_card)
qed

lemma table_free:
  assumes "table_ok ks t" "length ks < HASHTABLE_NSLOT"
  obtains e where "first_free t h e" "e \<le> length ks"
proof -
  have "0 \<in> set t" using used_le [OF assms(1)] assms(2) table_okD(1) [OF assms(1)] used_less_length [of t] by simp
  then obtain e where "first_free t h e" "e < length t" using first_free_exists by blast
  with visited_le_used used_le [OF assms(1)] that show ?thesis by (meson le_trans)
qed

lemma free_slot_first:
  assumes "length t = HASHTABLE_NSLOT"
  shows "first_free t h e \<Longrightarrow> e \<le> n \<Longrightarrow> free_slot t (h mod HASHTABLE_NSLOT) n = Some ((h + e) mod HASHTABLE_NSLOT)"
proof (induction e arbitrary: h n)
  case 0
  then show ?case using assms by (subst free_slot.simps) (simp add: first_free_def slot_def)
next
  case (Suc e)
  then obtain m where m: "n = Suc m" "e \<le> m" by (cases n) auto
  have "t ! (h mod HASHTABLE_NSLOT) \<noteq> 0" using Suc.prems(1) assms by (auto simp: first_free_def slot_def dest: spec [of _ 0])
  moreover have "walNextHash (h mod HASHTABLE_NSLOT) = Suc h mod HASHTABLE_NSLOT" by (simp add: walNextHash_eq mod_Suc_eq)
  ultimately show ?case using m Suc.IH [OF first_free_Suc [OF Suc.prems(1)] m(2)]
    by (subst free_slot.simps) simp
qed

lemma slot_mod: "slot t (a mod length t) = slot t a"
  by (simp add: slot_def)

lemma table_insert:
  assumes t: "table_ok ks t" "length ks < HASHTABLE_NSLOT" "first_free t (walHash pg) e"
  shows "table_ok (ks @ [pg]) (t[(walHash pg + e) mod HASHTABLE_NSLOT := Suc (length ks)])"
proof -
  let ?k = "(walHash pg + e) mod HASHTABLE_NSLOT" and ?v = "Suc (length ks)"
  let ?t = "t[?k := ?v]"
  note T = table_okD [OF t(1)]
  have k: "?k < HASHTABLE_NSLOT" "t ! ?k = 0" using t(3) T(1) by (auto simp: first_free_def slot_def)
  have sl: "slot ?t i = (if i mod HASHTABLE_NSLOT = ?k then ?v else slot t i)" for i
    using T(1) slot_update [of t "walHash pg + e" ?v i] by (cases "t = []") auto
  have old: "slot ?t i = slot t i" if "slot t i \<noteq> 0" for i
  proof -
    have "i mod HASHTABLE_NSLOT \<noteq> ?k" using that k T(1) by (auto simp: slot_def)
    then show ?thesis by (simp add: sl)
  qed
  show ?thesis unfolding table_ok_def
  proof (intro conjI allI impI)
    show "length ?t = HASHTABLE_NSLOT" using T(1) by simp
  next
    fix a b assume "a < HASHTABLE_NSLOT" "b < HASHTABLE_NSLOT" "?t ! a = ?t ! b" "?t ! a \<noteq> 0"
    then show "a = b" using T(1,4) T(2) [of a] T(2) [of b] by (auto simp: nth_list_update split: if_splits)
  next
    fix a assume "a < HASHTABLE_NSLOT"
    then show "?t ! a \<le> length (ks @ [pg])" using T(1) T(2) [of a] by (auto simp: nth_list_update)
  next
    fix j assume j: "j < length (ks @ [pg])"
    show "\<exists>d. slot ?t (walHash ((ks @ [pg]) ! j) + d) = Suc j \<and>
        (\<forall>i<d. 0 < slot ?t (walHash ((ks @ [pg]) ! j) + i) \<and> slot ?t (walHash ((ks @ [pg]) ! j) + i) \<le> j)"
    proof (cases "j = length ks")
      case True
      show ?thesis
      proof (intro exI [of _ e] conjI allI impI)
        fix i assume "i < e"
        then have "slot t (walHash pg + i) \<noteq> 0" using t(3) by (simp add: first_free_def)
        with old T(3) True show "0 < slot ?t (walHash ((ks @ [pg]) ! j) + i)" "slot ?t (walHash ((ks @ [pg]) ! j) + i) \<le> j"
          by (simp_all add: nth_append)
      qed (use True sl in \<open>simp add: nth_append\<close>)
    next
      case False
      with j have "j < length ks" by simp
      then obtain d where d: "slot t (walHash (ks ! j) + d) = Suc j"
        "\<forall>i<d. 0 < slot t (walHash (ks ! j) + i) \<and> slot t (walHash (ks ! j) + i) \<le> j" using T(5) by blast
      with old \<open>j < length ks\<close> show ?thesis by (intro exI [of _ d]) (auto simp: nth_append)
    qed
  qed
qed

lemma table_cleanup:
  assumes t: "table_ok ks t" and L: "L \<le> length ks"
  shows "table_ok (take L ks) (map (\<lambda>x. if L < x then 0 else x) t)"
proof -
  let ?t = "map (\<lambda>x. if L < x then 0 else x) t"
  note T = table_okD [OF t]
  have sl: "slot ?t i = (if L < slot t i then 0 else slot t i)" for i
    using T(1) by (simp add: slot_def)
  have n: "?t ! a = (if L < t ! a then 0 else t ! a)" if "a < HASHTABLE_NSLOT" for a using that T(1) by simp
  show ?thesis unfolding table_ok_def
  proof (intro conjI allI impI)
    show "length ?t = HASHTABLE_NSLOT" using T(1) by simp
  next
    fix a b assume "a < HASHTABLE_NSLOT" "b < HASHTABLE_NSLOT" "?t ! a = ?t ! b" "?t ! a \<noteq> 0"
    then show "a = b" using T(4) [of a b] by (auto simp: n split: if_splits)
  next
    fix a assume "a < HASHTABLE_NSLOT"
    then show "?t ! a \<le> length (take L ks)" using L by (simp add: n min_def)
  next
    fix j assume j: "j < length (take L ks)"
    then obtain d where d: "slot t (walHash (ks ! j) + d) = Suc j"
        "\<forall>i<d. 0 < slot t (walHash (ks ! j) + i) \<and> slot t (walHash (ks ! j) + i) \<le> j" using T(5) [of j] by auto
    show "\<exists>d. slot ?t (walHash (take L ks ! j) + d) = Suc j \<and>
        (\<forall>i<d. 0 < slot ?t (walHash (take L ks ! j) + i) \<and> slot ?t (walHash (take L ks ! j) + i) \<le> j)"
    proof (intro exI [of _ d] conjI allI impI)
      show "slot ?t (walHash (take L ks ! j) + d) = Suc j" using d(1) j L by (simp add: sl)
      fix i assume "i < d"
      with d(2) have "0 < slot t (walHash (ks ! j) + i)" "slot t (walHash (ks ! j) + i) \<le> j" by auto
      with j show "0 < slot ?t (walHash (take L ks ! j) + i)" "slot ?t (walHash (take L ks ! j) + i) \<le> j"
        by (auto simp: sl)
    qed
  qed
qed


section \<open>One page\<close>

lemma page_ok_zero: "page_ok (wi_cap h) [] (zero_page h)"
  by (simp add: page_ok_def zero_page_def table_ok_empty)

lemma wi_cap_le: "wi_cap h \<le> HASHTABLE_NPAGE"
  by (simp add: wi_cap_def)

lemma page_append:
  assumes p: "page_ok cap ks p" and cap: "length ks < cap" "cap \<le> HASHTABLE_NPAGE" and pg: "pg \<noteq> 0"
  obtains k where "free_slot (aHash p) (walHash pg) (Suc (length ks)) = Some k"
    "page_ok cap (ks @ [pg]) (p\<lparr>aPgno := (aPgno p)[length ks := pg], aHash := (aHash p)[k := Suc (length ks)]\<rparr>)"
proof -
  have t: "table_ok ks (aHash p)" and l: "length ks < HASHTABLE_NSLOT" using p cap by (auto simp: page_ok_def)
  obtain e where e: "first_free (aHash p) (walHash pg) e" "e \<le> length ks" using table_free [OF t l] by blast
  let ?k = "(walHash pg + e) mod HASHTABLE_NSLOT"
  have "free_slot (aHash p) (walHash pg) (Suc (length ks)) = Some ?k"
    using free_slot_first [OF table_okD(1) [OF t] e(1), of "Suc (length ks)"] e(2) by simp
  moreover have "table_ok (ks @ [pg]) ((aHash p)[?k := Suc (length ks)])" by (rule table_insert [OF t l e(1)])
  moreover have "(aPgno p)[length ks := pg] = (ks @ [pg]) @ replicate (cap - length (ks @ [pg])) 0"
  proof -
    obtain n where "cap - length ks = Suc n" using cap(1) by (cases "cap - length ks") auto
    moreover from this have "cap - length (ks @ [pg]) = n" by simp
    ultimately show ?thesis using p by (simp add: page_ok_def)
  qed
  ultimately show ?thesis using that p pg cap(1) by (simp add: page_ok_def)
qed

lemma page_cleanup:
  assumes p: "page_ok cap ks p" and L: "L \<le> length ks"
  shows "page_ok cap (take L ks) (p\<lparr>aHash := map (\<lambda>x. if L < x then 0 else x) (aHash p),
    aPgno := take L (aPgno p) @ replicate (length (aPgno p) - L) 0\<rparr>)"
  using assms table_cleanup [of ks "aHash p" L] by (auto simp: page_ok_def min_def dest: in_set_takeD)

lemma page_entry: "page_ok cap ks p \<Longrightarrow> i < cap \<Longrightarrow> aPgno p ! i = (if i < length ks then ks ! i else 0)"
  by (auto simp: page_ok_def nth_append)

lemma page_key: "page_ok cap ks p \<Longrightarrow> i < length ks \<Longrightarrow> ks ! i \<noteq> 0"
  by (metis nth_mem page_ok_def)

lemma page_length: "page_ok cap ks p \<Longrightarrow> length (aPgno p) = cap"
  by (auto simp: page_ok_def)

text \<open>The entries of the page that a search accepts.\<close>

definition hit :: "nat list \<Rightarrow> nat \<Rightarrow> nat \<Rightarrow> nat \<Rightarrow> nat \<Rightarrow> nat \<Rightarrow> bool" where
  "hit ks zero iLast lo pgno x \<longleftrightarrow> 0 < x \<and> x \<le> length ks \<and> ks ! (x - 1) = pgno \<and> x + zero \<le> iLast \<and> lo \<le> x + zero"

lemma find_slots_step:
  assumes p: "page_ok cap ks p"
  shows "first_free (aHash p) h e \<Longrightarrow> e \<le> n \<Longrightarrow>
    \<exists>r. find_slots p zero iLast lo pgno (h mod HASHTABLE_NSLOT) n r0 = Some (SQLITE_OK, r) \<and>
      ((\<forall>i<e. \<not> hit ks zero iLast lo pgno (slot (aHash p) (h + i))) \<and> r = r0 \<or>
       (\<exists>i<e. hit ks zero iLast lo pgno (slot (aHash p) (h + i)) \<and> r = slot (aHash p) (h + i) + zero \<and>
         (\<forall>k. i < k \<and> k < e \<longrightarrow> \<not> hit ks zero iLast lo pgno (slot (aHash p) (h + k)))))"
proof (induction e arbitrary: h n r0)
  case 0
  have l: "length (aHash p) = HASHTABLE_NSLOT" using p by (auto simp: page_ok_def dest: table_okD)
  with 0 show ?case by (subst find_slots.simps) (simp add: first_free_def slot_def rd_def)
next
  case (Suc e)
  then obtain m where m: "n = Suc m" "e \<le> m" by (cases n) auto
  have t: "table_ok ks (aHash p)" using p by (simp add: page_ok_def)
  note T = table_okD [OF t]
  let ?x = "slot (aHash p) h"
  let ?r = "if hit ks zero iLast lo pgno ?x then ?x + zero else r0"
  have x: "0 < ?x" "?x \<le> length ks" using Suc.prems(1) T(3) by (auto simp: first_free_def dest: spec [of _ 0])
  then have lx: "?x - 1 < length ks" by linarith
  then have "?x - 1 < cap" using p by (auto simp: page_ok_def)
  then have a: "rd (aPgno p) (?x - 1) = Some (ks ! (?x - 1))"
    using page_entry [OF p, of "?x - 1"] lx page_length [OF p] by (simp only: rd_def if_True)
  have step: "find_slots p zero iLast lo pgno (h mod HASHTABLE_NSLOT) n r0 =
      find_slots p zero iLast lo pgno (Suc h mod HASHTABLE_NSLOT) m ?r"
  proof -
    have "rd (aHash p) (h mod HASHTABLE_NSLOT) = Some ?x" using T(1) by (simp add: rd_def slot_def)
    moreover have "walNextHash (h mod HASHTABLE_NSLOT) = Suc h mod HASHTABLE_NSLOT" by (simp add: walNextHash_eq mod_Suc_eq)
    ultimately show ?thesis using a x m(1)
      by (subst find_slots.simps) (simp add: hit_def Let_def)
  qed
  obtain r where r: "find_slots p zero iLast lo pgno (Suc h mod HASHTABLE_NSLOT) m ?r = Some (SQLITE_OK, r)"
    "(\<forall>i<e. \<not> hit ks zero iLast lo pgno (slot (aHash p) (Suc h + i))) \<and> r = ?r \<or>
       (\<exists>i<e. hit ks zero iLast lo pgno (slot (aHash p) (Suc h + i)) \<and> r = slot (aHash p) (Suc h + i) + zero \<and>
         (\<forall>k. i < k \<and> k < e \<longrightarrow> \<not> hit ks zero iLast lo pgno (slot (aHash p) (Suc h + k))))"
    using Suc.IH [OF first_free_Suc [OF Suc.prems(1)] m(2), of ?r] by blast
  from r(2) have "(\<forall>i<Suc e. \<not> hit ks zero iLast lo pgno (slot (aHash p) (h + i))) \<and> r = r0 \<or>
       (\<exists>i<Suc e. hit ks zero iLast lo pgno (slot (aHash p) (h + i)) \<and> r = slot (aHash p) (h + i) + zero \<and>
         (\<forall>k. i < k \<and> k < Suc e \<longrightarrow> \<not> hit ks zero iLast lo pgno (slot (aHash p) (h + k))))"
  proof (elim disjE conjE exE)
    assume no: "\<forall>i<e. \<not> hit ks zero iLast lo pgno (slot (aHash p) (Suc h + i))" "r = ?r"
    have rest: "\<not> hit ks zero iLast lo pgno (slot (aHash p) (h + k))" if "0 < k" "k < Suc e" for k
      using no(1) that by (cases k) auto
    show ?thesis
    proof (cases "hit ks zero iLast lo pgno ?x")
      case True
      with no(2) rest show ?thesis by (intro disjI2 exI [of _ 0]) auto
    next
      case False
      have "\<not> hit ks zero iLast lo pgno (slot (aHash p) (h + k))" if "k < Suc e" for k
        using rest that False by (cases "k = 0") auto
      with False no(2) show ?thesis by auto
    qed
  next
    fix i assume i: "i < e" "hit ks zero iLast lo pgno (slot (aHash p) (Suc h + i))" "r = slot (aHash p) (Suc h + i) + zero"
      "\<forall>k. i < k \<and> k < e \<longrightarrow> \<not> hit ks zero iLast lo pgno (slot (aHash p) (Suc h + k))"
    have "\<not> hit ks zero iLast lo pgno (slot (aHash p) (h + k))" if "Suc i < k" "k < Suc e" for k
      using i(4) that by (cases k) auto
    with i show ?thesis by (intro disjI2 exI [of _ "Suc i"]) auto
  qed
  with step r(1) show ?case by auto
qed


lemma offset_unique:
  assumes t: "table_ok ks t" and s: "slot t (h + i) = slot t (h + d)" "slot t (h + i) \<noteq> 0"
    and "i < HASHTABLE_NSLOT" "d < HASHTABLE_NSLOT"
  shows "i = d"
proof -
  have "t ! ((h + i) mod HASHTABLE_NSLOT) = t ! ((h + d) mod HASHTABLE_NSLOT)" "t ! ((h + i) mod HASHTABLE_NSLOT) \<noteq> 0"
    using s table_okD(1) [OF t] by (simp_all add: slot_def)
  then have "(h + i) mod HASHTABLE_NSLOT = (h + d) mod HASHTABLE_NSLOT"
    using table_okD(4) [OF t, of "(h + i) mod HASHTABLE_NSLOT" "(h + d) mod HASHTABLE_NSLOT"] by simp
  from mod_offset_inj [OF this assms(4,5)] show ?thesis .
qed

lemma find_slots_ok:
  assumes p: "page_ok cap ks p" and l: "length ks < HASHTABLE_NSLOT"
  shows "\<exists>r. find_slots p zero iLast lo pgno (walHash pgno) HASHTABLE_NSLOT 0 = Some (SQLITE_OK, r) \<and>
    (r = 0 \<and> (\<forall>x. \<not> hit ks zero iLast lo pgno x) \<or>
     (\<exists>x. hit ks zero iLast lo pgno x \<and> r = x + zero \<and> (\<forall>y. hit ks zero iLast lo pgno y \<longrightarrow> y \<le> x)))"
proof -
  have t: "table_ok ks (aHash p)" using p by (simp add: page_ok_def)
  note T = table_okD [OF t]
  let ?h = "walHash pgno" and ?hit = "hit ks zero iLast lo pgno" and ?s = "\<lambda>i. slot (aHash p) (walHash pgno + i)"
  obtain e where e: "first_free (aHash p) ?h e" "e \<le> length ks" using table_free [OF t l] by blast
  have at: "\<exists>d<e. ?s d = x \<and> (\<forall>i<d. ?s i < x)" if "?hit x" for x
  proof -
    have x: "0 < x" "x - 1 < length ks" "ks ! (x - 1) = pgno" using that by (auto simp: hit_def)
    obtain d where d: "?s d = Suc (x - 1)" "\<forall>i<d. 0 < ?s i \<and> ?s i \<le> x - 1" using T(5) [OF x(2)] x(3) by auto
    have "?s e = 0" using e(1) by (simp add: first_free_def)
    then have "\<not> e < d" "e \<noteq> d" using d by auto
    then have "d < e" by simp
    moreover have "\<forall>i<d. ?s i < x" using d(2) x(1) by (metis Suc_pred' le_imp_less_Suc)
    ultimately show ?thesis using d(1) x(1) by auto
  qed
  obtain r where r: "find_slots p zero iLast lo pgno (?h mod HASHTABLE_NSLOT) HASHTABLE_NSLOT 0 = Some (SQLITE_OK, r)"
    "(\<forall>i<e. \<not> ?hit (?s i)) \<and> r = 0 \<or> (\<exists>i<e. ?hit (?s i) \<and> r = ?s i + zero \<and> (\<forall>k. i < k \<and> k < e \<longrightarrow> \<not> ?hit (?s k)))"
    using find_slots_step [OF p e(1), of HASHTABLE_NSLOT zero iLast lo pgno 0] e(2) l by auto
  from r(2) have "r = 0 \<and> (\<forall>x. \<not> ?hit x) \<or> (\<exists>x. ?hit x \<and> r = x + zero \<and> (\<forall>y. ?hit y \<longrightarrow> y \<le> x))"
  proof (elim disjE conjE exE)
    assume "\<forall>i<e. \<not> ?hit (?s i)" "r = 0"
    with at show ?thesis by metis
  next
    fix i assume i: "i < e" "?hit (?s i)" "r = ?s i + zero" "\<forall>k. i < k \<and> k < e \<longrightarrow> \<not> ?hit (?s k)"
    have "y \<le> ?s i" if y: "?hit y" for y
    proof -
      obtain d where d: "d < e" "?s d = y" using at [OF y] by blast
      with i(4) y have "d \<le> i" by (meson leI)
      obtain c where c: "c < e" "?s c = ?s i" "\<forall>j<c. ?s j < ?s i" using at [OF i(2)] by blast
      have "c = i" by (rule offset_unique [OF t c(2)]) (use c i e(2) l in \<open>auto simp: hit_def\<close>)
      with c d \<open>d \<le> i\<close> show ?thesis by (metis le_less)
    qed
    with i(2,3) show ?thesis by blast
  qed
  with r(1) show ?thesis by (simp add: walHash_eq)
qed

section \<open>The whole index\<close>

definition seg :: "nat list \<Rightarrow> nat \<Rightarrow> nat list" where
  "seg fs h = take (wi_cap h) (drop (iZero h) fs)"

text \<open>The index of a log whose frames hold the pages \<open>fs\<close>. Pages of the index behind are arbitrary.\<close>

definition wi_ok :: "Wal \<Rightarrow> walShm \<Rightarrow> nat list \<Rightarrow> bool" where
  "wi_ok w s fs \<longleftrightarrow> (\<forall>h. iZero h < length fs \<longrightarrow> has_page w h \<and> page_ok (wi_cap h) (seg fs h) (wiPage s h))"

text \<open>The last frame from \<open>lo\<close> to \<open>hi\<close> that holds the page, 0 if there is none.\<close>

primrec last_frame :: "nat list \<Rightarrow> nat \<Rightarrow> nat \<Rightarrow> nat \<Rightarrow> nat" where
  "last_frame fs pgno lo 0 = 0"
| "last_frame fs pgno lo (Suc n) =
     (if lo \<le> Suc n \<and> n < length fs \<and> fs ! n = pgno then Suc n else last_frame fs pgno lo n)"

lemma last_frame_le: "last_frame fs pgno lo hi \<le> hi"
  by (induction hi) auto

lemma last_frame_zero:
  assumes "last_frame fs pgno lo hi = 0" "n \<le> hi"
  shows "last_frame fs pgno lo n = 0"
  using assms by (induction hi) (auto simp: le_Suc_eq split: if_splits)

lemma last_frame_none:
  assumes "mid \<le> hi" "\<And>i. mid \<le> i \<Longrightarrow> i < hi \<Longrightarrow> i < length fs \<Longrightarrow> lo \<le> Suc i \<Longrightarrow> fs ! i \<noteq> pgno"
  shows "last_frame fs pgno lo hi = last_frame fs pgno lo mid"
  using assms
proof (induction hi)
  case (Suc n)
  show ?case
  proof (cases "mid = Suc n")
    case False
    then have "mid \<le> n" using Suc.prems(1) by simp
    moreover from this have "\<not> (lo \<le> Suc n \<and> n < length fs \<and> fs ! n = pgno)" using Suc.prems(2) [of n] by blast
    moreover have "last_frame fs pgno lo n = last_frame fs pgno lo mid" using Suc.prems(2) \<open>mid \<le> n\<close> by (intro Suc.IH) auto
    ultimately show ?thesis by (subst last_frame.simps) (simp only: if_False)
  qed simp
qed simp

lemma last_frame_some:
  assumes "0 < r" "r \<le> hi" "r \<le> length fs" "lo \<le> r" "fs ! (r - 1) = pgno"
    and "\<And>i. r \<le> i \<Longrightarrow> i < hi \<Longrightarrow> i < length fs \<Longrightarrow> fs ! i \<noteq> pgno"
  shows "last_frame fs pgno lo hi = r"
proof -
  obtain n where n: "r = Suc n" using assms(1) by (cases r) auto
  have "last_frame fs pgno lo hi = last_frame fs pgno lo r" by (rule last_frame_none [OF assms(2) assms(6)])
  with n assms(3-5) show ?thesis by simp
qed

lemma seg_nth: "i < length (seg fs h) \<Longrightarrow> seg fs h ! i = fs ! (iZero h + i)"
  by (cases "iZero h \<le> length fs") (simp_all add: seg_def)

lemma length_seg: "length (seg fs h) = min (wi_cap h) (length fs - iZero h)"
  by (simp add: seg_def)

lemma hit_seg: "hit (seg fs h) (iZero h) hi lo pgno x \<longleftrightarrow>
    0 < x \<and> x \<le> wi_cap h \<and> iZero h + x \<le> length fs \<and> iZero h + x \<le> hi \<and> lo \<le> iZero h + x \<and> fs ! (iZero h + x - 1) = pgno"
  unfolding hit_def by (cases x) (auto simp: length_seg seg_nth)

lemma table_last:
  assumes hi: "hi \<le> length fs" "iZero h < hi"
    and r: "r = 0 \<and> (\<forall>x. \<not> hit (seg fs h) (iZero h) hi lo pgno x) \<or>
     (\<exists>x. hit (seg fs h) (iZero h) hi lo pgno x \<and> r = x + iZero h \<and> (\<forall>y. hit (seg fs h) (iZero h) hi lo pgno y \<longrightarrow> y \<le> x))"
  shows "last_frame fs pgno lo (min hi (iZero (Suc h))) = (if r = 0 then last_frame fs pgno lo (iZero h) else r)"
proof -
  have Z: "iZero (Suc h) = iZero h + wi_cap h" by (rule iZero_Suc)
  show ?thesis
  proof (cases "r = 0")
    case True
    with r have no: "\<not> hit (seg fs h) (iZero h) hi lo pgno x" for x by (auto simp: hit_def)
    have "last_frame fs pgno lo (min hi (iZero (Suc h))) = last_frame fs pgno lo (iZero h)"
    proof (rule last_frame_none)
      show "iZero h \<le> min hi (iZero (Suc h))" using hi Z by simp
    next
      fix i assume "iZero h \<le> i" "i < min hi (iZero (Suc h))" "i < length fs" "lo \<le> Suc i"
      then show "fs ! i \<noteq> pgno" using no [of "Suc i - iZero h"] Z by (auto simp: hit_seg)
    qed
    with True show ?thesis by simp
  next
    case False
    with r obtain x where x: "hit (seg fs h) (iZero h) hi lo pgno x" "r = x + iZero h"
      "\<And>y. hit (seg fs h) (iZero h) hi lo pgno y \<Longrightarrow> y \<le> x" by auto
    have "last_frame fs pgno lo (min hi (iZero (Suc h))) = r"
    proof (rule last_frame_some)
      fix i assume i: "r \<le> i" "i < min hi (iZero (Suc h))" "i < length fs"
      show "fs ! i \<noteq> pgno"
      proof
        assume "fs ! i = pgno"
        then have "hit (seg fs h) (iZero h) hi lo pgno (Suc i - iZero h)"
          using i x(1,2) Z by (auto simp: hit_seg)
        with x(3) [OF this] i x(2) show False by simp
      qed
    qed (use x(1,2) Z in \<open>auto simp: hit_seg add.commute\<close>)
    with False show ?thesis by simp
  qed
qed


lemma wi_okD: "wi_ok w s fs \<Longrightarrow> iZero h < length fs \<Longrightarrow> has_page w h"
    "wi_ok w s fs \<Longrightarrow> iZero h < length fs \<Longrightarrow> page_ok (wi_cap h) (seg fs h) (wiPage s h)"
  by (auto simp: wi_ok_def)

lemma wi_ok_same: "wi_ok w s fs \<Longrightarrow> same_wal w w' \<Longrightarrow> wi_ok w' s fs"
  by (auto simp: wi_ok_def dest: same_wal_page)

lemma seg_short: "length (seg fs h) < HASHTABLE_NSLOT"
  using wi_cap_le [of h] by (simp add: length_seg)

lemma find_tables_ok:
  "wi_ok w s fs \<Longrightarrow> mxFrame (hdr w) \<le> length fs \<Longrightarrow> (k = 0 \<or> iZero (iMin + k - 1) < mxFrame (hdr w)) \<Longrightarrow>
   last_frame fs pgno (minFrame w) (iZero iMin) = 0 \<Longrightarrow>
   \<exists>w' rc r. find_tables E pgno iMin k w s = Some (w', s, rc, r) \<and> same_wal w w' \<and>
     (rc = SQLITE_OK \<longrightarrow> r = last_frame fs pgno (minFrame w) (min (mxFrame (hdr w)) (iZero (iMin + k))))"
proof (induction k arbitrary: w)
  case 0
  have "last_frame fs pgno (minFrame w) (min (mxFrame (hdr w)) (iZero iMin)) = 0"
    using last_frame_zero [OF 0(4)] by simp
  then show ?case by simp
next
  case (Suc k)
  let ?h = "iMin + k"
  obtain w1 s1 rc where g: "walHashGet E w s ?h = (w1, s1, rc)" by (cases "walHashGet E w s ?h") auto
  note G = walHashGet_ok [OF g]
  have h: "iZero ?h < mxFrame (hdr w)" "iZero ?h < length fs" using Suc.prems(2,3) by simp_all
  have s1: "s1 = s" using G(2) wi_okD(1) [OF Suc.prems(1) h(2)] by simp
  note F = same_wal_fields [OF G(1)]
  show ?case
  proof (cases "rc = SQLITE_OK")
    case False
    with g s1 G(1) show ?thesis by auto
  next
    case True
    let ?lo = "minFrame w" and ?hi = "mxFrame (hdr w)"
    obtain r where r: "find_slots (wiPage s ?h) (iZero ?h) ?hi ?lo pgno (walHash pgno) HASHTABLE_NSLOT 0 = Some (SQLITE_OK, r)"
      "r = 0 \<and> (\<forall>x. \<not> hit (seg fs ?h) (iZero ?h) ?hi ?lo pgno x) \<or>
       (\<exists>x. hit (seg fs ?h) (iZero ?h) ?hi ?lo pgno x \<and> r = x + iZero ?h \<and> (\<forall>y. hit (seg fs ?h) (iZero ?h) ?hi ?lo pgno y \<longrightarrow> y \<le> x))"
      using find_slots_ok [OF wi_okD(2) [OF Suc.prems(1) h(2)] seg_short, of "iZero ?h" ?hi ?lo pgno]
      by (elim exE conjE) (rule that)
    have last: "last_frame fs pgno ?lo (min ?hi (iZero (Suc ?h))) = (if r = 0 then last_frame fs pgno ?lo (iZero ?h) else r)"
      by (rule table_last [OF Suc.prems(2) h(1) r(2)])
    show ?thesis
    proof (cases "r = 0")
      case False
      then have "find_tables E pgno iMin (Suc k) w s = Some (w1, s, SQLITE_OK, r)"
        using g s1 True r(1) F(7,8) by simp
      moreover have "r = last_frame fs pgno ?lo (min ?hi (iZero (iMin + Suc k)))" using last False by simp
      ultimately show ?thesis using G(1) by blast
    next
      case r0: True
      have "k = 0 \<or> iZero (iMin + k - 1) < mxFrame (hdr w1)"
        using h(1) iZero_mono [of "iMin + k - 1" "iMin + k"] F(7) by (cases k) simp_all
      moreover have "mxFrame (hdr w1) \<le> length fs" "last_frame fs pgno (minFrame w1) (iZero iMin) = 0"
        using Suc.prems(2,4) by (simp_all only: F(7,8))
      ultimately obtain w' rc' r' where "find_tables E pgno iMin k w1 s = Some (w', s, rc', r')" "same_wal w1 w'"
        "rc' = SQLITE_OK \<longrightarrow> r' = last_frame fs pgno ?lo (min ?hi (iZero ?h))"
        using Suc.IH [OF wi_ok_same [OF Suc.prems(1) G(1)]] unfolding F(7,8) by blast
      note t = this
      have "find_tables E pgno iMin (Suc k) w s = Some (w', s, rc', r')" using g s1 True r(1) r0 F(7,8) t(1) by simp
      moreover have "min ?hi (iZero ?h) = iZero ?h" using h(1) by simp
      then have "rc' = SQLITE_OK \<longrightarrow> r' = last_frame fs pgno ?lo (min ?hi (iZero (iMin + Suc k)))" using last r0 t(3) by simp
      ultimately show ?thesis using same_wal_trans [OF G(1) t(2)] by blast
    qed
  qed
qed

lemma last_frame_below: "hi < lo \<Longrightarrow> last_frame fs pgno lo hi = 0"
  using last_frame_none [of 0 hi fs lo pgno] by auto

lemma walFindFrame_ok:
  assumes "wi_ok w s fs" "mxFrame (hdr w) \<le> length fs" "readLock w \<noteq> 0 \<or> bShmUnreliable w"
  shows "\<exists>w' rc r. walFindFrame E w s pgno = Some (w', s, rc, r) \<and> same_wal w w' \<and>
     (rc = SQLITE_OK \<longrightarrow> r = last_frame fs pgno (minFrame w) (mxFrame (hdr w)))"
proof (cases "mxFrame (hdr w) = 0")
  case True
  then show ?thesis by (simp add: walFindFrame_def)
next
  case False
  let ?m = "walFramePage (minFrame w)" and ?l = "walFramePage (mxFrame (hdr w))"
  have l: "iZero ?l < mxFrame (hdr w)" "mxFrame (hdr w) \<le> iZero (Suc ?l)"
    using walFramePage_iff [of "mxFrame (hdr w)" ?l] False by (simp_all add: iZero_Suc)
  have low: "last_frame fs pgno (minFrame w) (iZero ?m) = 0"
  proof (cases "minFrame w = 0")
    case True
    then show ?thesis by (simp add: walFramePage_def iZero_def)
  next
    case False
    then show ?thesis using walFramePage_iff [of "minFrame w" ?m] by (intro last_frame_below) simp
  qed
  let ?k = "?l + 1 - ?m"
  have "?k = 0 \<or> ?m + ?k - 1 = ?l" by linarith
  then have "?k = 0 \<or> iZero (?m + ?k - 1) < mxFrame (hdr w)" using l(1) by (elim disjE) simp_all
  from find_tables_ok [OF assms(1,2) this low, of E] obtain w' rc r where
    "find_tables E pgno ?m ?k w s = Some (w', s, rc, r)" "same_wal w w'"
    "rc = SQLITE_OK \<longrightarrow> r = last_frame fs pgno (minFrame w) (min (mxFrame (hdr w)) (iZero (?m + ?k)))" by blast
  moreover have "last_frame fs pgno (minFrame w) (min (mxFrame (hdr w)) (iZero (?m + ?k))) =
      last_frame fs pgno (minFrame w) (mxFrame (hdr w))"
  proof (cases "?m \<le> ?l")
    case True
    then have "?m + ?k = Suc ?l" by simp
    with l(2) show ?thesis by (simp only: min_def) auto
  next
    case False
    then have "mxFrame (hdr w) < minFrame w" using walFramePage_mono [of "minFrame w" "mxFrame (hdr w)"] by linarith
    then show ?thesis by (simp add: last_frame_below)
  qed
  moreover have "walFindFrame E w s pgno = find_tables E pgno ?m ?k w s" using False assms(3) by (auto simp: walFindFrame_def Let_def)
  ultimately show ?thesis by auto
qed


section \<open>Appending and cutting back\<close>

lemma seg_low: "iZero k + wi_cap k \<le> n \<Longrightarrow> n \<le> length fs \<Longrightarrow> seg (take n fs @ xs) k = seg fs k"
  by (auto simp: seg_def drop_take min_def)

lemma seg_cut: "iZero h \<le> n \<Longrightarrow> n \<le> length fs \<Longrightarrow> n \<le> iZero h + wi_cap h \<Longrightarrow> seg (take n fs) h = take (n - iZero h) (seg fs h)"
  by (auto simp: seg_def drop_take min_def)

lemma seg_here:
  "iZero h \<le> n \<Longrightarrow> n \<le> length fs \<Longrightarrow> n < iZero h + wi_cap h \<Longrightarrow> seg (take n fs @ [x]) h = take (n - iZero h) (seg fs h) @ [x]"
  by (auto simp: seg_def drop_take min_def)

lemma walHashGet_mapped: "mapped w h \<Longrightarrow> walHashGet E w s h = (w, s, SQLITE_OK)"
  by (simp add: walHashGet_def walIndexPage_def mapped_def)

lemma walIndexPage_maps:
  assumes "walIndexPage E w s h = (w', s', rc, True)"
  shows "mapped w' h"
proof (cases "mapped w h")
  case True
  then show ?thesis using assms by (simp add: walIndexPage_def mapped_def)
next
  case False
  then have "walIndexPageRealloc E w s h = (w', s', rc, True)" using assms by (auto simp: walIndexPage_def mapped_def)
  then show ?thesis by (rule walIndexPageRealloc_cases) (auto simp: mapped_def)
qed

lemma walHashGet_maps:
  assumes "walHashGet E w s h = (w', s', SQLITE_OK)"
  shows "mapped w' h"
proof -
  obtain w1 s1 c p where g: "walIndexPage E w s h = (w1, s1, c, p)" by (cases "walIndexPage E w s h") auto
  with assms have "w1 = w'" p by (auto simp: walHashGet_def split: if_splits)
  with g walIndexPage_maps show ?thesis by auto
qed

lemma page_of: "0 < n \<Longrightarrow> iZero (walFramePage n) < n" "0 < n \<Longrightarrow> n \<le> iZero (walFramePage n) + wi_cap (walFramePage n)"
  using walFramePage_iff [of n "walFramePage n"] by simp_all

lemma page_unique: "iZero h < n \<Longrightarrow> n \<le> iZero h + wi_cap h \<Longrightarrow> walFramePage n = h"
  using walFramePage_iff [of n h] by simp

lemma walFramePgno_ok:
  assumes "wi_ok w s fs" "0 < g" "g \<le> length fs" "mapped w (walFramePage g)"
  shows "walFramePgno w s g = Some (fs ! (g - 1))"
proof -
  let ?h = "walFramePage g" and ?i = "g - 1 - iZero (walFramePage g)"
  note B = page_of [OF assms(2)]
  have p: "page_ok (wi_cap ?h) (seg fs ?h) (wiPage s ?h)" using wi_okD(2) [OF assms(1)] B(1) assms(3) by simp
  have i: "?i < wi_cap ?h" "iZero ?h + ?i = g - 1" using B by linarith+
  then have l: "?i < length (seg fs ?h)" using assms(3) B(1) unfolding length_seg min_less_iff_conj by linarith
  have "aPgno (wiPage s ?h) ! ?i = fs ! (g - 1)" using page_entry [OF p i(1)] l seg_nth [OF l] i(2) by simp
  then have rd: "rd (aPgno (wiPage s ?h)) ?i = Some (fs ! (g - 1))" using page_length [OF p] i(1) by (simp add: rd_def)
  show ?thesis
  proof (cases "?h = 0")
    case True
    then show ?thesis using rd assms(2,4) by (simp add: walFramePgno_def iZero_def)
  next
    case False
    let ?c = "?h - 1"
    have z: "iZero ?h = HASHTABLE_NPAGE_ONE + ?c * HASHTABLE_NPAGE" using False by (simp add: iZero_def)
    have "g - 1 - HASHTABLE_NPAGE_ONE = ?i + ?c * HASHTABLE_NPAGE" using i(2) unfolding z by linarith
    moreover have "?i < HASHTABLE_NPAGE" using i(1) wi_cap_le [of ?h] by linarith
    ultimately have "(g - 1 - HASHTABLE_NPAGE_ONE) mod HASHTABLE_NPAGE = ?i" by simp
    then show ?thesis using rd assms(4) False unfolding walFramePgno_def Let_def by simp
  qed
qed

lemma pages_below: "iZero k < n \<Longrightarrow> n \<le> iZero h + wi_cap h \<Longrightarrow> k \<noteq> h \<Longrightarrow> iZero k + wi_cap k \<le> iZero h"
  using iZero_mono [of k h] iZero_mono [of h k] by (cases "k < h") auto

lemma walCleanupHash_ok:
  assumes ok: "wi_ok w s fs" and mx: "mxFrame (hdr w) \<le> length fs" and m: "snd (snd (walHashGet E w s (walFramePage (mxFrame (hdr w))))) = SQLITE_OK"
  shows "\<exists>w' s'. walCleanupHash E w s = (w', s') \<and> same_wal w w' \<and> wi_ok w' s' (take (mxFrame (hdr w)) fs) \<and>
    wiHdr s' = wiHdr s \<and> ckptInfo s' = ckptInfo s \<and> (\<forall>k. k \<noteq> walFramePage (mxFrame (hdr w)) \<longrightarrow> wiPage s' k = wiPage s k)"
proof (cases "mxFrame (hdr w) = 0")
  case True
  then show ?thesis by (simp add: walCleanupHash_def wi_ok_def)
next
  case False
  let ?n = "mxFrame (hdr w)" and ?h = "walFramePage (mxFrame (hdr w))"
  have h: "iZero ?h < ?n" "?n \<le> iZero ?h + wi_cap ?h" using page_of [of ?n] False by simp_all
  obtain w1 s1 where g: "walHashGet E w s ?h = (w1, s1, SQLITE_OK)" using m by (cases "walHashGet E w s ?h") auto
  note G = walHashGet_ok [OF g]
  have s1: "s1 = s" using G(2) wi_okD(1) [OF ok, of ?h] h(1) mx by simp
  define p where "p = wiPage s ?h"
  define L where "L = ?n - iZero ?h"
  define q where "q = p\<lparr>aHash := map (\<lambda>x. if L < x then 0 else x) (aHash p), aPgno := take L (aPgno p) @ replicate (length (aPgno p) - L) 0\<rparr>"
  have c: "walCleanupHash E w s = (w1, s\<lparr>wiPage := (wiPage s)(?h := q)\<rparr>)"
    using g s1 False same_wal_fields(7) [OF G(1)] unfolding walCleanupHash_def q_def L_def p_def by (simp add: Let_def)
  have "page_ok (wi_cap ?h) (take L (seg fs ?h)) q" unfolding q_def p_def
    by (rule page_cleanup [OF wi_okD(2) [OF ok]]) (use h mx in \<open>auto simp: L_def length_seg\<close>)
  then have q: "page_ok (wi_cap ?h) (seg (take ?n fs) ?h) q" using h mx by (simp add: seg_cut L_def)
  have "wi_ok w1 (s\<lparr>wiPage := (wiPage s)(?h := q)\<rparr>) (take ?n fs)"
    unfolding wi_ok_def
  proof (intro allI impI)
    fix k assume k: "iZero k < length (take ?n fs)"
    then have "has_page w1 k" using wi_okD(1) [OF ok, of k] same_wal_page [OF G(1)] by simp
    moreover have "page_ok (wi_cap k) (seg (take ?n fs) k) (((wiPage s)(?h := q)) k)"
    proof (cases "k = ?h")
      case True
      with q show ?thesis by simp
    next
      case False
      have "iZero k < ?n" using k by simp
      then have "iZero k + wi_cap k \<le> ?n" using pages_below [OF _ h(2) False] h(1) by fastforce
      then have "seg (take ?n fs) k = seg fs k" using seg_low [of k ?n fs "[]"] mx by simp
      with False k wi_okD(2) [OF ok, of k] show ?thesis by simp
    qed
    ultimately show "has_page w1 k \<and> page_ok (wi_cap k) (seg (take ?n fs) k) (wiPage (s\<lparr>wiPage := (wiPage s)(?h := q)\<rparr>) k)" by simp
  qed
  with c G(1) show ?thesis by simp
qed


lemma append_page:
  assumes p: "page_ok cap ks p" and cap: "length ks < cap" "cap \<le> HASHTABLE_NPAGE" and pg: "pg \<noteq> 0"
    and idx: "idx = Suc (length ks)"
  obtains k where "free_slot (aHash p) (walHash pg) idx = Some k"
    "page_ok cap (ks @ [pg]) (p\<lparr>aPgno := (aPgno p)[idx - 1 := pg], aHash := (aHash p)[k := idx mod 2 ^ 16]\<rparr>)"
proof -
  have "idx mod 2 ^ 16 = idx" using cap idx by simp
  with page_append [OF p cap pg] that show ?thesis unfolding idx by (metis diff_Suc_1)
qed

text \<open>What is in the page before the new entry is put in.\<close>

lemma append_ready:
  assumes ok: "wi_ok w s fs" and F: "0 < F" "F \<le> Suc (length fs)" and mx: "F \<le> length fs \<Longrightarrow> mxFrame (hdr w) = F - 1"
    and h: "h = walFramePage F" and m: "mapped w h"
    and s1: "s1 = (if F - iZero h = 1 then s\<lparr>wiPage := (wiPage s)(h := zero_page h)\<rparr> else s)"
  shows "\<exists>x w2 s2. rd (aPgno (wiPage s1 h)) (F - iZero h - 1) = Some x \<and>
    (if x \<noteq> 0 then walCleanupHash E w s1 else (w, s1)) = (w2, s2) \<and> same_wal w w2 \<and>
    wiHdr s2 = wiHdr s \<and> ckptInfo s2 = ckptInfo s \<and> (\<forall>k. k \<noteq> h \<longrightarrow> wiPage s2 k = wiPage s k) \<and>
    page_ok (wi_cap h) (take (F - 1 - iZero h) (seg fs h)) (wiPage s2 h)"
proof -
  have hF: "iZero h < F" "F \<le> iZero h + wi_cap h" using page_of [OF F(1)] h by simp_all
  show ?thesis
  proof (cases "F - iZero h = 1")
    case True
    then have "F - 1 - iZero h = 0" by simp
    moreover have "0 < wi_cap h" by (simp add: wi_cap_def)
    ultimately show ?thesis using s1 True page_ok_zero [of h]
      by (simp add: rd_def) (simp add: zero_page_def)
  next
    case False
    then have i: "iZero h < length fs" "Suc 0 \<le> F - 1 - iZero h" using hF F(2) by simp_all
    have pg: "page_ok (wi_cap h) (seg fs h) (wiPage s h)" by (rule wi_okD(2) [OF ok i(1)])
    have ss: "s1 = s" using s1 False by simp
    have lt: "F - iZero h - 1 < wi_cap h" using hF i by simp
    show ?thesis
    proof (cases "F \<le> length fs")
      case True
      have j: "F - iZero h - 1 < length (seg fs h)" using True hF by (simp add: length_seg) linarith
      have x: "rd (aPgno (wiPage s h)) (F - iZero h - 1) = Some (seg fs h ! (F - iZero h - 1))"
        using page_entry [OF pg lt] page_length [OF pg] lt j by (simp add: rd_def)
      have mxF: "mxFrame (hdr w) = F - 1" by (rule mx [OF True])
      have ph: "walFramePage (mxFrame (hdr w)) = h" unfolding mxF by (rule page_unique) (use i hF in simp_all)
      have "snd (snd (walHashGet E w s (walFramePage (mxFrame (hdr w))))) = SQLITE_OK"
        using walHashGet_mapped [OF m] ph by simp
      moreover have "mxFrame (hdr w) \<le> length fs" using mxF True by simp
      ultimately obtain w2 s2 where c: "walCleanupHash E w s = (w2, s2)" "same_wal w w2"
        "wi_ok w2 s2 (take (F - 1) fs)" "wiHdr s2 = wiHdr s" "ckptInfo s2 = ckptInfo s" "\<forall>k. k \<noteq> h \<longrightarrow> wiPage s2 k = wiPage s k"
        using walCleanupHash_ok [OF ok, of E] unfolding mxF ph [unfolded mxF] by blast
      have "page_ok (wi_cap h) (seg (take (F - 1) fs) h) (wiPage s2 h)" by (rule wi_okD(2) [OF c(3)]) (use i True in simp)
      then have "page_ok (wi_cap h) (take (F - 1 - iZero h) (seg fs h)) (wiPage s2 h)" using i True hF by (simp add: seg_cut)
      with x page_key [OF pg j] c ss show ?thesis by auto
    next
      case no: False
      then have FS: "F = Suc (length fs)" using F(2) by simp
      have ls: "length (seg fs h) = F - iZero h - 1" using FS hF i by (simp add: length_seg)
      have "rd (aPgno (wiPage s h)) (F - iZero h - 1) = Some 0"
        using page_entry [OF pg lt] page_length [OF pg] lt ls by (simp add: rd_def)
      moreover have "take (F - 1 - iZero h) (seg fs h) = seg fs h" using ls by simp
      ultimately show ?thesis using ss pg by auto
    qed
  qed
qed


lemma walHashGet_wi:
  assumes ok: "wi_ok w s fs" and g: "walHashGet E w s h = (w', s', rc)"
  shows "wi_ok w' s' fs"
  unfolding wi_ok_def
proof (intro allI impI)
  note G = walHashGet_ok [OF g]
  fix k assume k: "iZero k < length fs"
  have "wiPage s' k = wiPage s k"
  proof (cases "k = h")
    case True
    then show ?thesis using G(2) wi_okD(1) [OF ok k] by simp
  next
    case False
    then show ?thesis by (rule G(4))
  qed
  with same_wal_page [OF G(1) wi_okD(1) [OF ok k]] wi_okD(2) [OF ok k]
  show "has_page w' k \<and> page_ok (wi_cap k) (seg fs k) (wiPage s' k)" by simp
qed

lemma walIndexAppend_ok:
  assumes ok: "wi_ok w s fs" and F: "0 < F" "F \<le> Suc (length fs)" and mx: "F \<le> length fs \<longrightarrow> mxFrame (hdr w) = F - 1"
    and pg: "pg \<noteq> 0"
  shows "\<exists>w' s' rc. walIndexAppend E w s F pg = Some (w', s', rc) \<and> same_wal w w' \<and>
    wiHdr s' = wiHdr s \<and> ckptInfo s' = ckptInfo s \<and>
    (if rc = SQLITE_OK then wi_ok w' s' (take (F - 1) fs @ [pg])
     else rc = snd (snd (walHashGet E w s (walFramePage F))) \<and> wi_ok w' s' fs)"
proof -
  define h where "h = walFramePage F"
  have hF: "iZero h < F" "F \<le> iZero h + wi_cap h" using page_of [OF F(1)] by (simp_all add: h_def)
  obtain w1 s0 rc where g: "walHashGet E w s h = (w1, s0, rc)" by (cases "walHashGet E w s h") auto
  note G = walHashGet_ok [OF g]
  note W = same_wal_fields [OF G(1)]
  have ok1: "wi_ok w1 s0 fs" by (rule walHashGet_wi [OF ok g])
  show ?thesis
  proof (cases "rc = SQLITE_OK")
    case False
    then have "walIndexAppend E w s F pg = Some (w1, s0, rc)" using g by (simp add: walIndexAppend_def h_def)
    with False g G(1,5,6) ok1 show ?thesis by (simp add: h_def)
  next
    case True
    have m: "mapped w1 h" using walHashGet_maps g True by simp
    define s1 where "s1 = (if F - iZero h = 1 then s0\<lparr>wiPage := (wiPage s0)(h := zero_page h)\<rparr> else s0)"
    have mx1: "F \<le> length fs \<Longrightarrow> mxFrame (hdr w1) = F - 1" using mx W(7) by simp
    from append_ready [OF ok1 F mx1 h_def m s1_def, of E] obtain x w2 s2 where
      a: "rd (aPgno (wiPage s1 h)) (F - iZero h - 1) = Some x" "(if x \<noteq> 0 then walCleanupHash E w1 s1 else (w1, s1)) = (w2, s2)"
      "same_wal w1 w2" "wiHdr s2 = wiHdr s0" "ckptInfo s2 = ckptInfo s0" "\<forall>k. k \<noteq> h \<longrightarrow> wiPage s2 k = wiPage s0 k"
      "page_ok (wi_cap h) (take (F - 1 - iZero h) (seg fs h)) (wiPage s2 h)" by blast
    have l: "length (take (F - 1 - iZero h) (seg fs h)) = F - 1 - iZero h" using hF F by (auto simp: length_seg)
    have lt: "length (take (F - 1 - iZero h) (seg fs h)) < wi_cap h" unfolding l using hF by linarith
    have idx: "F - iZero h = Suc (length (take (F - 1 - iZero h) (seg fs h)))" unfolding l using hF by linarith
    obtain k where k: "free_slot (aHash (wiPage s2 h)) (walHash pg) (F - iZero h) = Some k"
      "page_ok (wi_cap h) (take (F - 1 - iZero h) (seg fs h) @ [pg]) (wiPage s2 h\<lparr>aPgno := (aPgno (wiPage s2 h))[F - iZero h - 1 := pg],
         aHash := (aHash (wiPage s2 h))[k := (F - iZero h) mod 2 ^ 16]\<rparr>)"
      by (rule append_page [OF a(7) lt wi_cap_le pg idx])
    define p where "p = wiPage s2 h\<lparr>aPgno := (aPgno (wiPage s2 h))[F - iZero h - 1 := pg], aHash := (aHash (wiPage s2 h))[k := (F - iZero h) mod 2 ^ 16]\<rparr>"
    let ?s = "s2\<lparr>wiPage := (wiPage s2)(h := p)\<rparr>"
    have "walIndexAppend E w s F pg = Some (w2, ?s, SQLITE_OK)"
      using g [unfolded True]
      by (simp only: walIndexAppend_def h_def [symmetric] p_def Let_def prod.case simp_thms if_False s1_def [symmetric]
          a(1,2) k(1) option.case bind.bind_lunit)
    moreover have "same_wal w w2" by (rule same_wal_trans [OF G(1) a(3)])
    moreover have "wi_ok w2 ?s (take (F - 1) fs @ [pg])"
      unfolding wi_ok_def
    proof (intro allI impI)
      fix j assume "iZero j < length (take (F - 1) fs @ [pg])"
      then have j: "iZero j < F" using F by auto
      show "has_page w2 j \<and> page_ok (wi_cap j) (seg (take (F - 1) fs @ [pg]) j) (wiPage ?s j)"
      proof (cases "j = h")
        case True
        have "has_page w1 h" using m by (simp add: has_page_def mapped_def)
        then have "has_page w2 h" by (rule same_wal_page [OF a(3)])
        moreover have "seg (take (F - 1) fs @ [pg]) h = take (F - 1 - iZero h) (seg fs h) @ [pg]"
          using hF F by (intro seg_here) auto
        ultimately show ?thesis using True k(2) p_def by simp
      next
        case False
        have z: "iZero j + wi_cap j \<le> iZero h" by (rule pages_below [OF j hF(2) False])
        moreover have "0 < wi_cap j" by (simp add: wi_cap_def)
        ultimately have jf: "iZero j < length fs" using hF(1) F(2) by linarith
        have "seg (take (F - 1) fs @ [pg]) j = seg fs j" by (rule seg_low) (use z hF(1) F in auto)
        moreover have "has_page w2 j" using same_wal_page [OF a(3)] wi_okD(1) [OF ok1 jf] by blast
        ultimately show ?thesis using False a(6) wi_okD(2) [OF ok1 jf] by simp
      qed
    qed
    ultimately show ?thesis using a(4,5) G(5,6) by auto
  qed
qed


lemma last_frame_spec:
  assumes "hi \<le> length fs" "r = last_frame fs pgno lo hi"
  shows "if r = 0 then \<forall>i. lo \<le> i \<and> 0 < i \<and> i \<le> hi \<longrightarrow> fs ! (i - 1) \<noteq> pgno
    else lo \<le> r \<and> r \<le> hi \<and> fs ! (r - 1) = pgno \<and> (\<forall>i. r < i \<and> i \<le> hi \<longrightarrow> fs ! (i - 1) \<noteq> pgno)"
  using assms
proof (induction hi)
  case (Suc n)
  show ?case
  proof (cases "lo \<le> Suc n \<and> fs ! n = pgno")
    case True
    with Suc.prems show ?thesis by simp
  next
    case False
    with Suc.prems have r: "r = last_frame fs pgno lo n" by auto
    have "fs ! (i - 1) \<noteq> pgno" if "i = Suc n" "lo \<le> i" for i using that False by auto
    with Suc.IH [OF _ r] Suc.prems(1) show ?thesis by (auto simp: le_Suc_eq split: if_splits)
  qed
qed auto

section \<open>Properties\<close>

text \<open>
  C28: Appending to the wal-index is appending to the list of page numbers: frames of a transaction
  that was never committed are cut off first, so that the new frame takes their place, and the
  hash table never overflows (\<open>SQLITE_CORRUPT\<close> is not returned); the only failure is that the
  page of the index cannot be mapped, and then the index keeps its contents.
\<close>

theorem wal_index_append:
  assumes "wi_ok w s fs" "0 < iFrame" "iFrame \<le> length fs + 1"
    and "iFrame \<le> length fs \<longrightarrow> mxFrame (hdr w) = iFrame - 1" and "iPage \<noteq> 0"
  shows "\<exists>w' s' rc. walIndexAppend E w s iFrame iPage = Some (w', s', rc) \<and> hdr w' = hdr w \<and>
    wiHdr s' = wiHdr s \<and> ckptInfo s' = ckptInfo s \<and>
    (if rc = SQLITE_OK then wi_ok w' s' (take (iFrame - 1) fs @ [iPage])
     else rc = snd (snd (walHashGet E w s (walFramePage iFrame))) \<and> wi_ok w' s' fs)"
proof -
  have le: "iFrame \<le> Suc (length fs)" using assms(3) by simp
  from walIndexAppend_ok [OF assms(1,2) le assms(4,5), of E] obtain w' s' rc where
    a: "walIndexAppend E w s iFrame iPage = Some (w', s', rc)" "same_wal w w'" "wiHdr s' = wiHdr s" "ckptInfo s' = ckptInfo s"
      "if rc = SQLITE_OK then wi_ok w' s' (take (iFrame - 1) fs @ [iPage])
       else rc = snd (snd (walHashGet E w s (walFramePage iFrame))) \<and> wi_ok w' s' fs" by (elim exE conjE) (rule that)
  show ?thesis by (intro exI [of _ w'] exI [of _ s'] exI [of _ rc] conjI a same_wal_fields(7) [OF a(2)])
qed

text \<open>
  C29: Looking up a page in the wal-index gives the last frame that holds it among the frames
  \<open>minFrame\<close> to \<open>mxFrame\<close> of the connection, whatever a writer has appended behind, and 0 if there
  is none; no search runs into a full table or reads outside the arrays.
\<close>

theorem wal_find_frame:
  assumes "wi_ok w s fs" "mxFrame (hdr w) \<le> length fs" "readLock w \<noteq> 0 \<or> bShmUnreliable w"
  shows "\<exists>w' rc iRead. walFindFrame E w s pgno = Some (w', s, rc, iRead) \<and> hdr w' = hdr w \<and>
    (rc = SQLITE_OK \<longrightarrow>
      (if iRead = 0 then \<forall>i. minFrame w \<le> i \<and> 0 < i \<and> i \<le> mxFrame (hdr w) \<longrightarrow> fs ! (i - 1) \<noteq> pgno
       else minFrame w \<le> iRead \<and> iRead \<le> mxFrame (hdr w) \<and> fs ! (iRead - 1) = pgno \<and>
         (\<forall>i. iRead < i \<and> i \<le> mxFrame (hdr w) \<longrightarrow> fs ! (i - 1) \<noteq> pgno)))"
proof -
  obtain w' rc r where f: "walFindFrame E w s pgno = Some (w', s, rc, r)" "same_wal w w'"
    "rc = SQLITE_OK \<longrightarrow> r = last_frame fs pgno (minFrame w) (mxFrame (hdr w))" using walFindFrame_ok [OF assms] by blast
  have "if r = 0 then \<forall>i. minFrame w \<le> i \<and> 0 < i \<and> i \<le> mxFrame (hdr w) \<longrightarrow> fs ! (i - 1) \<noteq> pgno
       else minFrame w \<le> r \<and> r \<le> mxFrame (hdr w) \<and> fs ! (r - 1) = pgno \<and>
         (\<forall>i. r < i \<and> i \<le> mxFrame (hdr w) \<longrightarrow> fs ! (i - 1) \<noteq> pgno)"
    if "rc = SQLITE_OK" using last_frame_spec [OF assms(2), of r pgno "minFrame w"] f(3) that by simp
  with f(1) same_wal_fields(7) [OF f(2)] show ?thesis by auto
qed

section \<open>An example\<close>

definition env0 :: walEnv where
  "env0 = \<lparr>mallocOk = (\<lambda>n. True), osShmMap = (\<lambda>h b. (SQLITE_OK, True))\<rparr>"

definition hdr0 :: WalIndexHdr where
  "hdr0 = \<lparr>iVersion = 3007000, iChange = 1, isInit = True, bigEndCksum = False, hszPage = 512, mxFrame = 0, nPage = 7,
     aFrameCksum = (0, 0), aSalt = replicate 8 0, aCksum = (0, 0)\<rparr>"

definition wal0 :: Wal where
  "wal0 = \<lparr>apWiData = [True], szPage = 512, readLock = 1, exclusiveMode = 0, writeLock = True, ckptLock = False, readOnly = 0,
     bShmUnreliable = False, hdr = hdr0, minFrame = 1, iReCksum = 0, nCkpt = 0,
     syncHeader = True, padToSectorBoundary = False, truncateOnCommit = False, mxWalSize = -1, iCallback = 0\<rparr>"

definition shm0 :: walShm where
  "shm0 = \<lparr>wiHdr = (hdr0, hdr0), ckptInfo = \<lparr>nBackfill = 0, aReadMark = [0, 0, 0, 0, 0], nBackfillAttempted = 0\<rparr>, wiPage = zero_page\<rparr>"

lemma wi_ok_empty: "wi_ok w s []"
  by (simp add: wi_ok_def)

lemma wi_ok_cong: "wi_ok w s fs \<Longrightarrow> apWiData w' = apWiData w \<Longrightarrow> exclusiveMode w' = exclusiveMode w \<Longrightarrow> wi_ok w' s fs"
  by (simp add: wi_ok_def has_page_def shared_def mapped_def)

lemma hash_env0: "snd (snd (walHashGet env0 wal0 s h)) = SQLITE_OK"
  by (simp add: walHashGet_def walIndexPage_def walIndexPageRealloc_def env0_def wal0_def Let_def)

theorem wal_index_append_witness:
  "\<exists>w' s' rc. walIndexAppend env0 wal0 shm0 1 5 = Some (w', s', rc) \<and> hdr w' = hdr wal0 \<and>
    wiHdr s' = wiHdr shm0 \<and> ckptInfo s' = ckptInfo shm0 \<and>
    (if rc = SQLITE_OK then wi_ok w' s' (take (1 - 1) [] @ [5])
     else rc = snd (snd (walHashGet env0 wal0 shm0 (walFramePage 1))) \<and> wi_ok w' s' [])"
  by (rule wal_index_append [OF wi_ok_empty]) simp_all

lemma one_frame: "\<exists>w s. wi_ok w s [5] \<and> same_wal wal0 w"
proof -
  have "(1::nat) \<le> Suc (length [])" "(1::nat) \<le> length [] \<longrightarrow> mxFrame (hdr wal0) = 1 - 1" by simp_all
  from walIndexAppend_ok [OF wi_ok_empty, where F = 1 and w = wal0 and s = shm0 and pg = 5 and E = env0, OF _ this]
  show ?thesis using hash_env0 [of shm0 "walFramePage 1"] by (auto split: if_splits)
qed

theorem wal_find_frame_witness:
  "\<exists>w s. mxFrame (hdr w) = 1 \<and> (\<exists>w' rc iRead. walFindFrame env0 w s 5 = Some (w', s, rc, iRead) \<and> hdr w' = hdr w \<and>
    (rc = SQLITE_OK \<longrightarrow>
      (if iRead = 0 then \<forall>i. minFrame w \<le> i \<and> 0 < i \<and> i \<le> mxFrame (hdr w) \<longrightarrow> [5::nat] ! (i - 1) \<noteq> 5
       else minFrame w \<le> iRead \<and> iRead \<le> mxFrame (hdr w) \<and> [5::nat] ! (iRead - 1) = 5 \<and>
         (\<forall>i. iRead < i \<and> i \<le> mxFrame (hdr w) \<longrightarrow> [5::nat] ! (i - 1) \<noteq> 5))))"
proof -
  obtain w s where a: "wi_ok w s [5]" "same_wal wal0 w" using one_frame by blast
  let ?w = "w\<lparr>hdr := hdr0\<lparr>mxFrame := 1\<rparr>\<rparr>"
  have "wi_ok ?w s [5]" by (rule wi_ok_cong [OF a(1)]) simp_all
  moreover have "mxFrame (hdr ?w) \<le> length [5::nat]" by simp
  moreover have "readLock ?w \<noteq> 0 \<or> bShmUnreliable ?w" using same_wal_fields(2) [OF a(2)] by (simp add: wal0_def)
  ultimately show ?thesis by (intro exI [of _ ?w] exI [of _ s] conjI wal_find_frame) simp_all
qed

end
