(* ===== verification/WalIter.thy ===== *)
theory WalIter
  imports WalIndex
begin

text \<open>
  The iterator over the log in the order of database pages (\<^verbatim>\<open>src/wal.c\<close>): \<open>walMerge\<close>,
  \<open>walMergesort\<close>, \<open>walIteratorInit\<close> and \<open>walIteratorNext\<close>. The checkpoint uses it to copy
  each page once, from the last frame that holds it.
\<close>

section \<open>Sorting one block\<close>

text \<open>
  The lists hold indices into \<open>aContent\<close>. The C code merges within one array, where the left list
  lies before the right one; here the lists are values.
\<close>

function walMerge :: "nat list \<Rightarrow> nat list \<Rightarrow> nat list \<Rightarrow> nat list" where
  "walMerge aContent aLeft aRight =
     (if aLeft = [] \<and> aRight = [] then []
      else
        let (logpage, aLeft, aRight) =
              (if aLeft \<noteq> [] \<and> (aRight = [] \<or> aContent ! hd aLeft < aContent ! hd aRight)
               then (hd aLeft, tl aLeft, aRight) else (hd aRight, aLeft, tl aRight));
            dbpage = aContent ! logpage;
            aLeft = (if aLeft \<noteq> [] \<and> aContent ! hd aLeft = dbpage then tl aLeft else aLeft)
        in logpage # walMerge aContent aLeft aRight)"
  by pat_completeness auto
termination
  by (relation "measure (\<lambda>(c, l, r). length l + length r)")
    (auto simp: neq_Nil_conv split: if_splits)

declare walMerge.simps [simp del]

text \<open>The array \<open>aSub\<close> of 13 lists; \<open>None\<close> is a failing assertion.\<close>

function ms_carry :: "nat list \<Rightarrow> nat \<Rightarrow> nat \<Rightarrow> nat list list \<Rightarrow> nat list \<Rightarrow> (nat \<times> nat list list \<times> nat list) option" where
  "ms_carry aContent iList iSub aSub aMerge =
     (if length aSub \<le> iSub then None
      else if bit iList iSub then ms_carry aContent iList (iSub + 1) aSub (walMerge aContent (aSub ! iSub) aMerge)
      else Some (iSub, aSub[iSub := aMerge], aMerge))"
  by pat_completeness auto
termination by (relation "measure (\<lambda>(c, n, i, a, m). length a - i)") auto

declare ms_carry.simps [simp del]

primrec ms_fill :: "nat list \<Rightarrow> nat list \<Rightarrow> nat \<Rightarrow> nat \<Rightarrow> (nat \<times> nat list list \<times> nat list) option" where
  "ms_fill aContent aList nSub 0 = Some (0, replicate nSub [], [])"
| "ms_fill aContent aList nSub (Suc iList) =
     do { (iSub, aSub, aMerge) \<leftarrow> ms_fill aContent aList nSub iList; ms_carry aContent iList 0 aSub [aList ! iList] }"

function ms_collect :: "nat list \<Rightarrow> nat \<Rightarrow> nat \<Rightarrow> nat list list \<Rightarrow> nat list \<Rightarrow> nat list" where
  "ms_collect aContent nList iSub aSub aMerge =
     (if iSub < length aSub then
        ms_collect aContent nList (iSub + 1) aSub (if bit nList iSub then walMerge aContent (aSub ! iSub) aMerge else aMerge)
      else aMerge)"
  by pat_completeness auto
termination by (relation "measure (\<lambda>(c, n, i, a, m). length a - i)") auto

declare ms_collect.simps [simp del]

definition walMergesort :: "nat list \<Rightarrow> nat list \<Rightarrow> nat list option" where
  "walMergesort aContent aList =
     do {
       (iSub, aSub, aMerge) \<leftarrow> ms_fill aContent aList 13 (length aList);
       Some (ms_collect aContent (length aList) (iSub + 1) aSub aMerge)
     }"

section \<open>The iterator\<close>

record WalSegment =
  iNext :: nat
  aIndex :: "nat list"
  sPgno :: "nat list"
  nEntry :: nat
  sZero :: nat

record WalIterator =
  iPrior :: nat
  aSegment :: "WalSegment list"

definition no_segment :: WalSegment where
  "no_segment = \<lparr>iNext = 0, aIndex = [], sPgno = [], nEntry = 0, sZero = 0\<rparr>"

text \<open>The segments from \<open>i\<close> to \<open>i + k - 1\<close>.\<close>

primrec init_segments ::
  "walEnv \<Rightarrow> nat \<Rightarrow> nat \<Rightarrow> nat \<Rightarrow> nat \<Rightarrow> Wal \<Rightarrow> walShm \<Rightarrow> WalSegment list \<Rightarrow> (Wal \<times> walShm \<times> nat \<times> WalSegment list) option" where
  "init_segments E iLast nSegment i 0 w s segs = Some (w, s, SQLITE_OK, segs)"
| "init_segments E iLast nSegment i (Suc k) w s segs =
     (let (w, s, rc) = walHashGet E w s i
      in if rc \<noteq> SQLITE_OK then Some (w, s, rc, segs)
         else do {
           let n = (if i + 1 = nSegment then iLast - iZero i else length (aPgno (wiPage s i)));
           idx \<leftarrow> walMergesort (aPgno (wiPage s i)) [0..<n];
           init_segments E iLast nSegment (i + 1) k w s
             (segs[i := \<lparr>iNext = 0, aIndex = idx, sPgno = aPgno (wiPage s i), nEntry = length idx, sZero = iZero i + 1\<rparr>])
         })"

text \<open>The iterator is allocated with its segments, the indices and the buffer of the sort.\<close>

definition iter_bytes :: "nat \<Rightarrow> nat \<Rightarrow> nat" where
  "iter_bytes iLast nSegment = 40 + (nSegment - 1) * 32 + iLast * 2 + 2 * (if HASHTABLE_NPAGE < iLast then HASHTABLE_NPAGE else iLast)"

definition walIteratorInit :: "walEnv \<Rightarrow> Wal \<Rightarrow> walShm \<Rightarrow> nat \<Rightarrow> (Wal \<times> walShm \<times> nat \<times> WalIterator option) option" where
  "walIteratorInit E w s nBack =
     (let iLast = mxFrame (hdr w);
          nSegment = walFramePage iLast + 1
      in if \<not> mallocOk E (iter_bytes iLast nSegment) then Some (w, s, SQLITE_NOMEM, None)
         else do {
           let i = walFramePage (nBack + 1);
           (w, s, rc, segs) \<leftarrow> init_segments E iLast nSegment i (nSegment - i) w s (replicate nSegment no_segment);
           Some (w, s, rc, if rc = SQLITE_OK then Some \<lparr>iPrior = 0, aSegment = segs\<rparr> else None)
         })"

text \<open>Skipping the entries of a segment that are not behind \<open>iMin\<close>.\<close>

function skip_entries :: "WalSegment \<Rightarrow> nat \<Rightarrow> nat \<Rightarrow> nat option" where
  "skip_entries g iMin i =
     (if i < nEntry g then
        do { x \<leftarrow> rd (aIndex g) i; iPg \<leftarrow> rd (sPgno g) x; if iMin < iPg then Some i else skip_entries g iMin (i + 1) }
      else Some i)"
  by pat_completeness auto
termination by (relation "measure (\<lambda>(g, m, i). nEntry g - i)") auto

declare skip_entries.simps [simp del]

text \<open>The segments \<open>k - 1\<close> down to 0; the result is \<open>iRet\<close> and \<open>*piFrame\<close>.\<close>

primrec next_segments :: "nat \<Rightarrow> nat \<Rightarrow> WalSegment list \<Rightarrow> nat \<Rightarrow> nat \<Rightarrow> (WalSegment list \<times> nat \<times> nat) option" where
  "next_segments iMin 0 segs iRet piFrame = Some (segs, iRet, piFrame)"
| "next_segments iMin (Suc i) segs iRet piFrame =
     do {
       let g = segs ! i;
       n \<leftarrow> skip_entries g iMin (iNext g);
       let segs = segs[i := g\<lparr>iNext := n\<rparr>];
       if n < nEntry g then do {
         x \<leftarrow> rd (aIndex g) n; iPg \<leftarrow> rd (sPgno g) x;
         if iPg < iRet then next_segments iMin i segs iPg (sZero g + x) else next_segments iMin i segs iRet piFrame
       }
       else next_segments iMin i segs iRet piFrame
     }"

text \<open>The result: the iterator, \<open>*piPage\<close>, \<open>*piFrame\<close> and the value returned.\<close>

definition walIteratorNext :: "WalIterator \<Rightarrow> nat \<Rightarrow> (WalIterator \<times> nat \<times> nat \<times> bool) option" where
  "walIteratorNext p piFrame =
     do {
       (segs, iRet, piFrame) \<leftarrow> next_segments (iPrior p) (length (aSegment p)) (aSegment p) 0xFFFFFFFF piFrame;
       Some (p\<lparr>iPrior := iRet, aSegment := segs\<rparr>, iRet, piFrame, iRet = 0xFFFFFFFF)
     }"


section \<open>The merge sort\<close>

definition ascending :: "nat list \<Rightarrow> nat list \<Rightarrow> bool" where
  "ascending C l \<longleftrightarrow> sorted_wrt (\<lambda>x y. C ! x < C ! y) l"

lemma ascending_simps [simp]: "ascending C []" "ascending C [x]"
    "ascending C (x # l) \<longleftrightarrow> (\<forall>y\<in>set l. C ! x < C ! y) \<and> ascending C l"
  by (simp_all add: ascending_def)

lemma walMerge_Nil [simp]: "walMerge C [] [] = []"
  by (subst walMerge.simps) simp

lemma walMerge_left:
  "ascending C (a # l) \<Longrightarrow> r = [] \<or> C ! a < C ! hd r \<Longrightarrow> walMerge C (a # l) r = a # walMerge C l r"
  by (subst walMerge.simps) (cases l; auto)

lemma walMerge_right:
  "l = [] \<or> C ! b \<le> C ! hd l \<Longrightarrow>
   walMerge C l (b # r) = b # walMerge C (if l \<noteq> [] \<and> C ! hd l = C ! b then tl l else l) r"
  by (subst walMerge.simps) auto

lemma walMerge_ok:
  "ascending C l \<Longrightarrow> ascending C r \<Longrightarrow>
   ascending C (walMerge C l r) \<and> set (walMerge C l r) = set r \<union> {x \<in> set l. C ! x \<notin> (!) C ` set r}"
proof (induction "length l + length r" arbitrary: l r rule: less_induct)
  case less
  consider "l = []" "r = []" | a l' where "l = a # l'" "r = [] \<or> C ! a < C ! hd r"
    | b r' where "r = b # r'" "l = [] \<or> C ! b \<le> C ! hd l"
    by (cases l; cases r; cases "C ! hd l < C ! hd r") (auto simp: not_less)
  then show ?case
  proof cases
    case 1
    then show ?thesis by simp
  next
    case 2
    note IH = less.hyps [of l' r]
    have lt: "C ! a < C ! y" if "y \<in> set r" for y using 2(2) less.prems(2) that by (cases r) auto
    have "walMerge C l r = a # walMerge C l' r" using walMerge_left [of C a l' r] less.prems(1) 2 by simp
    moreover have "C ! a \<notin> (!) C ` set r"
    proof
      assume "C ! a \<in> (!) C ` set r"
      then obtain y where "y \<in> set r" "C ! y = C ! a" by auto
      with lt [of y] show False by simp
    qed
    moreover have "C ! a < C ! x" if "x \<in> set (walMerge C l' r)" for x
      using that IH less.prems 2(1) lt by auto
    ultimately show ?thesis using IH less.prems 2(1) by auto
  next
    case 3
    let ?l = "if l \<noteq> [] \<and> C ! hd l = C ! b then tl l else l"
    have m: "walMerge C l r = b # walMerge C ?l r'" using walMerge_right [OF 3(2)] 3(1) by simp
    have asc: "ascending C ?l" "ascending C r'" using less.prems 3(1) by (cases l; simp)+
    have gt: "\<forall>x\<in>set ?l. C ! b < C ! x"
      using 3(2) less.prems(1) by (cases l) auto
    have gt': "C ! b < C ! x" if "x \<in> set r'" for x using that 3(1) less.prems(2) by auto
    have "length ?l + length r' < length l + length r" using 3(1) by (cases l) auto
    from less.hyps [OF this asc] have IH: "ascending C (walMerge C ?l r')"
      "set (walMerge C ?l r') = set r' \<union> {x \<in> set ?l. C ! x \<notin> (!) C ` set r'}" by auto
    have "{x \<in> set l. C ! x \<notin> (!) C ` set r} = {x \<in> set ?l. C ! x \<notin> (!) C ` set r'}"
      using 3(1) gt by (cases l) (force split: if_splits)+
    with IH gt gt' 3(1) show ?thesis unfolding m by auto
  qed
qed

text \<open>The last occurrences of the contents in a range.\<close>

definition lasts :: "nat list \<Rightarrow> nat \<Rightarrow> nat \<Rightarrow> nat set" where
  "lasts C lo hi = {x. lo \<le> x \<and> x < hi \<and> (\<forall>y. x < y \<longrightarrow> y < hi \<longrightarrow> C ! y \<noteq> C ! x)}"

definition covers :: "nat list \<Rightarrow> nat \<Rightarrow> nat \<Rightarrow> nat list \<Rightarrow> bool" where
  "covers C lo hi l \<longleftrightarrow> ascending C l \<and> set l = lasts C lo hi"

lemma lasts_image: "(!) C ` lasts C lo hi = (!) C ` {lo..<hi}"
proof
  show "(!) C ` lasts C lo hi \<subseteq> (!) C ` {lo..<hi}" by (auto simp: lasts_def)
next
  show "(!) C ` {lo..<hi} \<subseteq> (!) C ` lasts C lo hi"
  proof
    fix v assume "v \<in> (!) C ` {lo..<hi}"
    then have ne: "{x \<in> {lo..<hi}. C ! x = v} \<noteq> {}" by auto
    have fin: "finite {x \<in> {lo..<hi}. C ! x = v}" by simp
    obtain m where m: "m \<in> {x \<in> {lo..<hi}. C ! x = v}" "\<And>y. y \<in> {x \<in> {lo..<hi}. C ! x = v} \<Longrightarrow> y \<le> m"
      using Max_in [OF fin ne] Max_ge [OF fin] by blast
    have "C ! y \<noteq> C ! m" if y: "m < y" "y < hi" for y
    proof
      assume "C ! y = C ! m"
      then have "y \<in> {x \<in> {lo..<hi}. C ! x = v}" using m(1) y by simp
      with m(2) y(1) show False by (meson not_le)
    qed
    then have "m \<in> lasts C lo hi" using m(1) by (simp add: lasts_def)
    moreover have "C ! m = v" using m(1) by simp
    ultimately show "v \<in> (!) C ` lasts C lo hi" by blast
  qed
qed

lemma lasts_split:
  assumes "lo \<le> mid" "mid \<le> hi"
  shows "lasts C lo hi = lasts C mid hi \<union> {x \<in> lasts C lo mid. C ! x \<notin> (!) C ` lasts C mid hi}"
proof (rule set_eqI)
  fix x
  have "(C ! x \<notin> (!) C ` {mid..<hi}) \<longleftrightarrow> (\<forall>y. mid \<le> y \<longrightarrow> y < hi \<longrightarrow> C ! y \<noteq> C ! x)" by (auto simp: image_iff) (metis atLeastLessThan_iff)
  moreover have "(\<forall>y>x. y < hi \<longrightarrow> C ! y \<noteq> C ! x) \<longleftrightarrow>
      (\<forall>y>x. y < mid \<longrightarrow> C ! y \<noteq> C ! x) \<and> (\<forall>y. mid \<le> y \<longrightarrow> y < hi \<longrightarrow> C ! y \<noteq> C ! x)" if "x < mid"
    using that assms by (meson le_less_trans less_le_trans not_le)
  ultimately have "x \<in> {x \<in> lasts C lo mid. C ! x \<notin> (!) C ` lasts C mid hi} \<longleftrightarrow>
      lo \<le> x \<and> x < mid \<and> (\<forall>y>x. y < hi \<longrightarrow> C ! y \<noteq> C ! x)"
    unfolding lasts_image by (auto simp: lasts_def)
  then show "x \<in> lasts C lo hi \<longleftrightarrow> x \<in> lasts C mid hi \<union> {x \<in> lasts C lo mid. C ! x \<notin> (!) C ` lasts C mid hi}"
    using assms by (auto simp: lasts_def)
qed

lemma covers_one: "covers C i (Suc i) [i]"
  by (auto simp: covers_def lasts_def)

lemma covers_merge:
  assumes "covers C lo mid l" "covers C mid hi r" "lo \<le> mid" "mid \<le> hi"
  shows "covers C lo hi (walMerge C l r)"
  using assms walMerge_ok [of C l r] lasts_split [OF assms(3,4), of C] by (auto simp: covers_def)


text \<open>Counting: where the block of a set bit lies.\<close>

definition base :: "nat \<Rightarrow> nat \<Rightarrow> nat" where
  "base n b = n div 2 ^ Suc b * 2 ^ Suc b"

lemma bit_set_step:
  assumes m: "i mod 2 ^ k = 2 ^ k - 1" and b: "bit i k"
  shows "base i k + 2 ^ k = i + 1 - 2 ^ k" "base i k = i + 1 - 2 ^ Suc k" "i mod 2 ^ Suc k = 2 ^ Suc k - 1" "2 ^ Suc k \<le> i + 1"
proof -
  define P :: nat where "P = 2 ^ k"
  have P: "0 < P" by (simp add: P_def)
  define q where "q = i div 2 ^ Suc k"
  have "odd (i div P)" using b by (simp add: bit_iff_odd P_def)
  then have "i div P = 2 * (i div P div 2) + 1" by simp
  moreover have "q = i div P div 2" by (simp only: q_def P_def power_Suc div_mult2_eq [symmetric] mult.commute)
  ultimately have d: "i div P = 2 * q + 1" by simp
  have "i = i div P * P + i mod P" by simp
  then have i: "i = (2 * q + 1) * P + (P - 1)" using m d by (simp add: P_def)
  then have i1: "i + 1 = 2 * q * P + 2 * P" using P by (simp add: algebra_simps)
  have bq: "base i k = 2 * q * P" by (simp add: base_def q_def P_def)
  show "base i k + 2 ^ k = i + 1 - 2 ^ k" "base i k = i + 1 - 2 ^ Suc k" "2 ^ Suc k \<le> i + 1"
    using i1 bq by (simp_all add: P_def)
  have "i mod 2 ^ Suc k = i - q * (2 * P)" by (simp add: q_def P_def minus_div_mult_eq_mod)
  also have "\<dots> = 2 * P - 1" using i1 P by (simp add: algebra_simps)
  finally show "i mod 2 ^ Suc k = 2 ^ Suc k - 1" by (simp add: P_def)
qed

lemma bit_clear_step:
  assumes m: "i mod 2 ^ k = 2 ^ k - 1" and b: "\<not> bit i k"
  shows "bit (Suc i) j \<longleftrightarrow> j = k \<or> k < j \<and> bit i j" "base (Suc i) k = i + 1 - 2 ^ k" "k < j \<Longrightarrow> base (Suc i) j = base i j" "2 ^ k \<le> i + 1"
proof -
  define P :: nat where "P = 2 ^ k"
  have P: "0 < P" by (simp add: P_def)
  define q where "q = i div 2 ^ Suc k"
  have "even (i div P)" using b by (simp add: bit_iff_odd P_def)
  then have "i div P = 2 * (i div P div 2)" by simp
  moreover have "q = i div P div 2" by (simp only: q_def P_def power_Suc div_mult2_eq [symmetric] mult.commute)
  ultimately have d: "i div P = 2 * q" by simp
  have "i = i div P * P + i mod P" by simp
  then have i: "i = 2 * q * P + (P - 1)" using m d by (simp add: P_def)
  then have i1: "Suc i = (2 * q + 1) * P" using P by (simp add: algebra_simps)
  have d1: "Suc i div P = 2 * q + 1" using i1 P by simp
  have up: "Suc i div 2 ^ j = i div 2 ^ j" if "k < j" for j
  proof -
    obtain e where e: "j = k + Suc e" using \<open>k < j\<close> less_imp_Suc_add by auto
    have "Suc i div 2 ^ j = Suc i div P div 2 div 2 ^ e" "i div 2 ^ j = i div P div 2 div 2 ^ e"
      by (simp_all only: e P_def power_add power_Suc div_mult2_eq)
    then show ?thesis using d d1 by simp
  qed
  show "bit (Suc i) j \<longleftrightarrow> j = k \<or> k < j \<and> bit i j"
  proof (cases j k rule: linorder_cases)
    case less
    then obtain e where e: "k = j + Suc e" using less_imp_Suc_add by auto
    have "Suc i = (2 * q + 1) * 2 ^ Suc e * 2 ^ j" by (simp add: i1 P_def e power_add algebra_simps)
    then have "Suc i div 2 ^ j = (2 * q + 1) * 2 ^ Suc e" by simp
    then have "even (Suc i div 2 ^ j)" by (simp only:) simp
    with less show ?thesis by (simp add: bit_iff_odd)
  next
    case equal
    with d1 show ?thesis by (simp add: bit_iff_odd P_def)
  next
    case greater
    with up show ?thesis by (simp add: bit_iff_odd)
  qed
  have "Suc i div 2 ^ Suc k = Suc i div P div 2" by (simp only: P_def power_Suc div_mult2_eq [symmetric] mult.commute)
  also have "\<dots> = q" by (simp add: d1)
  finally have "base (Suc i) k = q * (2 * P)" by (simp only: base_def P_def power_Suc)
  then show "base (Suc i) k = i + 1 - 2 ^ k" using i1 by (simp add: P_def algebra_simps)
  show "k < j \<Longrightarrow> base (Suc i) j = base i j" using up [of "Suc j"] by (simp add: base_def)
  show "2 ^ k \<le> i + 1" using i1 by (simp add: P_def)
qed

definition sub_ok :: "nat list \<Rightarrow> nat \<Rightarrow> nat list list \<Rightarrow> bool" where
  "sub_ok C n aSub \<longleftrightarrow> (\<forall>b<length aSub. bit n b \<longrightarrow> covers C (base n b) (base n b + 2 ^ b) (aSub ! b))"

lemma ms_carry_ok:
  "i mod 2 ^ k = 2 ^ k - 1 \<Longrightarrow> 2 ^ k \<le> i + 1 \<Longrightarrow> covers C (i + 1 - 2 ^ k) (i + 1) m \<Longrightarrow> sub_ok C i aSub \<Longrightarrow> i + 1 < 2 ^ length aSub \<Longrightarrow>
   \<exists>k' aSub' m'. ms_carry C i k aSub m = Some (k', aSub', m') \<and> length aSub' = length aSub \<and> sub_ok C (i + 1) aSub' \<and>
     covers C (i + 1 - 2 ^ k') (i + 1) m' \<and> i mod 2 ^ k' = 2 ^ k' - 1 \<and> \<not> bit i k'"
proof (induction "length aSub - k" arbitrary: k m)
  case 0
  then have "(2::nat) ^ length aSub \<le> 2 ^ k" by simp
  with 0 show ?case by linarith
next
  case (Suc d)
  then have k: "k < length aSub" by simp
  show ?case
  proof (cases "bit i k")
    case True
    note S = bit_set_step [OF Suc.prems(1) True]
    have "covers C (base i k) (base i k + 2 ^ k) (aSub ! k)" using Suc.prems(4) k True by (simp add: sub_ok_def)
    then have "covers C (i + 1 - 2 ^ Suc k) (i + 1) (walMerge C (aSub ! k) m)"
      unfolding S(1) using Suc.prems(2,3) S(2) by (intro covers_merge [of C _ "i + 1 - 2 ^ k"]) simp_all
    moreover have "d = length aSub - Suc k" using Suc.hyps(2) by simp
    moreover have "ms_carry C i k aSub m = ms_carry C i (Suc k) aSub (walMerge C (aSub ! k) m)"
      using k True by (subst ms_carry.simps) simp
    ultimately show ?thesis using Suc.hyps(1) [of "Suc k" "walMerge C (aSub ! k) m"] S(3,4) Suc.prems(4,5) by simp
  next
    case False
    note S = bit_clear_step [OF Suc.prems(1) False]
    have "sub_ok C (i + 1) (aSub[k := m])"
      unfolding sub_ok_def
    proof (intro allI impI)
      fix b assume b: "b < length (aSub[k := m])" "bit (i + 1) b"
      show "covers C (base (i + 1) b) (base (i + 1) b + 2 ^ b) (aSub[k := m] ! b)"
      proof (cases "b = k")
        case True
        with S(2) Suc.prems(2,3) k show ?thesis by simp
      next
        case False
        with b S(1) have "k < b" "bit i b" by simp_all
        with S(3) Suc.prems(4) b False show ?thesis by (simp add: sub_ok_def)
      qed
    qed
    with k False Suc.prems(1,3) show ?thesis by (subst ms_carry.simps) simp
  qed
qed


lemma ms_fill_ok:
  assumes "n \<le> N" "n < 2 ^ k"
  shows "\<exists>b aSub m. ms_fill C [0..<N] k n = Some (b, aSub, m) \<and> length aSub = k \<and> sub_ok C n aSub \<and>
    (0 < n \<longrightarrow> covers C (base n b) n m)"
  using assms
proof (induction n)
  case 0
  have "\<not> bit (0::nat) b" for b by simp
  then show ?case by (simp add: sub_ok_def)
next
  case (Suc n)
  then obtain b aSub m where f: "ms_fill C [0..<N] k n = Some (b, aSub, m)" "length aSub = k" "sub_ok C n aSub" by auto
  have "covers C (n + 1 - 2 ^ 0) (n + 1) [n]" using covers_one [of C n] by simp
  from ms_carry_ok [OF _ _ this f(3)] Suc.prems(2) f(2) obtain b' aSub' m' where
    c: "ms_carry C n 0 aSub [n] = Some (b', aSub', m')" "length aSub' = length aSub" "sub_ok C (n + 1) aSub'"
      "covers C (n + 1 - 2 ^ b') (n + 1) m'" "n mod 2 ^ b' = 2 ^ b' - 1" "\<not> bit n b'" by auto
  have "base (Suc n) b' = n + 1 - 2 ^ b'" by (rule bit_clear_step(2) [OF c(5,6)])
  then have "covers C (base (Suc n) b') (Suc n) m'" using c(4) by simp
  with f c Suc.prems(1) show ?case by simp
qed

lemma div_block:
  fixes n :: nat
  shows "bit n j \<Longrightarrow> base n j + 2 ^ j = n div 2 ^ j * 2 ^ j" "\<not> bit n j \<Longrightarrow> base n j = n div 2 ^ j * 2 ^ j"
proof -
  have d: "n div 2 ^ Suc j = n div 2 ^ j div 2" by (simp only: power_Suc div_mult2_eq [symmetric] mult.commute)
  show "base n j + 2 ^ j = n div 2 ^ j * 2 ^ j" if "bit n j"
  proof -
    have "n div 2 ^ j = 2 * (n div 2 ^ j div 2) + 1" using that by (simp add: bit_iff_odd)
    then obtain q where q: "n div 2 ^ j = 2 * q + 1" "n div 2 ^ Suc j = q" using d by metis
    then show ?thesis unfolding base_def by (simp only:) (simp add: algebra_simps)
  qed
  show "base n j = n div 2 ^ j * 2 ^ j" if "\<not> bit n j"
  proof -
    have "n div 2 ^ j = 2 * (n div 2 ^ j div 2)" using that by (simp add: bit_iff_odd)
    then obtain q where q: "n div 2 ^ j = 2 * q" "n div 2 ^ Suc j = q" using d by metis
    then show ?thesis unfolding base_def by (simp only:) (simp add: algebra_simps)
  qed
qed

lemma ms_collect_ok:
  "sub_ok C n aSub \<Longrightarrow> covers C (n div 2 ^ j * 2 ^ j) n m \<Longrightarrow> n < 2 ^ length aSub \<Longrightarrow> covers C 0 n (ms_collect C n j aSub m)"
proof (induction "length aSub - j" arbitrary: j m)
  case 0
  then have "(2::nat) ^ length aSub \<le> 2 ^ j" by simp
  with 0(4) have "n < 2 ^ j" by linarith
  with 0 show ?case by (subst ms_collect.simps) simp
next
  case (Suc d)
  then have j: "j < length aSub" by simp
  have "n div 2 ^ Suc j * 2 ^ Suc j \<le> n" "n div 2 ^ j * 2 ^ j \<le> n" by (rule div_times_less_eq_dividend)+
  have "covers C (n div 2 ^ Suc j * 2 ^ Suc j) n (if bit n j then walMerge C (aSub ! j) m else m)"
  proof (cases "bit n j")
    case True
    have "covers C (base n j) (base n j + 2 ^ j) (aSub ! j)" using Suc.prems(1) j True by (simp add: sub_ok_def)
    then have "covers C (base n j) n (walMerge C (aSub ! j) m)"
      using Suc.prems(2) div_block(1) [OF True] div_times_less_eq_dividend [of n "2 ^ j"]
      by (intro covers_merge [of C _ "n div 2 ^ j * 2 ^ j"]) simp_all
    with True show ?thesis by (simp add: base_def)
  next
    case False
    have "n div 2 ^ Suc j * 2 ^ Suc j = n div 2 ^ j * 2 ^ j" using div_block(2) [OF False] by (simp only: base_def)
    with Suc.prems(2) False show ?thesis by (simp only: if_False)
  qed
  with Suc.hyps(1) [of "Suc j"] Suc.hyps(2) Suc.prems(1,3) j show ?case by (subst ms_collect.simps) simp
qed

lemma walMergesort_ok:
  assumes "0 < n" "n \<le> HASHTABLE_NPAGE"
  shows "\<exists>l. walMergesort C [0..<n] = Some l \<and> covers C 0 n l"
proof -
  have n: "n < 2 ^ 13" using assms(2) by simp
  obtain b aSub m where f: "ms_fill C [0..<n] 13 n = Some (b, aSub, m)" "length aSub = 13" "sub_ok C n aSub"
    "covers C (base n b) n m" using ms_fill_ok [OF le_refl n, of C] assms(1) by blast
  have "covers C (n div 2 ^ Suc b * 2 ^ Suc b) n m" using f(4) by (simp add: base_def)
  from ms_collect_ok [OF f(3) this] n f show ?thesis by (simp add: walMergesort_def)
qed


section \<open>One step of the iterator\<close>

definition entries :: "WalSegment \<Rightarrow> (nat \<times> nat) list" where
  "entries g = map (\<lambda>x. (sPgno g ! x, sZero g + x)) (aIndex g)"

definition keys :: "WalSegment \<Rightarrow> nat set" where
  "keys g = fst ` set (entries g)"

text \<open>A segment whose entries before \<open>iNext\<close> are all done at \<open>prior\<close>.\<close>

definition segment_ok :: "nat \<Rightarrow> WalSegment \<Rightarrow> bool" where
  "segment_ok prior g \<longleftrightarrow> nEntry g = length (aIndex g) \<and> (\<forall>x\<in>set (aIndex g). x < length (sPgno g)) \<and>
     ascending (sPgno g) (aIndex g) \<and> iNext g \<le> nEntry g \<and> (\<forall>i<iNext g. sPgno g ! (aIndex g ! i) \<le> prior)"

lemma entries_next [simp]: "entries (g\<lparr>iNext := n\<rparr>) = entries g" "keys (g\<lparr>iNext := n\<rparr>) = keys g"
  by (simp_all add: entries_def keys_def)

lemma keys_eq: "keys g = (\<lambda>x. sPgno g ! x) ` set (aIndex g)"
  by (simp add: keys_def entries_def image_image)

lemma keys_nth: "k \<in> keys g \<longleftrightarrow> (\<exists>i<length (aIndex g). k = sPgno g ! (aIndex g ! i))"
  unfolding keys_eq by (force simp: in_set_conv_nth)

lemma entry_nth: "(k, f) \<in> set (entries g) \<longleftrightarrow> (\<exists>i<length (aIndex g). k = sPgno g ! (aIndex g ! i) \<and> f = sZero g + aIndex g ! i)"
  unfolding entries_def by (force simp: in_set_conv_nth)

lemma segment_key_mono: "segment_ok prior g \<Longrightarrow> i < j \<Longrightarrow> j < length (aIndex g) \<Longrightarrow> sPgno g ! (aIndex g ! i) < sPgno g ! (aIndex g ! j)"
  by (simp add: segment_ok_def ascending_def sorted_wrt_iff_nth_less)

lemma skip_entries_ok:
  assumes "nEntry g = length (aIndex g)" "\<forall>x\<in>set (aIndex g). x < length (sPgno g)"
  shows "i \<le> nEntry g \<Longrightarrow> \<exists>n. skip_entries g iMin i = Some n \<and> i \<le> n \<and> n \<le> nEntry g \<and>
    (\<forall>j. i \<le> j \<and> j < n \<longrightarrow> sPgno g ! (aIndex g ! j) \<le> iMin) \<and> (n < nEntry g \<longrightarrow> iMin < sPgno g ! (aIndex g ! n))"
proof (induction "nEntry g - i" arbitrary: i)
  case 0
  then show ?case by (subst skip_entries.simps) auto
next
  case (Suc d)
  then have i: "i < length (aIndex g)" using assms(1) by simp
  then have x: "rd (aIndex g) i = Some (aIndex g ! i)" "rd (sPgno g) (aIndex g ! i) = Some (sPgno g ! (aIndex g ! i))"
    using assms(2) by (simp_all add: rd_def)
  show ?case
  proof (cases "iMin < sPgno g ! (aIndex g ! i)")
    case True
    with x i assms(1) Suc.prems show ?thesis by (subst skip_entries.simps) auto
  next
    case False
    have "skip_entries g iMin i = skip_entries g iMin (Suc i)" using x i assms(1) False by (subst skip_entries.simps) simp
    moreover obtain n where n: "skip_entries g iMin (Suc i) = Some n" "Suc i \<le> n" "n \<le> nEntry g"
      "\<forall>j. Suc i \<le> j \<and> j < n \<longrightarrow> sPgno g ! (aIndex g ! j) \<le> iMin" "n < nEntry g \<longrightarrow> iMin < sPgno g ! (aIndex g ! n)"
      using Suc.hyps(1) [of "Suc i"] Suc.hyps(2) i assms(1) by (metis Suc_leI diff_Suc_Suc Suc_diff_Suc diff_Suc_1)
    moreover have "sPgno g ! (aIndex g ! j) \<le> iMin" if "i \<le> j" "j < n" for j
      using n(4) False that by (cases "i = j") auto
    ultimately show ?thesis by auto
  qed
qed

text \<open>The answer of a segment: its first key behind \<open>iMin\<close>.\<close>

lemma segment_next:
  assumes g: "segment_ok iMin g"
  obtains n where "skip_entries g iMin (iNext g) = Some n" "segment_ok iMin (g\<lparr>iNext := n\<rparr>)"
    "n < nEntry g \<Longrightarrow> rd (aIndex g) n = Some (aIndex g ! n) \<and> rd (sPgno g) (aIndex g ! n) = Some (sPgno g ! (aIndex g ! n)) \<and>
      iMin < sPgno g ! (aIndex g ! n) \<and> (sPgno g ! (aIndex g ! n), sZero g + aIndex g ! n) \<in> set (entries g) \<and>
      (\<forall>k\<in>keys g. iMin < k \<longrightarrow> sPgno g ! (aIndex g ! n) \<le> k)"
    "\<not> n < nEntry g \<Longrightarrow> \<forall>k\<in>keys g. k \<le> iMin"
proof -
  have w: "nEntry g = length (aIndex g)" "\<forall>x\<in>set (aIndex g). x < length (sPgno g)" "iNext g \<le> nEntry g"
    "\<forall>i<iNext g. sPgno g ! (aIndex g ! i) \<le> iMin" using g by (simp_all add: segment_ok_def)
  obtain n where n: "skip_entries g iMin (iNext g) = Some n" "iNext g \<le> n" "n \<le> nEntry g"
    "\<forall>j. iNext g \<le> j \<and> j < n \<longrightarrow> sPgno g ! (aIndex g ! j) \<le> iMin" "n < nEntry g \<longrightarrow> iMin < sPgno g ! (aIndex g ! n)"
    using skip_entries_ok [OF w(1,2,3), of iMin] by blast
  have low: "sPgno g ! (aIndex g ! i) \<le> iMin" if "i < n" for i using w(4) n(4) that by (cases "i < iNext g") auto
  show ?thesis
  proof (rule that [OF n(1)])
    show "segment_ok iMin (g\<lparr>iNext := n\<rparr>)" using g n(3) low by (simp add: segment_ok_def)
  next
    assume ln: "n < nEntry g"
    have "sPgno g ! (aIndex g ! n) \<le> k" if k: "k \<in> keys g" "iMin < k" for k
    proof -
      obtain i where i: "i < length (aIndex g)" "k = sPgno g ! (aIndex g ! i)" using k(1) by (auto simp: keys_nth)
      then have "n \<le> i" using low k(2) by (meson leD leI)
      then show ?thesis using segment_key_mono [OF g, of n i] i by (cases "n = i") auto
    qed
    with ln n(5) w show "rd (aIndex g) n = Some (aIndex g ! n) \<and> rd (sPgno g) (aIndex g ! n) = Some (sPgno g ! (aIndex g ! n)) \<and>
      iMin < sPgno g ! (aIndex g ! n) \<and> (sPgno g ! (aIndex g ! n), sZero g + aIndex g ! n) \<in> set (entries g) \<and>
      (\<forall>k\<in>keys g. iMin < k \<longrightarrow> sPgno g ! (aIndex g ! n) \<le> k)" by (auto simp: rd_def entry_nth)
  next
    assume "\<not> n < nEntry g"
    with n(3) w(1) low show "\<forall>k\<in>keys g. k \<le> iMin" by (auto simp: keys_nth)
  qed
qed

text \<open>The result \<open>(r, f)\<close> of a search over the segments below \<open>i\<close>.\<close>

definition chosen :: "WalSegment list \<Rightarrow> nat \<Rightarrow> nat \<Rightarrow> nat \<Rightarrow> nat \<Rightarrow> bool" where
  "chosen segs iMin i r f \<longleftrightarrow> iMin < r \<and> (\<exists>j<i. (r, f) \<in> set (entries (segs ! j)) \<and> (\<forall>j'. j < j' \<and> j' < i \<longrightarrow> r \<notin> keys (segs ! j')))"

lemma next_segments_ok:
  assumes "\<forall>g\<in>set segs. segment_ok iMin g" "i \<le> length segs"
  shows "\<exists>segs' r f. next_segments iMin i segs iRet pf = Some (segs', r, f) \<and> length segs' = length segs \<and>
    (\<forall>g\<in>set segs'. segment_ok iMin g) \<and> map entries segs' = map entries segs \<and>
    (r = iRet \<and> f = pf \<or> r < iRet \<and> chosen segs iMin i r f) \<and>
    (\<forall>j<i. \<forall>k\<in>keys (segs ! j). iMin < k \<longrightarrow> r \<le> k)"
  using assms
proof (induction i arbitrary: segs iRet pf)
  case 0
  then show ?case by simp
next
  case (Suc i)
  let ?g = "segs ! i"
  have i: "i < length segs" using Suc.prems(2) by simp
  have g: "segment_ok iMin ?g" using Suc.prems(1) i by simp
  obtain n where n: "skip_entries ?g iMin (iNext ?g) = Some n" "segment_ok iMin (?g\<lparr>iNext := n\<rparr>)"
    "n < nEntry ?g \<Longrightarrow> rd (aIndex ?g) n = Some (aIndex ?g ! n) \<and> rd (sPgno ?g) (aIndex ?g ! n) = Some (sPgno ?g ! (aIndex ?g ! n)) \<and>
      iMin < sPgno ?g ! (aIndex ?g ! n) \<and> (sPgno ?g ! (aIndex ?g ! n), sZero ?g + aIndex ?g ! n) \<in> set (entries ?g) \<and>
      (\<forall>k\<in>keys ?g. iMin < k \<longrightarrow> sPgno ?g ! (aIndex ?g ! n) \<le> k)"
    "\<not> n < nEntry ?g \<Longrightarrow> \<forall>k\<in>keys ?g. k \<le> iMin" by (rule segment_next [OF g]) (rule that)
  define S where "S = segs[i := ?g\<lparr>iNext := n\<rparr>]"
  have S: "\<forall>g\<in>set S. segment_ok iMin g" "i \<le> length S" "length S = length segs" "map entries S = map entries segs"
    using Suc.prems n(2) i set_update_subset_insert [of segs i "?g\<lparr>iNext := n\<rparr>"]
    by (auto simp: S_def map_update list_update_same_conv)
  have E: "entries (S ! j) = entries (segs ! j)" "keys (S ! j) = keys (segs ! j)" for j
    by (cases "j = i"; simp add: S_def i)+
  define x where "x = sPgno ?g ! (aIndex ?g ! n)"
  define new where "new \<longleftrightarrow> n < nEntry ?g \<and> x < iRet"
  define R where "R = (if new then x else iRet)"
  define Pf where "Pf = (if new then sZero ?g + aIndex ?g ! n else pf)"
  have step: "next_segments iMin (Suc i) segs iRet pf = next_segments iMin i S R Pf"
    using n(1,3) by (auto simp: Let_def S_def R_def Pf_def new_def x_def)
  obtain segs' r f where r: "next_segments iMin i S R Pf = Some (segs', r, f)" "length segs' = length S"
    "\<forall>g\<in>set segs'. segment_ok iMin g" "map entries segs' = map entries S"
    "r = R \<and> f = Pf \<or> r < R \<and> chosen S iMin i r f" "\<forall>j<i. \<forall>k\<in>keys (S ! j). iMin < k \<longrightarrow> r \<le> k"
    using Suc.IH [OF S(1,2), of R Pf] by (elim exE conjE) (rule that)
  have rR: "r \<le> R" using r(5) by auto
  have low: "R \<le> k" if "k \<in> keys ?g" "iMin < k" "R \<noteq> iRet \<or> k < iRet" for k
    using that n(3,4) by (cases "n < nEntry ?g") (auto simp: R_def new_def x_def not_less)
  have all: "\<forall>j<Suc i. \<forall>k\<in>keys (segs ! j). iMin < k \<longrightarrow> r \<le> k"
  proof (intro allI impI ballI)
    fix j k assume jk: "j < Suc i" "k \<in> keys (segs ! j)" "iMin < k"
    show "r \<le> k"
    proof (cases "j = i")
      case True
      with jk have k: "k \<in> keys ?g" by simp
      show ?thesis
      proof (cases "R \<noteq> iRet \<or> k < iRet")
        case True
        with low [OF k jk(3)] rR show ?thesis by simp
      next
        case False
        with rR show ?thesis by simp
      qed
    next
      case False
      then have "j < i" using jk(1) by simp
      with jk(2,3) r(6) show ?thesis unfolding E by blast
    qed
  qed
  have "r = iRet \<and> f = pf \<or> r < iRet \<and> chosen segs iMin (Suc i) r f"
  proof (cases "r = R \<and> f = Pf")
    case True
    show ?thesis
    proof (cases new)
      case True
      with \<open>r = R \<and> f = Pf\<close> n(3) show ?thesis unfolding chosen_def R_def Pf_def new_def x_def by auto
    next
      case False
      with \<open>r = R \<and> f = Pf\<close> show ?thesis by (simp add: R_def Pf_def)
    qed
  next
    case False
    with r(5) have c: "r < R" "chosen S iMin i r f" by auto
    have RI: "R \<le> iRet" by (simp add: R_def new_def)
    have "r \<notin> keys ?g"
    proof
      assume k: "r \<in> keys ?g"
      have "iMin < r" using c(2) by (simp add: chosen_def)
      from low [OF k this] c(1) RI show False by simp
    qed
    with c RI show ?thesis unfolding chosen_def E by (auto simp: less_Suc_eq)
  qed
  with step r S all show ?case by auto
qed


lemma segment_ok_mono: "segment_ok a g \<Longrightarrow> a \<le> b \<Longrightarrow> segment_ok b g"
  unfolding segment_ok_def by (meson le_trans)

definition iter_keys :: "WalIterator \<Rightarrow> nat set" where
  "iter_keys it = (\<Union>g\<in>set (aSegment it). keys g)"

definition iter_ok :: "WalIterator \<Rightarrow> bool" where
  "iter_ok it \<longleftrightarrow> (\<forall>g\<in>set (aSegment it). segment_ok (iPrior it) g) \<and> (\<forall>k\<in>iter_keys it. k < 0xFFFFFFFF)"

text \<open>The frame of the last segment that has the page.\<close>

definition iter_frame :: "WalIterator \<Rightarrow> nat \<Rightarrow> nat \<Rightarrow> bool" where
  "iter_frame it r f \<longleftrightarrow> (\<exists>j<length (aSegment it). (r, f) \<in> set (entries (aSegment it ! j)) \<and>
     (\<forall>j'. j < j' \<and> j' < length (aSegment it) \<longrightarrow> r \<notin> keys (aSegment it ! j')))"

lemma keys_of: "keys g = fst ` set (entries g)"
  by (simp add: keys_def)

lemma same_entries:
  assumes "map entries S = map entries T"
  shows "length S = length T" "j < length T \<Longrightarrow> entries (S ! j) = entries (T ! j)" "j < length T \<Longrightarrow> keys (S ! j) = keys (T ! j)"
    "(\<Union>g\<in>set S. keys g) = (\<Union>g\<in>set T. keys g)"
proof -
  show l: "length S = length T" using assms map_eq_imp_length_eq by blast
  show e: "j < length T \<Longrightarrow> entries (S ! j) = entries (T ! j)" for j using assms l by (metis nth_map)
  then show "j < length T \<Longrightarrow> keys (S ! j) = keys (T ! j)" by (simp add: keys_def)
  have u: "(\<Union>g\<in>set S. keys g) = (\<Union>e\<in>set (map entries S). fst ` set e)" for S by (simp add: keys_def)
  show "(\<Union>g\<in>set S. keys g) = (\<Union>g\<in>set T. keys g)" unfolding u assms ..
qed

lemma walIteratorNext_ok:
  assumes it: "iter_ok it"
  obtains it' r f d where "walIteratorNext it pf = Some (it', r, f, d)" "iter_ok it'" "iPrior it' = r"
    "map entries (aSegment it') = map entries (aSegment it)" "\<And>k. k \<in> iter_keys it \<Longrightarrow> iPrior it < k \<Longrightarrow> r \<le> k"
    "if d then r = 0xFFFFFFFF else iPrior it < r \<and> r \<in> iter_keys it \<and> iter_frame it r f"
proof -
  let ?S = "aSegment it" and ?m = "iPrior it"
  have s: "\<forall>g\<in>set ?S. segment_ok ?m g" and k: "\<forall>k\<in>iter_keys it. k < 0xFFFFFFFF" using it by (simp_all add: iter_ok_def)
  obtain S r f where n: "next_segments ?m (length ?S) ?S 0xFFFFFFFF pf = Some (S, r, f)" "length S = length ?S"
    "\<forall>g\<in>set S. segment_ok ?m g" "map entries S = map entries ?S"
    "r = 0xFFFFFFFF \<and> f = pf \<or> r < 0xFFFFFFFF \<and> chosen ?S ?m (length ?S) r f"
    "\<forall>j<length ?S. \<forall>k\<in>keys (?S ! j). ?m < k \<longrightarrow> r \<le> k"
    using next_segments_ok [OF s le_refl, of "0xFFFFFFFF" pf] by (elim exE conjE) (rule that)
  let ?it = "it\<lparr>iPrior := r, aSegment := S\<rparr>"
  have ik: "iter_keys ?it = iter_keys it" using same_entries(4) [OF n(4)] by (simp add: iter_keys_def)
  have low: "r \<le> j" if "j \<in> iter_keys it" "?m < j" for j
    using that n(6) by (auto simp: iter_keys_def in_set_conv_nth)
  show ?thesis
  proof (rule that)
    show "walIteratorNext it pf = Some (?it, r, f, r = 0xFFFFFFFF)" by (simp add: walIteratorNext_def n(1))
    have "segment_ok r g" if g: "g \<in> set S" for g
    proof (cases "?m \<le> r")
      case True
      with n(3) g show ?thesis by (blast intro: segment_ok_mono)
    next
      case False
      then have r: "r = 0xFFFFFFFF" using n(5) by (auto simp: chosen_def)
      have g1: "segment_ok ?m g" using n(3) g by blast
      have "sPgno g ! (aIndex g ! i) \<le> r" if "i < iNext g" for i
      proof -
        have "sPgno g ! (aIndex g ! i) \<in> keys g" unfolding keys_nth
          using g1 that by (intro exI [of _ i]) (auto simp: segment_ok_def)
        then have "sPgno g ! (aIndex g ! i) \<in> iter_keys it" using ik g by (auto simp: iter_keys_def)
        with k r show ?thesis by force
      qed
      with g1 show ?thesis by (simp add: segment_ok_def)
    qed
    then show "iter_ok ?it" using k ik by (simp add: iter_ok_def)
    show "iPrior ?it = r" "map entries (aSegment ?it) = map entries (aSegment it)" using n(4) by simp_all
    show "\<And>k. k \<in> iter_keys it \<Longrightarrow> iPrior it < k \<Longrightarrow> r \<le> k" by (rule low)
    show "if r = 0xFFFFFFFF then r = 0xFFFFFFFF else iPrior it < r \<and> r \<in> iter_keys it \<and> iter_frame it r f"
    proof (cases "r = 0xFFFFFFFF")
      case False
      then have c: "chosen ?S ?m (length ?S) r f" using n(5) by simp
      then have fr: "iter_frame it r f" by (auto simp: chosen_def iter_frame_def)
      then obtain j where "j < length ?S" "(r, f) \<in> set (entries (?S ! j))" by (auto simp: iter_frame_def)
      then have "r \<in> iter_keys it" by (force simp: iter_keys_def keys_def)
      with False c fr show ?thesis by (simp add: chosen_def)
    qed simp
  qed
qed

lemma iter_frame_same: "map entries (aSegment it') = map entries (aSegment it) \<Longrightarrow> iter_frame it' r f = iter_frame it r f"
  unfolding iter_frame_def using same_entries [of "aSegment it'" "aSegment it"] by auto

lemma iter_keys_same: "map entries (aSegment it') = map entries (aSegment it) \<Longrightarrow> iter_keys it' = iter_keys it"
  unfolding iter_keys_def by (rule same_entries(4))

section \<open>The iterator over an index\<close>

text \<open>A segment of the frames of table \<open>j\<close> up to \<open>iLast\<close>.\<close>

definition block_end :: "nat \<Rightarrow> nat \<Rightarrow> nat" where
  "block_end iLast j = min iLast (iZero (Suc j))"

definition block_segment :: "nat list \<Rightarrow> nat \<Rightarrow> nat \<Rightarrow> WalSegment \<Rightarrow> bool" where
  "block_segment fs iLast j g \<longleftrightarrow> iNext g = 0 \<and> nEntry g = length (aIndex g) \<and> sZero g = iZero j + 1 \<and>
     covers (sPgno g) 0 (block_end iLast j - iZero j) (aIndex g) \<and> block_end iLast j - iZero j \<le> length (sPgno g) \<and>
     (\<forall>x<block_end iLast j - iZero j. sPgno g ! x = fs ! (iZero j + x))"

lemma init_segments_ok:
  "wi_ok w s fs \<Longrightarrow> iLast \<le> length fs \<Longrightarrow> nSegment = walFramePage iLast + 1 \<Longrightarrow> 0 < iLast \<Longrightarrow> i + k \<le> nSegment \<Longrightarrow> nSegment \<le> length segs \<Longrightarrow>
   \<exists>w' rc S. init_segments E iLast nSegment i k w s segs = Some (w', s, rc, S) \<and> same_wal w w' \<and>
     (rc = SQLITE_OK \<longrightarrow> length S = length segs \<and> (\<forall>j. i \<le> j \<and> j < i + k \<longrightarrow> mapped w' j) \<and>
       (\<forall>j. i \<le> j \<and> j < i + k \<longrightarrow> block_segment fs iLast j (S ! j)) \<and> (\<forall>j. \<not> (i \<le> j \<and> j < i + k) \<longrightarrow> S ! j = segs ! j))"
proof (induction k arbitrary: i w segs)
  case 0
  then show ?case by auto
next
  case (Suc k)
  obtain w1 s1 rc where g: "walHashGet E w s i = (w1, s1, rc)" by (cases "walHashGet E w s i") auto
  note G = walHashGet_ok [OF g]
  have iz: "iZero (walFramePage iLast) < iLast" "iLast \<le> iZero (Suc (walFramePage iLast))"
    using page_of [OF Suc.prems(4)] by (simp_all add: iZero_Suc)
  have il: "i \<le> walFramePage iLast" using Suc.prems(3,5) by simp
  have i: "iZero i < iLast"
  proof (cases "i = walFramePage iLast")
    case False
    with il iZero_mono [of i "walFramePage iLast"] iz(1) show ?thesis by simp
  qed (use iz in simp)
  then have pg: "page_ok (wi_cap i) (seg fs i) (wiPage s i)" using wi_okD(2) [OF Suc.prems(1)] Suc.prems(2) by simp
  have s1: "s1 = s" using G(2) wi_okD(1) [OF Suc.prems(1), of i] i Suc.prems(2) by simp
  show ?case
  proof (cases "rc = SQLITE_OK")
    case False
    with g s1 G(1) show ?thesis by auto
  next
    case True
    define n where "n = (if i + 1 = nSegment then iLast - iZero i else length (aPgno (wiPage s i)))"
    have n: "n = block_end iLast i - iZero i"
    proof (cases "i + 1 = nSegment")
      case True
      then have "i = walFramePage iLast" using Suc.prems(3) by simp
      with iz(2) True show ?thesis by (simp add: n_def block_end_def min_def)
    next
      case False
      then have "Suc i \<le> walFramePage iLast" using il Suc.prems(3) by simp
      then have "iZero (Suc i) \<le> iLast" using iz(1) iZero_mono [of "Suc i" "walFramePage iLast"] by (cases "Suc i = walFramePage iLast") auto
      then show ?thesis using False page_length [OF pg] by (simp add: n_def block_end_def min_def iZero_Suc)
    qed
    have ncap: "0 < n" "n \<le> wi_cap i" using n i by (auto simp: block_end_def iZero_Suc wi_cap_def)
    then obtain l where l: "walMergesort (aPgno (wiPage s i)) [0..<n] = Some l" "covers (aPgno (wiPage s i)) 0 n l"
      using walMergesort_ok [of n "aPgno (wiPage s i)"] wi_cap_le [of i] by auto
    define g' where "g' = \<lparr>iNext = 0, aIndex = l, sPgno = aPgno (wiPage s i), nEntry = length l, sZero = iZero i + 1\<rparr>"
    have entry: "aPgno (wiPage s i) ! x = fs ! (iZero i + x)" if "x < n" for x
    proof -
      have "x < length (seg fs i)" using that ncap n Suc.prems(2) by (auto simp: length_seg block_end_def)
      then show ?thesis using page_entry [OF pg, of x] that ncap(2) by (simp add: seg_nth)
    qed
    have blk: "block_segment fs iLast i g'"
      unfolding block_segment_def using l(2) entry n ncap(2) page_length [OF pg] by (simp add: g'_def)
    have step: "init_segments E iLast nSegment i (Suc k) w s segs = init_segments E iLast nSegment (i + 1) k w1 s (segs[i := g'])"
      using g s1 True l(1) by (simp add: n_def g'_def Let_def)
    have "i < length segs" using Suc.prems(5,6) by simp
    obtain w' rc' S where r: "init_segments E iLast nSegment (i + 1) k w1 s (segs[i := g']) = Some (w', s, rc', S)" "same_wal w1 w'"
      "rc' = SQLITE_OK \<longrightarrow> length S = length (segs[i := g']) \<and> (\<forall>j. i + 1 \<le> j \<and> j < i + 1 + k \<longrightarrow> mapped w' j) \<and>
       (\<forall>j. i + 1 \<le> j \<and> j < i + 1 + k \<longrightarrow> block_segment fs iLast j (S ! j)) \<and>
       (\<forall>j. \<not> (i + 1 \<le> j \<and> j < i + 1 + k) \<longrightarrow> S ! j = segs[i := g'] ! j)"
      using Suc.IH [OF wi_ok_same [OF Suc.prems(1) G(1)] Suc.prems(2,3,4), of "i + 1" "segs[i := g']"] Suc.prems(5,6)
      by auto
    have m: "mapped w' i" using walHashGet_maps [of E w s i w1 s1] g True same_wal_mapped [OF r(2)] by simp
    have "rc' = SQLITE_OK \<longrightarrow> length S = length segs \<and> (\<forall>j. i \<le> j \<and> j < i + Suc k \<longrightarrow> mapped w' j) \<and>
       (\<forall>j. i \<le> j \<and> j < i + Suc k \<longrightarrow> block_segment fs iLast j (S ! j)) \<and> (\<forall>j. \<not> (i \<le> j \<and> j < i + Suc k) \<longrightarrow> S ! j = segs ! j)"
    proof (intro impI conjI allI)
      assume ok: "rc' = SQLITE_OK"
      with r(3) show "length S = length segs" by simp
      show "mapped w' j" if "i \<le> j \<and> j < i + Suc k" for j
        using r(3) ok that m by (cases "j = i") auto
      show "block_segment fs iLast j (S ! j)" if "i \<le> j \<and> j < i + Suc k" for j
      proof (cases "j = i")
        case True
        with r(3) ok blk \<open>i < length segs\<close> show ?thesis by simp
      next
        case False
        with r(3) ok that show ?thesis by simp
      qed
      show "S ! j = segs ! j" if "\<not> (i \<le> j \<and> j < i + Suc k)" for j
        using r(3) ok that by auto
    qed
    with step r(1) same_wal_trans [OF G(1) r(2)] show ?thesis by auto
  qed
qed


text \<open>The entries of a block are the last frames of its pages.\<close>

lemma block_entry:
  assumes b: "block_segment fs iLast j g" and e: "iZero j \<le> block_end iLast j"
  shows "(k, f) \<in> set (entries g) \<longleftrightarrow> iZero j < f \<and> f \<le> block_end iLast j \<and> fs ! (f - 1) = k \<and>
    (\<forall>y. f \<le> y \<longrightarrow> y < block_end iLast j \<longrightarrow> fs ! y \<noteq> k)"
proof -
  let ?n = "block_end iLast j - iZero j"
  have C: "sPgno g ! x = fs ! (iZero j + x)" if "x < ?n" for x using b that by (simp add: block_segment_def)
  have idx: "x \<in> set (aIndex g) \<longleftrightarrow> x < ?n \<and> (\<forall>y. x < y \<longrightarrow> y < ?n \<longrightarrow> fs ! (iZero j + y) \<noteq> fs ! (iZero j + x))" for x
    using b C by (auto simp: block_segment_def covers_def lasts_def)
  have en: "(k, f) \<in> set (entries g) \<longleftrightarrow> (\<exists>x\<in>set (aIndex g). k = sPgno g ! x \<and> f = iZero j + 1 + x)"
    using b by (auto simp: entries_def block_segment_def)
  show ?thesis
  proof
    assume "(k, f) \<in> set (entries g)"
    then obtain x where x: "x \<in> set (aIndex g)" "k = sPgno g ! x" "f = iZero j + 1 + x" using en by auto
    then have xn: "x < ?n" and last: "\<And>y. x < y \<Longrightarrow> y < ?n \<Longrightarrow> fs ! (iZero j + y) \<noteq> fs ! (iZero j + x)" by (auto simp: idx)
    have k: "k = fs ! (iZero j + x)" using x(2) C [OF xn] by simp
    have "fs ! y \<noteq> k" if "f \<le> y" "y < block_end iLast j" for y
      using last [of "y - iZero j"] that x(3) k by simp
    with x(3) xn k show "iZero j < f \<and> f \<le> block_end iLast j \<and> fs ! (f - 1) = k \<and>
      (\<forall>y. f \<le> y \<longrightarrow> y < block_end iLast j \<longrightarrow> fs ! y \<noteq> k)" by simp
  next
    assume a: "iZero j < f \<and> f \<le> block_end iLast j \<and> fs ! (f - 1) = k \<and> (\<forall>y. f \<le> y \<longrightarrow> y < block_end iLast j \<longrightarrow> fs ! y \<noteq> k)"
    define x where "x = f - iZero j - 1"
    have x: "f = iZero j + 1 + x" "x < ?n" using a by (auto simp: x_def)
    have k: "fs ! (iZero j + x) = k" using a x(1) by simp
    have "fs ! (iZero j + y) \<noteq> k" if "x < y" "y < ?n" for y using a that x(1) by auto
    with x k have "x \<in> set (aIndex g)" by (simp add: idx)
    then show "(k, f) \<in> set (entries g)" using en x C [OF x(2)] k by auto
  qed
qed

lemma block_keys:
  assumes b: "block_segment fs iLast j g" and e: "iZero j \<le> block_end iLast j"
  shows "k \<in> keys g \<longleftrightarrow> (\<exists>y. iZero j \<le> y \<and> y < block_end iLast j \<and> fs ! y = k)"
proof -
  let ?n = "block_end iLast j - iZero j"
  have "keys g = (!) (sPgno g) ` {0..<?n}"
    using b lasts_image [of "sPgno g" 0 ?n] by (simp add: keys_eq block_segment_def covers_def)
  also have "\<dots> = (\<lambda>x. fs ! (iZero j + x)) ` {0..<?n}" using b by (auto simp: block_segment_def)
  finally have "k \<in> keys g \<longleftrightarrow> (\<exists>x<?n. fs ! (iZero j + x) = k)" by auto
  also have "\<dots> \<longleftrightarrow> (\<exists>y. iZero j \<le> y \<and> y < block_end iLast j \<and> fs ! y = k)"
  proof
    assume "\<exists>x<?n. fs ! (iZero j + x) = k"
    then obtain x where "x < ?n" "fs ! (iZero j + x) = k" by blast
    then show "\<exists>y. iZero j \<le> y \<and> y < block_end iLast j \<and> fs ! y = k" by (intro exI [of _ "iZero j + x"]) simp
  next
    assume "\<exists>y. iZero j \<le> y \<and> y < block_end iLast j \<and> fs ! y = k"
    then obtain y where "iZero j \<le> y" "y < block_end iLast j" "fs ! y = k" by blast
    then show "\<exists>x<?n. fs ! (iZero j + x) = k" by (intro exI [of _ "y - iZero j"]) simp
  qed
  finally show ?thesis .
qed

lemma block_segment_ok:
  assumes b: "block_segment fs iLast j g"
  shows "segment_ok p g"
  using b by (auto simp: block_segment_def segment_ok_def covers_def lasts_def)

lemma no_segment_ok [simp]: "segment_ok p no_segment" "entries no_segment = []" "keys no_segment = {}"
  by (simp_all add: no_segment_def segment_ok_def entries_def keys_def)

text \<open>The pages of the frames \<open>lo\<close> to \<open>hi\<close>.\<close>

definition pages_of :: "nat list \<Rightarrow> nat \<Rightarrow> nat \<Rightarrow> nat set" where
  "pages_of fs lo hi = {fs ! (i - 1) |i. lo \<le> i \<and> 0 < i \<and> i \<le> hi}"

text \<open>Iteration starts with the first frame of the table that holds frame \<open>nBack + 1\<close>.\<close>

definition first_frame :: "nat \<Rightarrow> nat" where
  "first_frame nBack = iZero (walFramePage (nBack + 1)) + 1"

definition iterates :: "nat list \<Rightarrow> nat \<Rightarrow> nat \<Rightarrow> WalIterator \<Rightarrow> bool" where
  "iterates fs lo hi it \<longleftrightarrow> iter_ok it \<and> iter_keys it = pages_of fs lo hi \<and>
     (\<forall>r f. iter_frame it r f \<longrightarrow> f = last_frame fs r lo hi)"

lemma frame_pos: "last_frame fs p lo hi = 0 \<or> lo \<le> last_frame fs p lo hi \<and> last_frame fs p lo hi \<le> hi \<and>
    last_frame fs p lo hi \<le> length fs \<and> fs ! (last_frame fs p lo hi - 1) = p"
  by (induction hi) auto


lemma iterates_segments:
  assumes hi: "0 < hi" "hi \<le> length fs" and valid: "\<forall>p\<in>set fs. p < 0xFFFFFFFF"
    and l: "length S = walFramePage hi + 1"
    and blk: "\<And>j. h \<le> j \<Longrightarrow> j \<le> walFramePage hi \<Longrightarrow> block_segment fs hi j (S ! j)"
    and no: "\<And>j. j < h \<Longrightarrow> j \<le> walFramePage hi \<Longrightarrow> S ! j = no_segment"
  shows "iterates fs (iZero h + 1) hi \<lparr>iPrior = 0, aSegment = S\<rparr>"
proof -
  let ?it = "\<lparr>iPrior = 0, aSegment = S\<rparr>"
  let ?last = "walFramePage hi"
  have iz: "iZero ?last < hi" "hi \<le> iZero (Suc ?last)" using page_of [OF hi(1)] by (simp_all add: iZero_Suc)
  have be: "iZero j \<le> block_end hi j" if "j \<le> ?last" for j
    using that iz iZero_mono [of j ?last] by (cases "j = ?last") (auto simp: block_end_def iZero_Suc)
  have mono: "iZero h \<le> iZero j" if "h \<le> j" for j using iZero_mono [of h j] that by (cases "h = j") auto
  have key: "k \<in> keys (S ! j) \<longleftrightarrow> (\<exists>y. iZero j \<le> y \<and> y < block_end hi j \<and> fs ! y = k)" if "h \<le> j" "j \<le> ?last" for j k
    by (rule block_keys [OF blk [OF that] be [OF that(2)]])
  have iter: "iter_keys ?it = pages_of fs (iZero h + 1) hi"
  proof (rule set_eqI)
    fix k
    have "k \<in> iter_keys ?it \<longleftrightarrow> (\<exists>j\<le>?last. k \<in> keys (S ! j))" using l by (auto simp: iter_keys_def set_conv_nth less_Suc_eq_le)
    also have "\<dots> \<longleftrightarrow> (\<exists>j. h \<le> j \<and> j \<le> ?last \<and> k \<in> keys (S ! j))" using no by (metis empty_iff leI no_segment_ok(3))
    also have "\<dots> \<longleftrightarrow> (\<exists>y. iZero h \<le> y \<and> y < hi \<and> fs ! y = k)"
    proof
      assume "\<exists>j. h \<le> j \<and> j \<le> ?last \<and> k \<in> keys (S ! j)"
      then obtain j y where j: "h \<le> j" "j \<le> ?last" "iZero j \<le> y" "y < block_end hi j" "fs ! y = k" using key by blast
      with mono [OF j(1)] show "\<exists>y. iZero h \<le> y \<and> y < hi \<and> fs ! y = k"
        by (intro exI [of _ y]) (auto simp: block_end_def)
    next
      assume "\<exists>y. iZero h \<le> y \<and> y < hi \<and> fs ! y = k"
      then obtain y where y: "iZero h \<le> y" "y < hi" "fs ! y = k" by blast
      define j where "j = walFramePage (Suc y)"
      have j: "iZero j \<le> y" "y < iZero (Suc j)" using page_of [of "Suc y"] by (simp_all add: j_def iZero_Suc)
      have "j \<le> ?last" unfolding j_def using y(2) by (intro walFramePage_mono) simp
      moreover have "h \<le> j"
      proof (rule ccontr)
        assume "\<not> h \<le> j"
        then have "iZero (Suc j) \<le> iZero h" using iZero_mono [of "Suc j" h] by (cases "Suc j = h") auto
        with j y(1) show False by simp
      qed
      ultimately show "\<exists>j. h \<le> j \<and> j \<le> ?last \<and> k \<in> keys (S ! j)" using key j y by (auto simp: block_end_def)
    qed
    also have "\<dots> \<longleftrightarrow> k \<in> pages_of fs (iZero h + 1) hi"
    proof
      assume "\<exists>y. iZero h \<le> y \<and> y < hi \<and> fs ! y = k"
      then obtain y where "iZero h \<le> y" "y < hi" "fs ! y = k" by blast
      then show "k \<in> pages_of fs (iZero h + 1) hi" unfolding pages_of_def by (intro CollectI exI [of _ "Suc y"]) simp
    next
      assume "k \<in> pages_of fs (iZero h + 1) hi"
      then obtain i where "iZero h + 1 \<le> i" "0 < i" "i \<le> hi" "k = fs ! (i - 1)" by (auto simp: pages_of_def)
      then show "\<exists>y. iZero h \<le> y \<and> y < hi \<and> fs ! y = k" by (intro exI [of _ "i - 1"]) auto
    qed
    finally show "k \<in> iter_keys ?it \<longleftrightarrow> k \<in> pages_of fs (iZero h + 1) hi" .
  qed
  moreover have "iter_ok ?it"
  proof -
    have "segment_ok 0 g" if "g \<in> set S" for g
    proof -
      obtain j where "j \<le> ?last" "g = S ! j" using \<open>g \<in> set S\<close> l by (auto simp: in_set_conv_nth less_Suc_eq_le)
      then show ?thesis using block_segment_ok [OF blk [of j]] no [of j] by (cases "h \<le> j") (simp_all add: not_le)
    qed
    moreover have "k < 0xFFFFFFFF" if k: "k \<in> iter_keys ?it" for k
    proof -
      obtain i where "0 < i" "i \<le> hi" "k = fs ! (i - 1)" using k unfolding iter pages_of_def by blast
      then have "k \<in> set fs" using hi by simp
      with valid show ?thesis by blast
    qed
    ultimately show ?thesis unfolding iter_ok_def by simp
  qed
  moreover have "f = last_frame fs r (iZero h + 1) hi" if fr: "iter_frame ?it r f" for r f
  proof -
    obtain j where j: "j \<le> ?last" "(r, f) \<in> set (entries (S ! j))" "\<And>j'. j < j' \<Longrightarrow> j' \<le> ?last \<Longrightarrow> r \<notin> keys (S ! j')"
      using fr l unfolding iter_frame_def by (auto simp: less_Suc_eq_le)
    have hj: "h \<le> j" using j(1,2) no by (metis empty_iff empty_set leI no_segment_ok(2))
    have e: "iZero j < f" "f \<le> block_end hi j" "fs ! (f - 1) = r" "\<And>y. f \<le> y \<Longrightarrow> y < block_end hi j \<Longrightarrow> fs ! y \<noteq> r"
      using block_entry [OF blk [OF hj j(1)] be [OF j(1)], of r f] j(2) by auto
    have "last_frame fs r (iZero h + 1) hi = f"
    proof (rule last_frame_some)
      show "0 < f" "f \<le> hi" "f \<le> length fs" "iZero h + 1 \<le> f" "fs ! (f - 1) = r"
        using e hi mono [OF hj] by (simp_all add: block_end_def)
      fix i assume i: "f \<le> i" "i < hi"
      show "fs ! i \<noteq> r"
      proof (cases "i < block_end hi j")
        case True
        with e(4) i show ?thesis by blast
      next
        case False
        define j' where "j' = walFramePage (Suc i)"
        have j': "iZero j' \<le> i" "i < iZero (Suc j')" using page_of [of "Suc i"] by (simp_all add: j'_def iZero_Suc)
        have "j' \<le> ?last" unfolding j'_def using i(2) by (intro walFramePage_mono) simp
        moreover have "j < j'"
        proof (rule ccontr)
          assume "\<not> j < j'"
          then have "iZero (Suc j') \<le> iZero (Suc j)" using iZero_mono [of "Suc j'" "Suc j"] by (cases "j' = j") auto
          with j' False i(2) show False by (simp add: block_end_def)
        qed
        ultimately have "r \<notin> keys (S ! j')" "h \<le> j'" using j(3) hj by auto
        with key [OF \<open>h \<le> j'\<close> \<open>j' \<le> ?last\<close>, of r] j' i(2) show ?thesis by (auto simp: block_end_def)
      qed
    qed
    then show ?thesis by simp
  qed
  ultimately show ?thesis by (simp add: iterates_def)
qed

lemma walIteratorInit_ok:
  assumes ok: "wi_ok w s fs" and mx: "0 < mxFrame (hdr w)" "mxFrame (hdr w) \<le> length fs" "nBack < mxFrame (hdr w)"
    and valid: "\<forall>p\<in>set fs. p < 0xFFFFFFFF"
  shows "\<exists>w' rc it. walIteratorInit E w s nBack = Some (w', s, rc, it) \<and> same_wal w w' \<and> (it = None \<longleftrightarrow> rc \<noteq> SQLITE_OK) \<and>
    (\<forall>p. it = Some p \<longrightarrow> iPrior p = 0 \<and> iterates fs (first_frame nBack) (mxFrame (hdr w)) p) \<and>
    (it \<noteq> None \<longrightarrow> (\<forall>g. first_frame nBack \<le> g \<and> g \<le> mxFrame (hdr w) \<longrightarrow> mapped w' (walFramePage g)))"
proof -
  let ?l = "walFramePage (mxFrame (hdr w))" and ?h = "walFramePage (nBack + 1)"
  have hl: "?h \<le> ?l" using mx(3) by (intro walFramePage_mono) simp
  show ?thesis
  proof (cases "mallocOk E (iter_bytes (mxFrame (hdr w)) (?l + 1))")
    case False
    then show ?thesis by (simp add: walIteratorInit_def)
  next
    case True
    have "?h + (?l + 1 - ?h) \<le> ?l + 1" using hl by simp
    from init_segments_ok [OF ok mx(2) refl mx(1) this, of "replicate (?l + 1) no_segment" E] obtain w' rc S where
      i: "init_segments E (mxFrame (hdr w)) (?l + 1) ?h (?l + 1 - ?h) w s (replicate (?l + 1) no_segment) = Some (w', s, rc, S)"
        "same_wal w w'"
        "rc = SQLITE_OK \<longrightarrow> length S = length (replicate (?l + 1) no_segment) \<and> (\<forall>j. ?h \<le> j \<and> j < ?h + (?l + 1 - ?h) \<longrightarrow> mapped w' j) \<and>
          (\<forall>j. ?h \<le> j \<and> j < ?h + (?l + 1 - ?h) \<longrightarrow> block_segment fs (mxFrame (hdr w)) j (S ! j)) \<and>
          (\<forall>j. \<not> (?h \<le> j \<and> j < ?h + (?l + 1 - ?h)) \<longrightarrow> S ! j = replicate (?l + 1) no_segment ! j)"
      by (auto simp del: replicate_Suc)
    have "iterates fs (first_frame nBack) (mxFrame (hdr w)) \<lparr>iPrior = 0, aSegment = S\<rparr>" if "rc = SQLITE_OK"
      unfolding first_frame_def using i(3) that hl
      by (intro iterates_segments [OF mx(1,2) valid]) (simp_all del: replicate_Suc add: nth_replicate)
    moreover have "mapped w' (walFramePage g)" if "rc = SQLITE_OK" "first_frame nBack \<le> g" "g \<le> mxFrame (hdr w)" for g
    proof -
      have "?h = walFramePage (first_frame nBack)" by (intro page_unique [symmetric]) (simp_all add: first_frame_def wi_cap_def)
      then have "?h \<le> walFramePage g" using walFramePage_mono [OF that(2)] by simp
      moreover have "walFramePage g \<le> ?l" by (rule walFramePage_mono [OF that(3)])
      ultimately show ?thesis using i(3) that(1) by auto
    qed
    ultimately show ?thesis using i(1,2) True by (simp add: walIteratorInit_def Let_def del: replicate_Suc)
  qed
qed


section \<open>All pages\<close>

lemma skip_entries_key:
  "skip_entries g iMin i = Some n \<Longrightarrow> n < nEntry g \<Longrightarrow> rd (aIndex g) n = Some x \<Longrightarrow> rd (sPgno g) x = Some k \<Longrightarrow> iMin < k"
proof (induction "nEntry g - i" arbitrary: i)
  case 0
  then show ?case by (subst (asm) skip_entries.simps) simp
next
  case (Suc d)
  have i: "i < nEntry g" using Suc.hyps(2) by simp
  then obtain y ky where y: "rd (aIndex g) i = Some y" "rd (sPgno g) y = Some ky"
    "if iMin < ky then n = i else skip_entries g iMin (Suc i) = Some n"
    using Suc.prems(1) by (subst (asm) skip_entries.simps) (auto simp: bind_eq_Some_conv split: if_splits)
  show ?case
  proof (cases "iMin < ky")
    case True
    with y Suc.prems(3,4) show ?thesis by simp
  next
    case False
    have "d = nEntry g - Suc i" using Suc.hyps(2) by simp
    from Suc.hyps(1) [OF this _ Suc.prems(2-4)] y(3) False show ?thesis by simp
  qed
qed

lemma next_segments_prior:
  "next_segments iMin i S R pf = Some (S', r, f) \<Longrightarrow> r = R \<or> iMin < r \<and> r < R"
proof (induction i arbitrary: S R pf)
  case (Suc i)
  then show ?case
    by (auto simp: Let_def bind_eq_Some_conv split: if_splits dest!: Suc.IH dest: skip_entries_key)
qed simp

lemma walIteratorNext_prior:
  "walIteratorNext it pf = Some (it', r, f, False) \<Longrightarrow> iPrior it < r \<and> r < 0xFFFFFFFF \<and> iPrior it' = r"
  by (auto simp: walIteratorNext_def bind_eq_Some_conv dest: next_segments_prior)

text \<open>The pairs of page and frame that the iterator delivers until it reports the end.\<close>

function iter_all :: "WalIterator \<Rightarrow> nat \<Rightarrow> (nat \<times> nat) list option" where
  "iter_all it pf =
     do {
       (it', r, f, d) \<leftarrow> walIteratorNext it pf;
       if d then Some [] else do { l \<leftarrow> iter_all it' f; Some ((r, f) # l) }
     }"
  by pat_completeness auto
termination
  by (relation "measure (\<lambda>(it, pf). 0xFFFFFFFF - iPrior it)") (auto dest!: walIteratorNext_prior)

declare iter_all.simps [simp del]

lemma iter_all_ok:
  "iterates fs lo hi it \<Longrightarrow> \<exists>l. iter_all it pf = Some l \<and> sorted_wrt (<) (map fst l) \<and>
    set l = {(p, last_frame fs p lo hi) |p. p \<in> pages_of fs lo hi \<and> iPrior it < p}"
proof (induction "0xFFFFFFFF - iPrior it" arbitrary: it pf rule: less_induct)
  case less
  have it: "iter_ok it" "iter_keys it = pages_of fs lo hi" "\<And>r f. iter_frame it r f \<Longrightarrow> f = last_frame fs r lo hi"
    using less.prems by (auto simp: iterates_def)
  obtain it' r f d where n: "walIteratorNext it pf = Some (it', r, f, d)" "iter_ok it'" "iPrior it' = r"
    "map entries (aSegment it') = map entries (aSegment it)" "\<And>k. k \<in> iter_keys it \<Longrightarrow> iPrior it < k \<Longrightarrow> r \<le> k"
    "if d then r = 0xFFFFFFFF else iPrior it < r \<and> r \<in> iter_keys it \<and> iter_frame it r f" by (rule walIteratorNext_ok [OF it(1), where pf = pf]) (rule that)
  show ?case
  proof (cases d)
    case True
    have "\<not> iPrior it < p" if "p \<in> pages_of fs lo hi" for p
      using n(5) [of p] n(6) True that it(1,2) by (force simp: iter_ok_def)
    then show ?thesis using n(1) True by (subst iter_all.simps) auto
  next
    case False
    have r: "iPrior it < r" "r \<in> pages_of fs lo hi" "f = last_frame fs r lo hi" using n(6) False it(2,3) by auto
    have "r < 0xFFFFFFFF" using r(2) it(1,2) by (auto simp: iter_ok_def)
    then have m: "0xFFFFFFFF - iPrior it' < 0xFFFFFFFF - iPrior it" using r(1) n(3) by simp
    have "iterates fs lo hi it'" using less.prems n(2) iter_frame_same [OF n(4)] iter_keys_same [OF n(4)] by (simp add: iterates_def)
    from less.hyps [OF m this, of f] obtain l where l: "iter_all it' f = Some l" "sorted_wrt (<) (map fst l)"
      "set l = {(p, last_frame fs p lo hi) |p. p \<in> pages_of fs lo hi \<and> r < p}" using n(3) by auto
    have "iter_all it pf = Some ((r, f) # l)" using n(1) False l(1) by (subst iter_all.simps) simp
    moreover have "sorted_wrt (<) (map fst ((r, f) # l))" using l(2,3) by auto
    moreover have "set ((r, f) # l) = {(p, last_frame fs p lo hi) |p. p \<in> pages_of fs lo hi \<and> iPrior it < p}"
    proof -
      have "(p \<in> pages_of fs lo hi \<and> iPrior it < p) \<longleftrightarrow> (p = r \<or> p \<in> pages_of fs lo hi \<and> r < p)" for p
        using n(5) [of p] it(2) r(1,2) by auto
      then show ?thesis using l(3) r(3) by auto
    qed
    ultimately show ?thesis by blast
  qed
qed


section \<open>Properties\<close>

text \<open>
  C30: The iterator of the checkpoint delivers every page of the frames it covers once, in ascending
  order, each with the last frame that holds it; the merge sort neither runs out of sublists nor
  reads outside the arrays.
\<close>

theorem wal_iterator:
  assumes "wi_ok w s fs" "0 < mxFrame (hdr w)" "mxFrame (hdr w) \<le> length fs" "nBack < mxFrame (hdr w)"
    and "\<forall>p\<in>set fs. 0 < p \<and> p < 0xFFFFFFFF"
  shows "\<exists>w' rc it. walIteratorInit E w s nBack = Some (w', s, rc, it) \<and> (it = None \<longleftrightarrow> rc \<noteq> SQLITE_OK) \<and>
    (\<forall>p. it = Some p \<longrightarrow> (\<exists>l. iter_all p 0 = Some l \<and> sorted_wrt (<) (map fst l) \<and> first_frame nBack \<le> nBack + 1 \<and>
       set l = {(q, last_frame fs q (first_frame nBack) (mxFrame (hdr w))) |q. q \<in> pages_of fs (first_frame nBack) (mxFrame (hdr w))}))"
proof -
  have "\<forall>p\<in>set fs. p < 0xFFFFFFFF" using assms(5) by simp
  from walIteratorInit_ok [OF assms(1-4) this, of E] obtain w' rc it where
    i: "walIteratorInit E w s nBack = Some (w', s, rc, it)" "it = None \<longleftrightarrow> rc \<noteq> SQLITE_OK"
      "\<And>p. it = Some p \<Longrightarrow> iPrior p = 0 \<and> iterates fs (first_frame nBack) (mxFrame (hdr w)) p" by blast
  have pos: "0 < q" if q: "q \<in> pages_of fs (first_frame nBack) (mxFrame (hdr w))" for q
  proof -
    obtain i where "0 < i" "i \<le> mxFrame (hdr w)" "q = fs ! (i - 1)" using q unfolding pages_of_def by blast
    then have "q \<in> set fs" using assms(3) by simp
    with assms(5) show ?thesis by blast
  qed
  have "\<exists>l. iter_all p 0 = Some l \<and> sorted_wrt (<) (map fst l) \<and> first_frame nBack \<le> nBack + 1 \<and>
       set l = {(q, last_frame fs q (first_frame nBack) (mxFrame (hdr w))) |q. q \<in> pages_of fs (first_frame nBack) (mxFrame (hdr w))}"
    if p: "it = Some p" for p
  proof -
    have ip: "iPrior p = 0" and it: "iterates fs (first_frame nBack) (mxFrame (hdr w)) p" using i(3) [OF p] by simp_all
    obtain l where "iter_all p 0 = Some l" "sorted_wrt (<) (map fst l)"
      "set l = {(q, last_frame fs q (first_frame nBack) (mxFrame (hdr w))) |q. q \<in> pages_of fs (first_frame nBack) (mxFrame (hdr w)) \<and> 0 < q}"
      using iter_all_ok [OF it, of 0] unfolding ip by blast
    moreover have "first_frame nBack \<le> nBack + 1" using page_of(1) [of "nBack + 1"] by (simp add: first_frame_def)
    ultimately show ?thesis using pos by auto
  qed
  with i(1,2) show ?thesis by blast
qed

theorem wal_iterator_witness:
  "\<exists>w s. mxFrame (hdr w) = 1 \<and> (\<exists>w' rc it. walIteratorInit env0 w s 0 = Some (w', s, rc, it) \<and> (it = None \<longleftrightarrow> rc \<noteq> SQLITE_OK) \<and>
    (\<forall>p. it = Some p \<longrightarrow> (\<exists>l. iter_all p 0 = Some l \<and> sorted_wrt (<) (map fst l) \<and> first_frame 0 \<le> 0 + 1 \<and>
       set l = {(q, last_frame [5] q (first_frame 0) (mxFrame (hdr w))) |q. q \<in> pages_of [5] (first_frame 0) (mxFrame (hdr w))})))"
proof -
  obtain w s where a: "wi_ok w s [5]" using one_frame by blast
  let ?w = "w\<lparr>hdr := hdr0\<lparr>mxFrame := 1\<rparr>\<rparr>"
  have "wi_ok ?w s [5]" by (rule wi_ok_cong [OF a]) simp_all
  then show ?thesis by (intro exI [of _ ?w] exI [of _ s] conjI wal_iterator) simp_all
qed

end
