(* ===== verification/WalFrame.thy ===== *)
theory WalFrame
  imports UtilVarint WalIndex ByteFile
begin

text \<open>
  The frames of the write-ahead log (\<^verbatim>\<open>src/wal.c\<close>): the checksum, the frame header and its
  verification. The byte order of the host is a parameter \<open>be\<close>; a log says which byte order its
  checksums use, so that every host can read it.
\<close>

section \<open>The checksum\<close>

text \<open>Reading a word of memory on a big-endian (\<open>be\<close>) or little-endian host.\<close>

definition big_word :: "u8 \<Rightarrow> u8 \<Rightarrow> u8 \<Rightarrow> u8 \<Rightarrow> u32" where
  "big_word a b c d = push_bit 24 (ucast a) OR push_bit 16 (ucast b) OR push_bit 8 (ucast c) OR ucast d"

definition host_word :: "bool \<Rightarrow> u8 \<Rightarrow> u8 \<Rightarrow> u8 \<Rightarrow> u8 \<Rightarrow> u32" where
  "host_word be a b c d = (if be then big_word a b c d else big_word d c b a)"

fun words :: "bool \<Rightarrow> u8 list \<Rightarrow> u32 list" where
  "words be (a # b # c # d # r) = host_word be a b c d # words be r"
| "words be _ = []"

definition BYTESWAP32 :: "u32 \<Rightarrow> u32" where
  "BYTESWAP32 x = push_bit 24 (x AND 0x000000FF) + push_bit 8 (x AND 0x0000FF00) +
     drop_bit 8 (x AND 0x00FF0000) + drop_bit 24 (x AND 0xFF000000)"

text \<open>The three loops: byte-swapped words, sixteen words at a time, two words at a time.\<close>

fun cksum_swap :: "u32 list \<Rightarrow> u32 \<Rightarrow> u32 \<Rightarrow> u32 \<times> u32" where
  "cksum_swap (x # y # r) s1 s2 =
     (let s1 = s1 + (BYTESWAP32 x + s2); s2 = s2 + (BYTESWAP32 y + s1) in cksum_swap r s1 s2)"
| "cksum_swap _ s1 s2 = (s1, s2)"

fun cksum_16 :: "u32 list \<Rightarrow> u32 \<Rightarrow> u32 \<Rightarrow> u32 \<times> u32" where
  "cksum_16 xs s1 s2 =
     (if length xs < 16 then (s1, s2)
      else
        let s1 = s1 + (xs ! 0 + s2); s2 = s2 + (xs ! 1 + s1);
            s1 = s1 + (xs ! 2 + s2); s2 = s2 + (xs ! 3 + s1);
            s1 = s1 + (xs ! 4 + s2); s2 = s2 + (xs ! 5 + s1);
            s1 = s1 + (xs ! 6 + s2); s2 = s2 + (xs ! 7 + s1);
            s1 = s1 + (xs ! 8 + s2); s2 = s2 + (xs ! 9 + s1);
            s1 = s1 + (xs ! 10 + s2); s2 = s2 + (xs ! 11 + s1);
            s1 = s1 + (xs ! 12 + s2); s2 = s2 + (xs ! 13 + s1);
            s1 = s1 + (xs ! 14 + s2); s2 = s2 + (xs ! 15 + s1)
        in cksum_16 (drop 16 xs) s1 s2)"

declare cksum_16.simps [simp del]

fun cksum_2 :: "u32 list \<Rightarrow> u32 \<Rightarrow> u32 \<Rightarrow> u32 \<times> u32" where
  "cksum_2 (x # y # r) s1 s2 =
     (let s1 = s1 + (x + s2); s2 = s2 + (y + s1) in cksum_2 r s1 s2)"
| "cksum_2 _ s1 s2 = (s1, s2)"

text \<open>A failing assertion about the length is \<open>None\<close>.\<close>

definition walChecksumBytes :: "bool \<Rightarrow> bool \<Rightarrow> u8 list \<Rightarrow> (u32 \<times> u32) option \<Rightarrow> (u32 \<times> u32) option" where
  "walChecksumBytes be nativeCksum a aIn =
     (let nByte = length a; (s1, s2) = (case aIn of None \<Rightarrow> (0, 0) | Some p \<Rightarrow> p)
      in if nByte < 8 \<or> nByte mod 8 \<noteq> 0 \<or> 65536 < nByte then None
         else Some (if \<not> nativeCksum then cksum_swap (words be a) s1 s2
                    else if nByte mod 64 = 0 then cksum_16 (words be a) s1 s2
                    else cksum_2 (words be a) s1 s2))"

section \<open>Frame headers\<close>

abbreviation (input) WAL_FRAME_HDRSIZE :: nat where "WAL_FRAME_HDRSIZE \<equiv> 24"
abbreviation (input) WAL_HDRSIZE :: nat where "WAL_HDRSIZE \<equiv> 32"

definition walFrameOffset :: "nat \<Rightarrow> nat \<Rightarrow> nat" where
  "walFrameOffset iFrame sz = WAL_HDRSIZE + (iFrame - 1) * (sz + WAL_FRAME_HDRSIZE)"

definition set_cksum :: "Wal \<Rightarrow> u32 \<times> u32 \<Rightarrow> Wal" where
  "set_cksum w c = w\<lparr>hdr := (hdr w)\<lparr>aFrameCksum := c\<rparr>\<rparr>"

definition walEncodeFrame :: "bool \<Rightarrow> Wal \<Rightarrow> nat \<Rightarrow> nat \<Rightarrow> u8 list \<Rightarrow> (Wal \<times> u8 list) option" where
  "walEncodeFrame be w iPage nTruncate aData =
     (let aFrame = sqlite3Put4byte (of_nat iPage) @ sqlite3Put4byte (of_nat nTruncate)
      in if iReCksum w = 0 then do {
           let nativeCksum = (bigEndCksum (hdr w) = be);
           c \<leftarrow> walChecksumBytes be nativeCksum aFrame (Some (aFrameCksum (hdr w)));
           d \<leftarrow> rd_bytes aData 0 (szPage w);
           c \<leftarrow> walChecksumBytes be nativeCksum d (Some c);
           Some (set_cksum w c, aFrame @ aSalt (hdr w) @ sqlite3Put4byte (fst c) @ sqlite3Put4byte (snd c))
         }
         else Some (w, aFrame @ replicate 16 0))"

text \<open>The result is \<open>*piPage\<close> and \<open>*pnTruncate\<close> when the frame is valid.\<close>

definition walDecodeFrame :: "bool \<Rightarrow> Wal \<Rightarrow> u8 list \<Rightarrow> u8 list \<Rightarrow> (Wal \<times> (nat \<times> nat) option) option" where
  "walDecodeFrame be w aData aFrame =
     do {
       salt \<leftarrow> rd_bytes aFrame 8 8;
       if aSalt (hdr w) \<noteq> salt then Some (w, None)
       else do {
         pgno \<leftarrow> sqlite3Get4byte aFrame;
         if pgno = 0 then Some (w, None)
         else do {
           let nativeCksum = (bigEndCksum (hdr w) = be);
           h \<leftarrow> rd_bytes aFrame 0 8;
           c \<leftarrow> walChecksumBytes be nativeCksum h (Some (aFrameCksum (hdr w)));
           d \<leftarrow> rd_bytes aData 0 (szPage w);
           c \<leftarrow> walChecksumBytes be nativeCksum d (Some c);
           let w = set_cksum w c;
           c1 \<leftarrow> sqlite3Get4byte (drop 16 aFrame);
           c2 \<leftarrow> sqlite3Get4byte (drop 20 aFrame);
           if fst c \<noteq> c1 \<or> snd c \<noteq> c2 then Some (w, None)
           else do { n \<leftarrow> sqlite3Get4byte (drop 4 aFrame); Some (w, Some (unat pgno, unat n)) }
         }
       }
     }"

section \<open>The checksum does not depend on the host\<close>

text \<open>The reference: a fold over the words in the byte order of the checksum.\<close>

definition cksum :: "bool \<Rightarrow> u8 list \<Rightarrow> u32 \<times> u32 \<Rightarrow> u32 \<times> u32" where
  "cksum big a c = cksum_2 (words big a) (fst c) (snd c)"

lemma words_append: "length a mod 4 = 0 \<Longrightarrow> words be (a @ b) = words be a @ words be b"
  by (induction be a rule: words.induct) auto

lemma length_words: "length (words be a) = length a div 4"
  by (induction be a rule: words.induct) auto

lemma BYTESWAP32_or:
  "BYTESWAP32 x = push_bit 24 (x AND 0x000000FF) OR push_bit 8 (x AND 0x0000FF00) OR
     drop_bit 8 (x AND 0x00FF0000) OR drop_bit 24 (x AND 0xFF000000)"
proof -
  have add: "a + b = a OR b" if "a AND b = 0" for a b :: u32
  proof (rule disjunctive_add)
    fix n
    have "\<not> bit (a AND b) n" using that by simp
    then show "\<not> bit a n \<or> \<not> bit b n" by (simp add: bit_and_iff)
  qed
  have "push_bit 24 (x AND 0x000000FF) AND push_bit 8 (x AND 0x0000FF00) = 0"
    "(push_bit 24 (x AND 0x000000FF) OR push_bit 8 (x AND 0x0000FF00)) AND drop_bit 8 (x AND 0x00FF0000) = 0"
    "((push_bit 24 (x AND 0x000000FF) OR push_bit 8 (x AND 0x0000FF00)) OR drop_bit 8 (x AND 0x00FF0000)) AND drop_bit 24 (x AND 0xFF000000) = 0"
    by (simp_all add: blast32)
  then show ?thesis unfolding BYTESWAP32_def by (simp only: add) (simp only: or.assoc)
qed

lemma BYTESWAP32_word: "BYTESWAP32 (big_word a b c d) = big_word d c b a"
  unfolding BYTESWAP32_or big_word_def by (simp add: blast32)

lemma words_swap: "words be a = map BYTESWAP32 (words (\<not> be) a)"
  by (induction be a rule: words.induct) (simp_all add: host_word_def BYTESWAP32_word)

lemma cksum_swap_eq: "cksum_swap xs s1 s2 = cksum_2 (map BYTESWAP32 xs) s1 s2"
  by (induction xs s1 s2 rule: cksum_swap.induct) (simp_all add: Let_def)

lemma split_16: "16 \<le> length xs \<Longrightarrow> xs = [xs ! 0, xs ! 1, xs ! 2, xs ! 3, xs ! 4, xs ! 5, xs ! 6, xs ! 7,
    xs ! 8, xs ! 9, xs ! 10, xs ! 11, xs ! 12, xs ! 13, xs ! 14, xs ! 15] @ drop 16 xs"
  by (simp add: Cons_nth_drop_Suc numeral_eq_Suc) (cases xs; simp)

lemma cksum_16_eq: "length xs mod 16 = 0 \<Longrightarrow> cksum_16 xs s1 s2 = cksum_2 xs s1 s2"
proof (induction xs s1 s2 rule: cksum_16.induct)
  case (1 xs s1 s2)
  show ?case
  proof (cases "length xs < 16")
    case True
    then have "xs = []" using "1.prems" by simp
    then show ?thesis by (simp add: cksum_16.simps)
  next
    case False
    then have l: "length (drop 16 xs) mod 16 = 0" using "1.prems" by (simp add: mod_if)
    note s = split_16 [of xs]
    have "cksum_2 xs s1 s2 = cksum_2 ([xs ! 0, xs ! 1, xs ! 2, xs ! 3, xs ! 4, xs ! 5, xs ! 6, xs ! 7,
      xs ! 8, xs ! 9, xs ! 10, xs ! 11, xs ! 12, xs ! 13, xs ! 14, xs ! 15] @ drop 16 xs) s1 s2"
      using s False by simp
    then show ?thesis using "1.IH" [OF False refl refl refl refl refl refl refl refl refl refl refl refl refl refl refl refl l] False
      by (subst cksum_16.simps) (simp only: Let_def cksum_2.simps append_Cons append_Nil if_False)
  qed
qed

lemma walChecksumBytes_eq:
  "walChecksumBytes be (big = be) a (Some c) =
     (if length a < 8 \<or> length a mod 8 \<noteq> 0 \<or> 65536 < length a then None else Some (cksum big a c))"
proof -
  have sw: "cksum_swap (words be a) s1 s2 = cksum_2 (words big a) s1 s2" if "big \<noteq> be" for s1 s2
    using that words_swap [of big a] by (simp add: cksum_swap_eq)
  have "length (words be a) mod 16 = 0" if "length a mod 64 = 0"
    using that by (simp add: length_words) presburger
  then show ?thesis
    by (auto simp: walChecksumBytes_def cksum_def sw cksum_16_eq Let_def split: prod.splits)
qed


section \<open>Encoding and decoding\<close>

lemma walChecksumBytes_None: "walChecksumBytes be n a None = walChecksumBytes be n a (Some (0, 0))"
  by (simp add: walChecksumBytes_def)

lemma length_Put4byte [simp]: "length (sqlite3Put4byte v) = 4"
  by (simp add: sqlite3Put4byte_def)

lemma Get4byte_put [simp]: "sqlite3Get4byte (sqlite3Put4byte v @ r) = Some v" "sqlite3Get4byte (sqlite3Put4byte v) = Some v"
  using Get4byte_Put4byte [of v r] Get4byte_Put4byte [of v "[]"] by simp_all

lemma drop_put [simp]: "drop 4 (sqlite3Put4byte v @ r) = r" "drop 8 (sqlite3Put4byte v @ r) = drop 4 r"
    "drop 16 (sqlite3Put4byte v @ r) = drop 12 r" "drop 20 (sqlite3Put4byte v @ r) = drop 16 r"
    "drop 12 (sqlite3Put4byte v @ r) = drop 8 r" "take 8 (sqlite3Put4byte v @ r) = sqlite3Put4byte v @ take 4 r"
    "take 4 (sqlite3Put4byte v @ r) = sqlite3Put4byte v" "take 4 (sqlite3Put4byte v) = sqlite3Put4byte v"
  by simp_all

definition page_size_ok :: "nat \<Rightarrow> bool" where
  "page_size_ok sz \<longleftrightarrow> 512 \<le> sz \<and> sz \<le> 65536 \<and> sz mod 8 = 0"

definition frame_start :: "nat \<Rightarrow> nat \<Rightarrow> u8 list" where
  "frame_start pg n = sqlite3Put4byte (of_nat pg) @ sqlite3Put4byte (of_nat n)"

lemma length_frame_start [simp]: "length (frame_start pg n) = 8"
  by (simp add: frame_start_def)

text \<open>The checksum after a frame.\<close>

definition next_cksum :: "bool \<Rightarrow> u32 \<times> u32 \<Rightarrow> u8 list \<Rightarrow> u8 list \<Rightarrow> u32 \<times> u32" where
  "next_cksum big c start d = cksum big d (cksum big start c)"

definition frame_header :: "nat \<Rightarrow> nat \<Rightarrow> u8 list \<Rightarrow> u32 \<times> u32 \<Rightarrow> u8 list" where
  "frame_header pg n salt c = frame_start pg n @ salt @ sqlite3Put4byte (fst c) @ sqlite3Put4byte (snd c)"

lemma walEncodeFrame_ok:
  assumes "iReCksum w = 0" "page_size_ok (szPage w)" "length d = szPage w"
    and c: "c = next_cksum (bigEndCksum (hdr w)) (aFrameCksum (hdr w)) (frame_start pg n) d"
  shows "walEncodeFrame be w pg n d = Some (set_cksum w c, frame_header pg n (aSalt (hdr w)) c)"
  using assms
  by (simp add: walEncodeFrame_def walChecksumBytes_eq rd_bytes_def page_size_ok_def next_cksum_def frame_header_def
      frame_start_def Let_def)

lemma frame_header_parts:
  assumes "length salt = 8"
  shows "length (frame_header pg n salt c) = 24" "take 8 (frame_header pg n salt c) = frame_start pg n"
    "rd_bytes (frame_header pg n salt c) 0 8 = Some (frame_start pg n)"
    "rd_bytes (frame_header pg n salt c) 8 8 = Some salt"
    "sqlite3Get4byte (frame_header pg n salt c) = Some (of_nat pg)"
    "sqlite3Get4byte (drop 4 (frame_header pg n salt c)) = Some (of_nat n)"
    "sqlite3Get4byte (drop 16 (frame_header pg n salt c)) = Some (fst c)"
    "sqlite3Get4byte (drop 20 (frame_header pg n salt c)) = Some (snd c)"
  using assms by (simp_all add: frame_header_def frame_start_def rd_bytes_def)

lemma walDecodeFrame_ok:
  assumes "page_size_ok (szPage w)" "length d = szPage w" "length (aSalt (hdr w)) = 8" "0 < pg" "pg < 2 ^ 32" "n < 2 ^ 32"
    and c: "c = next_cksum (bigEndCksum (hdr w)) (aFrameCksum (hdr w)) (frame_start pg n) d"
  shows "walDecodeFrame be w d (frame_header pg n (aSalt (hdr w)) c) = Some (set_cksum w c, Some (pg, n))"
proof -
  have z: "(of_nat pg :: u32) \<noteq> 0" "unat (of_nat pg :: u32) = pg" "unat (of_nat n :: u32) = n"
    using assms(4-6) by (simp_all add: unat_of_nat word_of_nat_eq_0_iff dvd_imp_le nat_dvd_not_less)
  show ?thesis
    using assms(1,2) z unfolding walDecodeFrame_def
    by (simp add: frame_header_parts [OF assms(3)] walChecksumBytes_eq rd_bytes_def [of d] page_size_ok_def c next_cksum_def Let_def)
qed

text \<open>Decoding in general: the frame is accepted exactly when salt, page number and checksum are right.\<close>

definition frame_valid :: "bool \<Rightarrow> u8 list \<Rightarrow> u32 \<times> u32 \<Rightarrow> u8 list \<Rightarrow> u8 list \<Rightarrow> bool" where
  "frame_valid big salt c fr d \<longleftrightarrow> take 8 (drop 8 fr) = salt \<and> sqlite3Get4byte fr \<noteq> Some 0 \<and>
     sqlite3Get4byte (drop 16 fr) = Some (fst (next_cksum big c (take 8 fr) d)) \<and>
     sqlite3Get4byte (drop 20 fr) = Some (snd (next_cksum big c (take 8 fr) d))"

definition frame_info :: "u8 list \<Rightarrow> nat \<times> nat" where
  "frame_info fr = (unat (the (sqlite3Get4byte fr)), unat (the (sqlite3Get4byte (drop 4 fr))))"

lemma Get4byte_Some: "4 \<le> length p \<Longrightarrow> \<exists>v. sqlite3Get4byte p = Some v"
  by (auto simp: sqlite3Get4byte_def rd_def)

lemma walDecodeFrame_iff:
  assumes "page_size_ok (szPage w)" "length d = szPage w" "length fr = 24" "length (aSalt (hdr w)) = 8"
  shows "frame_valid (bigEndCksum (hdr w)) (aSalt (hdr w)) (aFrameCksum (hdr w)) fr d \<Longrightarrow>
      walDecodeFrame be w d fr = Some (set_cksum w (next_cksum (bigEndCksum (hdr w)) (aFrameCksum (hdr w)) (take 8 fr) d), Some (frame_info fr))"
    "\<not> frame_valid (bigEndCksum (hdr w)) (aSalt (hdr w)) (aFrameCksum (hdr w)) fr d \<Longrightarrow>
      \<exists>c. walDecodeFrame be w d fr = Some (set_cksum w c, None)"
proof -
  obtain p n c1 c2 where g: "sqlite3Get4byte fr = Some p" "sqlite3Get4byte (drop 4 fr) = Some n"
    "sqlite3Get4byte (drop 16 fr) = Some c1" "sqlite3Get4byte (drop 20 fr) = Some c2"
    using Get4byte_Some [of fr] Get4byte_Some [of "drop 4 fr"] Get4byte_Some [of "drop 16 fr"] Get4byte_Some [of "drop 20 fr"] assms(3)
    by auto
  let ?c = "next_cksum (bigEndCksum (hdr w)) (aFrameCksum (hdr w)) (take 8 fr) d"
  have same: "w = set_cksum w (aFrameCksum (hdr w))" by (simp add: set_cksum_def)
  have eq: "walDecodeFrame be w d fr =
    (if aSalt (hdr w) \<noteq> take 8 (drop 8 fr) then Some (w, None) else if p = 0 then Some (w, None)
     else if fst ?c \<noteq> c1 \<or> snd ?c \<noteq> c2 then Some (set_cksum w ?c, None) else Some (set_cksum w ?c, Some (unat p, unat n)))"
    using assms by (simp add: walDecodeFrame_def rd_bytes_def g walChecksumBytes_eq page_size_ok_def next_cksum_def Let_def)
  { assume "frame_valid (bigEndCksum (hdr w)) (aSalt (hdr w)) (aFrameCksum (hdr w)) fr d"
    with eq g show "walDecodeFrame be w d fr = Some (set_cksum w ?c, Some (frame_info fr))"
      by (simp add: frame_valid_def frame_info_def) }
  { assume "\<not> frame_valid (bigEndCksum (hdr w)) (aSalt (hdr w)) (aFrameCksum (hdr w)) fr d"
    then have no: "\<not> (aSalt (hdr w) = take 8 (drop 8 fr) \<and> p \<noteq> 0 \<and> fst ?c = c1 \<and> snd ?c = c2)"
      using g by (auto simp: frame_valid_def)
    show "\<exists>c. walDecodeFrame be w d fr = Some (set_cksum w c, None)"
    proof (cases "aSalt (hdr w) = take 8 (drop 8 fr) \<and> p \<noteq> 0")
      case True
      with eq no have "walDecodeFrame be w d fr = Some (set_cksum w ?c, None)" by auto
      then show ?thesis by blast
    next
      case False
      with eq have "walDecodeFrame be w d fr = Some (w, None)" by auto
      with same show ?thesis by metis
    qed }
qed

lemma frame_valid_header:
  assumes "length salt = 8" "0 < pg" "pg < 2 ^ 32"
  shows "frame_valid big salt c (frame_header pg n salt (next_cksum big c (frame_start pg n) d)) d"
proof -
  have "(of_nat pg :: u32) \<noteq> 0" using assms(2,3) by (simp add: word_of_nat_eq_0_iff dvd_imp_le nat_dvd_not_less)
  moreover have "take 8 (drop 8 (frame_header pg n salt c')) = salt" for c'
    using assms(1) by (simp add: frame_header_def frame_start_def)
  ultimately show ?thesis using assms(1) by (simp add: frame_valid_def frame_header_parts)
qed

lemma frame_info_header: "length salt = 8 \<Longrightarrow> pg < 2 ^ 32 \<Longrightarrow> n < 2 ^ 32 \<Longrightarrow> frame_info (frame_header pg n salt c) = (pg, n)"
  by (simp add: frame_info_def frame_header_parts unat_of_nat)

end
