(* ===== verification/WalRecover.thy ===== *)
theory WalRecover
  imports WalFrame
begin

text \<open>
  Recovery of the wal-index from the log file: \<open>walIndexRecover\<close> of \<^verbatim>\<open>src/wal.c\<close> with
  \<open>walIndexWriteHdr\<close> and the locking calls it makes. The file is a list of bytes; the answers of the
  operating system are parameters (\<open>walOs\<close>).
\<close>

section \<open>The operating system\<close>

text \<open>
  \<open>readRc\<close> (offset, amount) and \<open>sizeRc\<close> are the errors of the file calls (0 for none), \<open>lockRc\<close>
  (first lock, number) that of an exclusive lock; \<open>junk\<close> is what a fresh buffer holds.
\<close>

record walOs =
  env :: walEnv
  bigEndian :: bool
  readRc :: "nat \<Rightarrow> nat \<Rightarrow> nat"
  sizeRc :: nat
  lockRc :: "nat \<Rightarrow> nat \<Rightarrow> nat"
  junk :: "nat \<Rightarrow> walPage"

definition osRead :: "walOs \<Rightarrow> u8 list \<Rightarrow> nat \<Rightarrow> nat \<Rightarrow> nat \<times> u8 list" where
  "osRead os f n ofs =
     (if readRc os ofs n \<noteq> SQLITE_OK then (readRc os ofs n, replicate n 0)
      else if ofs + n \<le> length f then (SQLITE_OK, take n (drop ofs f))
      else (SQLITE_IOERR_SHORT_READ, file_read f ofs n))"

abbreviation (input) WAL_CKPT_LOCK :: nat where "WAL_CKPT_LOCK \<equiv> 1"
abbreviation (input) WAL_ALL_BUT_WRITE :: nat where "WAL_ALL_BUT_WRITE \<equiv> 1"
abbreviation (input) WAL_NREADER :: nat where "WAL_NREADER \<equiv> 5"
abbreviation (input) WAL_MAX_VERSION :: nat where "WAL_MAX_VERSION \<equiv> 3007000"
abbreviation (input) WAL_MAGIC :: u32 where "WAL_MAGIC \<equiv> 0x377f0682"
abbreviation (input) SQLITE_CANTOPEN :: nat where "SQLITE_CANTOPEN \<equiv> 14"
abbreviation (input) READMARK_NOT_USED :: nat where "READMARK_NOT_USED \<equiv> 0xffffffff"

definition WAL_READ_LOCK :: "nat \<Rightarrow> nat" where
  "WAL_READ_LOCK i = 3 + i"

definition walLockExclusive :: "walOs \<Rightarrow> Wal \<Rightarrow> nat \<Rightarrow> nat \<Rightarrow> nat" where
  "walLockExclusive os w lockIdx n = (if exclusiveMode w \<noteq> 0 then SQLITE_OK else lockRc os lockIdx n)"

section \<open>Writing the header of the index\<close>

definition host_bytes :: "bool \<Rightarrow> u32 \<Rightarrow> u8 list" where
  "host_bytes be v = (if be then sqlite3Put4byte v else rev (sqlite3Put4byte v))"

definition host_bytes2 :: "bool \<Rightarrow> nat \<Rightarrow> u8 list" where
  "host_bytes2 be v = (if be then [of_nat (v div 256), of_nat v] else [of_nat v, of_nat (v div 256)])"

text \<open>The 40 bytes of the header before \<open>aCksum\<close>, as they lie in memory.\<close>

definition hdr_bytes :: "bool \<Rightarrow> WalIndexHdr \<Rightarrow> u8 list" where
  "hdr_bytes be h = host_bytes be (of_nat (iVersion h)) @ replicate 4 0 @ host_bytes be (of_nat (iChange h)) @
     [of_bool (isInit h), of_bool (bigEndCksum h)] @ host_bytes2 be (hszPage h) @ host_bytes be (of_nat (mxFrame h)) @
     host_bytes be (of_nat (nPage h)) @ host_bytes be (fst (aFrameCksum h)) @ host_bytes be (snd (aFrameCksum h)) @ aSalt h"

text \<open>\<open>None\<close>: the first page of the index is not mapped (\<open>walIndexHdr\<close>) or the write lock not held.\<close>

definition walIndexWriteHdr :: "bool \<Rightarrow> Wal \<Rightarrow> walShm \<Rightarrow> (Wal \<times> walShm) option" where
  "walIndexWriteHdr be w s =
     (let h = (hdr w)\<lparr>isInit := True, iVersion := WAL_MAX_VERSION\<rparr>
      in if \<not> mapped w 0 \<or> \<not> writeLock w then None else do {
        c \<leftarrow> walChecksumBytes be True (hdr_bytes be h) None;
        let h = h\<lparr>aCksum := c\<rparr>;
        Some (w\<lparr>hdr := h\<rparr>, s\<lparr>wiHdr := (h, h)\<rparr>)
      })"

section \<open>Reading the frames\<close>

definition set_commit :: "Wal \<Rightarrow> nat \<Rightarrow> nat \<Rightarrow> Wal" where
  "set_commit w iFrame nTruncate =
     w\<lparr>hdr := (hdr w)\<lparr>mxFrame := iFrame, nPage := nTruncate,
       hszPage := ((szPage w AND 0xff00) OR (szPage w div 2 ^ 16)) mod 2 ^ 16\<rparr>\<rparr>"

text \<open>
  The frames from \<open>iFrame\<close> to \<open>iLast\<close>; \<open>ck\<close> is the local variable \<open>aFrameCksum\<close>. The result ends with
  the result code and the frame at which the loop stopped. Appending to the index does not fail
  (\<open>NEVER\<close>), since its page is mapped.
\<close>

function recover_frames ::
  "walOs \<Rightarrow> u8 list \<Rightarrow> nat \<Rightarrow> nat \<Rightarrow> Wal \<Rightarrow> walShm \<Rightarrow> u32 \<times> u32 \<Rightarrow> nat \<Rightarrow> (Wal \<times> walShm \<times> (u32 \<times> u32) \<times> nat \<times> nat) option" where
  "recover_frames os f iFrame iLast w s ck rc =
     (if iLast < iFrame then Some (w, s, ck, rc, iFrame)
      else
        let (rc, aFrame) = osRead os f (szPage w + WAL_FRAME_HDRSIZE) (walFrameOffset iFrame (szPage w))
        in if rc \<noteq> SQLITE_OK then Some (w, s, ck, rc, iFrame)
           else do {
             (w, r) \<leftarrow> walDecodeFrame (bigEndian os) w (drop WAL_FRAME_HDRSIZE aFrame) (take WAL_FRAME_HDRSIZE aFrame);
             (case r of
                None \<Rightarrow> Some (w, s, ck, rc, iFrame)
              | Some (pgno, nTruncate) \<Rightarrow> do {
                  (w, s, rc) \<leftarrow> walIndexAppend (env os) w s iFrame pgno;
                  if rc \<noteq> SQLITE_OK then None
                  else if nTruncate \<noteq> 0 then
                    recover_frames os f (iFrame + 1) iLast (set_commit w iFrame nTruncate) s (aFrameCksum (hdr w)) rc
                  else recover_frames os f (iFrame + 1) iLast w s ck rc
                })
           })"
  by pat_completeness auto
termination by (relation "measure (\<lambda>(os, f, i, l, w, s, c, r). l + 1 - i)") auto

declare recover_frames.simps [simp del]

text \<open>
  The pages \<open>iPg\<close> to \<open>iPg + k - 1\<close> of the index. The C code fills a private copy of the page and
  copies it over the shared one, because connections that hold a read lock may go on reading the
  shared page meanwhile. Recovery is one step of this model, with no other connection in between,
  so it fills the page in place, after it has become as arbitrary as the private copy. \<open>None\<close> is the
  assertion that a page is mapped unless there is an error.
\<close>

primrec recover_pages ::
  "walOs \<Rightarrow> u8 list \<Rightarrow> nat \<Rightarrow> nat \<Rightarrow> nat \<Rightarrow> Wal \<Rightarrow> walShm \<Rightarrow> u32 \<times> u32 \<Rightarrow> nat \<Rightarrow> (Wal \<times> walShm \<times> (u32 \<times> u32) \<times> nat) option" where
  "recover_pages os f iLastFrame iPg 0 w s ck rc = Some (w, s, ck, rc)"
| "recover_pages os f iLastFrame iPg (Suc k) w s ck rc =
     (let iLast = min iLastFrame (HASHTABLE_NPAGE_ONE + iPg * HASHTABLE_NPAGE);
          iFirst = 1 + (if iPg = 0 then 0 else HASHTABLE_NPAGE_ONE + (iPg - 1) * HASHTABLE_NPAGE);
          (w, s, rc, p) = walIndexPage (env os) w s iPg
      in if \<not> p then (if rc = SQLITE_OK then None else Some (w, s, ck, rc))
         else do {
           let s = s\<lparr>wiPage := (wiPage s)(iPg := junk os iPg)\<rparr>;
           (w, s, ck, rc, iFrame) \<leftarrow> recover_frames os f iFirst iLast w s ck rc;
           if iFrame \<le> iLast then Some (w, s, ck, rc)
           else recover_pages os f iLastFrame (iPg + 1) k w s ck rc
         })"

section \<open>The log header\<close>

definition zero_hdr :: WalIndexHdr where
  "zero_hdr = \<lparr>iVersion = 0, iChange = 0, isInit = False, bigEndCksum = False, hszPage = 0, mxFrame = 0, nPage = 0,
     aFrameCksum = (0, 0), aSalt = replicate 8 0, aCksum = (0, 0)\<rparr>"

text \<open>The test of the page size read from the log.\<close>

definition bad_size :: "int \<Rightarrow> bool option" where
  "bad_size sz = do { m \<leftarrow> i32 (sz - 1); Some (sz AND m \<noteq> 0 \<or> 65536 < sz \<or> sz < 512) }"

text \<open>
  The part of recovery between the size check and the label \<open>finished\<close>. The last component tells
  whether the label \<open>recovery_error\<close> is the target instead. The page size is a signed 32-bit integer, and
  \<open>szPage - 1\<close> overflows when the field of the file holds \<open>0x80000000\<close>: \<open>None\<close>.
\<close>

definition recover_log :: "walOs \<Rightarrow> u8 list \<Rightarrow> Wal \<Rightarrow> walShm \<Rightarrow> (Wal \<times> walShm \<times> (u32 \<times> u32) \<times> nat \<times> bool) option" where
  "recover_log os f w s =
     (let (rc, aBuf) = osRead os f WAL_HDRSIZE 0
      in if rc \<noteq> SQLITE_OK then Some (w, s, (0, 0), rc, True)
         else do {
           magic \<leftarrow> sqlite3Get4byte aBuf;
           z \<leftarrow> sqlite3Get4byte (drop 8 aBuf);
           let sz = nat (sint z);
           bad \<leftarrow> (if (magic AND 0xFFFFFFFE) \<noteq> WAL_MAGIC then Some True else bad_size (sint z));
           if bad then Some (w, s, (0, 0), SQLITE_OK, False)
           else do {
             k \<leftarrow> sqlite3Get4byte (drop 12 aBuf);
             salt \<leftarrow> rd_bytes aBuf 16 8;
             let w = w\<lparr>szPage := sz, nCkpt := unat k, hdr := (hdr w)\<lparr>bigEndCksum := bit magic 0, aSalt := salt\<rparr>\<rparr>;
             h \<leftarrow> rd_bytes aBuf 0 (WAL_HDRSIZE - 2 * 4);
             c \<leftarrow> walChecksumBytes (bigEndian os) (bigEndCksum (hdr w) = bigEndian os) h None;
             let w = set_cksum w c;
             c1 \<leftarrow> sqlite3Get4byte (drop 24 aBuf);
             c2 \<leftarrow> sqlite3Get4byte (drop 28 aBuf);
             if fst c \<noteq> c1 \<or> snd c \<noteq> c2 then Some (w, s, (0, 0), SQLITE_OK, False)
             else do {
               v \<leftarrow> sqlite3Get4byte (drop 4 aBuf);
               if unat v \<noteq> WAL_MAX_VERSION then Some (w, s, (0, 0), SQLITE_CANTOPEN, False)
               else if \<not> mallocOk (env os) (sz + WAL_FRAME_HDRSIZE + WALINDEX_PGSZ) then Some (w, s, (0, 0), SQLITE_NOMEM, True)
               else do {
                 let iLastFrame = (length f - WAL_HDRSIZE) div (sz + WAL_FRAME_HDRSIZE);
                 (w, s, ck, rc) \<leftarrow> recover_pages os f iLastFrame 0 (walFramePage iLastFrame + 1) w s (0, 0) SQLITE_OK;
                 Some (w, s, ck, rc, False)
               }
             }
           }
         })"

text \<open>Setting the read marks \<open>i\<close>, \<open>i + 1\<close>, \<dots>; the flag tells that an error ends the loop.\<close>

primrec recover_marks :: "walOs \<Rightarrow> Wal \<Rightarrow> nat \<Rightarrow> nat \<Rightarrow> nat list \<Rightarrow> nat \<Rightarrow> nat list \<times> nat" where
  "recover_marks os w i 0 marks rc = (marks, rc)"
| "recover_marks os w i (Suc k) marks rc =
     (let rc = walLockExclusive os w (WAL_READ_LOCK i) 1
      in if rc = SQLITE_OK then
           recover_marks os w (i + 1) k
             (marks[i := if i = 1 \<and> mxFrame (hdr w) \<noteq> 0 then mxFrame (hdr w) else READMARK_NOT_USED]) rc
         else if rc \<noteq> SQLITE_BUSY then (marks, rc)
         else recover_marks os w (i + 1) k marks rc)"

definition walIndexRecover :: "walOs \<Rightarrow> u8 list \<Rightarrow> Wal \<Rightarrow> walShm \<Rightarrow> (Wal \<times> walShm \<times> nat) option" where
  "walIndexRecover os f w s =
     (let iLock = WAL_ALL_BUT_WRITE + (if ckptLock w then 1 else 0);
          rc = walLockExclusive os w iLock (WAL_READ_LOCK 0 - iLock)
      in if \<not> writeLock w then None
         else if rc \<noteq> SQLITE_OK then Some (w, s, rc)
         else
           let w = w\<lparr>hdr := zero_hdr\<rparr>
           in if sizeRc os \<noteq> SQLITE_OK then Some (w, s, sizeRc os)
              else do {
                (w, s, ck, rc, err) \<leftarrow> (if WAL_HDRSIZE < length f then recover_log os f w s
                   else Some (w, s, (0, 0), SQLITE_OK, False));
                if err \<or> rc \<noteq> SQLITE_OK then Some (w, s, rc)
                else do {
                  (w, s) \<leftarrow> walIndexWriteHdr (bigEndian os) (set_cksum w ck) s;
                  let (marks, rc) = recover_marks os w 1 (WAL_NREADER - 1) ((aReadMark (ckptInfo s))[0 := 0]) SQLITE_OK;
                  Some (w, s\<lparr>ckptInfo := (ckptInfo s)\<lparr>nBackfill := 0, nBackfillAttempted := mxFrame (hdr w), aReadMark := marks\<rparr>\<rparr>, rc)
                }
              })"


section \<open>The frames that are read\<close>

text \<open>
  The reference: the valid frames of the file from frame \<open>k\<close> on, each with its page, its size field
  and the checksum after it.
\<close>

definition frame_bytes :: "u8 list \<Rightarrow> nat \<Rightarrow> nat \<Rightarrow> u8 list" where
  "frame_bytes f sz k = take (sz + WAL_FRAME_HDRSIZE) (drop (walFrameOffset k sz) f)"

definition last_in_file :: "u8 list \<Rightarrow> nat \<Rightarrow> nat" where
  "last_in_file f sz = (length f - WAL_HDRSIZE) div (sz + WAL_FRAME_HDRSIZE)"

function scan :: "bool \<Rightarrow> u8 list \<Rightarrow> nat \<Rightarrow> u8 list \<Rightarrow> nat \<Rightarrow> u32 \<times> u32 \<Rightarrow> (nat \<times> nat \<times> (u32 \<times> u32)) list" where
  "scan big salt sz f k c =
     (if k \<le> last_in_file f sz \<and> frame_valid big salt c (take 24 (frame_bytes f sz k)) (drop 24 (frame_bytes f sz k))
      then let c' = next_cksum big c (take 8 (frame_bytes f sz k)) (drop 24 (frame_bytes f sz k));
               (pg, n) = frame_info (take 24 (frame_bytes f sz k))
           in (pg, n, c') # scan big salt sz f (k + 1) c'
      else [])"
  by pat_completeness auto
termination by (relation "measure (\<lambda>(b, t, sz, f, k, c). last_in_file f sz + 1 - k)") auto

declare scan.simps [simp del]

text \<open>The last commit of a list of frames, the first of which is frame \<open>k\<close>.\<close>

fun last_commit :: "nat \<Rightarrow> (nat \<times> nat \<times> (u32 \<times> u32)) list \<Rightarrow> nat \<times> nat \<times> (u32 \<times> u32) \<Rightarrow> nat \<times> nat \<times> (u32 \<times> u32)" where
  "last_commit k [] r = r"
| "last_commit k ((pg, n, c) # L) r = last_commit (k + 1) L (if n \<noteq> 0 then (k, n, c) else r)"

definition commit_state :: "Wal \<Rightarrow> u32 \<times> u32 \<Rightarrow> nat \<times> nat \<times> (u32 \<times> u32)" where
  "commit_state w ck = (mxFrame (hdr w), nPage (hdr w), ck)"

text \<open>What stays the same while frames are read.\<close>

definition log_params :: "bool \<Rightarrow> u8 list \<Rightarrow> nat \<Rightarrow> Wal \<Rightarrow> bool" where
  "log_params big salt sz w \<longleftrightarrow> bigEndCksum (hdr w) = big \<and> aSalt (hdr w) = salt \<and> szPage w = sz \<and> page_size_ok sz \<and> length salt = 8"

definition no_read_errors :: "walOs \<Rightarrow> bool" where
  "no_read_errors os \<longleftrightarrow> (\<forall>ofs n. readRc os ofs n = SQLITE_OK)"

lemma frame_in_file:
  assumes "0 < k" "k \<le> last_in_file f sz"
  shows "walFrameOffset k sz + (sz + WAL_FRAME_HDRSIZE) \<le> length f" "length (frame_bytes f sz k) = sz + WAL_FRAME_HDRSIZE"
proof -
  let ?m = "sz + WAL_FRAME_HDRSIZE"
  have "k * ?m \<le> (length f - WAL_HDRSIZE) div ?m * ?m" using assms(2) by (simp add: last_in_file_def mult_le_mono1)
  also have "\<dots> \<le> length f - WAL_HDRSIZE" by (rule div_times_less_eq_dividend)
  finally have a: "k * ?m \<le> length f - WAL_HDRSIZE" .
  have "0 < k * ?m" using assms(1) by simp
  with a have "WAL_HDRSIZE + k * ?m \<le> length f" by linarith
  moreover have "k * ?m = (k - 1) * ?m + ?m" using assms(1) by (cases k) simp_all
  ultimately show "walFrameOffset k sz + ?m \<le> length f" by (simp add: walFrameOffset_def)
  then show "length (frame_bytes f sz k) = ?m" by (simp add: frame_bytes_def)
qed

lemma set_cksum_fields [simp]: "hdr (set_cksum w c) = (hdr w)\<lparr>aFrameCksum := c\<rparr>" "szPage (set_cksum w c) = szPage w"
    "apWiData (set_cksum w c) = apWiData w" "exclusiveMode (set_cksum w c) = exclusiveMode w"
  by (simp_all add: set_cksum_def)

lemma set_commit_fields [simp]: "szPage (set_commit w k n) = szPage w" "apWiData (set_commit w k n) = apWiData w"
    "exclusiveMode (set_commit w k n) = exclusiveMode w" "bigEndCksum (hdr (set_commit w k n)) = bigEndCksum (hdr w)"
    "aSalt (hdr (set_commit w k n)) = aSalt (hdr w)" "aFrameCksum (hdr (set_commit w k n)) = aFrameCksum (hdr w)"
    "mxFrame (hdr (set_commit w k n)) = k" "nPage (hdr (set_commit w k n)) = n"
  by (simp_all add: set_commit_def)

lemma mapped_cong: "apWiData w' = apWiData w \<Longrightarrow> mapped w' h = mapped w h"
  by (simp add: mapped_def)

lemma mapped_set [simp]: "mapped (set_cksum w c) h = mapped w h" "mapped (set_commit w k n) h = mapped w h"
    "mapped (w\<lparr>hdr := x\<rparr>) h = mapped w h" "writeLock (set_cksum w c) = writeLock w" "writeLock (set_commit w k n) = writeLock w"
  by (simp_all add: mapped_def set_cksum_def set_commit_def)

text \<open>Mapped pages stay mapped.\<close>

definition keeps_mapped :: "Wal \<Rightarrow> Wal \<Rightarrow> bool" where
  "keeps_mapped w w' \<longleftrightarrow> (\<forall>h. mapped w h \<longrightarrow> mapped w' h)"

lemma keeps_mapped_refl [simp]: "keeps_mapped w w"
  by (simp add: keeps_mapped_def)

lemma keeps_mapped_trans: "keeps_mapped w w1 \<Longrightarrow> keeps_mapped w1 w2 \<Longrightarrow> keeps_mapped w w2"
  by (simp add: keeps_mapped_def)

lemma keeps_mapped_set [simp]: "keeps_mapped w (w'\<lparr>hdr := h\<rparr>) = keeps_mapped w w'" "keeps_mapped w (set_cksum w' c) = keeps_mapped w w'" "keeps_mapped (set_cksum w c) w' = keeps_mapped w w'"
    "keeps_mapped (set_commit w k n) w' = keeps_mapped w w'"
  by (simp_all add: keeps_mapped_def)

lemma same_wal_keeps: "same_wal w w' \<Longrightarrow> keeps_mapped w w'"
  using same_wal_mapped by (simp add: keeps_mapped_def)

lemma keeps_mappedD: "keeps_mapped w w' \<Longrightarrow> mapped w h \<Longrightarrow> mapped w' h"
  by (simp add: keeps_mapped_def)

lemma frame_valid_page: "frame_valid big salt c fr d \<Longrightarrow> 24 \<le> length fr \<Longrightarrow> fst (frame_info fr) \<noteq> 0"
  using Get4byte_Some [of fr] by (auto simp: frame_valid_def frame_info_def unat_eq_0)


lemma scan_stop: "\<not> (k \<le> last_in_file f sz \<and> frame_valid big salt c (take 24 (frame_bytes f sz k)) (drop 24 (frame_bytes f sz k))) \<Longrightarrow>
    scan big salt sz f k c = []"
  by (subst scan.simps) auto

lemma scan_step:
  assumes "k \<le> last_in_file f sz" "frame_valid big salt c (take 24 (frame_bytes f sz k)) (drop 24 (frame_bytes f sz k))"
    "frame_info (take 24 (frame_bytes f sz k)) = (pg, n)"
    "c' = next_cksum big c (take 8 (frame_bytes f sz k)) (drop 24 (frame_bytes f sz k))"
  shows "scan big salt sz f k c = (pg, n, c') # scan big salt sz f (Suc k) c'"
  using assms by (subst scan.simps) (simp add: Let_def)

text \<open>One frame: read, checked and put in the index.\<close>

lemma read_frame:
  assumes P: "log_params big salt sz w" and E: "no_read_errors os" and k: "0 < k" "k \<le> last_in_file f sz"
  shows "osRead os f (szPage w + WAL_FRAME_HDRSIZE) (walFrameOffset k (szPage w)) = (SQLITE_OK, frame_bytes f sz k)"
    "frame_valid big salt (aFrameCksum (hdr w)) (take 24 (frame_bytes f sz k)) (drop 24 (frame_bytes f sz k)) \<Longrightarrow>
      walDecodeFrame be w (drop 24 (frame_bytes f sz k)) (take 24 (frame_bytes f sz k)) =
        Some (set_cksum w (next_cksum big (aFrameCksum (hdr w)) (take 8 (frame_bytes f sz k)) (drop 24 (frame_bytes f sz k))),
          Some (frame_info (take 24 (frame_bytes f sz k))))"
    "\<not> frame_valid big salt (aFrameCksum (hdr w)) (take 24 (frame_bytes f sz k)) (drop 24 (frame_bytes f sz k)) \<Longrightarrow>
      \<exists>c. walDecodeFrame be w (drop 24 (frame_bytes f sz k)) (take 24 (frame_bytes f sz k)) = Some (set_cksum w c, None)"
proof -
  note F = frame_in_file [OF k]
  have p: "page_size_ok (szPage w)" "szPage w = sz" "bigEndCksum (hdr w) = big" "aSalt (hdr w) = salt" "length (aSalt (hdr w)) = 8"
    using P by (auto simp: log_params_def)
  have l: "length (drop 24 (frame_bytes f sz k)) = szPage w" "length (take 24 (frame_bytes f sz k)) = 24" using F(2) p(2) by simp_all
  show "osRead os f (szPage w + WAL_FRAME_HDRSIZE) (walFrameOffset k (szPage w)) = (SQLITE_OK, frame_bytes f sz k)"
    using F(1) E p(2) by (simp add: osRead_def no_read_errors_def frame_bytes_def)
  show "frame_valid big salt (aFrameCksum (hdr w)) (take 24 (frame_bytes f sz k)) (drop 24 (frame_bytes f sz k)) \<Longrightarrow>
      walDecodeFrame be w (drop 24 (frame_bytes f sz k)) (take 24 (frame_bytes f sz k)) =
        Some (set_cksum w (next_cksum big (aFrameCksum (hdr w)) (take 8 (frame_bytes f sz k)) (drop 24 (frame_bytes f sz k))),
          Some (frame_info (take 24 (frame_bytes f sz k))))"
    using walDecodeFrame_iff(1) [OF p(1) l p(5)] p(3,4) by simp
  show "\<not> frame_valid big salt (aFrameCksum (hdr w)) (take 24 (frame_bytes f sz k)) (drop 24 (frame_bytes f sz k)) \<Longrightarrow>
      \<exists>c. walDecodeFrame be w (drop 24 (frame_bytes f sz k)) (take 24 (frame_bytes f sz k)) = Some (set_cksum w c, None)"
    using walDecodeFrame_iff(2) [OF p(1) l p(5)] p(3,4) by simp
qed

definition frames_result ::
  "bool \<Rightarrow> u8 list \<Rightarrow> nat \<Rightarrow> u8 list \<Rightarrow> nat \<Rightarrow> nat list \<Rightarrow> nat \<Rightarrow> (nat \<times> nat \<times> (u32 \<times> u32)) list \<Rightarrow> nat \<times> nat \<times> (u32 \<times> u32) \<Rightarrow> Wal \<Rightarrow> walShm \<Rightarrow>
    (u32 \<times> u32) \<Rightarrow> nat \<Rightarrow> bool" where
  "frames_result big salt sz f iLast fs iFrame L r w' s' ck' iF' \<longleftrightarrow>
     iF' = iFrame + min (length L) (iLast + 1 - iFrame) \<and> log_params big salt sz w' \<and>
     wi_ok w' s' (fs @ map fst (take (iF' - iFrame) L)) \<and> commit_state w' ck' = last_commit iFrame (take (iF' - iFrame) L) r \<and>
     (iLast < iF' \<longrightarrow> scan big salt sz f iF' (aFrameCksum (hdr w')) = drop (iF' - iFrame) L)"

lemma recover_frames_ok:
  assumes E: "no_read_errors os" and last: "iLast \<le> last_in_file f sz"
  shows "log_params big salt sz w \<Longrightarrow> \<forall>j. iFrame \<le> j \<and> j \<le> iLast \<longrightarrow> walFramePage j = h \<Longrightarrow> mapped w h \<Longrightarrow> 0 < iFrame \<Longrightarrow>
    wi_ok w s fs \<Longrightarrow> length fs = iFrame - 1 \<Longrightarrow> writeLock w \<Longrightarrow>
    \<exists>w' s' ck' rc' iF'. recover_frames os f iFrame iLast w s ck rc = Some (w', s', ck', rc', iF') \<and>
      rc' = (if iLast < iFrame then rc else SQLITE_OK) \<and> wiHdr s' = wiHdr s \<and> ckptInfo s' = ckptInfo s \<and> writeLock w' \<and> keeps_mapped w w' \<and>
      frames_result big salt sz f iLast fs iFrame (scan big salt sz f iFrame (aFrameCksum (hdr w))) (commit_state w ck) w' s' ck' iF'"
proof (induction "iLast + 1 - iFrame" arbitrary: iFrame w s fs ck rc)
  case 0
  then have "iLast < iFrame" by simp
  with 0 show ?case by (subst recover_frames.simps) (simp add: frames_result_def)
next
  case (Suc d)
  then have le: "iFrame \<le> iLast" by simp
  let ?c = "aFrameCksum (hdr w)" and ?fr = "frame_bytes f sz iFrame"
  have k: "iFrame \<le> last_in_file f sz" using le last by simp
  note R = read_frame [OF Suc.prems(1) E Suc.prems(4) k]
  show ?case
  proof (cases "frame_valid big salt ?c (take 24 ?fr) (drop 24 ?fr)")
    case False
    then obtain c where "walDecodeFrame (bigEndian os) w (drop 24 ?fr) (take 24 ?fr) = Some (set_cksum w c, None)" using R(3) by blast
    then have "recover_frames os f iFrame iLast w s ck rc = Some (set_cksum w c, s, ck, SQLITE_OK, iFrame)"
      using le R(1) by (subst recover_frames.simps) simp
    moreover have "scan big salt sz f iFrame ?c = []" by (rule scan_stop) (use False in simp)
    moreover have "wi_ok (set_cksum w c) s fs" by (rule wi_ok_cong [OF Suc.prems(5)]) simp_all
    ultimately show ?thesis using le Suc.prems(1,7) by (simp add: frames_result_def log_params_def commit_state_def set_cksum_def)
  next
    case True
    define c where "c = next_cksum big ?c (take 8 ?fr) (drop 24 ?fr)"
    obtain pg n where info: "frame_info (take 24 ?fr) = (pg, n)" by (cases "frame_info (take 24 ?fr)") auto
    have dec: "walDecodeFrame (bigEndian os) w (drop 24 ?fr) (take 24 ?fr) = Some (set_cksum w c, Some (pg, n))"
      using R(2) [OF True] info by (simp add: c_def)
    have sc: "scan big salt sz f iFrame ?c = (pg, n, c) # scan big salt sz f (Suc iFrame) c"
      by (rule scan_step [OF k True info c_def])
    have pg: "pg \<noteq> 0" using frame_valid_page [OF True] frame_in_file(2) [OF Suc.prems(4) k] info by simp
    let ?w = "set_cksum w c"
    have ok: "wi_ok ?w s fs" by (rule wi_ok_cong [OF Suc.prems(5)]) simp_all
    have m: "mapped ?w h" using Suc.prems(3) by (simp add: mapped_def)
    have hF: "walFramePage iFrame = h" using Suc.prems(2) le by blast
    have lf: "iFrame \<le> Suc (length fs)" "\<not> iFrame \<le> length fs" using Suc.prems(4,6) by simp_all
    have mx: "iFrame \<le> length fs \<longrightarrow> mxFrame (hdr ?w) = iFrame - 1" using lf(2) by simp
    obtain w1 s1 rc1 where a: "walIndexAppend (env os) ?w s iFrame pg = Some (w1, s1, rc1)" "same_wal ?w w1" "wiHdr s1 = wiHdr s"
      "ckptInfo s1 = ckptInfo s" "if rc1 = SQLITE_OK then wi_ok w1 s1 (take (iFrame - 1) fs @ [pg])
         else rc1 = snd (snd (walHashGet (env os) ?w s (walFramePage iFrame))) \<and> wi_ok w1 s1 fs"
      using walIndexAppend_ok [OF ok Suc.prems(4) lf(1) mx pg, of "env os"] by (elim exE conjE) (rule that)
    have rc1: "rc1 = SQLITE_OK" using a(5) walHashGet_mapped [OF m] hF by (auto split: if_splits)
    have ok1: "wi_ok w1 s1 (fs @ [pg])" using a(5) rc1 Suc.prems(6) by simp
    note W = same_wal_fields [OF a(2)]
    define w2 where "w2 = (if n \<noteq> 0 then set_commit w1 iFrame n else w1)"
    define ck2 where "ck2 = (if n \<noteq> 0 then c else ck)"
    have ok2: "wi_ok w2 s1 (fs @ [pg])" using ok1 by (auto simp: w2_def intro: wi_ok_cong)
    have P2: "log_params big salt sz w2" using Suc.prems(1) W(1,7) by (auto simp: w2_def log_params_def)
    have c2: "aFrameCksum (hdr w2) = c" using W(7) by (simp add: w2_def)
    have m2: "mapped w2 h" using same_wal_mapped [OF a(2) m] by (simp add: w2_def mapped_def)
    have wl2: "writeLock w2" using W(4) Suc.prems(7) by (simp add: w2_def set_commit_def set_cksum_def)
    have cs: "commit_state w2 ck2 = (if n \<noteq> 0 then (iFrame, n, c) else commit_state w ck)"
      using W(7) by (simp add: commit_state_def w2_def ck2_def)
    have step: "recover_frames os f iFrame iLast w s ck rc = recover_frames os f (Suc iFrame) iLast w2 s1 ck2 SQLITE_OK"
      using le R(1) dec a(1) rc1 W(7) by (subst recover_frames.simps) (simp add: w2_def ck2_def)
    have d: "d = iLast + 1 - Suc iFrame" using Suc.hyps(2) by simp
    have pgs: "\<forall>j. Suc iFrame \<le> j \<and> j \<le> iLast \<longrightarrow> walFramePage j = h" using Suc.prems(2) by auto
    have l2: "length (fs @ [pg]) = Suc iFrame - 1" using Suc.prems(4,6) by simp
    obtain w' s' ck' rc' iF' where r: "recover_frames os f (Suc iFrame) iLast w2 s1 ck2 SQLITE_OK = Some (w', s', ck', rc', iF')"
      "rc' = SQLITE_OK" "wiHdr s' = wiHdr s1" "ckptInfo s' = ckptInfo s1" "writeLock w'" "keeps_mapped w2 w'"
      "frames_result big salt sz f iLast (fs @ [pg]) (Suc iFrame) (scan big salt sz f (Suc iFrame) c) (commit_state w2 ck2) w' s' ck' iF'"
      using Suc.hyps(1) [OF d P2 pgs m2 _ ok2 l2 wl2, of ck2 SQLITE_OK] unfolding c2 by (auto split: if_splits)
    have km: "keeps_mapped w w'"
      using keeps_mapped_trans [OF same_wal_keeps [OF a(2)], of w'] r(6) by (simp add: w2_def split: if_splits)
    let ?L = "scan big salt sz f (Suc iFrame) c"
    define u where "u = iF' - Suc iFrame"
    have F0: "iF' = Suc iFrame + min (length ?L) (iLast + 1 - Suc iFrame)" "log_params big salt sz w'"
      "wi_ok w' s' ((fs @ [pg]) @ map fst (take u ?L))" "commit_state w' ck' = last_commit (Suc iFrame) (take u ?L) (commit_state w2 ck2)"
      "iLast < iF' \<longrightarrow> scan big salt sz f iF' (aFrameCksum (hdr w')) = drop u ?L"
      using r(7) unfolding frames_result_def u_def by blast+
    have u: "u = min (length ?L) (iLast + 1 - Suc iFrame)" using F0(1) by (simp add: u_def)
    have F: "iF' = Suc iFrame + u" using F0(1) u by simp
    have "min (length ((pg, n, c) # ?L)) (iLast + 1 - iFrame) = Suc u" using le by (simp add: u Suc_diff_le)
    moreover have "iF' - iFrame = Suc u" using F by simp
    ultimately have "frames_result big salt sz f iLast fs iFrame ((pg, n, c) # ?L) (commit_state w ck) w' s' ck' iF'"
      using F F0(2-5) unfolding frames_result_def cs by simp
    with step r(1-5) km a(3,4) sc le show ?thesis by auto
  qed
qed


text \<open>The law of the shared memory: a writer that asks for a page gets it, or an error.\<close>

definition map_law :: "walEnv \<Rightarrow> bool" where
  "map_law E \<longleftrightarrow> (\<forall>h rc p. osShmMap E h True = (rc, p) \<longrightarrow> p \<or> rc \<noteq> SQLITE_OK \<and> rc \<noteq> SQLITE_READONLY)"

lemma walIndexPage_fails:
  assumes "map_law E" "writeLock w" "walIndexPage E w s h = (w', s', rc, False)"
  shows "rc \<noteq> SQLITE_OK"
  using assms unfolding map_law_def
  by (auto simp: walIndexPage_def walIndexPageRealloc_def Let_def split: if_splits prod.splits)

definition no_map_errors :: "walEnv \<Rightarrow> bool" where
  "no_map_errors E \<longleftrightarrow> (\<forall>n. mallocOk E n) \<and> (\<forall>h b. osShmMap E h b = (SQLITE_OK, True))"

lemma walIndexPage_succeeds: "no_map_errors E \<Longrightarrow> \<exists>w' s'. walIndexPage E w s h = (w', s', SQLITE_OK, True)"
  by (auto simp: no_map_errors_def walIndexPage_def walIndexPageRealloc_def Let_def)

lemma last_commit_append: "last_commit k (L @ M) r = last_commit (k + length L) M (last_commit k L r)"
  by (induction k L r rule: last_commit.induct) auto

lemma recover_pages_ok:
  assumes E: "no_read_errors os" "map_law (env os)"
  shows "log_params big salt sz w \<Longrightarrow> wi_ok w s fs \<Longrightarrow> length fs = iZero iPg \<Longrightarrow> writeLock w \<Longrightarrow>
    iPg + k = walFramePage (last_in_file f sz) + 1 \<Longrightarrow>
    \<exists>w' s' ck' rc'. recover_pages os f (last_in_file f sz) iPg k w s ck rz = Some (w', s', ck', rc') \<and>
      wiHdr s' = wiHdr s \<and> ckptInfo s' = ckptInfo s \<and> (no_map_errors (env os) \<and> rz = SQLITE_OK \<longrightarrow> rc' = SQLITE_OK) \<and>
      (rc' = SQLITE_OK \<longrightarrow> log_params big salt sz w' \<and> writeLock w' \<and> keeps_mapped w w' \<and> (0 < k \<longrightarrow> mapped w' iPg) \<and>
        wi_ok w' s' (fs @ map fst (scan big salt sz f (iZero iPg + 1) (aFrameCksum (hdr w)))) \<and>
        commit_state w' ck' = last_commit (iZero iPg + 1) (scan big salt sz f (iZero iPg + 1) (aFrameCksum (hdr w))) (commit_state w ck))"
proof (induction k arbitrary: iPg w s fs ck rz)
  case 0
  then have "last_in_file f sz < iZero iPg + 1"
  proof (cases "last_in_file f sz = 0")
    case False
    then have "last_in_file f sz \<le> iZero (Suc (walFramePage (last_in_file f sz)))" using page_of [of "last_in_file f sz"] by (simp add: iZero_Suc)
    with 0(5) show ?thesis by simp
  qed simp
  then have "scan big salt sz f (iZero iPg + 1) (aFrameCksum (hdr w)) = []" by (intro scan_stop) simp
  with 0 show ?case by simp
next
  case (Suc k)
  let ?M = "last_in_file f sz"
  let ?first = "iZero iPg + 1" and ?last = "min ?M (iZero (Suc iPg))"
  let ?L = "scan big salt sz f ?first (aFrameCksum (hdr w))"
  have bounds: "min ?M (HASHTABLE_NPAGE_ONE + iPg * HASHTABLE_NPAGE) = ?last"
    "1 + (if iPg = 0 then 0 else HASHTABLE_NPAGE_ONE + (iPg - 1) * HASHTABLE_NPAGE) = ?first" by (simp_all add: iZero_def)
  obtain w1 s1 rc p where g: "walIndexPage (env os) w s iPg = (w1, s1, rc, p)" by (cases "walIndexPage (env os) w s iPg") auto
  note G = walIndexPage_ok [OF g]
  note W = same_wal_fields [OF G(1)]
  show ?case
  proof (cases p)
    case False
    then have rc: "rc \<noteq> SQLITE_OK" using walIndexPage_fails [OF E(2) Suc.prems(4)] g by auto
    have "\<not> no_map_errors (env os)" using walIndexPage_succeeds [of "env os" w s iPg] g False by auto
    then show ?thesis using rc g False G(5,6) by simp
  next
    case True
    define s2 where "s2 = s1\<lparr>wiPage := (wiPage s1)(iPg := junk os iPg)\<rparr>"
    have ok2: "wi_ok w1 s2 fs" unfolding wi_ok_def
    proof (intro allI impI)
      fix h assume h: "iZero h < length fs"
      then have "h \<noteq> iPg" using Suc.prems(3) by auto
      with G(4) have "wiPage s2 h = wiPage s h" by (simp add: s2_def)
      with same_wal_page [OF G(1) wi_okD(1) [OF Suc.prems(2) h]] wi_okD(2) [OF Suc.prems(2) h]
      show "has_page w1 h \<and> page_ok (wi_cap h) (seg fs h) (wiPage s2 h)" by simp
    qed
    have P1: "log_params big salt sz w1" using Suc.prems(1) W by (simp add: log_params_def)
    have pgs: "\<forall>j. ?first \<le> j \<and> j \<le> ?last \<longrightarrow> walFramePage j = iPg"
      by (intro allI impI page_unique) (auto simp: iZero_Suc)
    have m: "mapped w1 iPg" using walIndexPage_maps [of "env os" w s iPg w1 s1 rc] g True by simp
    have wl: "writeLock w1" using W(4) Suc.prems(4) by simp
    have lf: "length fs = ?first - 1" and le: "?last \<le> last_in_file f sz" and pos: "0 < ?first" using Suc.prems(3) by simp_all
    obtain w2 s3 ck2 rc2 iF where r: "recover_frames os f ?first ?last w1 s2 ck rc = Some (w2, s3, ck2, rc2, iF)"
      "rc2 = (if ?last < ?first then rc else SQLITE_OK)" "wiHdr s3 = wiHdr s2" "ckptInfo s3 = ckptInfo s2" "writeLock w2" "keeps_mapped w1 w2"
      "frames_result big salt sz f ?last fs ?first (scan big salt sz f ?first (aFrameCksum (hdr w1))) (commit_state w1 ck) w2 s3 ck2 iF"
      using recover_frames_ok [OF E(1) le P1 pgs m pos ok2 lf wl, where ck = ck and rc = rc] by (elim exE conjE) (rule that)
    have L1: "scan big salt sz f ?first (aFrameCksum (hdr w1)) = ?L" "commit_state w1 ck = commit_state w ck"
      using W(7) by (simp_all add: commit_state_def)
    define n where "n = iF - ?first"
    have rc2: "no_map_errors (env os) \<and> rz = SQLITE_OK \<longrightarrow> rc2 = SQLITE_OK"
      using r(2) walIndexPage_succeeds [of "env os" w s iPg] g by auto
    have F: "iF = ?first + min (length ?L) (?last + 1 - ?first)" "log_params big salt sz w2" "wi_ok w2 s3 (fs @ map fst (take n ?L))"
      "commit_state w2 ck2 = last_commit ?first (take n ?L) (commit_state w ck)"
      "?last < iF \<longrightarrow> scan big salt sz f iF (aFrameCksum (hdr w2)) = drop n ?L"
      using r(7) unfolding frames_result_def L1 n_def by blast+
    have km: "keeps_mapped w w2" "mapped w2 iPg"
      using keeps_mapped_trans [OF same_wal_keeps [OF G(1)] r(6)] keeps_mappedD [OF r(6) m] by simp_all
    have n: "n = min (length ?L) (?last + 1 - ?first)" using F(1) by (simp add: n_def)
    have step: "recover_pages os f ?M iPg (Suc k) w s ck rz =
        (if iF \<le> ?last then Some (w2, s3, ck2, rc2) else recover_pages os f ?M (iPg + 1) k w2 s3 ck2 rc2)"
      using g True r(1) unfolding recover_pages.simps bounds s2_def Let_def by simp
    show ?thesis
    proof (cases "iF \<le> ?last")
      case stop: True
      then have "n = length ?L" using F(1) by (auto simp: n)
      with F have "wi_ok w2 s3 (fs @ map fst ?L)" "commit_state w2 ck2 = last_commit ?first ?L (commit_state w ck)" by simp_all
      with step stop r(3-5) km rc2 F(2) G(5,6) show ?thesis by (simp add: s2_def)
    next
      case go: False
      have take_drop: "take n ?L = ?L \<and> iPg = walFramePage ?M \<and> k = 0 \<or> length (take n ?L) = wi_cap iPg \<and> iF = iZero (Suc iPg) + 1"
      proof (cases "?M \<le> iZero (Suc iPg)")
        case True
        have "walFramePage ?M \<le> iPg"
        proof (cases "?M = 0")
          case z: True
          then show ?thesis by (simp add: walFramePage_def)
        next
          case z: False
          then show ?thesis using page_of(1) [of ?M] True iZero_mono [of "Suc iPg" "walFramePage ?M"]
            by (cases "Suc iPg < walFramePage ?M"; cases "walFramePage ?M = Suc iPg") auto
        qed
        then have ik: "iPg = walFramePage ?M" "k = 0" using Suc.prems(5) by simp_all
        have "?M < iF" using go True by simp
        then have "drop n ?L = []" using F(5) go scan_stop [of iF f sz] by simp
        then show ?thesis using ik by simp
      next
        case False
        then have l: "?last = iZero (Suc iPg)" by simp
        then have "n = ?last + 1 - ?first" using go F(1) by (simp add: n)
        then have "n = wi_cap iPg" "n \<le> length ?L" using l n by (simp_all add: iZero_Suc)
        then show ?thesis using F(1) n by (simp add: iZero_Suc)
      qed
      then show ?thesis
      proof (elim disjE conjE)
        assume a: "take n ?L = ?L" "k = 0"
        have "recover_pages os f ?M iPg (Suc k) w s ck rz = Some (w2, s3, ck2, rc2)" unfolding step using go a(2) by simp
        moreover have "wi_ok w2 s3 (fs @ map fst ?L)" "commit_state w2 ck2 = last_commit ?first ?L (commit_state w ck)"
          using F(3,4) unfolding a(1) .
        ultimately show ?thesis using r(3-5) km rc2 F(2) G(5,6) by (simp add: s2_def)
      next
        assume a: "length (take n ?L) = wi_cap iPg" "iF = iZero (Suc iPg) + 1"
        have l2: "length (fs @ map fst (take n ?L)) = iZero (Suc iPg)" using a(1) Suc.prems(3) by (simp only: length_append length_map iZero_Suc)
        have k2: "Suc iPg + k = walFramePage ?M + 1" using Suc.prems(5) by simp
        obtain w' s' ck' rc' where q: "recover_pages os f ?M (Suc iPg) k w2 s3 ck2 rc2 = Some (w', s', ck', rc')"
          "wiHdr s' = wiHdr s3" "ckptInfo s' = ckptInfo s3"
          "no_map_errors (env os) \<and> rc2 = SQLITE_OK \<longrightarrow> rc' = SQLITE_OK"
          "rc' = SQLITE_OK \<longrightarrow> log_params big salt sz w' \<and> writeLock w' \<and> keeps_mapped w2 w' \<and> (0 < k \<longrightarrow> mapped w' (Suc iPg)) \<and>
            wi_ok w' s' ((fs @ map fst (take n ?L)) @ map fst (scan big salt sz f (iZero (Suc iPg) + 1) (aFrameCksum (hdr w2)))) \<and>
            commit_state w' ck' = last_commit (iZero (Suc iPg) + 1) (scan big salt sz f (iZero (Suc iPg) + 1) (aFrameCksum (hdr w2))) (commit_state w2 ck2)"
          using Suc.IH [OF F(2,3) l2 r(5) k2, of ck2 rc2] by (elim exE conjE)
        have sc: "scan big salt sz f (iZero (Suc iPg) + 1) (aFrameCksum (hdr w2)) = drop n ?L" using F(5) go a(2) by simp
        have "last_commit ?first ?L (commit_state w ck) = last_commit (?first + length (take n ?L)) (drop n ?L) (commit_state w2 ck2)"
          using last_commit_append [of ?first "take n ?L" "drop n ?L"] F(4) by simp
        moreover have "?first + length (take n ?L) = iZero (Suc iPg) + 1" using a(1) by (simp only: iZero_Suc)
        moreover have "map fst ?L = map fst (take n ?L) @ map fst (drop n ?L)" by (simp flip: map_append)
        moreover have "recover_pages os f ?M iPg (Suc k) w s ck rz = Some (w', s', ck', rc')" unfolding step using q(1) go by (simp only: if_False Suc_eq_plus1)
        moreover have "keeps_mapped w w' \<and> mapped w' iPg" if "keeps_mapped w2 w'"
          using keeps_mapped_trans [OF km(1) that] keeps_mappedD [OF that km(2)] by simp
        ultimately show ?thesis using q(2-5) rc2 r(3,4) G(5,6) unfolding sc by (simp add: s2_def)
      qed
    qed
  qed
qed


section \<open>A log that was written\<close>

text \<open>The bytes of the log header that \<open>walFrames\<close> writes, and of a list of frames.\<close>

definition wal_header_start :: "bool \<Rightarrow> nat \<Rightarrow> nat \<Rightarrow> u8 list \<Rightarrow> u8 list" where
  "wal_header_start big sz k salt = sqlite3Put4byte (WAL_MAGIC OR of_bool big) @ sqlite3Put4byte (of_nat WAL_MAX_VERSION) @
     sqlite3Put4byte (of_nat sz) @ sqlite3Put4byte (of_nat k) @ salt"

definition header_cksum :: "bool \<Rightarrow> nat \<Rightarrow> nat \<Rightarrow> u8 list \<Rightarrow> u32 \<times> u32" where
  "header_cksum big sz k salt = cksum big (wal_header_start big sz k salt) (0, 0)"

definition wal_header :: "bool \<Rightarrow> nat \<Rightarrow> nat \<Rightarrow> u8 list \<Rightarrow> u8 list" where
  "wal_header big sz k salt = wal_header_start big sz k salt @
     sqlite3Put4byte (fst (header_cksum big sz k salt)) @ sqlite3Put4byte (snd (header_cksum big sz k salt))"

fun log_frames :: "bool \<Rightarrow> u8 list \<Rightarrow> u32 \<times> u32 \<Rightarrow> (nat \<times> nat \<times> u8 list) list \<Rightarrow> u8 list" where
  "log_frames big salt c [] = []"
| "log_frames big salt c ((pg, n, d) # L) =
     (let c' = next_cksum big c (frame_start pg n) d in frame_header pg n salt c' @ d @ log_frames big salt c' L)"

fun log_cksum :: "bool \<Rightarrow> u32 \<times> u32 \<Rightarrow> (nat \<times> nat \<times> u8 list) list \<Rightarrow> u32 \<times> u32" where
  "log_cksum big c [] = c"
| "log_cksum big c ((pg, n, d) # L) = log_cksum big (next_cksum big c (frame_start pg n) d) L"

text \<open>The frames with the checksums after them.\<close>

fun log_scan :: "bool \<Rightarrow> u32 \<times> u32 \<Rightarrow> (nat \<times> nat \<times> u8 list) list \<Rightarrow> (nat \<times> nat \<times> (u32 \<times> u32)) list" where
  "log_scan big c [] = []"
| "log_scan big c ((pg, n, d) # L) = (let c' = next_cksum big c (frame_start pg n) d in (pg, n, c') # log_scan big c' L)"

definition frame_ok :: "nat \<Rightarrow> nat \<times> nat \<times> u8 list \<Rightarrow> bool" where
  "frame_ok sz = (\<lambda>(pg, n, d). 0 < pg \<and> pg < 2 ^ 32 \<and> n < 2 ^ 32 \<and> length d = sz)"

lemma log_scan_pages: "map fst (log_scan big c L) = map fst L"
  by (induction big c L rule: log_scan.induct) (simp_all add: Let_def)

lemma length_log_scan [simp]: "length (log_scan big c L) = length L"
  using log_scan_pages [of big c L] by (metis length_map)

lemma last_frame_fits:
  assumes "walFrameOffset k sz + (sz + WAL_FRAME_HDRSIZE) \<le> length f" "0 < k"
  shows "k \<le> last_in_file f sz"
proof -
  let ?m = "sz + WAL_FRAME_HDRSIZE"
  have "k * ?m = (k - 1) * ?m + ?m" using assms(2) by (cases k) simp_all
  then have "k * ?m \<le> length f - WAL_HDRSIZE" using assms(1) by (simp add: walFrameOffset_def)
  then show ?thesis unfolding last_in_file_def by (subst less_eq_div_iff_mult_less_eq) simp_all
qed

lemma walFrameOffset_Suc: "0 < k \<Longrightarrow> walFrameOffset (Suc k) sz = walFrameOffset k sz + (sz + WAL_FRAME_HDRSIZE)"
  by (cases k) (simp_all add: walFrameOffset_def)

lemma scan_log:
  assumes salt: "length salt = 8"
  shows "list_all (frame_ok sz) L \<Longrightarrow> 0 < k \<Longrightarrow> f = pre @ log_frames big salt c L @ tail \<Longrightarrow> length pre = walFrameOffset k sz \<Longrightarrow>
    scan big salt sz f k c = log_scan big c L @ scan big salt sz f (k + length L) (log_cksum big c L)"
proof (induction L arbitrary: k c pre)
  case Nil
  then show ?case by simp
next
  case (Cons x L)
  obtain pg n d where x: "x = (pg, n, d)" by (cases x) auto
  have ok: "0 < pg" "pg < 2 ^ 32" "n < 2 ^ 32" "length d = sz" using Cons.prems(1) by (simp_all add: x frame_ok_def)
  define c' where "c' = next_cksum big c (frame_start pg n) d"
  let ?h = "frame_header pg n salt c'"
  have f: "f = pre @ ?h @ d @ log_frames big salt c' L @ tail" using Cons.prems(3) by (simp add: x c'_def Let_def)
  have lh: "length ?h = 24" by (rule frame_header_parts(1) [OF salt])
  have fb: "frame_bytes f sz k = ?h @ d" using f lh ok(4) Cons.prems(4) by (simp add: frame_bytes_def)
  have k: "k \<le> last_in_file f sz" using f lh ok(4) Cons.prems(2,4) by (intro last_frame_fits) simp_all
  have parts: "take 24 (frame_bytes f sz k) = ?h" "drop 24 (frame_bytes f sz k) = d" "take 8 (frame_bytes f sz k) = frame_start pg n"
    using fb lh frame_header_parts(2) [OF salt, of pg n c'] by simp_all
  have v: "frame_valid big salt c (take 24 (frame_bytes f sz k)) (drop 24 (frame_bytes f sz k))"
    unfolding parts c'_def by (rule frame_valid_header [OF salt ok(1,2)])
  have "scan big salt sz f k c = (pg, n, c') # scan big salt sz f (Suc k) c'"
    by (rule scan_step [OF k v]) (simp_all add: parts frame_info_header [OF salt ok(2,3)] c'_def)
  also have "scan big salt sz f (Suc k) c' = log_scan big c' L @ scan big salt sz f (Suc k + length L) (log_cksum big c' L)"
  proof (rule Cons.IH)
    show "list_all (frame_ok sz) L" using Cons.prems(1) by simp
    show "f = (pre @ ?h @ d) @ log_frames big salt c' L @ tail" using f by simp
    show "length (pre @ ?h @ d) = walFrameOffset (Suc k) sz"
      unfolding walFrameOffset_Suc [OF Cons.prems(2)] using lh ok(4) Cons.prems(4) by simp
  qed simp
  finally show ?case by (simp add: x c'_def Let_def)
qed

lemma length_log_frames:
  assumes "length salt = 8"
  shows "list_all (frame_ok sz) L \<Longrightarrow> length (log_frames big salt c L) = length L * (sz + WAL_FRAME_HDRSIZE)"
proof (induction L arbitrary: c)
  case (Cons x L)
  then show ?case by (cases x) (simp add: frame_ok_def frame_header_parts(1) [OF assms] Let_def)
qed simp

text \<open>What lies behind the frames is not a valid frame: a torn write, old frames with another salt.\<close>

definition torn :: "bool \<Rightarrow> u8 list \<Rightarrow> nat \<Rightarrow> u32 \<times> u32 \<Rightarrow> u8 list \<Rightarrow> bool" where
  "torn big salt sz c tail \<longleftrightarrow> length tail < sz + WAL_FRAME_HDRSIZE \<or> \<not> frame_valid big salt c (take 24 tail) (take sz (drop 24 tail))"

lemma scan_torn:
  assumes "f = pre @ tail" "length pre = walFrameOffset k sz" "torn big salt sz c tail" "0 < k"
  shows "scan big salt sz f k c = []"
proof (rule scan_stop, rule notI)
  assume a: "k \<le> last_in_file f sz \<and> frame_valid big salt c (take 24 (frame_bytes f sz k)) (drop 24 (frame_bytes f sz k))"
  have "sz + WAL_FRAME_HDRSIZE \<le> length tail" using frame_in_file(1) [OF assms(4), of f sz] conjunct1 [OF a] assms(1,2) by simp
  moreover have "take 24 (frame_bytes f sz k) = take 24 tail" "drop 24 (frame_bytes f sz k) = take sz (drop 24 tail)"
    using assms(1,2) by (simp_all add: frame_bytes_def drop_take)
  ultimately show False using a assms(3) by (auto simp: torn_def)
qed

text \<open>The writer: a list of frames encoded one after the other.\<close>

fun write_frames :: "bool \<Rightarrow> Wal \<Rightarrow> (nat \<times> nat \<times> u8 list) list \<Rightarrow> (Wal \<times> u8 list) option" where
  "write_frames be w [] = Some (w, [])"
| "write_frames be w ((pg, n, d) # L) =
     do { (w, h) \<leftarrow> walEncodeFrame be w pg n d; (w, b) \<leftarrow> write_frames be w L; Some (w, h @ d @ b) }"

lemma write_frames_ok:
  "log_params big salt sz w \<Longrightarrow> iReCksum w = 0 \<Longrightarrow> list_all (frame_ok sz) L \<Longrightarrow>
   write_frames be w L = Some (set_cksum w (log_cksum big (aFrameCksum (hdr w)) L), log_frames big salt (aFrameCksum (hdr w)) L)"
proof (induction L arbitrary: w)
  case Nil
  then show ?case by (simp add: set_cksum_def)
next
  case (Cons x L)
  obtain pg n d where x: "x = (pg, n, d)" by (cases x) auto
  have P: "page_size_ok (szPage w)" "length d = szPage w" "bigEndCksum (hdr w) = big" "aSalt (hdr w) = salt"
    using Cons.prems(1,3) by (auto simp: log_params_def frame_ok_def x)
  define c where "c = next_cksum big (aFrameCksum (hdr w)) (frame_start pg n) d"
  have e: "walEncodeFrame be w pg n d = Some (set_cksum w c, frame_header pg n salt c)"
    using walEncodeFrame_ok [OF Cons.prems(2) P(1,2), of _ pg n be] P(3,4) by (simp add: c_def)
  have "log_params big salt sz (set_cksum w c)" "iReCksum (set_cksum w c) = 0"
    using Cons.prems(1,2) by (simp_all add: log_params_def set_cksum_def)
  from Cons.IH [OF this] Cons.prems(3) e show ?case by (simp add: x c_def Let_def set_cksum_def)
qed


section \<open>Reading the log header\<close>

lemma wal_header_parts:
  assumes "length salt = 8"
  shows "length (wal_header big sz k salt) = 32" "sqlite3Get4byte (wal_header big sz k salt) = Some (WAL_MAGIC OR of_bool big)"
    "sqlite3Get4byte (drop 4 (wal_header big sz k salt)) = Some 3007000"
    "sqlite3Get4byte (drop 8 (wal_header big sz k salt)) = Some (of_nat sz)"
    "sqlite3Get4byte (drop 12 (wal_header big sz k salt)) = Some (of_nat k)"
    "rd_bytes (wal_header big sz k salt) 16 8 = Some salt"
    "rd_bytes (wal_header big sz k salt) 0 24 = Some (wal_header_start big sz k salt)"
    "sqlite3Get4byte (drop 24 (wal_header big sz k salt)) = Some (fst (header_cksum big sz k salt))"
    "sqlite3Get4byte (drop 28 (wal_header big sz k salt)) = Some (snd (header_cksum big sz k salt))"
  using assms by (simp_all add: wal_header_def wal_header_start_def rd_bytes_def)

lemma page_size_power:
  assumes "9 \<le> j" "j \<le> 16" "sz = 2 ^ j"
  shows "sz AND (sz - 1) = 0" "512 \<le> sz" "sz \<le> 65536" "page_size_ok sz"
proof -
  show "sz AND (sz - 1) = 0" using assms(3) take_bit_eq_mask [of j "2 ^ j :: nat"] by (simp add: mask_eq_exp_minus_1)
  show a: "512 \<le> sz" "sz \<le> 65536"
    using assms power_increasing [of 9 j "2 :: nat"] power_increasing [of j 16 "2 :: nat"] by simp_all
  have "2 ^ 3 dvd (2 ^ j :: nat)" using assms(1) by (intro le_imp_power_dvd) simp
  then have "8 dvd sz" using assms(3) by simp
  with a show "page_size_ok sz" by (simp add: page_size_ok_def)
qed

lemma magic_bits: "(((WAL_MAGIC OR of_bool big) :: u32) AND 0xFFFFFFFE) = WAL_MAGIC" "bit ((WAL_MAGIC OR of_bool big) :: u32) 0 = big"
  by (cases big; simp)+

lemma bind_flag: "(X \<bind> (\<lambda>(w, s, ck, rc). Some (w, s, ck, rc, e))) = map_option (\<lambda>(w, s, ck, rc). (w, s, ck, rc, e)) X"
  by (cases X) auto

lemma bad_size_eq:
  "bad_size (sint z) = (if z = 0x80000000 then None else Some (let sz = sint z in sz AND (sz - 1) \<noteq> 0 \<or> 65536 < sz \<or> sz < 512))"
  for z :: u32
proof -
  have b: "- 2147483648 \<le> sint z" "sint z \<le> 2147483647"
    using sint_range_size [of z] by (simp_all add: word_size)
  have "sint z = - 2147483648 \<longleftrightarrow> z = 0x80000000"
  proof
    assume "sint z = - 2147483648"
    then have "sint z = sint (0x80000000 :: u32)" by simp
    then show "z = 0x80000000" by (simp only: signed_word_eqI)
  qed simp
  with b show ?thesis by (auto simp: bad_size_def i32_def in_i32_def Let_def)
qed

lemma sint_page_size: "n \<le> 65536 \<Longrightarrow> sint (of_nat n :: u32) = int n"
  by (simp add: signed_of_nat signed_take_bit_int_eq_self)

text \<open>Reading a log that starts with a header is reading its frames.\<close>

lemma recover_log_header:
  assumes f: "f = wal_header big sz k salt @ r" and salt: "length salt = 8" and sz: "9 \<le> j" "j \<le> 16" "sz = 2 ^ j"
    and E: "no_read_errors os"
  shows "\<exists>v. recover_log os f w s =
    (if \<not> mallocOk (env os) (sz + WAL_FRAME_HDRSIZE + WALINDEX_PGSZ) then Some (v, s, (0, 0), SQLITE_NOMEM, True)
     else map_option (\<lambda>(w, s, ck, rc). (w, s, ck, rc, False))
       (recover_pages os f (last_in_file f sz) 0 (walFramePage (last_in_file f sz) + 1) v s (0, 0) SQLITE_OK)) \<and>
    hdr v = (hdr w)\<lparr>bigEndCksum := big, aSalt := salt, aFrameCksum := header_cksum big sz k salt\<rparr> \<and> szPage v = sz \<and>
    writeLock v = writeLock w \<and> apWiData v = apWiData w \<and> exclusiveMode v = exclusiveMode w"
proof -
  define b where "b = wal_header big sz k salt"
  note H = wal_header_parts [OF salt, of big sz k, folded b_def]
  note S = page_size_power [OF sz]
  have rd: "osRead os f WAL_HDRSIZE 0 = (SQLITE_OK, b)"
    using E H(1) by (simp add: osRead_def no_read_errors_def f b_def [symmetric])
  have z: "sint (of_nat sz :: u32) = int sz" by (rule sint_page_size [OF S(3)])
  have "int sz AND (int sz - 1) = int (sz AND (sz - 1))"
    using S(2) by (simp add: of_nat_and_eq of_nat_diff)
  then have good: "bad_size (int sz) = Some False"
    using S(1-3) by (simp add: bad_size_def i32_def in_i32_def)
  define v where "v = set_cksum (w\<lparr>szPage := sz, nCkpt := unat (of_nat k :: u32),
     hdr := (hdr w)\<lparr>bigEndCksum := big, aSalt := salt\<rparr>\<rparr>) (header_cksum big sz k salt)"
  have c: "walChecksumBytes (bigEndian os) (big = bigEndian os) (wal_header_start big sz k salt) None = Some (header_cksum big sz k salt)"
    using salt by (simp add: walChecksumBytes_None walChecksumBytes_eq wal_header_start_def header_cksum_def)
  have "recover_log os f w s =
    (if \<not> mallocOk (env os) (sz + WAL_FRAME_HDRSIZE + WALINDEX_PGSZ) then Some (v, s, (0, 0), SQLITE_NOMEM, True)
     else map_option (\<lambda>(w, s, ck, rc). (w, s, ck, rc, False))
       (recover_pages os f (last_in_file f sz) 0 (walFramePage (last_in_file f sz) + 1) v s (0, 0) SQLITE_OK))"
    using S(1-3) c unfolding recover_log_def rd v_def last_in_file_def
    by (simp add: H z good magic_bits bind_flag Let_def del: recover_pages.simps)
  then show ?thesis by (intro exI [of _ v]) (simp add: v_def set_cksum_def)
qed


section \<open>Writing the header of the index\<close>

lemma length_host_bytes [simp]: "length (host_bytes be v) = 4" "length (host_bytes2 be n) = 2"
  by (simp_all add: host_bytes_def host_bytes2_def)

lemma hdr_bytes_cksum [simp]: "hdr_bytes be (h\<lparr>aCksum := c\<rparr>) = hdr_bytes be h"
  by (simp add: hdr_bytes_def)

lemma length_hdr_bytes: "length (aSalt h) = 8 \<Longrightarrow> length (hdr_bytes be h) = 40"
  by (simp add: hdr_bytes_def)

lemma walIndexWriteHdr_ok:
  assumes "length (aSalt (hdr w)) = 8" "mapped w 0" "writeLock w"
  shows "\<exists>c. let h = (hdr w)\<lparr>isInit := True, iVersion := WAL_MAX_VERSION, aCksum := c\<rparr>
    in walIndexWriteHdr be w s = Some (w\<lparr>hdr := h\<rparr>, s\<lparr>wiHdr := (h, h)\<rparr>) \<and> c = cksum be (hdr_bytes be h) (0, 0)"
  by (rule exI [of _ "cksum be (hdr_bytes be ((hdr w)\<lparr>isInit := True, iVersion := WAL_MAX_VERSION\<rparr>)) (0, 0)"])
    (simp add: assms walIndexWriteHdr_def walChecksumBytes_None walChecksumBytes_eq [of be be, simplified] length_hdr_bytes Let_def)

lemma recover_marks_ok: "(\<And>i. lockRc os i 1 = SQLITE_OK) \<Longrightarrow> rc = SQLITE_OK \<Longrightarrow> snd (recover_marks os w i k marks rc) = SQLITE_OK"
  by (induction k arbitrary: i marks rc) (simp_all add: walLockExclusive_def Let_def)

section \<open>Recovery restores the last commit\<close>

text \<open>No call to the operating system or the allocator fails.\<close>

definition no_failures :: "walOs \<Rightarrow> bool" where
  "no_failures os \<longleftrightarrow> no_map_errors (env os) \<and> (\<forall>i n. lockRc os i n = SQLITE_OK) \<and> sizeRc os = SQLITE_OK"

text \<open>The state that is recovered from a log with the frames \<open>L\<close>.\<close>

definition recovered :: "(nat \<times> nat \<times> (u32 \<times> u32)) list \<Rightarrow> Wal \<Rightarrow> walShm \<Rightarrow> bool" where
  "recovered L w s \<longleftrightarrow> (mxFrame (hdr w), nPage (hdr w), aFrameCksum (hdr w)) = last_commit 1 L (0, 0, 0, 0) \<and>
     wi_ok w s (map fst L) \<and> isInit (hdr w) \<and> wiHdr s = (hdr w, hdr w) \<and> nBackfill (ckptInfo s) = 0 \<and>
     nBackfillAttempted (ckptInfo s) = mxFrame (hdr w)"

lemma recover_end:
  assumes "length (aSalt (hdr w)) = 8" "commit_state w ck = last_commit 1 L (0, 0, 0, 0)" "wi_ok w s (map fst L)"
    "mapped w 0" "writeLock w"
  shows "\<exists>w' s' rc. (do {
      (w, s) \<leftarrow> walIndexWriteHdr (bigEndian os) (set_cksum w ck) s;
      let (marks, rc) = recover_marks os w 1 (WAL_NREADER - 1) ((aReadMark (ckptInfo s))[0 := 0]) SQLITE_OK;
      Some (w, s\<lparr>ckptInfo := (ckptInfo s)\<lparr>nBackfill := 0, nBackfillAttempted := mxFrame (hdr w), aReadMark := marks\<rparr>\<rparr>, rc)
    }) = Some (w', s', rc) \<and> recovered L w' s' \<and> (no_failures os \<longrightarrow> rc = SQLITE_OK)"
proof -
  have "length (aSalt (hdr (set_cksum w ck))) = 8" "mapped (set_cksum w ck) 0" "writeLock (set_cksum w ck)"
    using assms(1,4,5) by simp_all
  from walIndexWriteHdr_ok [OF this, of "bigEndian os" s]
  obtain c h where h: "h = (hdr (set_cksum w ck))\<lparr>isInit := True, iVersion := WAL_MAX_VERSION, aCksum := c\<rparr>"
    "walIndexWriteHdr (bigEndian os) (set_cksum w ck) s = Some ((set_cksum w ck)\<lparr>hdr := h\<rparr>, s\<lparr>wiHdr := (h, h)\<rparr>)"
    by (auto simp: Let_def)
  obtain marks rc where m: "recover_marks os ((set_cksum w ck)\<lparr>hdr := h\<rparr>) 1 (WAL_NREADER - 1) ((aReadMark (ckptInfo s))[0 := 0]) SQLITE_OK =
    (marks, rc)" by fastforce
  have "no_failures os \<longrightarrow> rc = SQLITE_OK"
    using recover_marks_ok [of os SQLITE_OK "(set_cksum w ck)\<lparr>hdr := h\<rparr>" 1 "WAL_NREADER - 1" "(aReadMark (ckptInfo s))[0 := 0]"]
    unfolding m by (simp add: no_failures_def)
  moreover have "wi_ok ((set_cksum w ck)\<lparr>hdr := h\<rparr>) (s\<lparr>wiHdr := (h, h), ckptInfo := i\<rparr>) (map fst L)" for i
    using assms(3) by (simp add: wi_ok_def has_page_def mapped_def shared_def)
  ultimately show ?thesis
    using h m assms(2) by (simp add: recovered_def commit_state_def)
qed


lemma scan_whole:
  assumes f: "f = wal_header big sz k salt @ log_frames big salt (header_cksum big sz k salt) L @ tail"
    and salt: "length salt = 8" and L: "list_all (frame_ok sz) L"
    and tail: "torn big salt sz (log_cksum big (header_cksum big sz k salt) L) tail"
  shows "scan big salt sz f 1 (header_cksum big sz k salt) = log_scan big (header_cksum big sz k salt) L"
proof -
  let ?c = "header_cksum big sz k salt"
  have "scan big salt sz f 1 ?c = log_scan big ?c L @ scan big salt sz f (1 + length L) (log_cksum big ?c L)"
    by (rule scan_log [OF salt L _ f]) (simp_all add: wal_header_parts(1) [OF salt] walFrameOffset_def)
  also have "scan big salt sz f (1 + length L) (log_cksum big ?c L) = []"
    by (rule scan_torn [where pre = "wal_header big sz k salt @ log_frames big salt ?c L", OF _ _ tail])
      (simp_all add: f wal_header_parts(1) [OF salt] length_log_frames [OF salt L] walFrameOffset_def)
  finally show ?thesis by simp
qed

text \<open>Recovery after the locks are taken and the size of the log is known.\<close>

lemma recover_body:
  assumes f: "f = wal_header big sz k salt @ log_frames big salt (header_cksum big sz k salt) L @ tail"
    and salt: "length salt = 8" and sz: "9 \<le> j" "j \<le> 16" "sz = 2 ^ j" and L: "list_all (frame_ok sz) L"
    and tail: "torn big salt sz (log_cksum big (header_cksum big sz k salt) L) tail"
    and E: "no_read_errors os" "map_law (env os)" and w: "writeLock w" "mapped w 0 \<or> WAL_HDRSIZE < length f" and w1_def: "w1 = w\<lparr>hdr := zero_hdr\<rparr>"
  shows "\<exists>w' s' rc. (do {
      (w, s, ck, rc, err) \<leftarrow> (if WAL_HDRSIZE < length f then recover_log os f w1 s else Some (w1, s, (0, 0), SQLITE_OK, False));
      if err \<or> rc \<noteq> SQLITE_OK then Some (w, s, rc)
      else do {
        (w, s) \<leftarrow> walIndexWriteHdr (bigEndian os) (set_cksum w ck) s;
        let (marks, rc) = recover_marks os w 1 (WAL_NREADER - 1) ((aReadMark (ckptInfo s))[0 := 0]) SQLITE_OK;
        Some (w, s\<lparr>ckptInfo := (ckptInfo s)\<lparr>nBackfill := 0, nBackfillAttempted := mxFrame (hdr w), aReadMark := marks\<rparr>\<rparr>, rc)
      }}) = Some (w', s', rc) \<and> (rc = SQLITE_OK \<longrightarrow> recovered (log_scan big (header_cksum big sz k salt) L) w' s') \<and> (no_failures os \<longrightarrow> rc = SQLITE_OK)"
proof -
  let ?c = "header_cksum big sz k salt"
  let ?L = "log_scan big ?c L"
  show ?thesis
  proof (cases "WAL_HDRSIZE < length f")
    case False
    then have "L = []" using wal_header_parts(1) [OF salt, of big sz k] length_log_frames [OF salt L, of big ?c] by (simp add: f)
    moreover have "length (aSalt (hdr w1)) = 8" "commit_state w1 (0, 0) = (0, 0, 0, 0)" "mapped w1 0" "writeLock w1"
      using w False by (simp_all add: w1_def zero_hdr_def commit_state_def)
    ultimately show ?thesis
      using recover_end [of w1 "(0, 0)" "[]" s os] wi_ok_empty False by (auto split: prod.splits)
  next
    case True
    obtain v where v: "recover_log os f w1 s =
      (if \<not> mallocOk (env os) (sz + WAL_FRAME_HDRSIZE + WALINDEX_PGSZ) then Some (v, s, (0, 0), SQLITE_NOMEM, True)
       else map_option (\<lambda>(w, s, ck, rc). (w, s, ck, rc, False))
         (recover_pages os f (last_in_file f sz) 0 (walFramePage (last_in_file f sz) + 1) v s (0, 0) SQLITE_OK))"
      "hdr v = (hdr w1)\<lparr>bigEndCksum := big, aSalt := salt, aFrameCksum := ?c\<rparr>" "szPage v = sz" "writeLock v = writeLock w1"
      using recover_log_header [OF f salt sz E(1), of w1 s] by auto
    show ?thesis
    proof (cases "mallocOk (env os) (sz + WAL_FRAME_HDRSIZE + WALINDEX_PGSZ)")
      case no: False
      then have "\<not> no_failures os" by (auto simp: no_failures_def no_map_errors_def)
      then show ?thesis using v(1) no True by simp
    next
      case yes: True
      have P: "log_params big salt sz v" using v(2,3) page_size_power(4) [OF sz] salt by (simp add: log_params_def)
      have c0: "aFrameCksum (hdr v) = ?c" "commit_state v (0, 0) = (0, 0, 0, 0)"
        using v(2) by (simp_all add: w1_def zero_hdr_def commit_state_def)
      have sc: "scan big salt sz f 1 ?c = ?L" by (rule scan_whole [OF f salt L tail])
      obtain w2 s2 ck rc where q: "recover_pages os f (last_in_file f sz) 0 (walFramePage (last_in_file f sz) + 1) v s (0, 0) SQLITE_OK =
          Some (w2, s2, ck, rc)" "no_map_errors (env os) \<longrightarrow> rc = SQLITE_OK"
        "rc = SQLITE_OK \<longrightarrow> log_params big salt sz w2 \<and> writeLock w2 \<and> mapped w2 0 \<and> wi_ok w2 s2 (map fst ?L) \<and> commit_state w2 ck = last_commit 1 ?L (0, 0, 0, 0)"
        using recover_pages_ok [OF E P wi_ok_empty, where iPg = 0 and s = s and ck = "(0, 0)" and rz = SQLITE_OK
          and f = f and k = "walFramePage (last_in_file f sz) + 1"] v(4) w(1) sc
        by (auto simp: c0 iZero_def w1_def)
      show ?thesis
      proof (cases "rc = SQLITE_OK")
        case bad: False
        then have "\<not> no_failures os" using q(2) by (auto simp: no_failures_def)
        then show ?thesis using v(1) yes True q(1) bad by simp
      next
        case good: True
        with q(3) have "length (aSalt (hdr w2)) = 8" "commit_state w2 ck = last_commit 1 ?L (0, 0, 0, 0)" "wi_ok w2 s2 (map fst ?L)"
          "mapped w2 0" "writeLock w2"
          by (simp_all add: log_params_def)
        from recover_end [OF this, where os = os] show ?thesis using v(1) yes True q(1) good by auto
      qed
    qed
  qed
qed

text \<open>
  C2: Recovery of the write-ahead log undoes nothing that was committed and nothing else survives:
  from a log header, any frames written after it and a tail that does not go on with a valid frame
  (a torn write, or frames left from before the log was restarted), \<open>walIndexRecover\<close> sets the header
  of the index to the last commit frame (its number, the database size in it and the checksum up
  to it), enters every frame into the hash tables, publishes the header twice and resets the
  checkpoint information. It does so whatever the byte order of the machine is and of the log;
  without failing calls it succeeds, and it never ends in an undefined state.
\<close>

theorem wal_recover:
  assumes f: "f = wal_header big sz k salt @ log_frames big salt (header_cksum big sz k salt) L @ tail"
    and salt: "length salt = 8" and sz: "9 \<le> j" "j \<le> 16" "sz = 2 ^ j" and L: "list_all (frame_ok sz) L"
    and tail: "torn big salt sz (log_cksum big (header_cksum big sz k salt) L) tail"
    and E: "no_read_errors os" "map_law (env os)" and w: "writeLock w" "mapped w 0 \<or> WAL_HDRSIZE < length f"
  shows "\<exists>w' s' rc. walIndexRecover os f w s = Some (w', s', rc) \<and>
    (rc = SQLITE_OK \<longrightarrow> recovered (log_scan big (header_cksum big sz k salt) L) w' s') \<and> (no_failures os \<longrightarrow> rc = SQLITE_OK)"
proof -
  define w1 where "w1 = w\<lparr>hdr := zero_hdr\<rparr>"
  note body = recover_body [OF assms w1_def, of s]
  define rl where "rl = (let iLock = WAL_ALL_BUT_WRITE + (if ckptLock w then 1 else 0) in walLockExclusive os w iLock (WAL_READ_LOCK 0 - iLock))"
  consider "rl \<noteq> SQLITE_OK" | "rl = SQLITE_OK" "sizeRc os \<noteq> SQLITE_OK" | "rl = SQLITE_OK" "sizeRc os = SQLITE_OK" by blast
  then show ?thesis
  proof cases
    case 1
    have "no_failures os \<longrightarrow> rl = SQLITE_OK" by (simp add: rl_def no_failures_def walLockExclusive_def Let_def)
    moreover have "walIndexRecover os f w s = Some (w, s, rl)" using 1 w(1) unfolding walIndexRecover_def Let_def rl_def by simp
    ultimately show ?thesis using 1 by simp
  next
    case 2
    then have "walIndexRecover os f w s = Some (w1, s, sizeRc os)" using w(1) unfolding walIndexRecover_def Let_def rl_def w1_def by simp
    then show ?thesis using 2 by (simp add: no_failures_def)
  next
    case 3
    show ?thesis using body 3 w(1) unfolding walIndexRecover_def Let_def rl_def w1_def by simp
  qed
qed


text \<open>A log with one committed frame.\<close>

definition os0 :: walOs where
  "os0 = \<lparr>env = env0, bigEndian = False, readRc = (\<lambda>x n. SQLITE_OK), sizeRc = SQLITE_OK, lockRc = (\<lambda>i n. SQLITE_OK), junk = zero_page\<rparr>"

theorem wal_recover_witness:
  "\<exists>w s. walIndexRecover os0 (wal_header False 512 0 (replicate 8 0) @
       log_frames False (replicate 8 0) (header_cksum False 512 0 (replicate 8 0)) [(5, 7, replicate 512 0)] @ [1, 2]) wal0 shm0 =
     Some (w, s, SQLITE_OK) \<and> mxFrame (hdr w) = 1 \<and> nPage (hdr w) = 7 \<and> wi_ok w s [5]"
proof -
  let ?c = "header_cksum False 512 0 (replicate 8 0)"
  have a: "list_all (frame_ok 512) [(5, 7, replicate 512 0)]" "torn False (replicate 8 0) 512 c [1, 2]"
    "no_read_errors os0" "map_law (env os0)" "writeLock wal0" "no_failures os0" for c
    by (simp_all add: frame_ok_def torn_def os0_def env0_def wal0_def no_read_errors_def map_law_def no_failures_def no_map_errors_def)
  obtain w s where q: "walIndexRecover os0 (wal_header False 512 0 (replicate 8 0) @
       log_frames False (replicate 8 0) ?c [(5, 7, replicate 512 0)] @ [1, 2]) wal0 shm0 = Some (w, s, SQLITE_OK)"
     "recovered (log_scan False ?c [(5, 7, replicate 512 0)]) w s"
    using wal_recover [OF refl _ _ _ _ a(1) a(2) a(3,4,5), of 9 0 shm0] a(6) by (auto simp: wal0_def mapped_def)
  from q(2) have "mxFrame (hdr w) = 1 \<and> nPage (hdr w) = 7 \<and> wi_ok w s [5]" by (simp add: recovered_def Let_def)
  with q(1) show ?thesis by blast
qed

end
