(* ===== verification/WalCkpt.thy ===== *)
theory WalCkpt
  imports WalIter WalRecover
begin

text \<open>
  The checkpoint of the write-ahead log: \<open>walCheckpoint\<close> of \<^verbatim>\<open>src/wal.c\<close> with \<open>walBusyLock\<close>,
  \<open>walPagesize\<close> and \<open>walRestartHdr\<close>, and the way a page is read by a connection in WAL mode,
  \<open>sqlite3WalReadFrame\<close> and \<open>readDbPage\<close> of \<^verbatim>\<open>src/pager.c\<close>. The database file and the log file are
  lists of bytes. What the operating system and the callbacks answer are parameters (\<open>ckptEnv\<close>). The
  checkpoint is one step of the model: what other connections do in the meantime is not modelled.
\<close>

section \<open>The environment\<close>

abbreviation (input) SQLITE_INTERRUPT :: nat where "SQLITE_INTERRUPT \<equiv> 9"
abbreviation (input) SQLITE_CHECKPOINT_PASSIVE :: nat where "SQLITE_CHECKPOINT_PASSIVE \<equiv> 0"
abbreviation (input) SQLITE_CHECKPOINT_RESTART :: nat where "SQLITE_CHECKPOINT_RESTART \<equiv> 2"
abbreviation (input) SQLITE_CHECKPOINT_TRUNCATE :: nat where "SQLITE_CHECKPOINT_TRUNCATE \<equiv> 3"

text \<open>
  \<open>tryLock\<close> answers the \<open>k\<close>-th request for an exclusive lock (first lock, number of locks);
  \<open>busyHandler\<close> gives the result of the busy handler after that request. Writing and truncating give the
  result code and the new content of the file, \<open>interrupted\<close> is the interrupt flag when a page is
  about to be copied, \<open>salt1\<close> the bytes of the random salt.
\<close>

record ckptEnv =
  tryLock :: "nat \<Rightarrow> nat \<Rightarrow> nat \<Rightarrow> nat"
  busyHandler :: "(nat \<Rightarrow> bool) option"
  syncWal :: nat
  syncDb :: nat
  dbSizeRc :: nat
  dbWrite :: "u8 list \<Rightarrow> nat \<Rightarrow> u8 list \<Rightarrow> nat \<times> u8 list"
  dbTruncate :: "u8 list \<Rightarrow> nat \<Rightarrow> nat \<times> u8 list"
  walTruncate :: "u8 list \<Rightarrow> nat \<Rightarrow> nat \<times> u8 list"
  interrupted :: "nat \<Rightarrow> bool"
  mallocFailed :: bool
  salt1 :: "u8 list"

section \<open>Locks and the header\<close>

text \<open>The loop ends when the handler gives up.\<close>

partial_function (option) walBusyLock :: "ckptEnv \<Rightarrow> Wal \<Rightarrow> (nat \<Rightarrow> bool) option \<Rightarrow> nat \<Rightarrow> nat \<Rightarrow> nat \<Rightarrow> (nat \<times> nat) option" where
  "walBusyLock ck w xBusy lockIdx n k =
     (let rc = (if exclusiveMode w \<noteq> 0 then SQLITE_OK else tryLock ck k lockIdx n)
      in if rc = SQLITE_BUSY \<and> (case xBusy of None \<Rightarrow> False | Some h \<Rightarrow> h k) then walBusyLock ck w xBusy lockIdx n (k + 1)
         else Some (rc, k + 1))"

definition walPagesize :: "Wal \<Rightarrow> nat" where
  "walPagesize w = (hszPage (hdr w) AND 0xfe00) + (hszPage (hdr w) AND 1) * 2 ^ 16"

definition walRestartHdr :: "bool \<Rightarrow> Wal \<Rightarrow> walShm \<Rightarrow> u8 list \<Rightarrow> (Wal \<times> walShm) option" where
  "walRestartHdr be w s salt =
     do {
       v \<leftarrow> sqlite3Get4byte (aSalt (hdr w));
       let w = w\<lparr>nCkpt := (nCkpt w + 1) mod 2 ^ 32,
                 hdr := (hdr w)\<lparr>mxFrame := 0, aSalt := sqlite3Put4byte (1 + v) @ salt\<rparr>\<rparr>;
       (w, s) \<leftarrow> walIndexWriteHdr be w s;
       let marks = (aReadMark (ckptInfo s))[1 := 0, 2 := READMARK_NOT_USED, 3 := READMARK_NOT_USED, 4 := READMARK_NOT_USED];
       if marks ! 0 \<noteq> 0 then None
       else Some (w, s\<lparr>ckptInfo := \<lparr>nBackfill = 0, aReadMark = marks, nBackfillAttempted = 0\<rparr>\<rparr>)
     }"

section \<open>The checkpoint\<close>

text \<open>
  The loop that computes \<open>mxSafeFrame\<close>, from slot \<open>i\<close> on. The result: the read marks, \<open>mxSafeFrame\<close>,
  the busy handler still in use, the number of lock requests, \<open>rc\<close>, and whether an error ends the checkpoint.
\<close>

primrec ckpt_marks :: "ckptEnv \<Rightarrow> Wal \<Rightarrow> nat \<Rightarrow> nat \<Rightarrow> nat list \<Rightarrow> nat \<Rightarrow> (nat \<Rightarrow> bool) option \<Rightarrow> nat \<Rightarrow> nat \<Rightarrow>
    (nat list \<times> nat \<times> (nat \<Rightarrow> bool) option \<times> nat \<times> nat \<times> bool) option" where
  "ckpt_marks ck w i 0 marks mxSafeFrame xBusy k rc = Some (marks, mxSafeFrame, xBusy, k, rc, False)"
| "ckpt_marks ck w i (Suc m) marks mxSafeFrame xBusy k rc =
     do {
       y \<leftarrow> rd marks i;
       if y < mxSafeFrame then
         if mxFrame (hdr w) < y then None
         else do {
           (rc, k) \<leftarrow> walBusyLock ck w xBusy (WAL_READ_LOCK i) 1 k;
           if rc = SQLITE_OK then
             ckpt_marks ck w (i + 1) m (marks[i := if i = 1 then mxSafeFrame else READMARK_NOT_USED]) mxSafeFrame xBusy k rc
           else if rc = SQLITE_BUSY then ckpt_marks ck w (i + 1) m marks y None k rc
           else Some (marks, mxSafeFrame, xBusy, k, rc, True)
         }
       else ckpt_marks ck w (i + 1) m marks mxSafeFrame xBusy k rc
     }"

text \<open>
  The loop that copies pages; the result is \<open>rc\<close> and the database file. \<open>None\<close> includes the assertion
  that the index has the page that the iterator delivers for the frame.
\<close>

function ckpt_copy :: "walOs \<Rightarrow> ckptEnv \<Rightarrow> u8 list \<Rightarrow> Wal \<Rightarrow> walShm \<Rightarrow> nat \<Rightarrow> nat \<Rightarrow> nat \<Rightarrow> nat \<Rightarrow> WalIterator \<Rightarrow> nat \<Rightarrow> u8 list \<Rightarrow> (nat \<times> u8 list) option" where
  "ckpt_copy os ck f w s sz nBack mxSafeFrame mxPage it pf d =
     do {
       (it', iDbpage, iFrame, done) \<leftarrow> walIteratorNext it pf;
       if done then Some (SQLITE_OK, d)
       else if walFramePgno w s iFrame \<noteq> Some iDbpage then None
       else if interrupted ck iDbpage then Some (if mallocFailed ck then SQLITE_NOMEM else SQLITE_INTERRUPT, d)
       else if iFrame \<le> nBack \<or> mxSafeFrame < iFrame \<or> mxPage < iDbpage then
         ckpt_copy os ck f w s sz nBack mxSafeFrame mxPage it' iFrame d
       else
         let (rc, zBuf) = osRead os f sz (walFrameOffset iFrame sz + WAL_FRAME_HDRSIZE)
         in if rc \<noteq> SQLITE_OK then Some (rc, d)
            else
              let (rc, d) = dbWrite ck d ((iDbpage - 1) * sz) zBuf
              in if rc \<noteq> SQLITE_OK then Some (rc, d) else ckpt_copy os ck f w s sz nBack mxSafeFrame mxPage it' iFrame d
     }"
  by pat_completeness auto
termination
  by (relation "measure (\<lambda>(os, ck, f, w, s, sz, n, x, m, it, pf, d). 0xFFFFFFFF - iPrior it)") (auto dest!: walIteratorNext_prior)

declare ckpt_copy.simps [simp del]

text \<open>What is done while \<open>WAL_READ_LOCK(0)\<close> is held.\<close>

definition ckpt_backfill :: "walOs \<Rightarrow> ckptEnv \<Rightarrow> u8 list \<Rightarrow> nat \<Rightarrow> Wal \<Rightarrow> walShm \<Rightarrow> WalIterator \<Rightarrow> u8 list \<Rightarrow> (walShm \<times> u8 list \<times> nat) option" where
  "ckpt_backfill os ck f mxSafeFrame w s it d =
     (let szPage = walPagesize w; mxPage = nPage (hdr w);
          nBack = nBackfill (ckptInfo s);
          s = s\<lparr>ckptInfo := (ckptInfo s)\<lparr>nBackfillAttempted := mxSafeFrame\<rparr>\<rparr>;
          nReq = mxPage * szPage;
          rc = (if syncWal ck \<noteq> SQLITE_OK then syncWal ck
                else if dbSizeRc ck \<noteq> SQLITE_OK then dbSizeRc ck
                else if length d < nReq \<and> length d + 65536 + mxFrame (hdr w) * szPage < nReq then SQLITE_CORRUPT
                else SQLITE_OK)
      in do {
        (rc, d) \<leftarrow> (if rc = SQLITE_OK then ckpt_copy os ck f w s szPage nBack mxSafeFrame mxPage it 0 d else Some (rc, d));
        let (rc, d) = (if rc = SQLITE_OK \<and> mxSafeFrame = mxFrame (fst (wiHdr s)) then
            let (rc, d) = dbTruncate ck d (nPage (hdr w) * szPage) in (if rc = SQLITE_OK then syncDb ck else rc, d)
          else (rc, d));
        Some (if rc = SQLITE_OK then s\<lparr>ckptInfo := (ckptInfo s)\<lparr>nBackfill := mxSafeFrame\<rparr>\<rparr> else s, d, rc)
      })"

text \<open>The first half of the checkpoint; the flag tells that it ends with an error code.\<close>

definition ckpt_pages :: "walOs \<Rightarrow> ckptEnv \<Rightarrow> u8 list \<Rightarrow> (nat \<Rightarrow> bool) option \<Rightarrow> Wal \<Rightarrow> walShm \<Rightarrow> u8 list \<Rightarrow>
    (Wal \<times> walShm \<times> u8 list \<times> (nat \<Rightarrow> bool) option \<times> nat \<times> nat) option" where
  "ckpt_pages os ck f xBusy w s d =
     do {
       (marks, mxSafeFrame, xBusy, k, rc, err) \<leftarrow>
         ckpt_marks ck w 1 (WAL_NREADER - 1) (aReadMark (ckptInfo s)) (mxFrame (hdr w)) xBusy 0 SQLITE_OK;
       let s = s\<lparr>ckptInfo := (ckptInfo s)\<lparr>aReadMark := marks\<rparr>\<rparr>;
       if err then Some (w, s, d, xBusy, k, rc)
       else do {
         (w, s, rc, pIter) \<leftarrow> (if nBackfill (ckptInfo s) < mxSafeFrame then walIteratorInit (env os) w s (nBackfill (ckptInfo s))
            else Some (w, s, rc, None));
         (case pIter of
            None \<Rightarrow> Some (w, s, d, xBusy, k, if rc = SQLITE_BUSY then SQLITE_OK else rc)
          | Some it \<Rightarrow> do {
              (rc, k) \<leftarrow> walBusyLock ck w xBusy (WAL_READ_LOCK 0) 1 k;
              if rc \<noteq> SQLITE_OK then Some (w, s, d, xBusy, k, if rc = SQLITE_BUSY then SQLITE_OK else rc)
              else do {
                (s, d, rc) \<leftarrow> ckpt_backfill os ck f mxSafeFrame w s it d;
                Some (w, s, d, xBusy, k, if rc = SQLITE_BUSY then SQLITE_OK else rc)
              }
            })
       }
     }"

text \<open>The second half, for the modes FULL, RESTART and TRUNCATE.\<close>

definition ckpt_restart :: "walOs \<Rightarrow> ckptEnv \<Rightarrow> nat \<Rightarrow> (nat \<Rightarrow> bool) option \<Rightarrow> nat \<Rightarrow> Wal \<Rightarrow> walShm \<Rightarrow> u8 list \<Rightarrow> (Wal \<times> walShm \<times> u8 list \<times> nat) option" where
  "ckpt_restart os ck eMode xBusy k w s f =
     (if \<not> writeLock w then None
      else if nBackfill (ckptInfo s) < mxFrame (hdr w) then Some (w, s, f, SQLITE_BUSY)
      else if eMode < SQLITE_CHECKPOINT_RESTART then Some (w, s, f, SQLITE_OK)
      else if nBackfill (ckptInfo s) \<noteq> mxFrame (hdr w) then None
      else do {
        (rc, k) \<leftarrow> walBusyLock ck w xBusy (WAL_READ_LOCK 1) (WAL_NREADER - 1) k;
        if rc \<noteq> SQLITE_OK then Some (w, s, f, rc)
        else if eMode = SQLITE_CHECKPOINT_TRUNCATE then do {
          (w, s) \<leftarrow> walRestartHdr (bigEndian os) w s (salt1 ck);
          let (rc, f) = walTruncate ck f 0;
          Some (w, s, f, rc)
        }
        else Some (w, s, f, SQLITE_OK)
      })"

text \<open>\<open>None\<close> includes that the first page of the index is not mapped (\<open>walCkptInfo\<close>).\<close>

definition walCheckpoint :: "walOs \<Rightarrow> ckptEnv \<Rightarrow> nat \<Rightarrow> Wal \<Rightarrow> walShm \<Rightarrow> u8 list \<Rightarrow> u8 list \<Rightarrow> (Wal \<times> walShm \<times> u8 list \<times> u8 list \<times> nat) option" where
  "walCheckpoint os ck eMode w s f d =
     (if \<not> mapped w 0 then None else do {
       (w, s, d, xBusy, k, rc) \<leftarrow> (if nBackfill (ckptInfo s) < mxFrame (hdr w) then
            if eMode = SQLITE_CHECKPOINT_PASSIVE \<and> busyHandler ck \<noteq> None then None
            else ckpt_pages os ck f (busyHandler ck) w s d
          else Some (w, s, d, busyHandler ck, 0, SQLITE_OK));
       if rc = SQLITE_OK \<and> eMode \<noteq> SQLITE_CHECKPOINT_PASSIVE then do {
         (w, s, f, rc) \<leftarrow> ckpt_restart os ck eMode xBusy k w s f;
         Some (w, s, f, d, rc)
       }
       else Some (w, s, f, d, rc)
     })"

section \<open>Reading a page\<close>

definition sqlite3WalReadFrame :: "walOs \<Rightarrow> Wal \<Rightarrow> u8 list \<Rightarrow> nat \<Rightarrow> nat \<Rightarrow> nat \<times> u8 list" where
  "sqlite3WalReadFrame os w f iRead nOut =
     (let sz = hszPage (hdr w); sz = (sz AND 0xfe00) + (sz AND 1) * 2 ^ 16
      in osRead os f (if sz < nOut then sz else nOut) (walFrameOffset iRead sz + WAL_FRAME_HDRSIZE))"

text \<open>The result code and the bytes read, for a connection that uses the log.\<close>

definition readDbPage :: "walOs \<Rightarrow> Wal \<Rightarrow> walShm \<Rightarrow> u8 list \<Rightarrow> u8 list \<Rightarrow> nat \<Rightarrow> nat \<Rightarrow> (nat \<times> u8 list) option" where
  "readDbPage os w s f d pgno pageSize =
     do {
       (w, s, rc, iFrame) \<leftarrow> walFindFrame (env os) w s pgno;
       if rc \<noteq> SQLITE_OK then Some (rc, [])
       else if iFrame \<noteq> 0 then Some (sqlite3WalReadFrame os w f iFrame pageSize)
       else let (rc, z) = osRead os d pageSize ((pgno - 1) * pageSize)
            in Some (if rc = SQLITE_IOERR_SHORT_READ then SQLITE_OK else rc, z)
     }"


section \<open>Bytes of a file\<close>

text \<open>A file reads as zeros behind its end.\<close>

definition byte :: "u8 list \<Rightarrow> nat \<Rightarrow> u8" where
  "byte d i = (if i < length d then d ! i else 0)"

lemma file_read_bytes: "file_read d ofs n = map (\<lambda>i. byte d (ofs + i)) [0..<n]"
  by (rule nth_equalityI) (auto simp: file_read_def byte_def Let_def nth_append)

lemma file_read_cong: "(\<And>i. ofs \<le> i \<Longrightarrow> i < ofs + n \<Longrightarrow> byte d' i = byte d i) \<Longrightarrow> file_read d' ofs n = file_read d ofs n"
  by (simp add: file_read_bytes)

lemma byte_file_write: "byte (file_write d ofs z) i = (if ofs \<le> i \<and> i < ofs + length z then z ! (i - ofs) else byte d i)"
  by (auto simp: byte_def file_write_def nth_append min_def not_less)

text \<open>What is relied on about the file system: a write that succeeds writes, one that fails stays within its range, and truncation keeps what lies before.\<close>

definition db_laws :: "ckptEnv \<Rightarrow> bool" where
  "db_laws ck \<longleftrightarrow>
     (\<forall>d ofs z. (fst (dbWrite ck d ofs z) = SQLITE_OK \<longrightarrow> snd (dbWrite ck d ofs z) = file_write d ofs z) \<and>
        (\<forall>i. i < ofs \<or> ofs + length z \<le> i \<longrightarrow> byte (snd (dbWrite ck d ofs z)) i = byte d i)) \<and>
     (\<forall>d n i. i < n \<longrightarrow> byte (snd (dbTruncate ck d n)) i = byte d i)"

lemma db_laws_write: "db_laws ck \<Longrightarrow> i < ofs \<or> ofs + length z \<le> i \<Longrightarrow> byte (snd (dbWrite ck d ofs z)) i = byte d i"
  unfolding db_laws_def by blast

definition page_bytes :: "u8 list \<Rightarrow> nat \<Rightarrow> nat \<Rightarrow> u8 list" where
  "page_bytes d sz p = file_read d ((p - 1) * sz) sz"

lemma page_apart:
  assumes "0 < p" "0 < q" "p \<noteq> (q::nat)" "(p - 1) * sz \<le> i" "i < (p - 1) * sz + sz"
  shows "i < (q - 1) * sz \<or> (q - 1) * sz + sz \<le> i"
proof (cases "p < q")
  case True
  then have "p \<le> q - 1" by simp
  then have "p * sz \<le> (q - 1) * sz" by (rule mult_le_mono1)
  moreover have "p * sz = (p - 1) * sz + sz" using assms(1) by (cases p) simp_all
  ultimately show ?thesis using assms(5) by linarith
next
  case False
  then have "q \<le> p - 1" using assms(3) by simp
  then have "q * sz \<le> (p - 1) * sz" by (rule mult_le_mono1)
  moreover have "q * sz = (q - 1) * sz + sz" using assms(2) by (cases q) simp_all
  ultimately show ?thesis using assms(4) by linarith
qed

lemma dbWrite_other:
  assumes "db_laws ck" "0 < p" "0 < q" "p \<noteq> q" "length z = sz"
  shows "page_bytes (snd (dbWrite ck d ((q - 1) * sz) z)) sz p = page_bytes d sz p"
  unfolding page_bytes_def
proof (rule file_read_cong)
  fix i assume "(p - 1) * sz \<le> i" "i < (p - 1) * sz + sz"
  from page_apart [OF assms(2-4) this] show "byte (snd (dbWrite ck d ((q - 1) * sz) z)) i = byte d i"
    using db_laws_write [OF assms(1), of i "(q - 1) * sz" z d] assms(5) by simp
qed

lemma dbWrite_same:
  "db_laws ck \<Longrightarrow> length z = sz \<Longrightarrow> dbWrite ck d ((q - 1) * sz) z = (SQLITE_OK, d') \<Longrightarrow> page_bytes d' sz q = z"
  unfolding db_laws_def page_bytes_def using file_read_write by (metis fst_conv snd_conv)

lemma page_below:
  assumes "0 < p" "p \<le> n" "i < (p - 1) * sz + sz"
  shows "i < n * (sz::nat)"
proof -
  have "(p - 1) * sz + sz = p * sz" using assms(1) by (cases p) simp_all
  also have "\<dots> \<le> n * sz" using assms(2) by (rule mult_le_mono1)
  finally show ?thesis using assms(3) by linarith
qed

lemma dbTruncate_page:
  assumes "db_laws ck" "0 < p" "p \<le> n"
  shows "page_bytes (snd (dbTruncate ck d (n * sz))) sz p = page_bytes d sz p"
  unfolding page_bytes_def
proof (rule file_read_cong)
  fix i assume "i < (p - 1) * sz + sz"
  then have "i < n * sz" by (rule page_below [OF assms(2,3)])
  then show "byte (snd (dbTruncate ck d (n * sz))) i = byte d i" using assms(1) by (simp add: db_laws_def)
qed

section \<open>Copying\<close>

text \<open>The copy loop over the list of pages and frames that the iterator delivers.\<close>

primrec ckpt_list :: "walOs \<Rightarrow> ckptEnv \<Rightarrow> u8 list \<Rightarrow> nat \<Rightarrow> nat \<Rightarrow> nat \<Rightarrow> nat \<Rightarrow> (nat \<times> nat) list \<Rightarrow> u8 list \<Rightarrow> nat \<times> u8 list" where
  "ckpt_list os ck f sz nBack mxSafe mxPage [] d = (SQLITE_OK, d)"
| "ckpt_list os ck f sz nBack mxSafe mxPage (x # l) d =
     (if interrupted ck (fst x) then (if mallocFailed ck then SQLITE_NOMEM else SQLITE_INTERRUPT, d)
      else if snd x \<le> nBack \<or> mxSafe < snd x \<or> mxPage < fst x then ckpt_list os ck f sz nBack mxSafe mxPage l d
      else
        let (rc, zBuf) = osRead os f sz (walFrameOffset (snd x) sz + WAL_FRAME_HDRSIZE)
        in if rc \<noteq> SQLITE_OK then (rc, d)
           else
             let (rc, d) = dbWrite ck d ((fst x - 1) * sz) zBuf
             in if rc \<noteq> SQLITE_OK then (rc, d) else ckpt_list os ck f sz nBack mxSafe mxPage l d)"

lemma ckpt_copy_list:
  "iter_all it pf = Some l \<Longrightarrow> (\<And>x. x \<in> set l \<Longrightarrow> walFramePgno w s (snd x) = Some (fst x)) \<Longrightarrow>
   ckpt_copy os ck f w s sz nBack mxSafe mxPage it pf d = Some (ckpt_list os ck f sz nBack mxSafe mxPage l d)"
proof (induction l arbitrary: it pf d)
  case Nil
  then show ?case by (subst (asm) iter_all.simps, subst ckpt_copy.simps) (auto split: bind_splits if_splits)
next
  case (Cons x l)
  from Cons.prems(1) obtain it' where n: "walIteratorNext it pf = Some (it', fst x, snd x, False)" "iter_all it' (snd x) = Some l"
    by (subst (asm) iter_all.simps) (auto split: bind_splits if_splits)
  show ?case
    using Cons.prems(2) [of x]
    by (subst ckpt_copy.simps) (simp add: n(1) Cons.IH [OF n(2) Cons.prems(2)] Let_def split: prod.splits)
qed

lemma length_osRead: "length (snd (osRead os f n ofs)) = n"
  by (simp add: osRead_def)

text \<open>Only pages of the list whose frame is to be copied change, and after success they hold the frame.\<close>

definition copied :: "nat \<Rightarrow> nat \<Rightarrow> nat \<Rightarrow> nat \<times> nat \<Rightarrow> bool" where
  "copied nBack mxSafe mxPage x \<longleftrightarrow> nBack < snd x \<and> snd x \<le> mxSafe \<and> fst x \<le> mxPage"

lemma ckpt_list_ok:
  assumes "db_laws ck"
  shows "ckpt_list os ck f sz nBack mxSafe mxPage l d = (rc, d') \<Longrightarrow> 0 \<notin> fst ` set l \<Longrightarrow> distinct (map fst l) \<Longrightarrow> 0 < p \<Longrightarrow>
    ((\<forall>g. (p, g) \<in> set l \<longrightarrow> \<not> copied nBack mxSafe mxPage (p, g)) \<longrightarrow> page_bytes d' sz p = page_bytes d sz p) \<and>
    (rc = SQLITE_OK \<longrightarrow> (\<forall>g. (p, g) \<in> set l \<and> copied nBack mxSafe mxPage (p, g) \<longrightarrow>
       page_bytes d' sz p = snd (osRead os f sz (walFrameOffset g sz + WAL_FRAME_HDRSIZE))))"
proof (induction l arbitrary: d)
  case Nil
  then show ?case by simp
next
  case (Cons x l)
  obtain q g where x: "x = (q, g)" by (cases x) auto
  have pre: "0 < q" "0 \<notin> fst ` set l" "distinct (map fst l)" "q \<notin> fst ` set l" using Cons.prems(2,3) by (auto simp: x)
  note IH = Cons.IH [OF _ pre(2,3) Cons.prems(4)]
  show ?case
  proof (cases "interrupted ck q \<or> \<not> copied nBack mxSafe mxPage (q, g)")
    case True
    then show ?thesis
      using Cons.prems(1) IH [of d] pre(4) by (auto simp: x copied_def split: if_splits)
  next
    case False
    let ?r = "osRead os f sz (walFrameOffset g sz + WAL_FRAME_HDRSIZE)"
    let ?w = "dbWrite ck d ((q - 1) * sz) (snd ?r)"
    have step: "(rc, d') = (if fst ?r \<noteq> SQLITE_OK then (fst ?r, d) else if fst ?w \<noteq> SQLITE_OK then ?w
        else ckpt_list os ck f sz nBack mxSafe mxPage l (snd ?w))"
      using Cons.prems(1) False by (auto simp: x copied_def Let_def split: prod.splits)
    have other: "page_bytes (snd ?w) sz p = page_bytes d sz p" if "p \<noteq> q"
      by (rule dbWrite_other [OF assms Cons.prems(4) pre(1) that]) (simp add: length_osRead)
    consider "fst ?r \<noteq> SQLITE_OK" | "fst ?r = SQLITE_OK" "fst ?w \<noteq> SQLITE_OK"
      | "fst ?r = SQLITE_OK" "fst ?w = SQLITE_OK" "ckpt_list os ck f sz nBack mxSafe mxPage l (snd ?w) = (rc, d')"
      using step by (auto split: if_splits)
    then show ?thesis
    proof cases
      case 1
      with step show ?thesis by simp
    next
      case 2
      with step have "rc \<noteq> SQLITE_OK" "d' = snd ?w" by (simp_all add: prod_eq_iff)
      then show ?thesis using other False by (auto simp: x)
    next
      case 3
      have "(q, g') \<notin> set l" for g' using pre(4) by force
      with IH [OF 3(3)] other dbWrite_same [OF assms, of "snd ?r" sz d q "snd ?w"] 3(2) False pre(4)
      show ?thesis by (cases "p = q") (auto simp: x length_osRead prod_eq_iff)
    qed
  qed
qed


section \<open>Locks\<close>

text \<open>The busy handler gives up at some time.\<close>

definition gives_up :: "(nat \<Rightarrow> bool) option \<Rightarrow> bool" where
  "gives_up b \<longleftrightarrow> (\<forall>h. b = Some h \<longrightarrow> (\<forall>k. \<exists>m\<ge>k. \<not> h m))"

text \<open>Another connection holds the shared lock of read slot \<open>j\<close>: no exclusive lock over it is granted.\<close>

definition lock_held :: "ckptEnv \<Rightarrow> nat \<Rightarrow> bool" where
  "lock_held ck j \<longleftrightarrow> (\<forall>k first n. first \<le> WAL_READ_LOCK j \<and> WAL_READ_LOCK j < first + n \<longrightarrow> tryLock ck k first n \<noteq> SQLITE_OK)"

lemma walBusyLock_ends:
  assumes "k \<le> m" "\<forall>h. xBusy = Some h \<longrightarrow> \<not> h m"
  shows "\<exists>rc j. walBusyLock ck w xBusy lockIdx n k = Some (rc, j + 1) \<and>
    rc = (if exclusiveMode w \<noteq> 0 then SQLITE_OK else tryLock ck j lockIdx n)"
  using assms
proof (induction "m - k" arbitrary: k)
  case 0
  then have "k = m" by simp
  then show ?case using "0.prems"(2) by (subst walBusyLock.simps) (auto simp: Let_def split: option.splits)
next
  case (Suc i)
  show ?case
  proof (cases "(if exclusiveMode w \<noteq> 0 then SQLITE_OK else tryLock ck k lockIdx n) = SQLITE_BUSY \<and> (case xBusy of None \<Rightarrow> False | Some h \<Rightarrow> h k)")
    case True
    have "i = m - (k + 1)" "k + 1 \<le> m" using Suc.hyps(2) by simp_all
    from Suc.hyps(1) [OF this Suc.prems(2)] True show ?thesis by (subst walBusyLock.simps) (simp add: Let_def)
  next
    case False
    then show ?thesis by (subst walBusyLock.simps) (auto simp: Let_def)
  qed
qed

lemma walBusyLock_ok:
  assumes "gives_up xBusy"
  shows "\<exists>rc j. walBusyLock ck w xBusy lockIdx n k = Some (rc, j + 1) \<and>
    rc = (if exclusiveMode w \<noteq> 0 then SQLITE_OK else tryLock ck j lockIdx n)"
proof (cases xBusy)
  case None
  then show ?thesis using walBusyLock_ends [of k k xBusy] by auto
next
  case (Some h)
  then obtain m where "k \<le> m" "\<not> h m" using assms by (auto simp: gives_up_def)
  then show ?thesis using walBusyLock_ends [of k m xBusy] Some by auto
qed

text \<open>What the loop over the read marks gives.\<close>

definition marks_result :: "ckptEnv \<Rightarrow> Wal \<Rightarrow> nat \<Rightarrow> nat list \<Rightarrow> nat \<Rightarrow> nat list \<Rightarrow> nat \<Rightarrow> nat \<Rightarrow> bool \<Rightarrow> bool" where
  "marks_result ck w i marks mx marks' mx' rc err \<longleftrightarrow> length marks' = length marks \<and> mx' \<le> mx \<and> (err \<longrightarrow> rc \<noteq> SQLITE_OK \<and> rc \<noteq> SQLITE_BUSY) \<and>
     (\<not> err \<longrightarrow> rc = SQLITE_OK \<or> rc = SQLITE_BUSY) \<and>
     (\<forall>j. j < i \<or> exclusiveMode w = 0 \<and> lock_held ck j \<longrightarrow> marks' ! j = marks ! j) \<and>
     (\<forall>j. exclusiveMode w = 0 \<and> lock_held ck j \<and> i \<le> j \<and> j < length marks \<and> \<not> err \<longrightarrow> mx' \<le> marks ! j)"

lemma ckpt_marks_ok:
  "gives_up xBusy \<Longrightarrow> i + m = length marks \<Longrightarrow> mx \<le> mxFrame (hdr w) \<Longrightarrow> rc = SQLITE_OK \<or> rc = SQLITE_BUSY \<Longrightarrow>
   \<exists>marks' mx' xBusy' k' rc' err. ckpt_marks ck w i m marks mx xBusy k rc = Some (marks', mx', xBusy', k', rc', err) \<and>
     gives_up xBusy' \<and> marks_result ck w i marks mx marks' mx' rc' err"
proof (induction m arbitrary: i marks mx xBusy k rc)
  case 0
  then show ?case by (auto simp: marks_result_def)
next
  case (Suc m)
  have i: "i < length marks" "i + 1 + m = length marks" using Suc.prems(2) by simp_all
  have rd: "rd marks i = Some (marks ! i)" using i(1) by (simp add: rd_def)
  have widen: "marks_result ck w i marks mx marks' mx' rc' err"
    if "marks_result ck w (i + 1) ms mx0 marks' mx' rc' err" "length ms = length marks" "mx0 \<le> mx"
      "\<And>j. j \<noteq> i \<or> exclusiveMode w = 0 \<and> lock_held ck j \<Longrightarrow> ms ! j = marks ! j"
      "exclusiveMode w = 0 \<and> lock_held ck i \<Longrightarrow> mx0 \<le> marks ! i" for ms mx0 marks' mx' rc' err
    unfolding marks_result_def
  proof (intro conjI allI impI)
    fix j assume j: "exclusiveMode w = 0 \<and> lock_held ck j \<and> i \<le> j \<and> j < length marks \<and> \<not> err"
    show "mx' \<le> marks ! j"
    proof (cases "j = i")
      case True
      then show ?thesis using that(1,5) j by (auto simp: marks_result_def)
    next
      case False
      then have "i + 1 \<le> j" using j by simp
      then show ?thesis using that(1,2,4) j by (auto simp: marks_result_def)
    qed
  qed (use that in \<open>auto simp: marks_result_def\<close>)
  show ?case
  proof (cases "marks ! i < mx")
    case False
    from Suc.IH [OF Suc.prems(1) i(2) Suc.prems(3,4), of k] obtain marks' mx' xBusy' k' rc' err where
      q: "ckpt_marks ck w (i + 1) m marks mx xBusy k rc = Some (marks', mx', xBusy', k', rc', err)" "gives_up xBusy'"
        "marks_result ck w (i + 1) marks mx marks' mx' rc' err" by blast
    have "marks_result ck w i marks mx marks' mx' rc' err" by (rule widen [OF q(3)]) (use False in auto)
    then show ?thesis using q(1,2) False rd by (simp del: add_Suc_right)
  next
    case True
    obtain rc1 j where b: "walBusyLock ck w xBusy (WAL_READ_LOCK i) 1 k = Some (rc1, j + 1)"
      "rc1 = (if exclusiveMode w \<noteq> 0 then SQLITE_OK else tryLock ck j (WAL_READ_LOCK i) 1)"
      using walBusyLock_ok [OF Suc.prems(1)] by blast
    have held: "rc1 \<noteq> SQLITE_OK" if "exclusiveMode w = 0" "lock_held ck i" using that b(2) by (simp add: lock_held_def)
    have le: "\<not> mxFrame (hdr w) < marks ! i" using True Suc.prems(3) by simp
    let ?ms = "marks[i := if i = 1 then mx else READMARK_NOT_USED]"
    consider "rc1 = SQLITE_OK" | "rc1 = SQLITE_BUSY" | "rc1 \<noteq> SQLITE_OK" "rc1 \<noteq> SQLITE_BUSY" by blast
    then show ?thesis
    proof cases
      case 1
      have "i + 1 + m = length ?ms" using i(2) by simp
      from Suc.IH [OF Suc.prems(1) this Suc.prems(3), of rc1 "j + 1"] 1 obtain marks' mx' xBusy' k' rc' err where
        q: "ckpt_marks ck w (i + 1) m ?ms mx xBusy (j + 1) rc1 = Some (marks', mx', xBusy', k', rc', err)" "gives_up xBusy'"
          "marks_result ck w (i + 1) ?ms mx marks' mx' rc' err" by blast
      have "marks_result ck w i marks mx marks' mx' rc' err"
        by (rule widen [OF q(3)]) (use held 1 in \<open>auto simp: nth_list_update\<close>)
      then show ?thesis using q(1,2) True le rd b(1) 1 by (simp del: add_Suc_right)
    next
      case 2
      have "gives_up None" "marks ! i \<le> mxFrame (hdr w)" using le by (simp_all add: gives_up_def)
      from Suc.IH [OF this(1) i(2) this(2), of rc1 "j + 1"] 2 obtain marks' mx' xBusy' k' rc' err where
        q: "ckpt_marks ck w (i + 1) m marks (marks ! i) None (j + 1) rc1 = Some (marks', mx', xBusy', k', rc', err)" "gives_up xBusy'"
          "marks_result ck w (i + 1) marks (marks ! i) marks' mx' rc' err" by blast
      have "marks_result ck w i marks mx marks' mx' rc' err" by (rule widen [OF q(3)]) (use True in auto)
      then show ?thesis using q(1,2) True le rd b(1) 2 by (simp del: add_Suc_right)
    next
      case 3
      then show ?thesis using True le rd b(1) Suc.prems(1) by (auto simp: marks_result_def)
    qed
  qed
qed

text \<open>Without readers the whole log is safe.\<close>

lemma ckpt_marks_free:
  "(\<And>k l n. tryLock ck k l n = SQLITE_OK) \<Longrightarrow> gives_up xBusy \<Longrightarrow> i + m = length marks \<Longrightarrow> mx \<le> mxFrame (hdr w) \<Longrightarrow> rc = SQLITE_OK \<Longrightarrow>
   \<exists>marks' k'. ckpt_marks ck w i m marks mx xBusy k rc = Some (marks', mx, xBusy, k', SQLITE_OK, False)"
proof (induction m arbitrary: i marks k rc)
  case (Suc m)
  obtain j where b: "walBusyLock ck w xBusy (WAL_READ_LOCK i) 1 k = Some (SQLITE_OK, j + 1)"
    using walBusyLock_ok [OF Suc.prems(2), of ck w "WAL_READ_LOCK i" 1 k] Suc.prems(1) by auto
  have "rd marks i = Some (marks ! i)" using Suc.prems(3) by (simp add: rd_def)
  then show ?case
    using Suc.IH [OF Suc.prems(1,2), of "i + 1" marks SQLITE_OK k]
      Suc.IH [OF Suc.prems(1,2), of "i + 1" "marks[i := if i = 1 then mx else READMARK_NOT_USED]" SQLITE_OK "j + 1"] Suc.prems(3-5) b
    by (auto simp del: add_Suc_right)
qed simp


section \<open>Copying the pages\<close>

lemma last_frame_from: "last_frame fs p lo hi = (if lo \<le> last_frame fs p 1 hi then last_frame fs p 1 hi else 0)"
proof (induction hi)
  case (Suc n)
  then show ?case using last_frame_le [of fs p 1 n] by auto
qed simp

text \<open>The page as the log has it in frame \<open>g\<close>.\<close>

definition log_page :: "walOs \<Rightarrow> u8 list \<Rightarrow> nat \<Rightarrow> nat \<Rightarrow> u8 list" where
  "log_page os f sz g = snd (osRead os f sz (walFrameOffset g sz + WAL_FRAME_HDRSIZE))"

text \<open>
  Backfilling the frames \<open>n0 + 1\<close> to \<open>n1\<close>: the pages in \<open>K\<close> whose last frame is another one keep their
  content (\<open>kept_pages\<close>), the others up to page \<open>P\<close> get that of their last frame (\<open>filled_pages\<close>).
\<close>

definition in_range :: "nat list \<Rightarrow> nat \<Rightarrow> nat \<Rightarrow> nat \<Rightarrow> nat \<Rightarrow> bool" where
  "in_range fs mx n0 n1 p \<longleftrightarrow> n0 < last_frame fs p 1 mx \<and> last_frame fs p 1 mx \<le> n1"

definition kept_pages :: "nat list \<Rightarrow> nat \<Rightarrow> nat \<Rightarrow> nat \<Rightarrow> nat \<Rightarrow> (nat \<Rightarrow> bool) \<Rightarrow> u8 list \<Rightarrow> u8 list \<Rightarrow> bool" where
  "kept_pages fs mx sz n0 n1 K d d' \<longleftrightarrow> (\<forall>p>0. K p \<and> \<not> in_range fs mx n0 n1 p \<longrightarrow> page_bytes d' sz p = page_bytes d sz p)"

definition filled_pages :: "walOs \<Rightarrow> u8 list \<Rightarrow> nat list \<Rightarrow> nat \<Rightarrow> nat \<Rightarrow> nat \<Rightarrow> nat \<Rightarrow> nat \<Rightarrow> u8 list \<Rightarrow> bool" where
  "filled_pages os f fs mx sz n0 n1 P d \<longleftrightarrow>
     (\<forall>p>0. p \<le> P \<and> in_range fs mx n0 n1 p \<longrightarrow> page_bytes d sz p = log_page os f sz (last_frame fs p 1 mx))"

text \<open>What the iterator delivers (\<open>wal_iterator\<close>).\<close>

definition delivers :: "nat list \<Rightarrow> nat \<Rightarrow> nat \<Rightarrow> WalIterator \<Rightarrow> bool" where
  "delivers fs nBack mx it \<longleftrightarrow> (\<exists>l. iter_all it 0 = Some l \<and> distinct (map fst l) \<and> 0 \<notin> fst ` set l \<and>
     set l = {(q, last_frame fs q (first_frame nBack) mx) |q. q \<in> pages_of fs (first_frame nBack) mx})"

text \<open>The connection sees the page numbers of the frames that the iterator covers.\<close>

definition frames_known :: "Wal \<Rightarrow> walShm \<Rightarrow> nat list \<Rightarrow> nat \<Rightarrow> nat \<Rightarrow> bool" where
  "frames_known w s fs nBack mx \<longleftrightarrow> (\<forall>g. first_frame nBack \<le> g \<and> g \<le> mx \<longrightarrow> walFramePgno w s g = Some (fs ! (g - 1)))"

lemma walFramePgno_info [simp]: "walFramePgno w (s\<lparr>ckptInfo := c\<rparr>) g = walFramePgno w s g"
  by (simp add: walFramePgno_def Let_def)

lemma frames_known_info [simp]: "frames_known w (s\<lparr>ckptInfo := c\<rparr>) fs nBack mx = frames_known w s fs nBack mx"
  by (simp only: frames_known_def walFramePgno_info)

lemma first_frame_le: "first_frame nBack \<le> nBack + 1"
  using page_of(1) [of "nBack + 1"] by (simp add: first_frame_def)

lemma walIteratorInit_delivers:
  assumes "wi_ok w s fs" "mxFrame (hdr w) \<le> length fs" "nBack < mxFrame (hdr w)" "\<forall>p\<in>set fs. 0 < p \<and> p < 0xFFFFFFFF"
  shows "\<exists>w' rc it. walIteratorInit E w s nBack = Some (w', s, rc, it) \<and> same_wal w w' \<and> (it = None \<longleftrightarrow> rc \<noteq> SQLITE_OK) \<and>
    (\<forall>p. it = Some p \<longrightarrow> delivers fs nBack (mxFrame (hdr w)) p \<and> frames_known w' s fs nBack (mxFrame (hdr w)))"
proof -
  have "0 < mxFrame (hdr w)" "\<forall>p\<in>set fs. p < 0xFFFFFFFF" using assms(3,4) by auto
  from walIteratorInit_ok [OF assms(1) this(1) assms(2,3) this(2), of E] obtain w' rc it where
    i: "walIteratorInit E w s nBack = Some (w', s, rc, it)" "same_wal w w'" "it = None \<longleftrightarrow> rc \<noteq> SQLITE_OK"
      "\<And>p. it = Some p \<Longrightarrow> iPrior p = 0 \<and> iterates fs (first_frame nBack) (mxFrame (hdr w)) p"
      "it \<noteq> None \<longrightarrow> (\<forall>g. first_frame nBack \<le> g \<and> g \<le> mxFrame (hdr w) \<longrightarrow> mapped w' (walFramePage g))" by blast
  have pos: "0 < q" if q: "q \<in> pages_of fs (first_frame nBack) (mxFrame (hdr w))" for q
  proof -
    obtain i where "0 < i" "i \<le> mxFrame (hdr w)" "q = fs ! (i - 1)" using q unfolding pages_of_def by blast
    then have "q \<in> set fs" using assms(2) by simp
    with assms(4) show ?thesis by blast
  qed
  have "delivers fs nBack (mxFrame (hdr w)) p" if p: "it = Some p" for p
  proof -
    from iter_all_ok [OF conjunct2 [OF i(4) [OF p]], of 0] obtain l where
      "iter_all p 0 = Some l" "sorted_wrt (<) (map fst l)"
      "set l = {(q, last_frame fs q (first_frame nBack) (mxFrame (hdr w))) |q. q \<in> pages_of fs (first_frame nBack) (mxFrame (hdr w)) \<and> 0 < q}"
      unfolding conjunct1 [OF i(4) [OF p]] by blast
    then show ?thesis using pos by (intro delivers_def [THEN iffD2] exI [of _ l]) (auto simp: strict_sorted_iff)
  qed
  moreover have "frames_known w' s fs nBack (mxFrame (hdr w))" if "it \<noteq> None"
    unfolding frames_known_def
  proof (intro allI impI)
    fix g assume g: "first_frame nBack \<le> g \<and> g \<le> mxFrame (hdr w)"
    then have "0 < g" "g \<le> length fs" "mapped w' (walFramePage g)" using assms(2) i(5) that by (auto simp: first_frame_def)
    from walFramePgno_ok [OF wi_ok_same [OF assms(1) i(2)] this] show "walFramePgno w' s g = Some (fs ! (g - 1))" .
  qed
  ultimately show ?thesis using i(1-3) by blast
qed

lemma pages_of_last:
  assumes "mx \<le> length fs" "nBack < last_frame fs p 1 mx"
  shows "p \<in> pages_of fs (first_frame nBack) mx" "last_frame fs p (first_frame nBack) mx = last_frame fs p 1 mx"
proof -
  let ?g = "last_frame fs p 1 mx"
  have g: "0 < ?g" "?g \<le> mx" "fs ! (?g - 1) = p" using last_frame_spec [OF assms(1) refl, of p 1] assms(2) by (auto split: if_splits)
  have "first_frame nBack \<le> ?g" using first_frame_le [of nBack] assms(2) by linarith
  then show "p \<in> pages_of fs (first_frame nBack) mx" using g unfolding pages_of_def by (intro CollectI exI [of _ ?g]) simp
  show "last_frame fs p (first_frame nBack) mx = ?g" using \<open>first_frame nBack \<le> ?g\<close> by (subst last_frame_from) simp
qed

lemma delivered_known:
  assumes "frames_known w s fs nBack mx" "mx \<le> length fs"
    "x \<in> {(q, last_frame fs q (first_frame nBack) mx) |q. q \<in> pages_of fs (first_frame nBack) mx}"
  shows "walFramePgno w s (snd x) = Some (fst x)"
proof -
  obtain q where q: "x = (q, last_frame fs q (first_frame nBack) mx)" "q \<in> pages_of fs (first_frame nBack) mx" using assms(3) by blast
  have "last_frame fs q (first_frame nBack) mx \<noteq> 0"
    using last_frame_spec [OF assms(2) refl, of q "first_frame nBack"] q(2) by (auto simp: pages_of_def split: if_splits)
  then have "first_frame nBack \<le> snd x" "snd x \<le> mx" "fs ! (snd x - 1) = q"
    using last_frame_spec [OF assms(2) refl, of q "first_frame nBack"] q(1) by simp_all
  then show ?thesis using assms(1) q(1) by (simp add: frames_known_def)
qed

lemma ckpt_copy_ok:
  assumes "db_laws ck" "delivers fs nBack mx it" "mx \<le> length fs" and K: "frames_known w s fs nBack mx"
  shows "\<exists>rc d'. ckpt_copy os ck f w s sz nBack mxSafe P it 0 d = Some (rc, d') \<and>
    kept_pages fs mx sz nBack mxSafe (\<lambda>p. True) d d' \<and> (\<forall>p>P. page_bytes d' sz p = page_bytes d sz p) \<and>
    (rc = SQLITE_OK \<longrightarrow> filled_pages os f fs mx sz nBack mxSafe P d')"
proof -
  obtain l where l: "iter_all it 0 = Some l" "distinct (map fst l)" "0 \<notin> fst ` set l"
    "set l = {(q, last_frame fs q (first_frame nBack) mx) |q. q \<in> pages_of fs (first_frame nBack) mx}"
    using assms(2) by (auto simp: delivers_def)
  obtain rc d' where c: "ckpt_list os ck f sz nBack mxSafe P l d = (rc, d')" by fastforce
  note R = ckpt_list_ok [OF assms(1) c l(3,2)]
  have last: "g = last_frame fs p 1 mx" if "(p, g) \<in> set l" "nBack < g" for p g
    using that l(4) last_frame_from [of fs p "first_frame nBack" mx] by (auto split: if_splits)
  have "kept_pages fs mx sz nBack mxSafe (\<lambda>p. True) d d'"
    unfolding kept_pages_def in_range_def
    by (intro allI impI conjunct1 [OF R, rule_format]) (auto simp: copied_def dest: last)
  moreover have "page_bytes d' sz p = page_bytes d sz p" if "P < p" for p
    using that by (intro conjunct1 [OF R, rule_format]) (auto simp: copied_def)
  moreover have "filled_pages os f fs mx sz nBack mxSafe P d'" if "rc = SQLITE_OK"
    unfolding filled_pages_def log_page_def
  proof (intro allI impI)
    fix p assume p: "0 < p" "p \<le> P \<and> in_range fs mx nBack mxSafe p"
    then have g: "nBack < last_frame fs p 1 mx" "last_frame fs p 1 mx \<le> mxSafe" by (simp_all add: in_range_def)
    from pages_of_last [OF assms(3) g(1)] have "(p, last_frame fs p 1 mx) \<in> set l" unfolding l(4) by fastforce
    then show "page_bytes d' sz p = snd (osRead os f sz (walFrameOffset (last_frame fs p 1 mx) sz + WAL_FRAME_HDRSIZE))"
      using R [OF p(1)] that p(2) g by (auto simp: copied_def)
  qed
  moreover have "walFramePgno w s (snd x) = Some (fst x)" if "x \<in> set l" for x
    using delivered_known [OF K assms(3)] that unfolding l(4) .
  ultimately show ?thesis using ckpt_copy_list [OF l(1)] c by auto
qed


section \<open>The first half\<close>

lemma ckpt_backfill_ok:
  assumes L: "db_laws ck" and it: "delivers fs (nBackfill (ckptInfo s)) (mxFrame (hdr w)) it" and mx: "mxFrame (hdr w) \<le> length fs"
    and K: "frames_known w s fs (nBackfill (ckptInfo s)) (mxFrame (hdr w))"
  shows "\<exists>c d' rc. ckpt_backfill os ck f mxSafe w s it d = Some (s\<lparr>ckptInfo := c\<rparr>, d', rc) \<and> aReadMark c = aReadMark (ckptInfo s) \<and>
    nBackfill c = (if rc = SQLITE_OK then mxSafe else nBackfill (ckptInfo s)) \<and>
    kept_pages fs (mxFrame (hdr w)) (walPagesize w) (nBackfill (ckptInfo s)) mxSafe
      (\<lambda>p. p \<le> nPage (hdr w) \<or> mxSafe \<noteq> mxFrame (fst (wiHdr s))) d d' \<and>
    (rc = SQLITE_OK \<longrightarrow> filled_pages os f fs (mxFrame (hdr w)) (walPagesize w) (nBackfill (ckptInfo s)) mxSafe (nPage (hdr w)) d')"
proof -
  let ?sz = "walPagesize w" and ?P = "nPage (hdr w)" and ?n = "nBackfill (ckptInfo s)" and ?mx = "mxFrame (hdr w)"
  let ?K = "\<lambda>p. p \<le> ?P \<or> mxSafe \<noteq> mxFrame (fst (wiHdr s))"
  let ?s = "s\<lparr>ckptInfo := (ckptInfo s)\<lparr>nBackfillAttempted := mxSafe\<rparr>\<rparr>"
  have "frames_known w ?s fs ?n ?mx" using K by simp
  note K' = this
  obtain rc1 d1 where c: "ckpt_copy os ck f w ?s ?sz ?n mxSafe ?P it 0 d = Some (rc1, d1)" "kept_pages fs ?mx ?sz ?n mxSafe (\<lambda>p. True) d d1"
    "rc1 = SQLITE_OK \<longrightarrow> filled_pages os f fs ?mx ?sz ?n mxSafe ?P d1"
    using ckpt_copy_ok [OF L it mx K', where P = ?P] by blast
  have k1: "kept_pages fs ?mx ?sz ?n mxSafe ?K d d1" using c(2) by (simp add: kept_pages_def)
  have k0: "kept_pages fs ?mx ?sz ?n mxSafe ?K d d" by (simp add: kept_pages_def)
  define t where "t = snd (dbTruncate ck d1 (?P * ?sz))"
  have tr: "page_bytes t ?sz p = page_bytes d1 ?sz p" if "0 < p" "p \<le> ?P" for p
    unfolding t_def by (rule dbTruncate_page [OF L that])
  have k2: "kept_pages fs ?mx ?sz ?n mxSafe ?K d t" if "mxSafe = mxFrame (fst (wiHdr s))"
    using k1 tr that by (simp add: kept_pages_def)
  have f2: "rc1 = SQLITE_OK \<longrightarrow> filled_pages os f fs ?mx ?sz ?n mxSafe ?P t" using c(3) tr by (simp add: filled_pages_def)
  define r0 where "r0 = (if syncWal ck \<noteq> SQLITE_OK then syncWal ck else if dbSizeRc ck \<noteq> SQLITE_OK then dbSizeRc ck
    else if length d < ?P * ?sz \<and> length d + 65536 + ?mx * ?sz < ?P * ?sz then SQLITE_CORRUPT else SQLITE_OK)"
  define rt where "rt = (if fst (dbTruncate ck d1 (?P * ?sz)) = SQLITE_OK then syncDb ck else fst (dbTruncate ck d1 (?P * ?sz)))"
  define c0 where "c0 = (ckptInfo s)\<lparr>nBackfillAttempted := mxSafe\<rparr>"
  have u: "ckpt_backfill os ck f mxSafe w s it d =
     (if r0 \<noteq> SQLITE_OK then Some (s\<lparr>ckptInfo := c0\<rparr>, d, r0)
      else if rc1 \<noteq> SQLITE_OK then Some (s\<lparr>ckptInfo := c0\<rparr>, d1, rc1)
      else if mxSafe \<noteq> mxFrame (fst (wiHdr s)) then Some (s\<lparr>ckptInfo := c0\<lparr>nBackfill := mxSafe\<rparr>\<rparr>, d1, SQLITE_OK)
      else if rt \<noteq> SQLITE_OK then Some (s\<lparr>ckptInfo := c0\<rparr>, t, rt)
      else Some (s\<lparr>ckptInfo := c0\<lparr>nBackfill := mxSafe\<rparr>\<rparr>, t, SQLITE_OK))"
    using c(1) unfolding ckpt_backfill_def Let_def r0_def [symmetric] c0_def rt_def t_def
    by (simp split: prod.splits)
  show ?thesis
    unfolding u using c(3) k0 k1 k2 f2 by (auto simp: c0_def)
qed

definition pages_done :: "walOs \<Rightarrow> ckptEnv \<Rightarrow> u8 list \<Rightarrow> nat list \<Rightarrow> Wal \<Rightarrow> walShm \<Rightarrow> u8 list \<Rightarrow> nat \<Rightarrow> WalCkptInfo \<Rightarrow> u8 list \<Rightarrow> bool" where
  "pages_done os ck f fs w s d n1 c d' \<longleftrightarrow>
     n1 \<le> mxFrame (hdr w) \<and> length (aReadMark c) = length (aReadMark (ckptInfo s)) \<and> aReadMark c ! 0 = aReadMark (ckptInfo s) ! 0 \<and>
     kept_pages fs (mxFrame (hdr w)) (walPagesize w) (nBackfill (ckptInfo s)) n1
       (\<lambda>p. p \<le> nPage (hdr w) \<or> n1 \<noteq> mxFrame (fst (wiHdr s))) d d' \<and>
     (nBackfill c = nBackfill (ckptInfo s) \<or> nBackfill (ckptInfo s) < n1 \<and> nBackfill c = n1 \<and>
        filled_pages os f fs (mxFrame (hdr w)) (walPagesize w) (nBackfill (ckptInfo s)) n1 (nPage (hdr w)) d') \<and>
     (\<forall>j. exclusiveMode w = 0 \<and> lock_held ck j \<longrightarrow> aReadMark c ! j = aReadMark (ckptInfo s) ! j \<and>
        (if j = 0 then d' = d \<and> nBackfill c = nBackfill (ckptInfo s)
         else j < length (aReadMark (ckptInfo s)) \<longrightarrow> n1 \<le> aReadMark (ckptInfo s) ! j))"

lemma pages_done_slot_0: "pages_done os ck f fs w s d n1 c d' \<Longrightarrow> exclusiveMode w = 0 \<Longrightarrow> lock_held ck 0 \<Longrightarrow> d' = d"
  unfolding pages_done_def by presburger

lemma pages_done_same:
  assumes "marks_result ck w 1 (aReadMark (ckptInfo s)) (mxFrame (hdr w)) marks n1 rc err"
  shows "\<exists>n. pages_done os ck f fs w s d n ((ckptInfo s)\<lparr>aReadMark := marks\<rparr>) d"
proof (cases err)
  case True
  then show ?thesis using assms by (intro exI [of _ 0]) (auto simp: pages_done_def marks_result_def kept_pages_def)
next
  case False
  then show ?thesis using assms by (intro exI [of _ n1]) (auto simp: pages_done_def marks_result_def kept_pages_def)
qed

lemma ckpt_pages_ok:
  assumes L: "db_laws ck" "gives_up xBusy" and w: "wi_ok w s fs" "mxFrame (hdr w) \<le> length fs" "\<forall>p\<in>set fs. 0 < p \<and> p < 0xFFFFFFFF"
    and m: "length (aReadMark (ckptInfo s)) = WAL_NREADER"
  shows "\<exists>w' c d' xBusy' k rc n1. ckpt_pages os ck f xBusy w s d = Some (w', s\<lparr>ckptInfo := c\<rparr>, d', xBusy', k, rc) \<and> gives_up xBusy' \<and>
    same_wal w w' \<and> pages_done os ck f fs w s d n1 c d'"
proof -
  let ?marks = "aReadMark (ckptInfo s)" and ?mx = "mxFrame (hdr w)" and ?n = "nBackfill (ckptInfo s)"
  have "1 + (WAL_NREADER - 1) = length ?marks" using m by simp
  from ckpt_marks_ok [OF L(2) this, where mx = ?mx and w = w and rc = SQLITE_OK and ck = ck and k = 0] obtain marks n1 xB k rc err where
    q: "ckpt_marks ck w 1 (WAL_NREADER - 1) ?marks ?mx xBusy 0 SQLITE_OK = Some (marks, n1, xB, k, rc, err)"
      "gives_up xB" "marks_result ck w 1 ?marks ?mx marks n1 rc err" by blast
  define c0 where "c0 = (ckptInfo s)\<lparr>aReadMark := marks\<rparr>"
  obtain n0 where same: "pages_done os ck f fs w s d n0 c0 d" unfolding c0_def using pages_done_same [OF q(3)] by blast
  have unfold: "ckpt_pages os ck f xBusy w s d =
      (if err then Some (w, s\<lparr>ckptInfo := c0\<rparr>, d, xB, k, rc) else do {
        (w, s, rc, pIter) \<leftarrow> (if ?n < n1 then walIteratorInit (env os) w (s\<lparr>ckptInfo := c0\<rparr>) ?n
            else Some (w, s\<lparr>ckptInfo := c0\<rparr>, rc, None));
         (case pIter of
            None \<Rightarrow> Some (w, s, d, xB, k, if rc = SQLITE_BUSY then SQLITE_OK else rc)
          | Some it \<Rightarrow> do {
              (rc, k) \<leftarrow> walBusyLock ck w xB (WAL_READ_LOCK 0) 1 k;
              if rc \<noteq> SQLITE_OK then Some (w, s, d, xB, k, if rc = SQLITE_BUSY then SQLITE_OK else rc)
              else do {
                (s, d, rc) \<leftarrow> ckpt_backfill os ck f n1 w s it d;
                Some (w, s, d, xB, k, if rc = SQLITE_BUSY then SQLITE_OK else rc)
              }
            })
       })"
    unfolding ckpt_pages_def q(1) by (simp add: c0_def Let_def)
  show ?thesis
  proof (cases "err \<or> \<not> ?n < n1")
    case True
    then show ?thesis using same q(2) unfolding unfold by auto
  next
    case False
    have "wi_ok w (s\<lparr>ckptInfo := c0\<rparr>) fs" using w(1) by (simp add: wi_ok_def)
    moreover have lt: "?n < ?mx" using False q(3) by (auto simp: marks_result_def)
    ultimately obtain w' rc' it where i: "walIteratorInit (env os) w (s\<lparr>ckptInfo := c0\<rparr>) ?n = Some (w', s\<lparr>ckptInfo := c0\<rparr>, rc', it)"
      "same_wal w w'" "it = None \<longleftrightarrow> rc' \<noteq> SQLITE_OK"
      "\<forall>p. it = Some p \<longrightarrow> delivers fs ?n ?mx p \<and> frames_known w' (s\<lparr>ckptInfo := c0\<rparr>) fs ?n ?mx"
      using walIteratorInit_delivers [OF _ w(2) _ w(3), of "s\<lparr>ckptInfo := c0\<rparr>" ?n "env os"] by blast
    note W = same_wal_fields [OF i(2)]
    show ?thesis
    proof (cases it)
      case None
      then show ?thesis using same q(2) False i(1,2) unfolding unfold by auto
    next
      case (Some p)
      obtain rcl j where b: "walBusyLock ck w' xB (WAL_READ_LOCK 0) 1 k = Some (rcl, j + 1)"
        "rcl = (if exclusiveMode w' \<noteq> 0 then SQLITE_OK else tryLock ck j (WAL_READ_LOCK 0) 1)"
        using walBusyLock_ok [OF q(2)] by blast
      show ?thesis
      proof (cases "rcl = SQLITE_OK")
        case no: False
        then show ?thesis using same q(2) False i(1,2) Some b(1) unfolding unfold by auto
      next
        case yes: True
        have del: "delivers fs (nBackfill (ckptInfo (s\<lparr>ckptInfo := c0\<rparr>))) (mxFrame (hdr w')) p" "mxFrame (hdr w') \<le> length fs"
          "frames_known w' (s\<lparr>ckptInfo := c0\<rparr>) fs (nBackfill (ckptInfo (s\<lparr>ckptInfo := c0\<rparr>))) (mxFrame (hdr w'))"
          using i(4) Some w(2) W(7) by (simp_all add: c0_def)
        obtain c d' rc2 where bf: "ckpt_backfill os ck f n1 w' (s\<lparr>ckptInfo := c0\<rparr>) p d = Some (s\<lparr>ckptInfo := c\<rparr>, d', rc2)"
          "aReadMark c = marks" "nBackfill c = (if rc2 = SQLITE_OK then n1 else ?n)"
          "kept_pages fs ?mx (walPagesize w) ?n n1 (\<lambda>p. p \<le> nPage (hdr w) \<or> n1 \<noteq> mxFrame (fst (wiHdr s))) d d'"
          "rc2 = SQLITE_OK \<longrightarrow> filled_pages os f fs ?mx (walPagesize w) ?n n1 (nPage (hdr w)) d'"
          using ckpt_backfill_ok [OF L(1) del, of os f n1 d] W(7) by (auto simp: c0_def walPagesize_def)
        have "tryLock ck j (WAL_READ_LOCK 0) 1 \<noteq> SQLITE_OK" if "lock_held ck 0" using that by (simp add: lock_held_def)
        then have "\<not> (exclusiveMode w = 0 \<and> lock_held ck 0)" using yes b(2) W(3) by auto
        then have "pages_done os ck f fs w s d n1 c d'"
          using bf(2-5) q(3) False by (auto simp: pages_done_def marks_result_def)
        then show ?thesis using q(2) False i(1,2) Some b(1) yes bf(1) unfolding unfold by auto
      qed
    qed
  qed
qed


section \<open>The second half\<close>

text \<open>
  The log is restarted: the next writer begins with frame 1. The header is published, nothing is
  backfilled, slot 1 stands for the empty log and the others are free.
\<close>

definition restarted :: "Wal \<Rightarrow> Wal \<Rightarrow> walShm \<Rightarrow> bool" where
  "restarted w w' s' \<longleftrightarrow> mxFrame (hdr w') = 0 \<and> nPage (hdr w') = nPage (hdr w) \<and> wiHdr s' = (hdr w', hdr w') \<and>
     nBackfill (ckptInfo s') = 0 \<and> nBackfillAttempted (ckptInfo s') = 0 \<and>
     aReadMark (ckptInfo s') = [0, 0, READMARK_NOT_USED, READMARK_NOT_USED, READMARK_NOT_USED]"

lemma five_marks: "length l = 5 \<Longrightarrow> l[1 := a, 2 := b, 3 := c, 4 := e] = [l ! 0, a, b, c, e]"
  by (auto simp: numeral_eq_Suc length_Suc_conv)

lemma walRestartHdr_ok:
  assumes "writeLock w" "mapped w 0" "length (aReadMark (ckptInfo s)) = WAL_NREADER" "aReadMark (ckptInfo s) ! 0 = 0"
    "length (aSalt (hdr w)) = 8" "length salt = 4"
  shows "\<exists>w' s'. walRestartHdr be w s salt = Some (w', s') \<and> wiPage s' = wiPage s \<and> restarted w w' s'"
proof -
  obtain v where v: "sqlite3Get4byte (aSalt (hdr w)) = Some v" using Get4byte_Some [of "aSalt (hdr w)"] assms(5) by auto
  let ?w = "w\<lparr>nCkpt := (nCkpt w + 1) mod 2 ^ 32, hdr := (hdr w)\<lparr>mxFrame := 0, aSalt := sqlite3Put4byte (1 + v) @ salt\<rparr>\<rparr>"
  have "length (aSalt (hdr ?w)) = 8" "mapped ?w 0" "writeLock ?w" using assms(1,2,6) by (simp_all add: mapped_def)
  from walIndexWriteHdr_ok [OF this, of be s] obtain c h where
    h: "h = (hdr ?w)\<lparr>isInit := True, iVersion := WAL_MAX_VERSION, aCksum := c\<rparr>"
      "walIndexWriteHdr be ?w s = Some (?w\<lparr>hdr := h\<rparr>, s\<lparr>wiHdr := (h, h)\<rparr>)" by (auto simp: Let_def)
  have m: "(aReadMark (ckptInfo s))[1 := 0, 2 := READMARK_NOT_USED, 3 := READMARK_NOT_USED, 4 := READMARK_NOT_USED] =
      [0, 0, READMARK_NOT_USED, READMARK_NOT_USED, READMARK_NOT_USED]" using five_marks [OF assms(3)] assms(4) by simp
  have "walRestartHdr be w s salt = Some (?w\<lparr>hdr := h\<rparr>, s\<lparr>wiHdr := (h, h),
      ckptInfo := \<lparr>nBackfill = 0, aReadMark = [0, 0, READMARK_NOT_USED, READMARK_NOT_USED, READMARK_NOT_USED], nBackfillAttempted = 0\<rparr>\<rparr>)"
    unfolding walRestartHdr_def v by (simp only: bind.simps Let_def h(2) prod.case walShm.simps m) (simp add: m [simplified] assms(4))
  moreover have "nPage h = nPage (hdr w)" "mxFrame h = 0" by (simp_all add: h(1))
  ultimately show ?thesis by (simp add: restarted_def)
qed

lemma ckpt_restart_ok:
  assumes "gives_up xBusy" "writeLock w" "nBackfill (ckptInfo s) \<le> mxFrame (hdr w)" "aReadMark (ckptInfo s) ! 0 = 0"
    "length (aSalt (hdr w)) = 8" "length (salt1 ck) = 4" "mapped w 0" "length (aReadMark (ckptInfo s)) = WAL_NREADER"
  shows "\<exists>w' s' f' rc. ckpt_restart os ck eMode xBusy k w s f = Some (w', s', f', rc) \<and> wiPage s' = wiPage s \<and>
    (w' = w \<and> s' = s \<and> f' = f \<or> eMode = SQLITE_CHECKPOINT_TRUNCATE \<and> nBackfill (ckptInfo s) = mxFrame (hdr w) \<and>
       \<not> (exclusiveMode w = 0 \<and> lock_held ck j \<and> 0 < j \<and> j < WAL_NREADER) \<and> restarted w w' s' \<and> (rc, f') = walTruncate ck f 0)"
proof -
  obtain rc i where b: "walBusyLock ck w xBusy (WAL_READ_LOCK 1) (WAL_NREADER - 1) k = Some (rc, i + 1)"
    "rc = (if exclusiveMode w \<noteq> 0 then SQLITE_OK else tryLock ck i (WAL_READ_LOCK 1) (WAL_NREADER - 1))"
    using walBusyLock_ok [OF assms(1)] by blast
  have held: "rc \<noteq> SQLITE_OK" if "exclusiveMode w = 0" "lock_held ck j" "0 < j" "j < WAL_NREADER"
    using that b(2) by (simp add: lock_held_def WAL_READ_LOCK_def)
  obtain w1 s1 where R: "walRestartHdr (bigEndian os) w s (salt1 ck) = Some (w1, s1)" "wiPage s1 = wiPage s" "restarted w w1 s1"
    using walRestartHdr_ok [OF assms(2,7,8,4,5,6)] by blast
  obtain rt ft where T: "walTruncate ck f 0 = (rt, ft)" by fastforce
  show ?thesis
  proof (cases "mxFrame (hdr w) \<le> nBackfill (ckptInfo s) \<and> rc = SQLITE_OK \<and> eMode = SQLITE_CHECKPOINT_TRUNCATE")
    case True
    then have "ckpt_restart os ck eMode xBusy k w s f = Some (w1, s1, ft, rt)"
      using assms(2,3) b(1) R(1) T by (simp add: ckpt_restart_def)
    moreover have "\<not> (exclusiveMode w = 0 \<and> lock_held ck j \<and> 0 < j \<and> j < WAL_NREADER)" using held True by blast
    ultimately show ?thesis using True assms(3) R(2,3) T by simp
  next
    case False
    then have "\<exists>r. ckpt_restart os ck eMode xBusy k w s f = Some (w, s, f, r)"
      using assms(2,3) b(1) unfolding ckpt_restart_def by auto
    then show ?thesis by blast
  qed
qed


section \<open>Readers\<close>

text \<open>Looking up a frame does not look at the header of the index.\<close>

definition with_header :: "WalIndexHdr \<times> WalIndexHdr \<Rightarrow> WalCkptInfo \<Rightarrow> walShm \<Rightarrow> walShm" where
  "with_header h c s = s\<lparr>wiHdr := h, ckptInfo := c\<rparr>"

lemma wiPage_with [simp]: "wiPage (with_header h c s) = wiPage s"
  by (simp add: with_header_def)

lemma with_header_page [simp]: "(with_header h c s)\<lparr>wiPage := q\<rparr> = with_header h c (s\<lparr>wiPage := q\<rparr>)"
  by (simp add: with_header_def)

lemma same_pages: "wiPage s' = wiPage s \<Longrightarrow> s' = with_header (wiHdr s') (ckptInfo s') s"
  by (simp add: with_header_def)

lemma walIndexPage_header:
  "walIndexPage E w (with_header h c s) i = (case walIndexPage E w s i of (w, t, r) \<Rightarrow> (w, with_header h c t, r))"
  by (cases "osShmMap E i (writeLock w)") (simp add: walIndexPage_def walIndexPageRealloc_def Let_def)

lemma walHashGet_header:
  "walHashGet E w (with_header h c s) i = (case walHashGet E w s i of (w, t, rc) \<Rightarrow> (w, with_header h c t, rc))"
  by (cases "walIndexPage E w s i") (simp add: walHashGet_def walIndexPage_header)

lemma find_tables_header:
  "find_tables E pgno m k w (with_header h c s) = map_option (\<lambda>(w, t, r). (w, with_header h c t, r)) (find_tables E pgno m k w s)"
proof (induction k arbitrary: w s)
  case (Suc k)
  obtain w1 s1 rc where g: "walHashGet E w s (m + k) = (w1, s1, rc)" by (cases "walHashGet E w s (m + k)") auto
  obtain r where r: "find_slots (wiPage s1 (m + k)) (iZero (m + k)) (mxFrame (hdr w1)) (minFrame w1) pgno (walHash pgno) HASHTABLE_NSLOT 0 = r" by blast
  show ?case using Suc.IH [of w1 s1] by (cases r) (auto simp: g r walHashGet_header Let_def)
qed simp

lemma walFindFrame_header:
  "walFindFrame E w (with_header h c s) pgno = map_option (\<lambda>(w, t, r). (w, with_header h c t, r)) (walFindFrame E w s pgno)"
  by (simp add: walFindFrame_def find_tables_header Let_def)

text \<open>The bytes read from the database file are those of the page.\<close>

lemma readDbPage_from_db:
  "osRead os d sz ((p - 1) * sz) = (rc, z) \<Longrightarrow> (if rc = SQLITE_IOERR_SHORT_READ then SQLITE_OK else rc, z) =
    (let c = readRc os ((p - 1) * sz) sz in if c \<noteq> SQLITE_OK then (if c = SQLITE_IOERR_SHORT_READ then SQLITE_OK else c, replicate sz 0)
      else (SQLITE_OK, page_bytes d sz p))"
  by (auto simp: osRead_def page_bytes_def file_read_def Let_def split: if_splits)

definition db_read :: "walOs \<Rightarrow> u8 list \<Rightarrow> nat \<Rightarrow> nat \<Rightarrow> nat \<times> u8 list" where
  "db_read os d sz p = (let c = readRc os ((p - 1) * sz) sz in
     if c \<noteq> SQLITE_OK then (if c = SQLITE_IOERR_SHORT_READ then SQLITE_OK else c, replicate sz 0) else (SQLITE_OK, page_bytes d sz p))"

lemma readDbPage_eq:
  "readDbPage os w s f d p sz = map_option (\<lambda>(w', s', rc, g). if rc \<noteq> SQLITE_OK then (rc, [])
     else if g \<noteq> 0 then sqlite3WalReadFrame os w' f g sz else db_read os d sz p) (walFindFrame (env os) w s p)"
proof -
  obtain rc z where r: "osRead os d sz ((p - 1) * sz) = (rc, z)" by fastforce
  from readDbPage_from_db [OF this] have "(if rc = SQLITE_IOERR_SHORT_READ then SQLITE_OK else rc, z) = db_read os d sz p"
    by (simp add: db_read_def)
  with r show ?thesis by (cases "walFindFrame (env os) w s p") (auto simp: readDbPage_def)
qed

text \<open>
  The reader \<open>r\<close> holds read slot \<open>j\<close>. Its snapshot is at least as new as the mark of the slot
  (\<open>walTryBeginRead\<close>), slot 0 being that of readers that ignore the log.
\<close>

definition reader :: "ckptEnv \<Rightarrow> nat list \<Rightarrow> Wal \<Rightarrow> walShm \<Rightarrow> Wal \<Rightarrow> nat \<Rightarrow> bool" where
  "reader ck fs w s r j \<longleftrightarrow> readLock r = int j \<and> j < WAL_NREADER \<and> lock_held ck j \<and> \<not> bShmUnreliable r \<and>
     (j \<noteq> 0 \<longrightarrow> wi_ok r s fs \<and> mxFrame (hdr r) \<le> length fs \<and> minFrame r \<le> nBackfill (ckptInfo s) + 1 \<and>
        aReadMark (ckptInfo s) ! j \<le> mxFrame (hdr r) \<and> mxFrame (hdr r) \<le> mxFrame (fst (wiHdr s)) \<and>
        (mxFrame (hdr r) = mxFrame (hdr w) \<longrightarrow> nPage (hdr r) = nPage (hdr w)))"

text \<open>The connection \<open>w\<close> that checkpoints.\<close>

definition checkpointer :: "ckptEnv \<Rightarrow> nat \<Rightarrow> nat list \<Rightarrow> Wal \<Rightarrow> walShm \<Rightarrow> bool" where
  "checkpointer ck eMode fs w s \<longleftrightarrow> wi_ok w s fs \<and> mxFrame (hdr w) \<le> length fs \<and> mxFrame (hdr w) \<le> mxFrame (fst (wiHdr s)) \<and>
     (\<forall>p\<in>set fs. 0 < p \<and> p < 0xFFFFFFFF) \<and> length (aReadMark (ckptInfo s)) = WAL_NREADER \<and> aReadMark (ckptInfo s) ! 0 = 0 \<and>
     nBackfill (ckptInfo s) \<le> mxFrame (hdr w) \<and> length (aSalt (hdr w)) = 8 \<and> length (salt1 ck) = 4 \<and> gives_up (busyHandler ck) \<and> mapped w 0 \<and>
     (if eMode = SQLITE_CHECKPOINT_PASSIVE then busyHandler ck = None else writeLock w)"

lemma walCheckpoint_ok:
  assumes L: "db_laws ck" and w: "checkpointer ck eMode fs w s"
  shows "\<exists>w' s' f' d' rc n1 c. walCheckpoint os ck eMode w s f d = Some (w', s', f', d', rc) \<and> wiPage s' = wiPage s \<and>
    pages_done os ck f fs w s d n1 c d' \<and>
    (same_wal w w' \<and> s' = s\<lparr>ckptInfo := c\<rparr> \<and> f' = f \<or> eMode = SQLITE_CHECKPOINT_TRUNCATE \<and> nBackfill c = mxFrame (hdr w) \<and>
       \<not> (exclusiveMode w = 0 \<and> lock_held ck j \<and> 0 < j \<and> j < WAL_NREADER) \<and> restarted w w' s' \<and> (rc, f') = walTruncate ck f 0)"
proof -
  have W: "wi_ok w s fs" "mxFrame (hdr w) \<le> length fs" "\<forall>p\<in>set fs. 0 < p \<and> p < 0xFFFFFFFF"
    "length (aReadMark (ckptInfo s)) = WAL_NREADER" "aReadMark (ckptInfo s) ! 0 = 0" "nBackfill (ckptInfo s) \<le> mxFrame (hdr w)"
    "length (aSalt (hdr w)) = 8" "length (salt1 ck) = 4" "gives_up (busyHandler ck)"
    "if eMode = SQLITE_CHECKPOINT_PASSIVE then busyHandler ck = None else writeLock w" and mp: "mapped w 0"
    using w unfolding checkpointer_def by blast+
  obtain w1 c d1 b k rc n1 where first: "(if nBackfill (ckptInfo s) < mxFrame (hdr w) then
      if eMode = SQLITE_CHECKPOINT_PASSIVE \<and> busyHandler ck \<noteq> None then None else ckpt_pages os ck f (busyHandler ck) w s d
    else Some (w, s, d, busyHandler ck, 0, SQLITE_OK)) = Some (w1, s\<lparr>ckptInfo := c\<rparr>, d1, b, k, rc)" "gives_up b" "same_wal w w1"
    "pages_done os ck f fs w s d n1 c d1"
  proof (cases "nBackfill (ckptInfo s) < mxFrame (hdr w)")
    case True
    from ckpt_pages_ok [OF L W(9,1-4), of os f d] obtain w1 c d1 b k rc n1 where
      "ckpt_pages os ck f (busyHandler ck) w s d = Some (w1, s\<lparr>ckptInfo := c\<rparr>, d1, b, k, rc)" "gives_up b" "same_wal w w1"
      "pages_done os ck f fs w s d n1 c d1" by blast
    then show ?thesis using that [of w1 c d1 b k rc n1] True W(10) by (cases "eMode = SQLITE_CHECKPOINT_PASSIVE") simp_all
  next
    case False
    have "pages_done os ck f fs w s d 0 (ckptInfo s) d" by (auto simp: pages_done_def kept_pages_def)
    then show ?thesis using that [of w "ckptInfo s" d "busyHandler ck" 0 SQLITE_OK 0] False W(9) by simp
  qed
  note S = same_wal_fields [OF first(3)]
  have c: "aReadMark c ! 0 = 0" "nBackfill c \<le> mxFrame (hdr w)" "length (aReadMark c) = WAL_NREADER"
    using first(4) W(4-6) by (auto simp: pages_done_def)
  show ?thesis
  proof (cases "rc = SQLITE_OK \<and> eMode \<noteq> SQLITE_CHECKPOINT_PASSIVE")
    case False
    then have "walCheckpoint os ck eMode w s f d = Some (w1, s\<lparr>ckptInfo := c\<rparr>, f, d1, rc)"
      using mp unfolding walCheckpoint_def first(1) by auto
    then show ?thesis using first(3,4) by fastforce
  next
    case True
    have P: "writeLock w1" "nBackfill (ckptInfo (s\<lparr>ckptInfo := c\<rparr>)) \<le> mxFrame (hdr w1)" "aReadMark (ckptInfo (s\<lparr>ckptInfo := c\<rparr>)) ! 0 = 0"
      "length (aSalt (hdr w1)) = 8" "mapped w1 0" "length (aReadMark (ckptInfo (s\<lparr>ckptInfo := c\<rparr>))) = WAL_NREADER"
      using W(7,10) True S(4,7) c same_wal_mapped [OF first(3) mp] by simp_all
    from ckpt_restart_ok [OF first(2) P(1-4) W(8) P(5,6), of os eMode k f j] obtain w' s' f' rc' where
      R: "ckpt_restart os ck eMode b k w1 (s\<lparr>ckptInfo := c\<rparr>) f = Some (w', s', f', rc')" "wiPage s' = wiPage (s\<lparr>ckptInfo := c\<rparr>)"
      "w' = w1 \<and> s' = s\<lparr>ckptInfo := c\<rparr> \<and> f' = f \<or> eMode = SQLITE_CHECKPOINT_TRUNCATE \<and> nBackfill (ckptInfo (s\<lparr>ckptInfo := c\<rparr>)) = mxFrame (hdr w1) \<and>
         \<not> (exclusiveMode w1 = 0 \<and> lock_held ck j \<and> 0 < j \<and> j < WAL_NREADER) \<and> restarted w1 w' s' \<and> (rc', f') = walTruncate ck f 0" by blast
    have "walCheckpoint os ck eMode w s f d = Some (w', s', f', d1, rc')"
      using True mp unfolding walCheckpoint_def first(1) by (simp add: R(1))
    moreover have "wiPage s' = wiPage s" using R(2) by simp
    moreover have "same_wal w w' \<and> s' = s\<lparr>ckptInfo := c\<rparr> \<and> f' = f \<or> eMode = SQLITE_CHECKPOINT_TRUNCATE \<and> nBackfill c = mxFrame (hdr w) \<and>
       \<not> (exclusiveMode w = 0 \<and> lock_held ck j \<and> 0 < j \<and> j < WAL_NREADER) \<and> restarted w w' s' \<and> (rc', f') = walTruncate ck f 0"
      using R(3) S(3,7) first(3) by (auto simp: restarted_def)
    ultimately show ?thesis using first(4) by blast
  qed
qed


text \<open>A reader of the log finds a page that is backfilled in the log, and the others are kept.\<close>

lemma reader_finds:
  assumes "mxFrame (hdr r) \<le> length fs" "minFrame r \<le> n0 + 1" "n1 \<le> mxFrame (hdr r)" "mx \<le> length fs" "in_range fs mx n0 n1 p"
  shows "last_frame fs p (minFrame r) (mxFrame (hdr r)) \<noteq> 0"
proof
  assume z: "last_frame fs p (minFrame r) (mxFrame (hdr r)) = 0"
  let ?g = "last_frame fs p 1 mx"
  have g: "n0 < ?g" "?g \<le> n1" using assms(5) by (simp_all add: in_range_def)
  then have "fs ! (?g - 1) = p" using last_frame_spec [OF assms(4) refl, of p 1] by (auto split: if_splits)
  moreover have "minFrame r \<le> ?g" "0 < ?g" "?g \<le> mxFrame (hdr r)" using g assms(2,3) by simp_all
  ultimately show False using last_frame_spec [OF assms(1) z [symmetric]] by auto
qed

lemma reader_keeps:
  assumes d: "pages_done os ck f fs w s d n1 c d'" and w: "checkpointer ck eMode fs w s" "exclusiveMode w = 0"
    and r: "reader ck fs w s r j" "j \<noteq> 0" and p: "0 < p" "p \<le> nPage (hdr r)" "\<not> in_range fs (mxFrame (hdr w)) (nBackfill (ckptInfo s)) n1 p"
  shows "page_bytes d' (walPagesize w) p = page_bytes d (walPagesize w) p"
proof -
  have n1: "n1 \<le> mxFrame (hdr r)"
    using d w r unfolding pages_done_def reader_def checkpointer_def by fastforce
  have "p \<le> nPage (hdr w) \<or> n1 \<noteq> mxFrame (fst (wiHdr s))"
  proof (cases "n1 = mxFrame (fst (wiHdr s))")
    case True
    then have "mxFrame (hdr r) = mxFrame (hdr w)" using n1 r w(1) d unfolding reader_def checkpointer_def pages_done_def by fastforce
    then show ?thesis using r p(2) by (simp add: reader_def)
  qed simp
  then show ?thesis using d p(1,3) unfolding pages_done_def kept_pages_def by blast
qed

lemma wal_checkpoint_fill:
  assumes "db_laws ck" "checkpointer ck eMode fs w s"
    and "filled_pages os f fs (mxFrame (hdr w)) (walPagesize w) 0 (nBackfill (ckptInfo s)) (nPage (hdr w)) d"
  shows "\<exists>w' s' f' d' rc. walCheckpoint os ck eMode w s f d = Some (w', s', f', d', rc) \<and>
    (hdr w' = hdr w \<and> wiHdr s' = wiHdr s \<and> f' = f \<and> nBackfill (ckptInfo s) \<le> nBackfill (ckptInfo s') \<and> nBackfill (ckptInfo s') \<le> mxFrame (hdr w) \<and>
       filled_pages os f fs (mxFrame (hdr w)) (walPagesize w) 0 (nBackfill (ckptInfo s')) (nPage (hdr w)) d' \<or>
     eMode = SQLITE_CHECKPOINT_TRUNCATE \<and> restarted w w' s' \<and> (rc, f') = walTruncate ck f 0 \<and>
       filled_pages os f fs (mxFrame (hdr w)) (walPagesize w) 0 (mxFrame (hdr w)) (nPage (hdr w)) d')"
proof -
  obtain w' s' f' d' rc n1 c where q: "walCheckpoint os ck eMode w s f d = Some (w', s', f', d', rc)"
    "pages_done os ck f fs w s d n1 c d'"
    "same_wal w w' \<and> s' = s\<lparr>ckptInfo := c\<rparr> \<and> f' = f \<or> eMode = SQLITE_CHECKPOINT_TRUNCATE \<and> nBackfill c = mxFrame (hdr w) \<and>
       restarted w w' s' \<and> (rc, f') = walTruncate ck f 0"
    using walCheckpoint_ok [OF assms(1,2), of os f d 0] by blast
  have "nBackfill (ckptInfo s) \<le> mxFrame (hdr w)" using assms(2) by (simp add: checkpointer_def)
  then have "nBackfill (ckptInfo s) \<le> nBackfill c" "nBackfill c \<le> mxFrame (hdr w)" using q(2) by (auto simp: pages_done_def)
  moreover have "filled_pages os f fs (mxFrame (hdr w)) (walPagesize w) 0 (nBackfill c) (nPage (hdr w)) d'"
    unfolding filled_pages_def
  proof (intro allI impI)
    fix p assume p: "0 < p" "p \<le> nPage (hdr w) \<and> in_range fs (mxFrame (hdr w)) 0 (nBackfill c) p"
    show "page_bytes d' (walPagesize w) p = log_page os f (walPagesize w) (last_frame fs p 1 (mxFrame (hdr w)))"
    proof (cases "in_range fs (mxFrame (hdr w)) 0 (nBackfill (ckptInfo s)) p")
      case True
      then have "\<not> in_range fs (mxFrame (hdr w)) (nBackfill (ckptInfo s)) n1 p" by (simp add: in_range_def)
      then have "page_bytes d' (walPagesize w) p = page_bytes d (walPagesize w) p"
        using q(2) p unfolding pages_done_def kept_pages_def by blast
      then show ?thesis using assms(3) p True by (simp add: filled_pages_def)
    next
      case False
      then have "in_range fs (mxFrame (hdr w)) (nBackfill (ckptInfo s)) n1 p \<and> nBackfill c \<noteq> nBackfill (ckptInfo s)"
        using p q(2) by (auto simp: in_range_def pages_done_def)
      then show ?thesis using q(2) p unfolding pages_done_def filled_pages_def by blast
    qed
  qed
  ultimately show ?thesis using q(1,3) same_wal_fields(7) [of w w'] by auto
qed


text \<open>A page of the reader's snapshot is read with the same result before and after the checkpoint.\<close>

lemma checkpoint_keeps:
  assumes "db_laws ck" "checkpointer ck eMode fs w s" "exclusiveMode w = 0" "reader ck fs w s r j"
    and "0 < p" "p \<le> nPage (hdr r)" "sz = walPagesize w"
  shows "\<exists>w' s' f' d' rc. walCheckpoint os ck eMode w s f d = Some (w', s', f', d', rc) \<and>
    readDbPage os' r s' f' d' p sz = readDbPage os' r s f d p sz"
proof -
  obtain w' s' f' d' rc n1 c where q: "walCheckpoint os ck eMode w s f d = Some (w', s', f', d', rc)" "wiPage s' = wiPage s"
    "pages_done os ck f fs w s d n1 c d'" "0 < j \<longrightarrow> f' = f"
  proof -
    have "exclusiveMode w = 0 \<and> lock_held ck j \<and> j < WAL_NREADER" using assms(3,4) by (simp add: reader_def)
    then show ?thesis using walCheckpoint_ok [OF assms(1,2), of os f d j] that by blast
  qed
  note R = assms(4) [unfolded reader_def]
  have ff: "walFindFrame E r s' p = map_option (\<lambda>(w, t, x). (w, with_header (wiHdr s') (ckptInfo s') t, x)) (walFindFrame E r s p)" for E
    using walFindFrame_header [of E r "wiHdr s'" "ckptInfo s'" s p] same_pages [OF q(2)] by simp
  have "readDbPage os' r s' f' d' p sz = readDbPage os' r s f d p sz"
  proof (cases "j = 0")
    case True
    then have "d' = d" using pages_done_slot_0 [OF q(3) assms(3)] R by simp
    moreover have "walFindFrame (env os') r s p = Some (r, s, SQLITE_OK, 0)" using True R by (simp add: walFindFrame_def)
    ultimately show ?thesis by (simp add: readDbPage_eq ff)
  next
    case False
    then have "f' = f" using q(4) by simp
    have n1: "n1 \<le> mxFrame (hdr r)" using q(3) assms(2,3) R False unfolding pages_done_def checkpointer_def by fastforce
    obtain r' rc g where g: "walFindFrame (env os') r s p = Some (r', s, rc, g)"
      "rc = SQLITE_OK \<longrightarrow> g = last_frame fs p (minFrame r) (mxFrame (hdr r))"
      using walFindFrame_ok [of r s fs "env os'" p] R False by auto
    have "page_bytes d' sz p = page_bytes d sz p" if "rc = SQLITE_OK" "g = 0"
      using reader_keeps [OF q(3) assms(2-4) False assms(5,6)] reader_finds [of r fs "nBackfill (ckptInfo s)" n1 "mxFrame (hdr w)" p]
        n1 R g(2) that assms(2,7) False by (auto simp: checkpointer_def)
    then show ?thesis using g(1) \<open>f' = f\<close> by (auto simp: readDbPage_eq ff db_read_def Let_def)
  qed
  with q(1) show ?thesis by blast
qed

section \<open>Properties\<close>

text \<open>
  C1: A checkpoint never changes what a reader sees: for every connection that holds a read slot, in
  every mode of the checkpoint and whatever locks, reads, writes, syncs or the busy handler answer,
  every page of the reader's snapshot is read with the same result before and after. The
  checkpoint is defined in all cases.
\<close>

theorem wal_checkpoint_safe:
  assumes "db_laws ck" "checkpointer ck eMode fs w s" "exclusiveMode w = 0" "reader ck fs w s r j"
    and "0 < p" "p \<le> nPage (hdr r)" "sz = walPagesize w"
  shows "\<exists>w' s' f' d' rc. walCheckpoint os ck eMode w s f d = Some (w', s', f', d', rc) \<and>
    readDbPage os' r s' f' d' p sz = readDbPage os' r s f d p sz"
  by (rule checkpoint_keeps [OF assms])

text \<open>
  C7: The database file holds the content of the frames that count as backfilled, in every mode and
  whatever fails in a checkpoint: if every page of the database whose last frame in the log is among
  the first \<open>nBackfill\<close> frames has the bytes of that frame before, then so it is after, with \<open>nBackfill\<close> no
  smaller and the header and the log file unchanged - or else the mode is TRUNCATE, the log has been
  restarted (an empty header is published, \<open>nBackfill\<close> is 0, the read marks are reset, the log file
  is what truncating it gave), and the database has the last frame of every page in the log.
\<close>

theorem wal_checkpoint_backfilled:
  assumes "db_laws ck" "checkpointer ck eMode fs w s"
    and "filled_pages os f fs (mxFrame (hdr w)) (walPagesize w) 0 (nBackfill (ckptInfo s)) (nPage (hdr w)) d"
  shows "\<exists>w' s' f' d' rc. walCheckpoint os ck eMode w s f d = Some (w', s', f', d', rc) \<and>
    (hdr w' = hdr w \<and> wiHdr s' = wiHdr s \<and> f' = f \<and> nBackfill (ckptInfo s) \<le> nBackfill (ckptInfo s') \<and> nBackfill (ckptInfo s') \<le> mxFrame (hdr w) \<and>
       filled_pages os f fs (mxFrame (hdr w)) (walPagesize w) 0 (nBackfill (ckptInfo s')) (nPage (hdr w)) d' \<or>
     eMode = SQLITE_CHECKPOINT_TRUNCATE \<and> restarted w w' s' \<and> (rc, f') = walTruncate ck f 0 \<and>
       filled_pages os f fs (mxFrame (hdr w)) (walPagesize w) 0 (mxFrame (hdr w)) (nPage (hdr w)) d')"
  by (rule wal_checkpoint_fill [OF assms])

section \<open>A checkpoint that completes\<close>

text \<open>Nobody holds a lock, nothing fails, and the log holds all its frames.\<close>

definition quiet :: "walOs \<Rightarrow> ckptEnv \<Rightarrow> bool" where
  "quiet os ck \<longleftrightarrow> no_read_errors os \<and> no_map_errors (env os) \<and> (\<forall>k l n. tryLock ck k l n = SQLITE_OK) \<and> syncWal ck = SQLITE_OK \<and>
     syncDb ck = SQLITE_OK \<and> dbSizeRc ck = SQLITE_OK \<and> (\<forall>d o' z. fst (dbWrite ck d o' z) = SQLITE_OK) \<and>
     (\<forall>d n. fst (dbTruncate ck d n) = SQLITE_OK) \<and> (\<forall>f n. fst (walTruncate ck f n) = SQLITE_OK) \<and> (\<forall>p. \<not> interrupted ck p)"

definition log_long :: "u8 list \<Rightarrow> nat \<Rightarrow> nat \<Rightarrow> bool" where
  "log_long f sz mx \<longleftrightarrow> walFrameOffset mx sz + WAL_FRAME_HDRSIZE + sz \<le> length f"

lemma init_segments_OK:
  "no_map_errors E \<Longrightarrow> init_segments E iLast n i k w s segs = Some (w', s', rc, segs') \<Longrightarrow> rc = SQLITE_OK"
proof (induction k arbitrary: i w s segs)
  case (Suc k)
  obtain w1 s1 where "walIndexPage E w s i = (w1, s1, SQLITE_OK, True)" using walIndexPage_succeeds [OF Suc.prems(1)] by blast
  then have g: "walHashGet E w s i = (w1, s1, SQLITE_OK)" by (simp add: walHashGet_def)
  show ?case using Suc.prems(2) Suc.IH [OF Suc.prems(1)] by (auto simp: g Let_def split: bind_splits)
qed simp

lemma walIteratorInit_OK: "no_map_errors E \<Longrightarrow> walIteratorInit E w s n = Some (w', s', rc, it) \<Longrightarrow> rc = SQLITE_OK"
  using init_segments_OK by (auto simp: walIteratorInit_def no_map_errors_def Let_def split: bind_splits)

lemma walFrameOffset_mono: "g \<le> mx \<Longrightarrow> walFrameOffset g sz \<le> walFrameOffset mx sz"
  by (simp add: walFrameOffset_def)

lemma ckpt_list_OK:
  assumes "quiet os ck" "log_long f sz mx"
  shows "(\<And>x. x \<in> set l \<Longrightarrow> snd x \<le> mx) \<Longrightarrow> fst (ckpt_list os ck f sz nBack mxSafe P l d) = SQLITE_OK"
proof (induction l arbitrary: d)
  case (Cons x l)
  have "walFrameOffset (snd x) sz + WAL_FRAME_HDRSIZE + sz \<le> length f"
    using walFrameOffset_mono [of "snd x" mx sz] Cons.prems [of x] assms(2) by (simp add: log_long_def)
  then have "fst (osRead os f sz (walFrameOffset (snd x) sz + WAL_FRAME_HDRSIZE)) = SQLITE_OK"
    using assms(1) by (simp add: osRead_def quiet_def no_read_errors_def)
  then obtain z where r: "osRead os f sz (walFrameOffset (snd x) sz + WAL_FRAME_HDRSIZE) = (SQLITE_OK, z)" by (metis prod.collapse)
  have "fst (dbWrite ck d ((fst x - 1) * sz) z) = SQLITE_OK" using assms(1) by (simp add: quiet_def)
  then obtain d1 where wr: "dbWrite ck d ((fst x - 1) * sz) z = (SQLITE_OK, d1)" by (metis prod.collapse)
  have no: "\<not> interrupted ck (fst x)" using assms(1) by (simp add: quiet_def)
  have IH: "fst (ckpt_list os ck f sz nBack mxSafe P l d0) = SQLITE_OK" for d0 using Cons.IH Cons.prems by simp
  show ?case unfolding ckpt_list.simps r wr Let_def prod.case by (simp add: no IH)
qed simp

lemma ckpt_copy_OK:
  assumes "quiet os ck" "log_long f sz mx" "delivers fs nBack mx it" "mx \<le> length fs" "frames_known w s fs nBack mx"
  shows "\<exists>d'. ckpt_copy os ck f w s sz nBack mxSafe P it 0 d = Some (SQLITE_OK, d')"
proof -
  obtain l where l: "iter_all it 0 = Some l" "set l = {(q, last_frame fs q (first_frame nBack) mx) |q. q \<in> pages_of fs (first_frame nBack) mx}"
    using assms(3) by (auto simp: delivers_def)
  then have "snd x \<le> mx" if "x \<in> set l" for x using that last_frame_le by auto
  from ckpt_list_OK [OF assms(1,2) this] have "fst (ckpt_list os ck f sz nBack mxSafe P l d) = SQLITE_OK" .
  moreover have "walFramePgno w s (snd x) = Some (fst x)" if "x \<in> set l" for x
    using delivered_known [OF assms(5,4)] that unfolding l(2) .
  ultimately show ?thesis using ckpt_copy_list [OF l(1)] by (metis prod.collapse)
qed

lemma ckpt_backfill_quiet:
  assumes Q: "quiet os ck" and f: "log_long f (walPagesize w) (mxFrame (hdr w))"
    and it: "delivers fs (nBackfill (ckptInfo s)) (mxFrame (hdr w)) it" "mxFrame (hdr w) \<le> length fs"
      "frames_known w s fs (nBackfill (ckptInfo s)) (mxFrame (hdr w))"
    and d: "nPage (hdr w) * walPagesize w \<le> length d + 65536 + mxFrame (hdr w) * walPagesize w"
  shows "\<exists>c d'. ckpt_backfill os ck f mxSafe w s it d = Some (s\<lparr>ckptInfo := c\<rparr>, d', SQLITE_OK) \<and> nBackfill c = mxSafe"
proof -
  let ?s = "s\<lparr>ckptInfo := (ckptInfo s)\<lparr>nBackfillAttempted := mxSafe\<rparr>\<rparr>"
  have K: "frames_known w ?s fs (nBackfill (ckptInfo s)) (mxFrame (hdr w))" using it(3) by simp
  obtain d1 where c: "ckpt_copy os ck f w ?s (walPagesize w) (nBackfill (ckptInfo s)) mxSafe (nPage (hdr w)) it 0 d = Some (SQLITE_OK, d1)"
    using ckpt_copy_OK [OF Q f it(1,2) K] by blast
  have "fst (dbTruncate ck d1 (nPage (hdr w) * walPagesize w)) = SQLITE_OK" using Q by (simp add: quiet_def)
  then obtain d2 where t: "dbTruncate ck d1 (nPage (hdr w) * walPagesize w) = (SQLITE_OK, d2)" by (metis prod.collapse)
  have "\<not> length d + 65536 + mxFrame (hdr w) * walPagesize w < nPage (hdr w) * walPagesize w" using d by linarith
  moreover have "syncWal ck = SQLITE_OK" "dbSizeRc ck = SQLITE_OK" "syncDb ck = SQLITE_OK" using Q by (simp_all add: quiet_def)
  ultimately have "\<exists>d'. ckpt_backfill os ck f mxSafe w s it d =
      Some (s\<lparr>ckptInfo := (ckptInfo s)\<lparr>nBackfillAttempted := mxSafe, nBackfill := mxSafe\<rparr>\<rparr>, d', SQLITE_OK)"
    unfolding ckpt_backfill_def Let_def by (simp add: c t)
  then obtain d' where "ckpt_backfill os ck f mxSafe w s it d =
      Some (s\<lparr>ckptInfo := (ckptInfo s)\<lparr>nBackfillAttempted := mxSafe, nBackfill := mxSafe\<rparr>\<rparr>, d', SQLITE_OK)" by blast
  then show ?thesis by (intro exI conjI) (assumption, simp)
qed

lemma ckpt_pages_quiet:
  assumes Q: "quiet os ck" "gives_up xBusy" and w: "wi_ok w s fs" "mxFrame (hdr w) \<le> length fs" "\<forall>p\<in>set fs. 0 < p \<and> p < 0xFFFFFFFF"
    and m: "length (aReadMark (ckptInfo s)) = WAL_NREADER" "nBackfill (ckptInfo s) < mxFrame (hdr w)"
    and f: "log_long f (walPagesize w) (mxFrame (hdr w))"
    and d: "nPage (hdr w) * walPagesize w \<le> length d + 65536 + mxFrame (hdr w) * walPagesize w"
  shows "\<exists>w' c d' xBusy' k. ckpt_pages os ck f xBusy w s d = Some (w', s\<lparr>ckptInfo := c\<rparr>, d', xBusy', k, SQLITE_OK) \<and>
    same_wal w w' \<and> nBackfill c = mxFrame (hdr w)"
proof -
  let ?mx = "mxFrame (hdr w)" and ?n = "nBackfill (ckptInfo s)"
  have free: "tryLock ck k l n = SQLITE_OK" for k l n using Q(1) by (simp add: quiet_def)
  have l: "1 + (WAL_NREADER - 1) = length (aReadMark (ckptInfo s))" using m(1) by simp
  obtain marks k where mk: "ckpt_marks ck w 1 (WAL_NREADER - 1) (aReadMark (ckptInfo s)) ?mx xBusy 0 SQLITE_OK =
      Some (marks, ?mx, xBusy, k, SQLITE_OK, False)" using ckpt_marks_free [OF free Q(2) l order_refl refl] by blast
  let ?s = "s\<lparr>ckptInfo := (ckptInfo s)\<lparr>aReadMark := marks\<rparr>\<rparr>"
  have "wi_ok w ?s fs" using w(1) by (simp add: wi_ok_def)
  from walIteratorInit_delivers [OF this w(2) m(2) w(3), of "env os"] obtain w' rc it where
    i: "walIteratorInit (env os) w ?s ?n = Some (w', ?s, rc, it)" "same_wal w w'" "it = None \<longleftrightarrow> rc \<noteq> SQLITE_OK"
      "\<forall>p. it = Some p \<longrightarrow> delivers fs ?n ?mx p \<and> frames_known w' ?s fs ?n ?mx" by blast
  have "rc = SQLITE_OK" using walIteratorInit_OK [OF _ i(1)] Q(1) by (simp add: quiet_def)
  then obtain p where p: "it = Some p" "delivers fs ?n ?mx p" "frames_known w' ?s fs ?n ?mx" using i(3,4) by auto
  note W = same_wal_fields [OF i(2)]
  obtain j where b: "walBusyLock ck w' xBusy (WAL_READ_LOCK 0) 1 k = Some (SQLITE_OK, j + 1)"
    using walBusyLock_ok [OF Q(2), of ck w' "WAL_READ_LOCK 0" 1 k] free by auto
  have P: "log_long f (walPagesize w') (mxFrame (hdr w'))" "delivers fs (nBackfill (ckptInfo ?s)) (mxFrame (hdr w')) p" "mxFrame (hdr w') \<le> length fs"
    "frames_known w' ?s fs (nBackfill (ckptInfo ?s)) (mxFrame (hdr w'))" "nPage (hdr w') * walPagesize w' \<le> length d + 65536 + mxFrame (hdr w') * walPagesize w'"
    using f d p(2,3) w(2) W(7) by (simp_all add: walPagesize_def)
  from ckpt_backfill_quiet [OF Q(1) P, of ?mx] obtain c d' where
    "ckpt_backfill os ck f ?mx w' ?s p d = Some (?s\<lparr>ckptInfo := c\<rparr>, d', SQLITE_OK)" "nBackfill c = ?mx" by blast
  then have "ckpt_pages os ck f xBusy w s d = Some (w', s\<lparr>ckptInfo := c\<rparr>, d', xBusy, j + 1, SQLITE_OK)"
    unfolding ckpt_pages_def mk Let_def by (simp add: i(1) p(1) b m(2) del: One_nat_def)
  with i(2) \<open>nBackfill c = ?mx\<close> show ?thesis by blast
qed

lemma ckpt_restart_quiet:
  assumes "quiet os ck" "gives_up xBusy" "writeLock w" "nBackfill (ckptInfo s) = mxFrame (hdr w)" "mapped w 0"
    "length (aReadMark (ckptInfo s)) = WAL_NREADER" "aReadMark (ckptInfo s) ! 0 = 0" "length (aSalt (hdr w)) = 8" "length (salt1 ck) = 4"
  shows "\<exists>w' s'. ckpt_restart os ck eMode xBusy k w s f =
      Some (w', s', if eMode = SQLITE_CHECKPOINT_TRUNCATE then snd (walTruncate ck f 0) else f, SQLITE_OK) \<and>
    (if eMode = SQLITE_CHECKPOINT_TRUNCATE then restarted w w' s' else w' = w \<and> s' = s)"
proof -
  obtain i where b: "walBusyLock ck w xBusy (WAL_READ_LOCK 1) (WAL_NREADER - 1) k = Some (SQLITE_OK, i + 1)"
    using walBusyLock_ok [OF assms(2), of ck w "WAL_READ_LOCK 1" "WAL_NREADER - 1" k] assms(1) by (auto simp: quiet_def)
  obtain w1 s1 where R: "walRestartHdr (bigEndian os) w s (salt1 ck) = Some (w1, s1)" "restarted w w1 s1"
    using walRestartHdr_ok [OF assms(3,5-9)] by blast
  obtain ft where T: "walTruncate ck f 0 = (SQLITE_OK, ft)"
    using assms(1) by (cases "walTruncate ck f 0") (auto simp: quiet_def dest!: spec [of _ f] spec [of _ 0])
  show ?thesis
    using assms(3,4) b R T by (cases "eMode = SQLITE_CHECKPOINT_TRUNCATE") (simp_all add: ckpt_restart_def)
qed

lemma ckptInfo_inject [simp]: "s\<lparr>ckptInfo := a\<rparr> = s\<lparr>ckptInfo := b\<rparr> \<longleftrightarrow> a = b"
  by (cases s) simp

lemma walCheckpoint_quiet:
  assumes Q: "quiet os ck" "db_laws ck" and w: "checkpointer ck eMode fs w s"
    and f: "log_long f (walPagesize w) (mxFrame (hdr w))"
    and d: "nPage (hdr w) * walPagesize w \<le> length d + 65536 + mxFrame (hdr w) * walPagesize w"
  shows "\<exists>w' s' d'. walCheckpoint os ck eMode w s f d =
      Some (w', s', if eMode = SQLITE_CHECKPOINT_TRUNCATE then snd (walTruncate ck f 0) else f, d', SQLITE_OK) \<and>
    (if eMode = SQLITE_CHECKPOINT_TRUNCATE then restarted w w' s'
     else hdr w' = hdr w \<and> wiHdr s' = wiHdr s \<and> nBackfill (ckptInfo s') = mxFrame (hdr w))"
proof -
  let ?mx = "mxFrame (hdr w)"
  have W: "wi_ok w s fs" "?mx \<le> length fs" "\<forall>p\<in>set fs. 0 < p \<and> p < 0xFFFFFFFF"
    "length (aReadMark (ckptInfo s)) = WAL_NREADER" "nBackfill (ckptInfo s) \<le> ?mx" "gives_up (busyHandler ck)"
    "if eMode = SQLITE_CHECKPOINT_PASSIVE then busyHandler ck = None else writeLock w"
    "aReadMark (ckptInfo s) ! 0 = 0" "length (aSalt (hdr w)) = 8" "length (salt1 ck) = 4" "mapped w 0"
    using w unfolding checkpointer_def by blast+
  have "\<exists>w1 c d1 b k. (if nBackfill (ckptInfo s) < ?mx then
      if eMode = SQLITE_CHECKPOINT_PASSIVE \<and> busyHandler ck \<noteq> None then None else ckpt_pages os ck f (busyHandler ck) w s d
     else Some (w, s, d, busyHandler ck, 0, SQLITE_OK)) = Some (w1, s\<lparr>ckptInfo := c\<rparr>, d1, b, k, SQLITE_OK) \<and> same_wal w w1 \<and> nBackfill c = ?mx \<and>
       length (aReadMark c) = WAL_NREADER \<and> aReadMark c ! 0 = 0 \<and> gives_up b"
  proof (cases "nBackfill (ckptInfo s) < ?mx")
    case True
    obtain w1 c d1 b k where q: "ckpt_pages os ck f (busyHandler ck) w s d = Some (w1, s\<lparr>ckptInfo := c\<rparr>, d1, b, k, SQLITE_OK)"
      "same_wal w w1" "nBackfill c = ?mx" using ckpt_pages_quiet [OF Q(1) W(6,1-4) True f d] by blast
    then obtain n1 where "gives_up b" "pages_done os ck f fs w s d n1 c d1" using ckpt_pages_ok [OF Q(2) W(6,1-4), of os f d] by auto
    then have "length (aReadMark c) = WAL_NREADER" "aReadMark c ! 0 = 0" "gives_up b" using W(4,8) by (simp_all add: pages_done_def)
    moreover have "\<not> (eMode = SQLITE_CHECKPOINT_PASSIVE \<and> busyHandler ck \<noteq> None)" using W(7) by (auto split: if_splits)
    ultimately show ?thesis using q True by simp
  next
    case False
    have "s = s\<lparr>ckptInfo := ckptInfo s\<rparr>" by simp
    then show ?thesis using False W(4-6,8) by (intro exI [of _ w] exI [of _ "ckptInfo s"]) simp
  qed
  then obtain w1 c d1 b k where first: "(if nBackfill (ckptInfo s) < ?mx then
      if eMode = SQLITE_CHECKPOINT_PASSIVE \<and> busyHandler ck \<noteq> None then None else ckpt_pages os ck f (busyHandler ck) w s d
     else Some (w, s, d, busyHandler ck, 0, SQLITE_OK)) = Some (w1, s\<lparr>ckptInfo := c\<rparr>, d1, b, k, SQLITE_OK)" "same_wal w w1" "nBackfill c = ?mx"
    "length (aReadMark c) = WAL_NREADER" "aReadMark c ! 0 = 0" "gives_up b"
    by blast
  note S = same_wal_fields [OF first(2)]
  show ?thesis
  proof (cases "eMode = SQLITE_CHECKPOINT_PASSIVE")
    case True
    then have "walCheckpoint os ck eMode w s f d = Some (w1, s\<lparr>ckptInfo := c\<rparr>, f, d1, SQLITE_OK)"
      using W(11) unfolding walCheckpoint_def first(1) by simp
    then show ?thesis using first(3) S(7) True by simp
  next
    case False
    have P: "writeLock w1" "nBackfill (ckptInfo (s\<lparr>ckptInfo := c\<rparr>)) = mxFrame (hdr w1)" "mapped w1 0"
      "length (aReadMark (ckptInfo (s\<lparr>ckptInfo := c\<rparr>))) = WAL_NREADER" "aReadMark (ckptInfo (s\<lparr>ckptInfo := c\<rparr>)) ! 0 = 0" "length (aSalt (hdr w1)) = 8"
      using False W(7,9) S(4,7) first(3-5) same_wal_mapped [OF first(2) W(11)] by simp_all
    obtain w' s' where R: "ckpt_restart os ck eMode b k w1 (s\<lparr>ckptInfo := c\<rparr>) f =
        Some (w', s', if eMode = SQLITE_CHECKPOINT_TRUNCATE then snd (walTruncate ck f 0) else f, SQLITE_OK)"
      "if eMode = SQLITE_CHECKPOINT_TRUNCATE then restarted w1 w' s' else w' = w1 \<and> s' = s\<lparr>ckptInfo := c\<rparr>"
      using ckpt_restart_quiet [OF Q(1) first(6) P W(10), of eMode k f] by blast
    have "walCheckpoint os ck eMode w s f d =
        Some (w', s', if eMode = SQLITE_CHECKPOINT_TRUNCATE then snd (walTruncate ck f 0) else f, d1, SQLITE_OK)"
      using W(11) False unfolding walCheckpoint_def first(1) by (simp add: R(1))
    then show ?thesis using R(2) S(7) first(3) by (auto simp: restarted_def split: if_splits)
  qed
qed

text \<open>
  C3: A checkpoint without interference and failures completes, in every mode. If every lock is granted,
  no call fails and no interrupt comes (\<open>quiet\<close>), the log file holds all frames of the header
  (\<open>log_long\<close>), the database file is not so short that the sizes look corrupt, and the pages of the frames
  that count as backfilled are in it (\<open>filled_pages\<close>), then it returns \<open>SQLITE_OK\<close> and the database file alone
  is the snapshot: every page has the bytes of its last frame in the log, or what it had if the log
  does not hold it. In the mode TRUNCATE the log has then been restarted and its file truncated; in
  the others the header and the log file are unchanged and the whole log counts as backfilled.
\<close>

theorem wal_checkpoint_complete:
  assumes "db_laws ck" "checkpointer ck eMode fs w s" "quiet os ck"
    and "log_long f (walPagesize w) (mxFrame (hdr w))"
    and "nPage (hdr w) * walPagesize w \<le> length d + 65536 + mxFrame (hdr w) * walPagesize w"
    and "filled_pages os f fs (mxFrame (hdr w)) (walPagesize w) 0 (nBackfill (ckptInfo s)) (nPage (hdr w)) d"
  shows "\<exists>w' s' f' d'. walCheckpoint os ck eMode w s f d = Some (w', s', f', d', SQLITE_OK) \<and>
    (if eMode = SQLITE_CHECKPOINT_TRUNCATE then restarted w w' s' \<and> f' = snd (walTruncate ck f 0)
     else hdr w' = hdr w \<and> wiHdr s' = wiHdr s \<and> f' = f \<and> nBackfill (ckptInfo s') = mxFrame (hdr w)) \<and>
    (\<forall>p. 0 < p \<and> p \<le> nPage (hdr w) \<longrightarrow> page_bytes d' (walPagesize w) p =
       (let g = last_frame fs p 1 (mxFrame (hdr w)) in if g \<noteq> 0 then log_page os f (walPagesize w) g else page_bytes d (walPagesize w) p))"
proof -
  define f' where "f' = (if eMode = SQLITE_CHECKPOINT_TRUNCATE then snd (walTruncate ck f 0) else f)"
  obtain w' s' d' where q: "walCheckpoint os ck eMode w s f d = Some (w', s', f', d', SQLITE_OK)"
    "if eMode = SQLITE_CHECKPOINT_TRUNCATE then restarted w w' s'
     else hdr w' = hdr w \<and> wiHdr s' = wiHdr s \<and> nBackfill (ckptInfo s') = mxFrame (hdr w)"
    using walCheckpoint_quiet [OF assms(3,1,2,4,5)] unfolding f'_def by blast
  obtain n1 c where p: "pages_done os ck f fs w s d n1 c d'"
    using walCheckpoint_ok [OF assms(1,2), of os f d 0] q(1) by auto
  have full: "filled_pages os f fs (mxFrame (hdr w)) (walPagesize w) 0 (mxFrame (hdr w)) (nPage (hdr w)) d'"
    using wal_checkpoint_fill [OF assms(1,2,6)] q by (auto simp: restarted_def split: if_splits)
  have "page_bytes d' (walPagesize w) p = page_bytes d (walPagesize w) p"
    if "0 < p" "p \<le> nPage (hdr w)" "last_frame fs p 1 (mxFrame (hdr w)) = 0" for p
    using p that unfolding pages_done_def kept_pages_def in_range_def by auto
  moreover have "in_range fs (mxFrame (hdr w)) 0 (mxFrame (hdr w)) p" if "last_frame fs p 1 (mxFrame (hdr w)) \<noteq> 0" for p
    using that last_frame_le by (simp add: in_range_def)
  ultimately have "\<forall>p. 0 < p \<and> p \<le> nPage (hdr w) \<longrightarrow> page_bytes d' (walPagesize w) p =
       (let g = last_frame fs p 1 (mxFrame (hdr w)) in if g \<noteq> 0 then log_page os f (walPagesize w) g else page_bytes d (walPagesize w) p)"
    using full by (auto simp: filled_pages_def Let_def)
  then show ?thesis using q by (auto simp: f'_def)
qed


section \<open>An example\<close>

text \<open>A log with one frame, which holds page 5; no lock is granted, or every lock.\<close>

definition ck0 :: "nat \<Rightarrow> ckptEnv" where
  "ck0 lrc = \<lparr>tryLock = (\<lambda>k l n. lrc), busyHandler = None, syncWal = SQLITE_OK, syncDb = SQLITE_OK, dbSizeRc = SQLITE_OK,
     dbWrite = (\<lambda>d x z. (SQLITE_OK, file_write d x z)), dbTruncate = (\<lambda>d n. (SQLITE_OK, take n d)),
     walTruncate = (\<lambda>f n. (SQLITE_OK, take n f)), interrupted = (\<lambda>p. False), mallocFailed = False, salt1 = replicate 4 0\<rparr>"

lemma byte_take: "i < n \<Longrightarrow> byte (take n d) i = byte d i"
  by (simp add: byte_def)

lemma db_laws_ck0: "db_laws (ck0 c)"
  by (simp add: db_laws_def ck0_def byte_file_write byte_take)

definition example_log :: "Wal \<Rightarrow> walShm \<Rightarrow> bool" where
  "example_log w s \<longleftrightarrow> wi_ok w s [5] \<and> mapped w 0 \<and> readLock w = 1 \<and> exclusiveMode w = 0 \<and> writeLock w \<and> \<not> bShmUnreliable w \<and> minFrame w = 1 \<and>
     hdr w = hdr0\<lparr>mxFrame := 1\<rparr> \<and> wiHdr s = (hdr w, hdr w) \<and>
     ckptInfo s = \<lparr>nBackfill = 0, aReadMark = [0, 1, 0, 0, 0], nBackfillAttempted = 0\<rparr>"

lemma example_log: "\<exists>w s. example_log w s"
proof -
  obtain w s where a: "wi_ok w s [5]" "same_wal wal0 w" using one_frame by blast
  let ?h = "hdr0\<lparr>mxFrame := 1\<rparr>"
  let ?s = "s\<lparr>wiHdr := (?h, ?h), ckptInfo := \<lparr>nBackfill = 0, aReadMark = [0, 1, 0, 0, 0], nBackfillAttempted = 0\<rparr>\<rparr>"
  have "wi_ok (w\<lparr>hdr := ?h\<rparr>) ?s [5]" using wi_ok_cong [OF a(1), of "w\<lparr>hdr := ?h\<rparr>"] by (simp add: wi_ok_def)
  then have "example_log (w\<lparr>hdr := ?h\<rparr>) ?s" using same_wal_fields [OF a(2)] same_wal_mapped [OF a(2), of 0]
    by (simp add: example_log_def wal0_def mapped_def)
  then show ?thesis by blast
qed

lemma example_checkpointer: "example_log w s \<Longrightarrow> checkpointer (ck0 c) eMode [5] w s"
  by (simp add: example_log_def checkpointer_def hdr0_def ck0_def gives_up_def)

lemma example_reader: "example_log w s \<Longrightarrow> c \<noteq> SQLITE_OK \<Longrightarrow> reader (ck0 c) [5] w s w 1"
  by (simp add: example_log_def reader_def hdr0_def ck0_def lock_held_def)

lemma example_size: "example_log w s \<Longrightarrow> walPagesize w = 512 \<and> mxFrame (hdr w) = 1 \<and> nPage (hdr w) = 7 \<and> nBackfill (ckptInfo s) = 0"
  by (simp add: example_log_def walPagesize_def hdr0_def)

theorem wal_checkpoint_safe_witness:
  "\<exists>w s. mxFrame (hdr w) = 1 \<and> (\<exists>w' s' f' d' rc. walCheckpoint os0 (ck0 SQLITE_BUSY) 0 w s (replicate 600 1) [] = Some (w', s', f', d', rc) \<and>
    readDbPage os0 w s' f' d' 5 512 = readDbPage os0 w s (replicate 600 1) [] 5 512)"
proof -
  obtain w s where e: "example_log w s" using example_log by blast
  have "exclusiveMode w = 0" using e by (simp add: example_log_def)
  from wal_checkpoint_safe [OF db_laws_ck0 example_checkpointer [OF e] this example_reader [OF e], of SQLITE_BUSY 5 512]
  show ?thesis using example_size [OF e] by fastforce
qed

theorem wal_checkpoint_backfilled_witness:
  "\<exists>w s. mxFrame (hdr w) = 1 \<and> (\<exists>w' s' d' rc. walCheckpoint os0 (ck0 SQLITE_BUSY) 0 w s (replicate 600 1) [] = Some (w', s', replicate 600 1, d', rc) \<and>
      nBackfill (ckptInfo s') \<le> 1) \<and>
    (\<exists>w' s' f' d' rc. walCheckpoint os0 (ck0 SQLITE_OK) 3 w s (replicate 600 1) [] = Some (w', s', f', d', rc) \<and>
      (f' = replicate 600 1 \<or> mxFrame (hdr w') = 0 \<and> f' = []))"
proof -
  obtain w s where e: "example_log w s" using example_log by blast
  have f: "filled_pages os0 (replicate 600 1) [5] (mxFrame (hdr w)) (walPagesize w) 0 (nBackfill (ckptInfo s)) (nPage (hdr w)) []"
    using example_size [OF e] by (simp add: filled_pages_def in_range_def)
  have a: "\<exists>w' s' d' rc. walCheckpoint os0 (ck0 SQLITE_BUSY) 0 w s (replicate 600 1) [] = Some (w', s', replicate 600 1, d', rc) \<and>
      nBackfill (ckptInfo s') \<le> 1"
    using wal_checkpoint_backfilled [OF db_laws_ck0 example_checkpointer [OF e] f, of SQLITE_BUSY 0] example_size [OF e] by fastforce
  have "snd (walTruncate (ck0 SQLITE_OK) (replicate 600 1) 0) = []" by (simp add: ck0_def)
  then have "\<exists>w' s' f' d' rc. walCheckpoint os0 (ck0 SQLITE_OK) 3 w s (replicate 600 1) [] = Some (w', s', f', d', rc) \<and>
      (f' = replicate 600 1 \<or> mxFrame (hdr w') = 0 \<and> f' = [])"
    using wal_checkpoint_backfilled [OF db_laws_ck0 example_checkpointer [OF e] f, of SQLITE_OK 3]
    unfolding restarted_def by (metis snd_conv)
  with a example_size [OF e] show ?thesis by blast
qed

theorem wal_checkpoint_complete_witness:
  "\<exists>w s. mxFrame (hdr w) = 1 \<and> (\<exists>w' s' d'. walCheckpoint os0 (ck0 SQLITE_OK) 0 w s (replicate 600 1) [] = Some (w', s', replicate 600 1, d', SQLITE_OK) \<and>
      nBackfill (ckptInfo s') = 1 \<and> page_bytes d' 512 5 = log_page os0 (replicate 600 1) 512 1) \<and>
    (\<exists>w' s' d'. walCheckpoint os0 (ck0 SQLITE_OK) 3 w s (replicate 600 1) [] = Some (w', s', [], d', SQLITE_OK) \<and>
      mxFrame (hdr w') = 0 \<and> nBackfill (ckptInfo s') = 0 \<and> page_bytes d' 512 5 = log_page os0 (replicate 600 1) 512 1)"
proof -
  obtain w s where e: "example_log w s" using example_log by blast
  note z = example_size [OF e]
  have a: "filled_pages os0 (replicate 600 1) [5] (mxFrame (hdr w)) (walPagesize w) 0 (nBackfill (ckptInfo s)) (nPage (hdr w)) []"
    using z by (simp add: filled_pages_def in_range_def)
  have b: "quiet os0 (ck0 SQLITE_OK)" by (simp add: quiet_def os0_def env0_def ck0_def no_read_errors_def no_map_errors_def)
  have c: "log_long (replicate 600 1) (walPagesize w) (mxFrame (hdr w))" using z by (simp add: log_long_def walFrameOffset_def)
  have d: "nPage (hdr w) * walPagesize w \<le> length ([] :: u8 list) + 65536 + mxFrame (hdr w) * walPagesize w" using z by simp
  have t: "snd (walTruncate (ck0 SQLITE_OK) (replicate 600 1) 0) = []" by (simp add: ck0_def)
  note Z = conjunct1 [OF z] conjunct1 [OF conjunct2 [OF z]] conjunct1 [OF conjunct2 [OF conjunct2 [OF z]]]
  note R = wal_checkpoint_complete [OF db_laws_ck0 example_checkpointer [OF e] b c d a, unfolded Z]
  have g: "(let g = last_frame [5] 5 1 1 in if g \<noteq> 0 then log_page os0 (replicate 600 1) 512 g else page_bytes [] 512 5) =
      log_page os0 (replicate 600 1) 512 1" by simp
  obtain w1 s1 d1 where q: "walCheckpoint os0 (ck0 SQLITE_OK) 0 w s (replicate 600 1) [] = Some (w1, s1, replicate 600 1, d1, SQLITE_OK)"
    "nBackfill (ckptInfo s1) = 1" "\<forall>p. 0 < p \<and> p \<le> 7 \<longrightarrow> page_bytes d1 512 p =
         (let g = last_frame [5] p 1 1 in if g \<noteq> 0 then log_page os0 (replicate 600 1) 512 g else page_bytes [] 512 p)"
    using R [of 0] by auto
  obtain w2 s2 d2 where q2: "walCheckpoint os0 (ck0 SQLITE_OK) 3 w s (replicate 600 1) [] = Some (w2, s2, [], d2, SQLITE_OK)"
    "restarted w w2 s2" "\<forall>p. 0 < p \<and> p \<le> 7 \<longrightarrow> page_bytes d2 512 p =
         (let g = last_frame [5] p 1 1 in if g \<noteq> 0 then log_page os0 (replicate 600 1) 512 g else page_bytes [] 512 p)"
    using R [of 3] t by auto
  have "page_bytes d1 512 5 = log_page os0 (replicate 600 1) 512 1" "page_bytes d2 512 5 = log_page os0 (replicate 600 1) 512 1"
    using q(3) [rule_format, of 5] q2(3) [rule_format, of 5] unfolding g by simp_all
  with q(1,2) q2(1,2) Z(2) show ?thesis unfolding restarted_def by blast
qed

end
