(* ===== verification/WalAny.thy ===== *)
theory WalAny
  imports WalRecover
begin

text \<open>
  Recovery of the wal-index from any file: whatever bytes the log file holds, \<open>walIndexRecover\<close> is
  defined and leaves a well-formed index, except for a log header whose page size overflows the
  test for a power of two.
\<close>

section \<open>Any header\<close>

lemma page_size_power_of_two:
  assumes "sz AND (sz - 1) = 0" "512 \<le> sz" "sz \<le> (65536 :: nat)"
  shows "page_size_ok sz"
proof -
  have "sz mod 8 = 0"
  proof (rule ccontr)
    assume r: "sz mod 8 \<noteq> 0"
    have "sz - 1 = sz div 8 * 8 + (sz mod 8 - 1)" using r div_mult_mod_eq [of sz 8] by linarith
    moreover have "sz mod 8 - 1 < 8" by (rule le_less_trans [of _ "sz mod 8"]) simp_all
    ultimately have "(sz - 1) div 8 = sz div 8" by simp
    then have "drop_bit 3 (sz - 1) = drop_bit 3 sz" by (simp add: drop_bit_eq_div)
    moreover have "drop_bit 3 (sz AND (sz - 1)) = drop_bit 3 sz AND drop_bit 3 (sz - 1)" by (rule drop_bit_and)
    ultimately have "drop_bit 3 sz = 0" by (metis and.idem assms(1) drop_bit_of_0)
    then show False using assms(2) by (simp add: drop_bit_eq_div)
  qed
  with assms(2,3) show ?thesis by (simp add: page_size_ok_def)
qed

text \<open>
  The one kind of file for which recovery is not defined: the magic number in either byte order, and
  \<open>0x80000000\<close> in the field of the page size.
\<close>

definition size_overflows :: "u8 list \<Rightarrow> bool" where
  "size_overflows f \<longleftrightarrow> WAL_HDRSIZE < length f \<and> (take 4 f = [0x37, 0x7f, 6, 0x82] \<or> take 4 f = [0x37, 0x7f, 6, 0x83]) \<and>
     take 4 (drop 8 f) = [0x80, 0, 0, 0]"

lemma Get4byte_is: "sqlite3Get4byte p = Some v \<Longrightarrow> take 4 p = sqlite3Put4byte u \<longleftrightarrow> v = u"
proof -
  assume "sqlite3Get4byte p = Some v"
  then have "take 4 p = sqlite3Put4byte v" by (simp add: Put4byte_Get4byte)
  moreover have "v = u" if "sqlite3Put4byte v = sqlite3Put4byte u"
    using Get4byte_Put4byte [of v "[]"] Get4byte_Put4byte [of u "[]"] unfolding that by (simp only: append_Nil2 option.inject)
  ultimately show ?thesis by auto
qed

lemma magic_iff: "(magic AND 0xFFFFFFFE) = WAL_MAGIC \<longleftrightarrow> magic = 0x377f0682 \<or> magic = (0x377f0683 :: u32)"
proof
  assume "(magic AND 0xFFFFFFFE) = WAL_MAGIC"
  moreover have "magic = (magic AND 0xFFFFFFFE) OR (magic AND 1)" proof (rule bit_word_eqI)
    show "bit magic n = bit (magic AND 0xFFFFFFFE OR magic AND 1) n" if "n < LENGTH(32)" for n
    proof -
      have "(0xFFFFFFFE :: u32) = NOT 1" by simp
      then show ?thesis using that by (auto simp only: bit_simps possible_bit_word)
    qed
  qed
  moreover have "magic AND 1 = 0 \<or> magic AND 1 = 1" by (simp add: and_one_eq mod_2_eq_odd)
  ultimately show "magic = 0x377f0682 \<or> magic = 0x377f0683" by auto
qed auto

lemma size_overflows_iff:
  assumes "WAL_HDRSIZE < length f" "sqlite3Get4byte (take 32 f) = Some magic" "sqlite3Get4byte (drop 8 (take 32 f)) = Some z"
  shows "size_overflows f \<longleftrightarrow> (magic AND 0xFFFFFFFE) = WAL_MAGIC \<and> z = 0x80000000"
proof -
  have "take 4 f = take 4 (take 32 f)" "take 4 (drop 8 f) = take 4 (drop 8 (take 32 f))" using assms(1) by (simp_all add: drop_take)
  moreover have "[0x37, 0x7f, 6, 0x82] = sqlite3Put4byte 0x377f0682" "[0x37, 0x7f, 6, 0x83] = sqlite3Put4byte 0x377f0683"
    "[0x80, 0, 0, 0] = sqlite3Put4byte 0x80000000" by (simp_all add: sqlite3Put4byte_def drop_bit_eq_div)
  ultimately show ?thesis
    using assms(1) Get4byte_is [OF assms(2)] Get4byte_is [OF assms(3)] unfolding size_overflows_def magic_iff by simp
qed

lemma length_scan: "length (scan big salt sz f k c) + k \<le> max k (last_in_file f sz + 1)"
proof (induction big salt sz f k c rule: scan.induct)
  case (1 big salt sz f k c)
  then show ?case by (subst scan.simps) (auto simp: Let_def split: prod.splits)
qed

lemma last_commit_le: "fst (last_commit k L r) \<le> max (fst r) (k + length L - 1)"
  by (induction k L r rule: last_commit.induct) auto

text \<open>What recovery leaves behind, whatever the log holds.\<close>

definition index_ok :: "nat \<Rightarrow> Wal \<Rightarrow> walShm \<Rightarrow> bool" where
  "index_ok n w s \<longleftrightarrow> (\<exists>fs. wi_ok w s fs \<and> mxFrame (hdr w) \<le> length fs \<and> length fs \<le> n) \<and> length (aSalt (hdr w)) = 8"

lemma index_ok_empty: "mxFrame (hdr w) = 0 \<Longrightarrow> length (aSalt (hdr w)) = 8 \<Longrightarrow> index_ok n w s"
  using wi_ok_empty [of w s] by (auto simp: index_ok_def intro!: exI [of _ "[]"])

lemma recover_log_any:
  assumes E: "no_read_errors os" "map_law (env os)" and w: "writeLock w" "mxFrame (hdr w) = 0" and f: "WAL_HDRSIZE < length f"
    and salt: "length (aSalt (hdr w)) = 8" and m: "mapped w 0"
  shows "if size_overflows f then recover_log os f w s = None
    else \<exists>w' s' ck rc err. recover_log os f w s = Some (w', s', ck, rc, err) \<and> wiHdr s' = wiHdr s \<and> ckptInfo s' = ckptInfo s \<and>
      (rc = SQLITE_OK \<longrightarrow> \<not> err \<and> index_ok (length f) w' s' \<and> writeLock w' \<and> mapped w' 0)"
proof -
  define b where "b = take WAL_HDRSIZE f"
  have len: "length b = 32" using f by (simp add: b_def)
  have rd: "osRead os f WAL_HDRSIZE 0 = (SQLITE_OK, b)" using E(1) f by (simp add: osRead_def no_read_errors_def b_def)
  have four: "\<exists>v. sqlite3Get4byte (drop i b) = Some v" if "i \<le> 28" for i using Get4byte_Some [of "drop i b"] len that by simp
  obtain magic v z k c1 c2 where g: "sqlite3Get4byte b = Some magic" "sqlite3Get4byte (drop 4 b) = Some v" "sqlite3Get4byte (drop 8 b) = Some z"
    "sqlite3Get4byte (drop 12 b) = Some k" "sqlite3Get4byte (drop 24 b) = Some c1" "sqlite3Get4byte (drop 28 b) = Some c2"
    using four [of 0] four [of 4] four [of 8] four [of 12] four [of 24] four [of 28] by auto
  define sz where "sz = nat (sint z)"
  define test where "test \<longleftrightarrow> sint z AND (sint z - 1) \<noteq> 0 \<or> 65536 < sint z \<or> sint z < 512"
  have ovf: "size_overflows f \<longleftrightarrow> (magic AND 0xFFFFFFFE) = WAL_MAGIC \<and> z = 0x80000000"
    using size_overflows_iff [OF f g(1,3) [unfolded b_def]] .
  have bad: "bad_size (sint z) = (if z = 0x80000000 then None else Some test)"
    unfolding bad_size_eq test_def Let_def ..
  have bad0: "bad_size (- 2147483648) = None" by (simp add: bad_size_def i32_def in_i32_def)
  have rb: "rd_bytes b 16 8 = Some (take 8 (drop 16 b))" "rd_bytes b 0 24 = Some (take 24 b)" using len by (simp_all add: rd_bytes_def)
  have fine: "index_ok (length f) u s" if "mxFrame (hdr u) = 0" "length (aSalt (hdr u)) = 8" for u
    using that by (rule index_ok_empty)
  show ?thesis
  proof (cases "size_overflows f \<or> (magic AND 0xFFFFFFFE) \<noteq> WAL_MAGIC \<or> test")
    case True
    then have "recover_log os f w s = (if size_overflows f then None else Some (w, s, (0, 0), SQLITE_OK, False))"
      using ovf unfolding recover_log_def rd by (cases "z = 0x80000000") (auto simp: g(1-3) bad bad0 Let_def)
    then show ?thesis using fine w salt m by auto
  next
    case False
    then have int: "sint z AND (sint z - 1) = 0" "sint z \<le> 65536" "512 \<le> sint z" by (auto simp: test_def)
    have "int (sz AND (sz - 1)) = sint z AND (sint z - 1)"
      using int(3) by (simp add: sz_def of_nat_and_eq of_nat_diff)
    then have ps: "page_size_ok sz" using int by (intro page_size_power_of_two) (simp_all add: sz_def)
    have nb: "bad_size (sint z) = Some False" "\<not> size_overflows f" using False ovf bad by auto
    define h where "h = (hdr w)\<lparr>bigEndCksum := bit magic 0, aSalt := take 8 (drop 16 b)\<rparr>"
    define c where "c = cksum (bit magic 0) (take 24 b) (0, 0)"
    define u where "u = set_cksum (w\<lparr>szPage := sz, nCkpt := unat k, hdr := h\<rparr>) c"
    have ck: "walChecksumBytes (bigEndian os) (bit magic 0 = bigEndian os) (take 24 b) None = Some c"
      using len by (simp add: walChecksumBytes_None walChecksumBytes_eq c_def)
    have hu: "mxFrame (hdr u) = 0" "length (aSalt (hdr u)) = 8" "writeLock u" "szPage u = sz" "mapped u 0"
      using w len m by (simp_all add: u_def h_def set_cksum_def mapped_def)
    have P: "log_params (bigEndCksum (hdr u)) (aSalt (hdr u)) sz u" using hu ps by (simp add: log_params_def)
    have step: "recover_log os f w s =
      (if fst c \<noteq> c1 \<or> snd c \<noteq> c2 then Some (u, s, (0, 0), SQLITE_OK, False)
       else if unat v \<noteq> WAL_MAX_VERSION then Some (u, s, (0, 0), SQLITE_CANTOPEN, False)
       else if \<not> mallocOk (env os) (sz + WAL_FRAME_HDRSIZE + WALINDEX_PGSZ) then Some (u, s, (0, 0), SQLITE_NOMEM, True)
       else map_option (\<lambda>(w, s, ck, rc). (w, s, ck, rc, False))
         (recover_pages os f (last_in_file f sz) 0 (walFramePage (last_in_file f sz) + 1) u s (0, 0) SQLITE_OK))"
      using False ck unfolding recover_log_def rd u_def h_def last_in_file_def
      by (simp add: g rb sz_def nb bind_flag Let_def del: recover_pages.simps)
    obtain w2 s2 ck2 rc where q: "recover_pages os f (last_in_file f sz) 0 (walFramePage (last_in_file f sz) + 1) u s (0, 0) SQLITE_OK =
        Some (w2, s2, ck2, rc)" "wiHdr s2 = wiHdr s" "ckptInfo s2 = ckptInfo s"
      "rc = SQLITE_OK \<longrightarrow> log_params (bigEndCksum (hdr u)) (aSalt (hdr u)) sz w2 \<and> writeLock w2 \<and> mapped w2 0 \<and>
         wi_ok w2 s2 (map fst (scan (bigEndCksum (hdr u)) (aSalt (hdr u)) sz f 1 (aFrameCksum (hdr u)))) \<and>
         commit_state w2 ck2 = last_commit 1 (scan (bigEndCksum (hdr u)) (aSalt (hdr u)) sz f 1 (aFrameCksum (hdr u))) (commit_state u (0, 0))"
      using recover_pages_ok [OF E P wi_ok_empty, where iPg = 0 and s = s and ck = "(0, 0)" and rz = SQLITE_OK
        and f = f and k = "walFramePage (last_in_file f sz) + 1"] hu(3) by (auto simp: iZero_def)
    define S where "S = scan (bigEndCksum (hdr u)) (aSalt (hdr u)) sz f 1 (aFrameCksum (hdr u))"
    have "index_ok (length f) w2 s2 \<and> writeLock w2 \<and> mapped w2 0" if ok: "rc = SQLITE_OK"
    proof -
      have "mxFrame (hdr w2) = fst (last_commit 1 S (0, nPage (hdr u), 0, 0))"
        using q(4) ok hu(1) by (simp add: commit_state_def S_def prod_eq_iff)
      also have "\<dots> \<le> length S" using last_commit_le [of 1 S "(0, nPage (hdr u), 0, 0)"] by simp
      finally have "mxFrame (hdr w2) \<le> length S" .
      moreover have "length S \<le> length f"
      proof -
        have "length S \<le> last_in_file f sz" using length_scan [of "bigEndCksum (hdr u)" "aSalt (hdr u)" sz f 1 "aFrameCksum (hdr u)"]
          by (simp add: S_def)
        also have "\<dots> \<le> length f" unfolding last_in_file_def by (rule le_trans [OF div_le_dividend]) simp
        finally show ?thesis .
      qed
      moreover have "wi_ok w2 s2 (map fst S)" "length (aSalt (hdr w2)) = 8" "writeLock w2" "mapped w2 0"
        using q(4) ok by (simp_all add: S_def log_params_def)
      ultimately show ?thesis unfolding index_ok_def by (intro conjI exI [of _ "map fst S"]) simp_all
    qed
    then show ?thesis using q(1-3) fine [OF hu(1,2)] hu(3,5) nb(2) unfolding step by auto
  qed
qed

lemma length_recover_marks: "length (fst (recover_marks os w i k marks rc)) = length marks"
  by (induction k arbitrary: i marks rc) (simp_all add: Let_def)

lemma recover_end_any:
  assumes "index_ok n w s" "mapped w 0" "writeLock w"
  shows "\<exists>w' s' rc. (do {
      (w, s) \<leftarrow> walIndexWriteHdr (bigEndian os) (set_cksum w ck) s;
      let (marks, rc) = recover_marks os w 1 (WAL_NREADER - 1) ((aReadMark (ckptInfo s))[0 := 0]) SQLITE_OK;
      Some (w, s\<lparr>ckptInfo := (ckptInfo s)\<lparr>nBackfill := 0, nBackfillAttempted := mxFrame (hdr w), aReadMark := marks\<rparr>\<rparr>, rc)
    }) = Some (w', s', rc) \<and> index_ok n w' s' \<and> isInit (hdr w') \<and> wiHdr s' = (hdr w', hdr w') \<and> nBackfill (ckptInfo s') = 0 \<and>
      length (aReadMark (ckptInfo s')) = length (aReadMark (ckptInfo s))"
proof -
  obtain fs where fs: "wi_ok w s fs" "mxFrame (hdr w) \<le> length fs" "length fs \<le> n" "length (aSalt (hdr w)) = 8"
    using assms by (auto simp: index_ok_def)
  then have "length (aSalt (hdr (set_cksum w ck))) = 8" "mapped (set_cksum w ck) 0" "writeLock (set_cksum w ck)"
    using assms(2,3) by simp_all
  from walIndexWriteHdr_ok [OF this, of "bigEndian os" s]
  obtain c h where h: "h = (hdr (set_cksum w ck))\<lparr>isInit := True, iVersion := WAL_MAX_VERSION, aCksum := c\<rparr>"
    "walIndexWriteHdr (bigEndian os) (set_cksum w ck) s = Some ((set_cksum w ck)\<lparr>hdr := h\<rparr>, s\<lparr>wiHdr := (h, h)\<rparr>)"
    by (auto simp: Let_def)
  have "wi_ok ((set_cksum w ck)\<lparr>hdr := h\<rparr>) (s\<lparr>wiHdr := (h, h), ckptInfo := i\<rparr>) fs" for i
    using fs(1) by (simp add: wi_ok_def has_page_def mapped_def shared_def)
  then have "index_ok n ((set_cksum w ck)\<lparr>hdr := h\<rparr>) (s\<lparr>wiHdr := (h, h), ckptInfo := i\<rparr>)" for i
    using fs(2-4) h(1) unfolding index_ok_def by (intro conjI exI [of _ fs]) simp_all
  moreover obtain marks rc where m: "recover_marks os ((set_cksum w ck)\<lparr>hdr := h\<rparr>) 1 (WAL_NREADER - 1) ((aReadMark (ckptInfo s))[0 := 0]) SQLITE_OK =
    (marks, rc)" by fastforce
  moreover have "length marks = length (aReadMark (ckptInfo s))"
    using length_recover_marks [of os "(set_cksum w ck)\<lparr>hdr := h\<rparr>" 1 "WAL_NREADER - 1" "(aReadMark (ckptInfo s))[0 := 0]" SQLITE_OK] m by simp
  ultimately show ?thesis using h by simp
qed

text \<open>The answer to the request for the locks that recovery takes first.\<close>

definition recover_lock :: "walOs \<Rightarrow> Wal \<Rightarrow> nat" where
  "recover_lock os w = (let iLock = WAL_ALL_BUT_WRITE + (if ckptLock w then 1 else 0) in walLockExclusive os w iLock (WAL_READ_LOCK 0 - iLock))"

lemma recover_any:
  assumes "no_read_errors os" "map_law (env os)" "writeLock w" "mapped w 0"
  shows "if size_overflows f \<and> recover_lock os w = SQLITE_OK \<and> sizeRc os = SQLITE_OK then walIndexRecover os f w s = None
    else \<exists>w' s' rc. walIndexRecover os f w s = Some (w', s', rc) \<and>
    (rc \<noteq> SQLITE_OK \<and> wiHdr s' = wiHdr s \<and> ckptInfo s' = ckptInfo s \<or>
      index_ok (length f) w' s' \<and> isInit (hdr w') \<and> wiHdr s' = (hdr w', hdr w') \<and> nBackfill (ckptInfo s') = 0 \<and>
      length (aReadMark (ckptInfo s')) = length (aReadMark (ckptInfo s)))"
proof -
  define w1 where "w1 = w\<lparr>hdr := zero_hdr\<rparr>"
  define rl where "rl = recover_lock os w"
  define A where "A = (if WAL_HDRSIZE < length f then recover_log os f w1 s else Some (w1, s, (0, 0), SQLITE_OK, False))"
  define B where "B = (\<lambda>(w, s, ck, rc, err). if err \<or> rc \<noteq> SQLITE_OK then Some (w, s, rc)
     else do {
       (w, s) \<leftarrow> walIndexWriteHdr (bigEndian os) (set_cksum w ck) s;
       let (marks, rc) = recover_marks os w 1 (WAL_NREADER - 1) ((aReadMark (ckptInfo s))[0 := 0]) SQLITE_OK;
       Some (w, s\<lparr>ckptInfo := (ckptInfo s)\<lparr>nBackfill := 0, nBackfillAttempted := mxFrame (hdr w), aReadMark := marks\<rparr>\<rparr>, rc)
     })"
  have w1: "writeLock w1" "mxFrame (hdr w1) = 0" "length (aSalt (hdr w1)) = 8" "mapped w1 0"
    using assms(3,4) by (simp_all add: w1_def zero_hdr_def)
  have u: "walIndexRecover os f w s =
    (if rl \<noteq> SQLITE_OK then Some (w, s, rl) else if sizeRc os \<noteq> SQLITE_OK then Some (w1, s, sizeRc os) else A \<bind> B)"
    using assms(3) unfolding walIndexRecover_def rl_def recover_lock_def Let_def w1_def [symmetric] A_def B_def by simp
  show ?thesis
  proof (cases "rl = SQLITE_OK \<and> sizeRc os = SQLITE_OK")
    case stop: False
    then show ?thesis unfolding u rl_def by auto
  next
    case run: True
    show ?thesis
    proof (cases "size_overflows f")
      case True
      then have l: "WAL_HDRSIZE < length f" by (simp add: size_overflows_def)
      have "A = None" using recover_log_any [OF assms(1,2) w1(1,2) l w1(3,4), of s] True l by (simp add: A_def)
      then show ?thesis using run True unfolding u by (simp add: rl_def)
    next
      case False
      have "\<exists>w2 s2 ck rc err. A = Some (w2, s2, ck, rc, err) \<and> wiHdr s2 = wiHdr s \<and> ckptInfo s2 = ckptInfo s \<and>
          (rc = SQLITE_OK \<longrightarrow> \<not> err \<and> index_ok (length f) w2 s2 \<and> writeLock w2 \<and> mapped w2 0)"
      proof (cases "WAL_HDRSIZE < length f")
        case True
        show ?thesis using recover_log_any [OF assms(1,2) w1(1,2) True w1(3,4), of s] False True by (simp add: A_def)
      next
        case short: False
        then have "A = Some (w1, s, (0, 0), SQLITE_OK, False)" by (simp add: A_def)
        then show ?thesis using index_ok_empty [OF w1(2,3), of "length f" s] w1(1,4) by blast
      qed
      then obtain w2 s2 ck rc err where body: "A = Some (w2, s2, ck, rc, err)" "wiHdr s2 = wiHdr s" "ckptInfo s2 = ckptInfo s"
        "rc = SQLITE_OK \<longrightarrow> \<not> err \<and> index_ok (length f) w2 s2 \<and> writeLock w2 \<and> mapped w2 0" by blast
      show ?thesis
      proof (cases "\<not> err \<and> rc = SQLITE_OK")
        case True
        then have "index_ok (length f) w2 s2" "mapped w2 0" "writeLock w2" using body(4) by simp_all
        from recover_end_any [OF this, of os ck] body(1,3) show ?thesis unfolding u B_def using run True False by auto
      next
        case bad: False
        then show ?thesis unfolding u B_def using run body False by auto
      qed
    qed
  qed
qed

section \<open>Property\<close>

text \<open>
  C6: Recovery from a log file with any bytes (a torn write, another file, an attack), by a connection
  that holds the write lock and has mapped the first page of the index, when no read fails: unless
  the log starts with the magic number and \<open>0x80000000\<close> for the page size, recovery is defined - no
  assertion fails, nothing outside a buffer is read, no signed value overflows, the hash tables do
  not overflow - and after success the index is well-formed, the header names a frame that it
  covers, and the two copies of the header agree with that of the connection. In the remaining case
  \<open>szPage - 1\<close> overflows a signed integer as soon as the locks are granted and the size is known.
\<close>

theorem wal_recover_any:
  assumes "no_read_errors os" "map_law (env os)" "writeLock w" "mapped w 0"
  shows "if size_overflows f \<and> recover_lock os w = SQLITE_OK \<and> sizeRc os = SQLITE_OK then walIndexRecover os f w s = None
    else \<exists>w' s' rc. walIndexRecover os f w s = Some (w', s', rc) \<and>
      (rc = SQLITE_OK \<longrightarrow> index_ok (length f) w' s' \<and> isInit (hdr w') \<and> wiHdr s' = (hdr w', hdr w') \<and> nBackfill (ckptInfo s') = 0)"
  using recover_any [OF assms, of f s] by (auto split: if_splits)

theorem wal_recover_any_witness:
  "(\<exists>w' s' rc. walIndexRecover os0 (replicate 1000 7) wal0 shm0 = Some (w', s', rc) \<and>
    (rc = SQLITE_OK \<longrightarrow> index_ok 1000 w' s' \<and> isInit (hdr w') \<and> wiHdr s' = (hdr w', hdr w') \<and> nBackfill (ckptInfo s') = 0)) \<and>
   walIndexRecover os0 ([0x37, 0x7f, 6, 0x82, 0, 0x2d, 0xe2, 0x18, 0x80, 0, 0, 0] @ replicate 100 0) wal0 shm0 = None"
proof -
  have a: "no_read_errors os0" "map_law (env os0)" "writeLock wal0" "mapped wal0 0"
    by (simp_all add: os0_def env0_def wal0_def no_read_errors_def map_law_def mapped_def)
  have "\<not> size_overflows (replicate 1000 7)" by (simp add: size_overflows_def numeral_eq_Suc)
  moreover have "size_overflows ([0x37, 0x7f, 6, 0x82, 0, 0x2d, 0xe2, 0x18, 0x80, 0, 0, 0] @ replicate 100 0)"
    "recover_lock os0 wal0 = SQLITE_OK" "sizeRc os0 = SQLITE_OK"
    by (simp_all add: size_overflows_def recover_lock_def walLockExclusive_def os0_def Let_def)
  ultimately show ?thesis
    using wal_recover_any [OF a, of "replicate 1000 7" shm0]
      wal_recover_any [OF a, of "[0x37, 0x7f, 6, 0x82, 0, 0x2d, 0xe2, 0x18, 0x80, 0, 0, 0] @ replicate 100 0" shm0] by simp
qed

end
