(* ===== verification/WalRead.thy ===== *)
theory WalRead
  imports WalCkpt WalAny
begin

text \<open>
  Opening and closing a read transaction on the write-ahead log (\<^verbatim>\<open>src/wal.c\<close>): \<open>walIndexTryHdr\<close>,
  \<open>walIndexReadHdr\<close>, \<open>walTryBeginRead\<close>, \<open>sqlite3WalBeginReadTransaction\<close> and
  \<open>sqlite3WalEndReadTransaction\<close>. A connection whose shared memory is read-only and has no writer
  (\<open>SQLITE_READONLY_CANTINIT\<close>, \<open>walBeginShmUnreliable\<close>) is outside the model: \<open>None\<close>.
\<close>

section \<open>Locks and result codes\<close>

abbreviation (input) SQLITE_PROTOCOL :: nat where "SQLITE_PROTOCOL \<equiv> 15"
abbreviation (input) SQLITE_BUSY_RECOVERY :: nat where "SQLITE_BUSY_RECOVERY \<equiv> 261"
abbreviation (input) SQLITE_READONLY_RECOVERY :: nat where "SQLITE_READONLY_RECOVERY \<equiv> 264"
abbreviation (input) SQLITE_READONLY_CANTINIT :: nat where "SQLITE_READONLY_CANTINIT \<equiv> 1288"
abbreviation (input) WAL_WRITE_LOCK :: nat where "WAL_WRITE_LOCK \<equiv> 0"
abbreviation (input) WAL_RECOVER_LOCK :: nat where "WAL_RECOVER_LOCK \<equiv> 2"
abbreviation (input) WAL_RETRY_PROTOCOL_LIMIT :: nat where "WAL_RETRY_PROTOCOL_LIMIT \<equiv> 100"

text \<open>\<open>WAL_RETRY\<close> is -1, so these functions return an integer.\<close>

abbreviation (input) WAL_RETRY :: int where "WAL_RETRY \<equiv> -1"

text \<open>\<open>sh\<close> answers the requests for a shared lock.\<close>

definition walLockShared :: "(nat \<Rightarrow> nat) \<Rightarrow> Wal \<Rightarrow> nat \<Rightarrow> nat" where
  "walLockShared sh w lockIdx = (if exclusiveMode w \<noteq> 0 then SQLITE_OK else sh lockIdx)"

section \<open>The header of the index\<close>

text \<open>The result: the connection, whether the header is bad, and whether \<open>*pChanged\<close> was set.\<close>

definition walIndexTryHdr :: "bool \<Rightarrow> Wal \<Rightarrow> walShm \<Rightarrow> (Wal \<times> bool \<times> bool) option" where
  "walIndexTryHdr be w s =
     (if \<not> mapped w 0 then None
      else
        let (h1, h2) = wiHdr s
        in if h1 \<noteq> h2 then Some (w, True, False)
           else if \<not> isInit h1 then Some (w, True, False)
           else do {
             c \<leftarrow> walChecksumBytes be True (hdr_bytes be h1) None;
             if fst c \<noteq> fst (aCksum h1) \<or> snd c \<noteq> snd (aCksum h1) then Some (w, True, False)
             else if hdr w \<noteq> h1 then
               let w = w\<lparr>hdr := h1\<rparr> in Some (w\<lparr>szPage := walPagesize w\<rparr>, False, True)
             else Some (w, False, False)
           })"

text \<open>Reading it again with the write lock, and recovery. \<open>bWriteLock\<close> is whether the lock was held before.\<close>

definition read_hdr_locked :: "walOs \<Rightarrow> u8 list \<Rightarrow> Wal \<Rightarrow> walShm \<Rightarrow> bool \<Rightarrow> (Wal \<times> walShm \<times> bool \<times> bool \<times> nat) option" where
  "read_hdr_locked os f w s changed =
     (let bWriteLock = writeLock w;
          rc = (if bWriteLock then SQLITE_OK else walLockExclusive os w WAL_WRITE_LOCK 1)
      in if rc \<noteq> SQLITE_OK then Some (w, s, changed, True, rc)
         else
           let (w, s, rc, page0) = walIndexPage (env os) (w\<lparr>writeLock := True\<rparr>) s 0
           in do {
             (w, s, changed, badHdr, rc) \<leftarrow>
               (if rc \<noteq> SQLITE_OK then Some (w, s, changed, True, rc)
                else do {
                  (w, badHdr, c) \<leftarrow> walIndexTryHdr (bigEndian os) w s;
                  if badHdr then do {
                    (w, s, rc) \<leftarrow> walIndexRecover os f w s;
                    Some (w, s, True, True, rc)
                  }
                  else Some (w, s, changed \<or> c, False, SQLITE_OK)
                });
             Some (if bWriteLock then w else w\<lparr>writeLock := False\<rparr>, s, changed, badHdr, rc)
           })"

definition walIndexReadHdr :: "walOs \<Rightarrow> (nat \<Rightarrow> nat) \<Rightarrow> u8 list \<Rightarrow> Wal \<Rightarrow> walShm \<Rightarrow> bool \<Rightarrow> (Wal \<times> walShm \<times> bool \<times> nat) option" where
  "walIndexReadHdr os sh f w s changed =
     (let (w, s, rc, page0) = walIndexPage (env os) w s 0
      in if rc = SQLITE_READONLY_CANTINIT then None
         else if rc \<noteq> SQLITE_OK then Some (w, s, changed, rc)
         else if \<not> page0 \<and> writeLock w then None
         else do {
           (w, badHdr, c) \<leftarrow> (if page0 then walIndexTryHdr (bigEndian os) w s else Some (w, True, False));
           let changed = (changed \<or> c);
           (w, s, changed, badHdr, rc) \<leftarrow>
             (if \<not> badHdr then Some (w, s, changed, False, SQLITE_OK)
              else if bit (readOnly w) 1 then
                let rc = walLockShared sh w WAL_WRITE_LOCK
                in Some (w, s, changed, True, if rc = SQLITE_OK then SQLITE_READONLY_RECOVERY else rc)
              else read_hdr_locked os f w s changed);
           Some (w, s, changed, if \<not> badHdr \<and> iVersion (hdr w) \<noteq> WAL_MAX_VERSION then SQLITE_CANTOPEN else rc)
         })"

section \<open>Taking a read lock\<close>

text \<open>The read mark closest to \<open>mxFrame\<close> from below, among the slots from \<open>i\<close> on.\<close>

primrec best_mark :: "nat list \<Rightarrow> nat \<Rightarrow> nat \<Rightarrow> nat \<Rightarrow> nat \<Rightarrow> nat \<Rightarrow> (nat \<times> nat) option" where
  "best_mark marks mx i 0 mxReadMark mxI = Some (mxReadMark, mxI)"
| "best_mark marks mx i (Suc k) mxReadMark mxI =
     do {
       thisMark \<leftarrow> rd marks i;
       if mxReadMark \<le> thisMark \<and> thisMark \<le> mx then
         if thisMark = READMARK_NOT_USED then None else best_mark marks mx (i + 1) k thisMark i
       else best_mark marks mx (i + 1) k mxReadMark mxI
     }"

text \<open>Setting the mark of a slot that nobody uses: the marks, \<open>mxReadMark\<close>, \<open>mxI\<close> and \<open>rc\<close>, and whether \<open>rc\<close> is returned.\<close>

primrec raise_mark :: "walOs \<Rightarrow> Wal \<Rightarrow> nat \<Rightarrow> nat \<Rightarrow> nat list \<Rightarrow> nat \<Rightarrow> nat \<Rightarrow> nat \<Rightarrow> nat list \<times> nat \<times> nat \<times> nat \<times> bool" where
  "raise_mark os w i 0 marks mxReadMark mxI rc = (marks, mxReadMark, mxI, rc, False)"
| "raise_mark os w i (Suc k) marks mxReadMark mxI rc =
     (let rc = walLockExclusive os w (WAL_READ_LOCK i) 1
      in if rc = SQLITE_OK then (marks[i := mxFrame (hdr w)], mxFrame (hdr w), i, rc, False)
         else if rc \<noteq> SQLITE_BUSY then (marks, mxReadMark, mxI, rc, True)
         else raise_mark os w (i + 1) k marks mxReadMark mxI rc)"

text \<open>
  The part of \<open>walTryBeginRead\<close> that chooses a slot other than 0 and locks it; \<open>rc\<close> is what it was before.
  \<open>mid\<close> is what other connections do to the shared memory before the lock is granted.
\<close>

definition lock_mark :: "walOs \<Rightarrow> (nat \<Rightarrow> nat) \<Rightarrow> (walShm \<Rightarrow> walShm) \<Rightarrow> Wal \<Rightarrow> walShm \<Rightarrow> nat \<Rightarrow> (Wal \<times> walShm \<times> int) option" where
  "lock_mark os sh mid w s rc =
     do {
       (mxReadMark, mxI) \<leftarrow> best_mark (aReadMark (ckptInfo s)) (mxFrame (hdr w)) 1 (WAL_NREADER - 1) 0 0;
       let rdonly = bit (readOnly w) 1;
       let (marks, mxReadMark, mxI, rc, err) =
         (if \<not> rdonly \<and> (mxReadMark < mxFrame (hdr w) \<or> mxI = 0)
          then raise_mark os w 1 (WAL_NREADER - 1) (aReadMark (ckptInfo s)) mxReadMark mxI rc
          else (aReadMark (ckptInfo s), mxReadMark, mxI, rc, False));
       let s = s\<lparr>ckptInfo := (ckptInfo s)\<lparr>aReadMark := marks\<rparr>\<rparr>;
       if err then Some (w, s, int rc)
       else if mxI = 0 then
         if rc \<noteq> SQLITE_BUSY \<and> \<not> rdonly then None
         else Some (w, s, if rc = SQLITE_BUSY then WAL_RETRY else int SQLITE_READONLY_CANTINIT)
       else
         let rc = walLockShared sh w (WAL_READ_LOCK mxI)
         in if rc \<noteq> SQLITE_OK then
              Some (w, s, if rc mod 256 = SQLITE_BUSY then WAL_RETRY else int rc)
            else
              let s = mid s; w = w\<lparr>minFrame := nBackfill (ckptInfo s) + 1\<rparr>
              in if aReadMark (ckptInfo s) ! mxI \<noteq> mxReadMark \<or> fst (wiHdr s) \<noteq> hdr w then Some (w, s, WAL_RETRY)
                 else if mxFrame (hdr w) < mxReadMark then None
                 else Some (w\<lparr>readLock := int mxI\<rparr>, s, int SQLITE_OK)
     }"

text \<open>The result: connection, shared memory, \<open>*pChanged\<close> and \<open>rc\<close>; \<open>cnt\<close> is \<open>*pCnt\<close> after it is incremented.\<close>

definition walTryBeginRead :: "walOs \<Rightarrow> (nat \<Rightarrow> nat) \<Rightarrow> (walShm \<Rightarrow> walShm) \<Rightarrow> u8 list \<Rightarrow> Wal \<Rightarrow> walShm \<Rightarrow> bool \<Rightarrow> bool \<Rightarrow> nat \<Rightarrow> (Wal \<times> walShm \<times> bool \<times> int) option" where
  "walTryBeginRead os sh mid f w s changed useWal cnt =
     (if \<not> readLock w < 0 \<or> bit (readOnly w) 1 \<and> useWal then None
      else if WAL_RETRY_PROTOCOL_LIMIT < cnt then Some (w, s, changed, int SQLITE_PROTOCOL)
      else if bShmUnreliable w \<and> \<not> useWal then None
      else do {
        (w, s, changed, rc) \<leftarrow>
          (if useWal then Some (w, s, changed, int SQLITE_OK)
           else do {
             (w, s, changed, rc) \<leftarrow> walIndexReadHdr os sh f w s changed;
             if rc \<noteq> SQLITE_BUSY then Some (w, s, changed, int rc)
             else do {
               m0 \<leftarrow> rd (apWiData w) 0;
               let rc = walLockShared sh w WAL_RECOVER_LOCK;
               Some (w, s, changed,
                 if \<not> m0 then WAL_RETRY
                 else if rc = SQLITE_OK then WAL_RETRY
                 else if rc = SQLITE_BUSY then int SQLITE_BUSY_RECOVERY else int rc)
             }
           });
        if rc \<noteq> int SQLITE_OK then Some (w, s, changed, rc)
        else if \<not> mapped w 0 then None
        else if \<not> useWal \<and> nBackfill (ckptInfo s) = mxFrame (hdr w) then
          let rc = walLockShared sh w (WAL_READ_LOCK 0)
          in if rc = SQLITE_OK then
               let s = mid s
               in if fst (wiHdr s) \<noteq> hdr w then Some (w, s, changed, WAL_RETRY)
                  else Some (w\<lparr>readLock := 0\<rparr>, s, changed, int SQLITE_OK)
             else if rc \<noteq> SQLITE_BUSY then Some (w, s, changed, int rc)
             else do { (w, s, rc) \<leftarrow> lock_mark os sh mid w s rc; Some (w, s, changed, rc) }
        else do { (w, s, rc) \<leftarrow> lock_mark os sh mid w s SQLITE_OK; Some (w, s, changed, rc) }
      })"

text \<open>
  The loop of \<open>sqlite3WalBeginReadTransaction\<close>. Attempt \<open>cnt\<close> gets the answers \<open>os cnt\<close> and \<open>sh cnt\<close>;
  \<open>others cnt\<close> is what other connections do to the shared memory before it and \<open>mid cnt\<close> before its lock
  is granted, \<open>f cnt\<close> the log file.
\<close>

function begin_read_loop ::
  "(nat \<Rightarrow> walOs) \<Rightarrow> (nat \<Rightarrow> nat \<Rightarrow> nat) \<Rightarrow> (nat \<Rightarrow> walShm \<Rightarrow> walShm) \<Rightarrow> (nat \<Rightarrow> walShm \<Rightarrow> walShm) \<Rightarrow> (nat \<Rightarrow> u8 list) \<Rightarrow> Wal \<Rightarrow> walShm \<Rightarrow> bool \<Rightarrow> nat \<Rightarrow>
   (Wal \<times> walShm \<times> bool \<times> int) option" where
  "begin_read_loop os sh others mid f w s changed cnt =
     do {
       (w, s, changed, rc) \<leftarrow> walTryBeginRead (os (cnt + 1)) (sh (cnt + 1)) (mid (cnt + 1)) (f (cnt + 1)) w (others (cnt + 1) s) changed False (cnt + 1);
       if rc = WAL_RETRY then begin_read_loop os sh others mid f w s changed (cnt + 1) else Some (w, s, changed, rc)
     }"
  by pat_completeness auto
termination
  by (relation "measure (\<lambda>(os, sh, others, mid, f, w, s, c, cnt). WAL_RETRY_PROTOCOL_LIMIT + 1 - cnt)")
    (auto simp: walTryBeginRead_def split: if_splits)

declare begin_read_loop.simps [simp del]

definition sqlite3WalBeginReadTransaction ::
  "(nat \<Rightarrow> walOs) \<Rightarrow> (nat \<Rightarrow> nat \<Rightarrow> nat) \<Rightarrow> (nat \<Rightarrow> walShm \<Rightarrow> walShm) \<Rightarrow> (nat \<Rightarrow> walShm \<Rightarrow> walShm) \<Rightarrow> (nat \<Rightarrow> u8 list) \<Rightarrow> Wal \<Rightarrow> walShm \<Rightarrow> bool \<Rightarrow>
   (Wal \<times> walShm \<times> bool \<times> int) option" where
  "sqlite3WalBeginReadTransaction os sh others mid f w s changed =
     (if ckptLock w then None else begin_read_loop os sh others mid f w s changed 0)"

definition sqlite3WalEndWriteTransaction :: "Wal \<Rightarrow> Wal" where
  "sqlite3WalEndWriteTransaction w =
     (if writeLock w then w\<lparr>writeLock := False, iReCksum := 0, truncateOnCommit := False\<rparr> else w)"

definition sqlite3WalEndReadTransaction :: "Wal \<Rightarrow> Wal" where
  "sqlite3WalEndReadTransaction w =
     (let w = sqlite3WalEndWriteTransaction w in if 0 \<le> readLock w then w\<lparr>readLock := -1\<rparr> else w)"


section \<open>What recovery leaves of the connection\<close>

definition same_conn :: "Wal \<Rightarrow> Wal \<Rightarrow> bool" where
  "same_conn w w' \<longleftrightarrow> readLock w' = readLock w \<and> exclusiveMode w' = exclusiveMode w \<and> writeLock w' = writeLock w \<and>
     ckptLock w' = ckptLock w \<and> bShmUnreliable w' = bShmUnreliable w \<and> (\<forall>h. mapped w h \<longrightarrow> mapped w' h)"

lemma same_conn_refl [simp]: "same_conn w w"
  by (simp add: same_conn_def)

lemma same_conn_trans: "same_conn w w1 \<Longrightarrow> same_conn w1 w2 \<Longrightarrow> same_conn w w2"
  by (simp add: same_conn_def)

lemma same_wal_conn: "same_wal w w' \<Longrightarrow> same_conn w w'"
  using same_wal_fields [of w w'] same_wal_mapped [of w w'] by (simp add: same_conn_def)

lemma same_conn_cksum [simp]: "same_conn w (set_cksum w' c) = same_conn w w'"
  by (simp add: same_conn_def set_cksum_def mapped_def)

lemma same_conn_commit [simp]: "same_conn (set_commit w k n) w' = same_conn w w'"
  by (simp add: same_conn_def set_commit_def mapped_def)

lemma same_conn_hdr [simp]: "same_conn w (w\<lparr>hdr := h\<rparr>)" "same_conn (w\<lparr>hdr := h\<rparr>) w' = same_conn w w'" "same_conn w (w'\<lparr>hdr := h\<rparr>) = same_conn w w'"
  by (simp_all add: same_conn_def mapped_def)

lemma walDecodeFrame_conn: "walDecodeFrame be w a fr = Some (w', r) \<Longrightarrow> same_conn w w'"
  by (auto simp: walDecodeFrame_def Let_def split: bind_splits if_splits)

lemma walCleanupHash_conn: "walCleanupHash E w s = (w', s') \<Longrightarrow> same_conn w w'"
  using walHashGet_ok(1) by (auto simp: walCleanupHash_def Let_def split: if_splits prod.splits intro: same_wal_conn)

lemma walIndexAppend_conn:
  assumes "walIndexAppend E w s i p = Some (w', s', rc)"
  shows "same_conn w w'"
proof -
  obtain w1 s1 c where g: "walHashGet E w s (walFramePage i) = (w1, s1, c)" by (cases "walHashGet E w s (walFramePage i)") auto
  note S = same_wal_conn [OF walHashGet_ok(1) [OF g]]
  have "w' = w1 \<or> (\<exists>t u. walCleanupHash E w1 t = (w', u))"
    using assms unfolding walIndexAppend_def g Let_def by (auto split: if_splits bind_splits option.splits prod.splits)
  then show ?thesis using S walCleanupHash_conn same_conn_trans by blast
qed

lemma recover_frames_conn:
  "recover_frames os f i l w s ck rz = Some (w', s', ck', rc, k) \<Longrightarrow> same_conn w w'"
proof (induction "l + 1 - i" arbitrary: i w s ck rz rule: less_induct)
  case less
  obtain rc1 a where r: "osRead os f (szPage w + WAL_FRAME_HDRSIZE) (walFrameOffset i (szPage w)) = (rc1, a)" by fastforce
  show ?case
  proof (cases "l < i \<or> rc1 \<noteq> SQLITE_OK")
    case True
    then show ?thesis using less.prems r by (subst (asm) recover_frames.simps) (auto split: if_splits)
  next
    case False
    then have "\<not> l < i" "rc1 = SQLITE_OK" by simp_all
    note R = less.prems [unfolded recover_frames.simps [of os f i l w s ck rz] r Let_def prod.case]
    obtain w1 q where d: "walDecodeFrame (bigEndian os) w (drop WAL_FRAME_HDRSIZE a) (take WAL_FRAME_HDRSIZE a) = Some (w1, q)"
      using R False by (auto split: bind_splits)
    note D = walDecodeFrame_conn [OF d]
    show ?thesis
    proof (cases q)
      case None
      then show ?thesis using R d D False by simp
    next
      case (Some pn)
      obtain pg n where pn: "pn = (pg, n)" by (cases pn)
      obtain w2 s2 rc2 where a: "walIndexAppend (env os) w1 s i pg = Some (w2, s2, rc2)"
        using R d Some pn False by (auto split: bind_splits)
      note A = same_conn_trans [OF D walIndexAppend_conn [OF a]]
      show ?thesis
      proof (cases "rc2 = SQLITE_OK")
        case False
        then show ?thesis using R d Some pn a A \<open>\<not> l < i\<close> \<open>rc1 = SQLITE_OK\<close> by simp
      next
        case True
        have R2: "(if n \<noteq> 0 then recover_frames os f (i + 1) l (set_commit w2 i n) s2 (aFrameCksum (hdr w2)) rc2
          else recover_frames os f (i + 1) l w2 s2 ck rc2) = Some (w', s', ck', rc, k)"
          using R d Some pn a True \<open>\<not> l < i\<close> \<open>rc1 = SQLITE_OK\<close> by (simp split: if_splits)
        have "l + 1 - (i + 1) < l + 1 - i" using \<open>\<not> l < i\<close> by simp
        note IH = less.hyps [OF this]
        have "same_conn w2 w'"
        proof (cases "n = 0")
          case True
          then show ?thesis using R2 IH by simp
        next
          case False
          then have "same_conn (set_commit w2 i n) w'" using R2 by (intro IH) simp
          then show ?thesis by simp
        qed
        with A show ?thesis by (rule same_conn_trans)
      qed
    qed
  qed
qed

lemma recover_pages_conn:
  "recover_pages os f l i k w s ck rz = Some (w', s', ck', rc) \<Longrightarrow> same_conn w w'"
proof (induction k arbitrary: i w s ck rz)
  case (Suc k)
  obtain w1 s1 c p where g: "walIndexPage (env os) w s i = (w1, s1, c, p)" by (cases "walIndexPage (env os) w s i") auto
  note S = same_wal_conn [OF walIndexPage_ok(1) [OF g]]
  note R = Suc.prems [unfolded recover_pages.simps g Let_def prod.case]
  show ?case
  proof (cases p)
    case False
    then show ?thesis using R S by (simp split: if_splits)
  next
    case True
    then obtain w2 s2 ck2 rc2 m where q: "recover_frames os f (1 + (if i = 0 then 0 else HASHTABLE_NPAGE_ONE + (i - 1) * HASHTABLE_NPAGE))
        (min l (HASHTABLE_NPAGE_ONE + i * HASHTABLE_NPAGE)) w1 (s1\<lparr>wiPage := (wiPage s1)(i := junk os i)\<rparr>) ck c = Some (w2, s2, ck2, rc2, m)"
      using R by (auto split: bind_splits)
    note A = same_conn_trans [OF S recover_frames_conn [OF q]]
    show ?thesis
    proof (cases "m \<le> min l (HASHTABLE_NPAGE_ONE + i * HASHTABLE_NPAGE)")
      case True
      then show ?thesis using R A \<open>p\<close> q by simp
    next
      case False
      then have "recover_pages os f l (i + 1) k w2 s2 ck2 rc2 = Some (w', s', ck', rc)" using R \<open>p\<close> q by (auto split: if_splits)
      from same_conn_trans [OF A Suc.IH [OF this]] show ?thesis .
    qed
  qed
qed simp

lemma recover_log_conn:
  assumes "recover_log os f w s = Some (w', s', ck, rc, err)"
  shows "same_conn w w'"
proof -
  have same: "same_conn w (w\<lparr>szPage := z, nCkpt := k\<rparr>)" "same_conn w (w\<lparr>szPage := z, nCkpt := k, hdr := h\<rparr>)" for z k h by (simp_all add: same_conn_def mapped_def)
  have pages: "same_conn w u" if "recover_pages os f l 0 n (set_cksum (w\<lparr>szPage := z, nCkpt := k, hdr := h\<rparr>) c) s (0, 0) 0 = Some (u, t)" for l n z k h c u t
  proof (cases t)
    case (fields t1 t2 t3)
    from recover_pages_conn [OF that [unfolded this]] have "same_conn (set_cksum (w\<lparr>szPage := z, nCkpt := k, hdr := h\<rparr>) c) u" .
    moreover have "same_conn w (set_cksum (w\<lparr>szPage := z, nCkpt := k, hdr := h\<rparr>) c)" using same by simp
    ultimately show ?thesis by (rule same_conn_trans [rotated])
  qed
  show ?thesis
    using assms unfolding recover_log_def
    by (auto simp: Let_def same simp del: recover_pages.simps split: bind_splits if_splits prod.splits dest: pages)
qed

lemma walIndexRecover_conn:
  assumes "walIndexRecover os f w s = Some (w', s', rc)"
  shows "same_conn w w'"
proof -
  define w1 where "w1 = w\<lparr>hdr := zero_hdr\<rparr>"
  define B where "B = (if WAL_HDRSIZE < length f then recover_log os f w1 s else Some (w1, s, (0, 0), SQLITE_OK, False))"
  have w1: "same_conn w w1" by (simp add: w1_def)
  show ?thesis
  proof (cases B)
    case None
    then show ?thesis using assms w1 unfolding walIndexRecover_def Let_def w1_def [symmetric] B_def [symmetric] by (auto split: if_splits)
  next
    case (Some b)
    obtain w2 s2 ck c err where b: "b = (w2, s2, ck, c, err)" by (cases b)
    then have w2: "same_conn w w2" using Some w1 recover_log_conn [of os f w1 s] by (auto simp: B_def w1_def split: if_splits)
    have w3: "same_conn w w3" if "walIndexWriteHdr (bigEndian os) (set_cksum w2 ck) s2 = Some (w3, s3)" for w3 s3
      using that w2 by (auto simp: walIndexWriteHdr_def Let_def split: bind_splits if_splits)
    show ?thesis
      using assms w1 w2 unfolding walIndexRecover_def Let_def w1_def [symmetric] B_def [symmetric] Some b
      by (auto split: if_splits bind_splits prod.splits dest: w3)
  qed
qed

section \<open>Reading the header\<close>

text \<open>What every connection keeps of the shared memory.\<close>

definition shm_ok :: "walShm \<Rightarrow> bool" where
  "shm_ok s \<longleftrightarrow> length (aReadMark (ckptInfo s)) = WAL_NREADER \<and> length (aSalt (fst (wiHdr s))) = 8 \<and> mxFrame (fst (wiHdr s)) < READMARK_NOT_USED"

text \<open>The operating system of an attempt: no read fails half-way, a page asked for is mapped, and the index is not of the kind outside the model.\<close>

definition os_ok :: "walOs \<Rightarrow> bool" where
  "os_ok os \<longleftrightarrow> no_read_errors os \<and> map_law (env os) \<and> (\<forall>h b. fst (osShmMap (env os) h b) \<noteq> SQLITE_READONLY_CANTINIT)"

text \<open>The connection has the header that is in the shared memory.\<close>

definition hdr_read :: "Wal \<Rightarrow> walShm \<Rightarrow> bool" where
  "hdr_read w s \<longleftrightarrow> mapped w 0 \<and> wiHdr s = (hdr w, hdr w) \<and> isInit (hdr w)"

lemma walIndexTryHdr_ok:
  assumes "mapped w 0" "shm_ok s"
  shows "\<exists>w' bad c. walIndexTryHdr be w s = Some (w', bad, c) \<and> same_conn w w' \<and> (\<not> bad \<longrightarrow> hdr_read w' s) \<and> (\<not> c \<longrightarrow> w' = w)"
proof -
  obtain h1 h2 where h: "wiHdr s = (h1, h2)" by fastforce
  then have "length (hdr_bytes be h1) = 40" using assms(2) length_hdr_bytes by (simp add: shm_ok_def)
  then obtain c where c: "walChecksumBytes be True (hdr_bytes be h1) None = Some c"
    by (simp add: walChecksumBytes_None walChecksumBytes_eq [of be be, simplified])
  have u: "walIndexTryHdr be w s = (if h1 \<noteq> h2 \<or> \<not> isInit h1 \<or> fst c \<noteq> fst (aCksum h1) \<or> snd c \<noteq> snd (aCksum h1) then Some (w, True, False)
      else if hdr w \<noteq> h1 then Some (w\<lparr>hdr := h1, szPage := walPagesize (w\<lparr>hdr := h1\<rparr>)\<rparr>, False, True) else Some (w, False, False))"
    using assms(1) unfolding walIndexTryHdr_def h Let_def prod.case c by simp
  show ?thesis
    unfolding u using assms(1) h by (auto simp: same_conn_def hdr_read_def mapped_def)
qed

lemma walIndexPage_rc:
  assumes "walIndexPage E w s 0 = (w', s', rc, p)" "\<forall>h b. fst (osShmMap E h b) \<noteq> SQLITE_READONLY_CANTINIT"
  shows "rc \<noteq> SQLITE_READONLY_CANTINIT" "rc \<noteq> SQLITE_NOMEM \<longrightarrow> 0 < length (apWiData w')"
proof -
  have "rc \<noteq> SQLITE_READONLY_CANTINIT \<and> (rc \<noteq> SQLITE_NOMEM \<longrightarrow> 0 < length (apWiData w'))"
    using assms(1) spec [OF spec [OF assms(2), of 0], of "writeLock w"]
    by (cases "osShmMap E 0 (writeLock w)") (auto simp: walIndexPage_def walIndexPageRealloc_def Let_def split: if_splits)
  then show "rc \<noteq> SQLITE_READONLY_CANTINIT" "rc \<noteq> SQLITE_NOMEM \<longrightarrow> 0 < length (apWiData w')" by simp_all
qed

text \<open>What reading the header gives: nothing but the header changes, and \<open>*pChanged\<close> is set when it does.\<close>

definition header_result :: "Wal \<Rightarrow> bool \<Rightarrow> Wal \<Rightarrow> walShm \<Rightarrow> bool \<Rightarrow> bool" where
  "header_result w c w' s' c' \<longleftrightarrow> same_conn w w' \<and> shm_ok s' \<and> (c \<longrightarrow> c') \<and> (\<not> c' \<longrightarrow> hdr w' = hdr w)"

lemma walIndexPage_length:
  assumes "walIndexPage E w s h = (w', s', rc, p)" "0 < length (apWiData w)"
  shows "0 < length (apWiData w')"
  using assms by (cases "osShmMap E h (writeLock w)") (auto simp: walIndexPage_def walIndexPageRealloc_def Let_def split: if_splits)

lemma same_conn_locked: "same_conn (w\<lparr>writeLock := True\<rparr>) v \<Longrightarrow> \<not> writeLock w \<Longrightarrow> same_conn w (v\<lparr>writeLock := False\<rparr>)"
  by (simp add: same_conn_def mapped_def)

text \<open>The log file is smaller than 4 GiB, and its header does not make recovery overflow (\<open>wal_recover_any\<close>).\<close>

definition log_file_ok :: "u8 list \<Rightarrow> bool" where
  "log_file_ok f \<longleftrightarrow> length f < READMARK_NOT_USED \<and> \<not> size_overflows f"

lemma walIndexRecover_result:
  assumes "os_ok os" "writeLock w" "shm_ok s" "log_file_ok f" "mapped w 0"
  shows "\<exists>w' s' rc. walIndexRecover os f w s = Some (w', s', rc) \<and> same_conn w w' \<and> shm_ok s' \<and> (rc = SQLITE_OK \<longrightarrow> hdr_read w' s')"
proof -
  obtain w' s' rc where r: "walIndexRecover os f w s = Some (w', s', rc)"
    "rc \<noteq> SQLITE_OK \<and> wiHdr s' = wiHdr s \<and> ckptInfo s' = ckptInfo s \<or>
      index_ok (length f) w' s' \<and> isInit (hdr w') \<and> wiHdr s' = (hdr w', hdr w') \<and> nBackfill (ckptInfo s') = 0 \<and>
      length (aReadMark (ckptInfo s')) = length (aReadMark (ckptInfo s))"
    using recover_any [of os w f s] assms(1,2,4,5) by (auto simp: os_ok_def log_file_ok_def)
  note C = walIndexRecover_conn [OF r(1)]
  have m: "mapped w' 0" using C assms(5) by (simp add: same_conn_def)
  from r(2) have "shm_ok s' \<and> (rc = SQLITE_OK \<longrightarrow> hdr_read w' s')"
  proof
    assume "rc \<noteq> SQLITE_OK \<and> wiHdr s' = wiHdr s \<and> ckptInfo s' = ckptInfo s"
    then show ?thesis using assms(3) by (simp add: shm_ok_def)
  next
    assume *: "index_ok (length f) w' s' \<and> isInit (hdr w') \<and> wiHdr s' = (hdr w', hdr w') \<and> nBackfill (ckptInfo s') = 0 \<and>
      length (aReadMark (ckptInfo s')) = length (aReadMark (ckptInfo s))"
    then have "mxFrame (hdr w') \<le> length f" "length (aSalt (hdr w')) = 8" by (auto simp: index_ok_def)
    then show ?thesis using * m assms(3,4) by (simp add: shm_ok_def hdr_read_def log_file_ok_def)
  qed
  with r(1) C show ?thesis by blast
qed

lemma read_hdr_locked_ok:
  assumes os: "os_ok os" and w: "\<not> writeLock w" "shm_ok s" "0 < length (apWiData w)" and f: "log_file_ok f"
  shows "\<exists>w' s' c' bad rc. read_hdr_locked os f w s c = Some (w', s', c', bad, rc) \<and> header_result w c w' s' c' \<and>
    (rc = SQLITE_OK \<longrightarrow> hdr_read w' s') \<and> 0 < length (apWiData w')"
proof -
  define rl where "rl = walLockExclusive os w WAL_WRITE_LOCK 1"
  define w1 where "w1 = w\<lparr>writeLock := True\<rparr>"
  obtain w2 s2 rc2 p where g: "walIndexPage (env os) w1 s 0 = (w2, s2, rc2, p)" by (cases "walIndexPage (env os) w1 s 0") auto
  note G = walIndexPage_ok [OF g]
  have len: "0 < length (apWiData w2)" using walIndexPage_length [OF g] w(3) by (simp add: w1_def)
  have s2: "shm_ok s2" using w(2) G(5,6) by (simp add: shm_ok_def)
  have h2: "hdr w2 = hdr w" using same_wal_fields(7) [OF G(1)] by (simp add: w1_def)
  have conn: "same_conn w (v\<lparr>writeLock := False\<rparr>)" if "same_conn w2 v" for v
    using same_conn_trans [OF same_wal_conn [OF G(1)] that] w(1) unfolding w1_def by (rule same_conn_locked)
  have u: "read_hdr_locked os f w s c = (if rl \<noteq> SQLITE_OK then Some (w, s, c, True, rl)
     else do {
       (w, s, c, bad, rc) \<leftarrow> (if rc2 \<noteq> SQLITE_OK then Some (w2, s2, c, True, rc2)
         else do {
           (w, bad, c1) \<leftarrow> walIndexTryHdr (bigEndian os) w2 s2;
           if bad then do { (w, s, rc) \<leftarrow> walIndexRecover os f w s2; Some (w, s, True, True, rc) }
           else Some (w, s2, c \<or> c1, False, SQLITE_OK)
         });
       Some (w\<lparr>writeLock := False\<rparr>, s, c, bad, rc)
     })"
    using w(1) unfolding read_hdr_locked_def w1_def [symmetric] g by (simp add: rl_def Let_def)
  show ?thesis
  proof (cases "rl = SQLITE_OK \<and> rc2 = SQLITE_OK")
    case False
    have "same_conn w (w2\<lparr>writeLock := False\<rparr>)" by (rule conn) simp
    then show ?thesis unfolding u using False w s2 h2 len by (auto simp: header_result_def)
  next
    case True
    have "map_law (env os)" "writeLock w1" using os by (simp_all add: os_ok_def w1_def)
    then have p using walIndexPage_fails [of "env os" w1 s 0 w2 s2 rc2] g True by (cases p) auto
    then have m: "mapped w2 0" using g walIndexPage_maps by simp
    obtain w3 bad c3 where t: "walIndexTryHdr (bigEndian os) w2 s2 = Some (w3, bad, c3)" "same_conn w2 w3" "\<not> bad \<longrightarrow> hdr_read w3 s2" "\<not> c3 \<longrightarrow> w3 = w2"
      using walIndexTryHdr_ok [OF m s2] by blast
    have m3: "mapped w3 0" using t(2) m by (simp add: same_conn_def)
    show ?thesis
    proof (cases bad)
      case False
      have "hdr_read (w3\<lparr>writeLock := False\<rparr>) s2" "0 < length (apWiData w3)" using t(3) False m3 by (auto simp: hdr_read_def mapped_def)
      then show ?thesis unfolding u using True t False s2 h2 conn [OF t(2)] by (auto simp: header_result_def)
    next
      case bad: True
      have "writeLock w3" using t(2) same_wal_fields(4) [OF G(1)] by (simp add: same_conn_def w1_def)
      from walIndexRecover_result [OF os this s2 f m3] obtain w4 s4 rc4 where
        r: "walIndexRecover os f w3 s2 = Some (w4, s4, rc4)" "same_conn w3 w4" "shm_ok s4" "rc4 = SQLITE_OK \<longrightarrow> hdr_read w4 s4" by blast
      have "0 < length (apWiData w4)" using r(2) m3 by (auto simp: same_conn_def mapped_def)
      moreover have "rc4 = SQLITE_OK \<longrightarrow> hdr_read (w4\<lparr>writeLock := False\<rparr>) s4" using r(4) by (simp add: hdr_read_def mapped_def)
      ultimately show ?thesis unfolding u using True t(1) bad r(1,3) conn [OF same_conn_trans [OF t(2) r(2)]] by (auto simp: header_result_def)
    qed
  qed
qed

lemma walIndexReadHdr_ok:
  assumes os: "os_ok os" and w: "\<not> writeLock w" "shm_ok s" and f: "log_file_ok f"
  shows "\<exists>w' s' c' rc. walIndexReadHdr os sh f w s c = Some (w', s', c', rc) \<and> header_result w c w' s' c' \<and>
    (rc = SQLITE_OK \<longrightarrow> hdr_read w' s') \<and> (rc = SQLITE_BUSY \<longrightarrow> 0 < length (apWiData w'))"
proof -
  obtain w1 s1 rc1 p where g: "walIndexPage (env os) w s 0 = (w1, s1, rc1, p)" by (cases "walIndexPage (env os) w s 0") auto
  note G = walIndexPage_ok [OF g]
  have R: "rc1 \<noteq> SQLITE_READONLY_CANTINIT" "rc1 \<noteq> SQLITE_NOMEM \<longrightarrow> 0 < length (apWiData w1)"
    using walIndexPage_rc [OF g] os by (simp_all add: os_ok_def)
  have s1: "shm_ok s1" using w(2) G(5,6) by (simp add: shm_ok_def)
  note S = same_wal_fields [OF G(1)]
  have base: "header_result w c w1 s1 c" using same_wal_conn [OF G(1)] s1 S(7) by (simp add: header_result_def)
  obtain w2 bad c2 where t: "(if p then walIndexTryHdr (bigEndian os) w1 s1 else Some (w1, True, False)) = Some (w2, bad, c2)"
    "same_conn w1 w2" "\<not> bad \<longrightarrow> hdr_read w2 s1" "\<not> c2 \<longrightarrow> w2 = w1"
  proof (cases p)
    case True
    then have "mapped w1 0" using g walIndexPage_maps by simp
    from walIndexTryHdr_ok [OF this s1] show ?thesis using that True by auto
  next
    case False
    then show ?thesis using that [of w1 True False] by simp
  qed
  have len: "0 < length (apWiData w2)" if "0 < length (apWiData w1)"
    using t(1) that by (auto simp: walIndexTryHdr_def Let_def split: if_splits bind_splits prod.splits)
  have two: "header_result w c w2 s1 (c \<or> c2)" using base t(2,4) same_conn_trans by (auto simp: header_result_def)
  define fin :: "Wal \<times> walShm \<times> bool \<times> bool \<times> nat \<Rightarrow> (Wal \<times> walShm \<times> bool \<times> nat) option" where "fin = (\<lambda>(w, s, c, bad, rc). Some (w, s, c, if \<not> bad \<and> iVersion (hdr w) \<noteq> WAL_MAX_VERSION then SQLITE_CANTOPEN else rc))"
  have u: "walIndexReadHdr os sh f w s c = (if rc1 \<noteq> SQLITE_OK then Some (w1, s1, c, rc1)
     else (if \<not> bad then Some (w2, s1, c \<or> c2, False, SQLITE_OK)
       else if bit (readOnly w2) 1 then
         Some (w2, s1, c \<or> c2, True, if walLockShared sh w2 WAL_WRITE_LOCK = SQLITE_OK then SQLITE_READONLY_RECOVERY else walLockShared sh w2 WAL_WRITE_LOCK)
       else read_hdr_locked os f w2 s1 (c \<or> c2)) \<bind> fin)"
    using R(1) S(4) w(1) unfolding walIndexReadHdr_def g fin_def by (simp add: t(1) Let_def)
  show ?thesis
  proof (cases "rc1 \<noteq> SQLITE_OK")
    case True
    then show ?thesis unfolding u using base R(2) by auto
  next
    case ok: False
    then have l2: "0 < length (apWiData w2)" using R(2) len by simp
    consider "\<not> bad" | "bad" "bit (readOnly w2) 1" | "bad" "\<not> bit (readOnly w2) 1" by blast
    then show ?thesis
    proof cases
      case 1
      then show ?thesis unfolding u using ok two t(3) by (auto simp: fin_def)
    next
      case 2
      then show ?thesis unfolding u using ok two l2 by (auto simp: fin_def)
    next
      case 3
      have "\<not> writeLock w2" using t(2) S(4) w(1) by (simp add: same_conn_def)
      from read_hdr_locked_ok [OF os this s1 l2 f] obtain w' s' c' b rc where
        q: "read_hdr_locked os f w2 s1 (c \<or> c2) = Some (w', s', c', b, rc)" "header_result w2 (c \<or> c2) w' s' c'"
          "rc = SQLITE_OK \<longrightarrow> hdr_read w' s'" "0 < length (apWiData w')" by blast
      have "header_result w c w' s' c'" using two q(2) same_conn_trans by (auto simp: header_result_def)
      then show ?thesis unfolding u using ok 3 q by (simp add: fin_def)
    qed
  qed
qed

section \<open>Choosing and locking a slot\<close>

lemma best_mark_ok:
  "i + k = length marks \<Longrightarrow> mx < READMARK_NOT_USED \<Longrightarrow>
   \<exists>r j. best_mark marks mx i k r0 j0 = Some (r, j) \<and> (j = j0 \<and> r = r0 \<or> i \<le> j \<and> j < i + k \<and> r = marks ! j \<and> r \<le> mx)"
proof (induction k arbitrary: i r0 j0)
  case (Suc k)
  have rd: "rd marks i = Some (marks ! i)" using Suc.prems(1) by (simp add: rd_def)
  have l: "i + 1 + k = length marks" using Suc.prems(1) by simp
  show ?case
  proof (cases "r0 \<le> marks ! i \<and> marks ! i \<le> mx")
    case True
    obtain r j where "best_mark marks mx (i + 1) k (marks ! i) i = Some (r, j)"
      "j = i \<and> r = marks ! i \<or> i + 1 \<le> j \<and> j < i + 1 + k \<and> r = marks ! j \<and> r \<le> mx"
      using Suc.IH [OF l Suc.prems(2)] by blast
    then show ?thesis using True Suc.prems(2) rd by auto
  next
    case False
    obtain r j where "best_mark marks mx (i + 1) k r0 j0 = Some (r, j)"
      "j = j0 \<and> r = r0 \<or> i + 1 \<le> j \<and> j < i + 1 + k \<and> r = marks ! j \<and> r \<le> mx"
      using Suc.IH [OF l Suc.prems(2)] by blast
    then show ?thesis using False rd by auto
  qed
qed simp

lemma raise_mark_ok:
  "raise_mark os w i k marks r0 j0 rz = (marks', r, j, rc, err) \<Longrightarrow>
   length marks' = length marks \<and> (err \<longrightarrow> rc \<noteq> SQLITE_OK) \<and>
   (\<not> err \<longrightarrow> i \<le> j \<and> j < i + k \<and> r = mxFrame (hdr w) \<or> r = r0 \<and> j = j0 \<and> (0 < k \<longrightarrow> rc = SQLITE_BUSY))"
proof (induction k arbitrary: i rz)
  case (Suc k)
  then show ?case by (force simp: Let_def split: if_splits)
qed simp

text \<open>What a connection has whose attempt succeeded.\<close>

definition opened :: "(nat \<Rightarrow> nat) \<Rightarrow> Wal \<Rightarrow> walShm \<Rightarrow> bool" where
  "opened sh w s \<longleftrightarrow> 0 \<le> readLock w \<and> readLock w < int WAL_NREADER \<and> fst (wiHdr s) = hdr w \<and>
     walLockShared sh w (WAL_READ_LOCK (nat (readLock w))) = SQLITE_OK \<and>
     (if readLock w = 0 then mxFrame (hdr w) \<le> nBackfill (ckptInfo s)
      else minFrame w = nBackfill (ckptInfo s) + 1 \<and> aReadMark (ckptInfo s) ! nat (readLock w) \<le> mxFrame (hdr w))"

text \<open>What other connections keep: the shape of the shared memory and, as long as the header is the same, what has been backfilled.\<close>

definition keeps_shm :: "(walShm \<Rightarrow> walShm) \<Rightarrow> bool" where
  "keeps_shm m \<longleftrightarrow> (\<forall>s. shm_ok s \<longrightarrow> shm_ok (m s) \<and>
     (fst (wiHdr (m s)) = fst (wiHdr s) \<longrightarrow> nBackfill (ckptInfo s) \<le> nBackfill (ckptInfo (m s))))"

lemma keeps_shm_ok: "keeps_shm m \<Longrightarrow> shm_ok s \<Longrightarrow> shm_ok (m s)"
  by (simp add: keeps_shm_def)

lemma lock_mark_ok:
  assumes "shm_ok s" "keeps_shm mid" "mxFrame (hdr w) < READMARK_NOT_USED"
  shows "\<exists>w' s' rc. lock_mark os sh mid w s rz = Some (w', s', rc) \<and> shm_ok s' \<and> hdr w' = hdr w \<and> bShmUnreliable w' = bShmUnreliable w \<and>
    writeLock w' = writeLock w \<and> (if rc = int SQLITE_OK then opened sh w' s' else readLock w' = readLock w)"
proof -
  let ?marks = "aReadMark (ckptInfo s)" and ?mx = "mxFrame (hdr w)" and ?ro = "bit (readOnly w) 1"
  have len: "1 + (WAL_NREADER - 1) = length ?marks" using assms(1) by (simp add: shm_ok_def)
  obtain r1 j1 where b: "best_mark ?marks ?mx 1 (WAL_NREADER - 1) 0 0 = Some (r1, j1)"
    "j1 = 0 \<and> r1 = 0 \<or> 1 \<le> j1 \<and> j1 < 1 + (WAL_NREADER - 1) \<and> r1 = ?marks ! j1 \<and> r1 \<le> ?mx"
    using best_mark_ok [OF len assms(3)] by blast
  obtain marks r j rc err where q: "(if \<not> ?ro \<and> (r1 < ?mx \<or> j1 = 0) then raise_mark os w 1 (WAL_NREADER - 1) ?marks r1 j1 rz
     else (?marks, r1, j1, rz, False)) = (marks, r, j, rc, err)" by (metis prod_cases5)
  have Q: "length marks = WAL_NREADER" "err \<longrightarrow> rc \<noteq> SQLITE_OK" "\<not> err \<longrightarrow> j < WAL_NREADER \<and> r \<le> ?mx \<and> (j = 0 \<longrightarrow> rc = SQLITE_BUSY \<or> ?ro)"
    using q b(2) len raise_mark_ok [of os w 1 "WAL_NREADER - 1" ?marks r1 j1 rz marks r j rc err] by (auto split: if_splits)
  define s1 where "s1 = s\<lparr>ckptInfo := (ckptInfo s)\<lparr>aReadMark := marks\<rparr>\<rparr>"
  define w1 where "w1 = w\<lparr>minFrame := nBackfill (ckptInfo (mid s1)) + 1\<rparr>"
  have s1: "shm_ok s1" using assms(1) Q(1) by (simp add: s1_def shm_ok_def)
  have hw: "hdr w1 = hdr w" by (simp add: w1_def)
  define rl where "rl = walLockShared sh w (WAL_READ_LOCK j)"
  have u: "lock_mark os sh mid w s rz = (if err then Some (w, s1, int rc)
     else if j = 0 then if rc \<noteq> SQLITE_BUSY \<and> \<not> ?ro then None else Some (w, s1, if rc = SQLITE_BUSY then WAL_RETRY else int SQLITE_READONLY_CANTINIT)
     else if rl \<noteq> SQLITE_OK then Some (w, s1, if rl mod 256 = SQLITE_BUSY then WAL_RETRY else int rl)
     else if aReadMark (ckptInfo (mid s1)) ! j \<noteq> r \<or> fst (wiHdr (mid s1)) \<noteq> hdr w then Some (w1, mid s1, WAL_RETRY)
     else if ?mx < r then None else Some (w1\<lparr>readLock := int j\<rparr>, mid s1, int SQLITE_OK))"
    unfolding lock_mark_def b(1) Option.bind.simps prod.case Let_def q s1_def [symmetric] rl_def [symmetric] w1_def [symmetric] hw
    by (rule refl)
  have "opened sh (w1\<lparr>readLock := int j\<rparr>) (mid s1)" if "\<not> err" "j \<noteq> 0" "rl = SQLITE_OK" "aReadMark (ckptInfo (mid s1)) ! j = r" "fst (wiHdr (mid s1)) = hdr w"
    using that Q(3) by (simp add: opened_def w1_def rl_def walLockShared_def)
  note O = this keeps_shm_ok [OF assms(2) s1]
  show ?thesis
  proof (cases "err \<or> j = 0 \<or> rl \<noteq> SQLITE_OK")
    case True
    have "\<exists>n. lock_mark os sh mid w s rz = Some (w, s1, n) \<and> n \<noteq> int SQLITE_OK"
    proof (cases "err")
      case True
      then show ?thesis unfolding u using Q(2) by simp
    next
      case False
      then show ?thesis unfolding u using Q(3) \<open>err \<or> j = 0 \<or> rl \<noteq> SQLITE_OK\<close> by (cases "j = 0") auto
    qed
    then show ?thesis using s1 by auto
  next
    case False
    have "r \<le> ?mx" using Q(3) False by simp
    then have "lock_mark os sh mid w s rz = Some (w1, mid s1, WAL_RETRY) \<or>
      aReadMark (ckptInfo (mid s1)) ! j = r \<and> fst (wiHdr (mid s1)) = hdr w \<and> lock_mark os sh mid w s rz = Some (w1\<lparr>readLock := int j\<rparr>, mid s1, int SQLITE_OK)"
      unfolding u using False by auto
    then show ?thesis
    proof
      assume "lock_mark os sh mid w s rz = Some (w1, mid s1, WAL_RETRY)"
      then show ?thesis using O(2) by (intro exI conjI) (assumption, simp_all add: w1_def)
    next
      assume "aReadMark (ckptInfo (mid s1)) ! j = r \<and> fst (wiHdr (mid s1)) = hdr w \<and>
        lock_mark os sh mid w s rz = Some (w1\<lparr>readLock := int j\<rparr>, mid s1, int SQLITE_OK)"
      then show ?thesis using False O by (auto simp: w1_def)
    qed
  qed
qed

section \<open>One attempt\<close>

text \<open>A connection that has no transaction open.\<close>

definition idle :: "Wal \<Rightarrow> bool" where
  "idle w \<longleftrightarrow> readLock w < 0 \<and> \<not> writeLock w \<and> \<not> bShmUnreliable w"

lemma idle_conn: "idle w \<Longrightarrow> same_conn w w' \<Longrightarrow> idle w'"
  by (simp add: idle_def same_conn_def)

text \<open>The result of attempts that used the answers \<open>sh\<close> at the end.\<close>

definition attempt_result :: "(nat \<Rightarrow> nat) \<Rightarrow> Wal \<Rightarrow> bool \<Rightarrow> Wal \<Rightarrow> walShm \<Rightarrow> bool \<Rightarrow> int \<Rightarrow> bool" where
  "attempt_result sh w c w' s' c' rc \<longleftrightarrow> shm_ok s' \<and> (c \<longrightarrow> c') \<and> (\<not> c' \<longrightarrow> hdr w' = hdr w) \<and>
     (if rc = int SQLITE_OK then opened sh w' s' \<and> \<not> bShmUnreliable w' \<and> \<not> writeLock w' else idle w')"

lemma lock_mark_attempt:
  assumes "shm_ok s" "keeps_shm mid" "hdr_read w1 s" "idle w1" "header_result w c w1 s c1"
  shows "\<exists>w' s' rc. lock_mark os sh mid w1 s rz = Some (w', s', rc) \<and> attempt_result sh w c w' s' c1 rc"
proof -
  have "mxFrame (hdr w1) < READMARK_NOT_USED" using assms(1,3) by (simp add: hdr_read_def shm_ok_def)
  from lock_mark_ok [OF assms(1,2) this, of os sh rz] obtain w' s' rc where
    q: "lock_mark os sh mid w1 s rz = Some (w', s', rc)" "shm_ok s'" "hdr w' = hdr w1" "bShmUnreliable w' = bShmUnreliable w1"
      "writeLock w' = writeLock w1" "if rc = int SQLITE_OK then opened sh w' s' else readLock w' = readLock w1" by blast
  have "attempt_result sh w c w' s' c1 rc"
    using q(2-6) assms(4,5) by (auto simp: attempt_result_def header_result_def idle_def)
  with q(1) show ?thesis by blast
qed

lemma walTryBeginRead_ok:
  assumes os: "os_ok os" and w: "idle w" "shm_ok s" and mid: "keeps_shm mid" and f: "log_file_ok f"
  shows "\<exists>w' s' c' rc. walTryBeginRead os sh mid f w s c False cnt = Some (w', s', c', rc) \<and> attempt_result sh w c w' s' c' rc \<and>
    (WAL_RETRY_PROTOCOL_LIMIT < cnt \<longrightarrow> rc = int SQLITE_PROTOCOL)"
proof (cases "WAL_RETRY_PROTOCOL_LIMIT < cnt")
  case True
  then show ?thesis using w unfolding walTryBeginRead_def by (simp add: attempt_result_def idle_def)
next
  case False
  have w0: "\<not> \<not> readLock w < 0" "\<not> writeLock w" "\<not> bShmUnreliable w" using w(1) by (simp_all add: idle_def)
  obtain w1 s1 c1 rc1 where h: "walIndexReadHdr os sh f w s c = Some (w1, s1, c1, rc1)" "header_result w c w1 s1 c1"
    "rc1 = SQLITE_OK \<longrightarrow> hdr_read w1 s1" "rc1 = SQLITE_BUSY \<longrightarrow> 0 < length (apWiData w1)"
    using walIndexReadHdr_ok [OF os w0(2) w(2) f] by blast
  have i1: "idle w1" using idle_conn [OF w(1)] h(2) by (simp add: header_result_def)
  have s1: "shm_ok s1" using h(2) by (simp add: header_result_def)
  have fail: "attempt_result sh w c w1 t c1 r" if "r \<noteq> 0" "shm_ok t" for t r
    using that h(2) i1 by (simp add: attempt_result_def header_result_def)
  define busy where "busy = (if \<not> apWiData w1 ! 0 then WAL_RETRY else if walLockShared sh w1 WAL_RECOVER_LOCK = SQLITE_OK then WAL_RETRY
      else if walLockShared sh w1 WAL_RECOVER_LOCK = SQLITE_BUSY then int SQLITE_BUSY_RECOVERY else int (walLockShared sh w1 WAL_RECOVER_LOCK))"
  define r0 where "r0 = walLockShared sh w1 (WAL_READ_LOCK 0)"
  have rd: "rd (apWiData w1) 0 = Some (apWiData w1 ! 0)" if "rc1 = SQLITE_BUSY" using h(4) that by (simp add: rd_def)
  have u: "walTryBeginRead os sh mid f w s c False cnt =
     (if rc1 = SQLITE_BUSY then Some (w1, s1, c1, busy) else if rc1 \<noteq> SQLITE_OK then Some (w1, s1, c1, int rc1)
      else if nBackfill (ckptInfo s1) = mxFrame (hdr w1) \<and> r0 = SQLITE_OK then
        (if fst (wiHdr (mid s1)) \<noteq> hdr w1 then Some (w1, mid s1, c1, WAL_RETRY) else Some (w1\<lparr>readLock := 0\<rparr>, mid s1, c1, int SQLITE_OK))
      else if nBackfill (ckptInfo s1) = mxFrame (hdr w1) \<and> r0 \<noteq> SQLITE_BUSY then Some (w1, s1, c1, int r0)
      else map_option (\<lambda>(w, s, rc). (w, s, c1, rc))
        (lock_mark os sh mid w1 s1 (if nBackfill (ckptInfo s1) = mxFrame (hdr w1) then r0 else SQLITE_OK)))"
  proof (cases "rc1 = SQLITE_OK")
    case True
    then have m: "mapped w1 0" using h(3) by (simp add: hdr_read_def)
    have lift: "(X \<bind> (\<lambda>(w, s, rc). Some (w, s, c1, rc))) = map_option (\<lambda>(w, s, rc). (w, s, c1, rc)) X" for X :: "(Wal \<times> walShm \<times> int) option"
      by (cases X) auto
    show ?thesis
      unfolding walTryBeginRead_def using w0 False True m
      by (simp add: h(1) r0_def [symmetric] lift Let_def)
  next
    case no: False
    then show ?thesis unfolding walTryBeginRead_def using w0 False rd by (simp add: h(1) busy_def Let_def)
  qed
  have lm: "\<exists>w' s' rc. lock_mark os sh mid w1 s1 rz = Some (w', s', rc) \<and> attempt_result sh w c w' s' c1 rc" if "rc1 = SQLITE_OK" for rz
    using lock_mark_attempt [OF s1 mid _ i1 h(2)] h(3) that by blast
  have zero: "attempt_result sh w c (w1\<lparr>readLock := 0\<rparr>) (mid s1) c1 0" if "nBackfill (ckptInfo s1) = mxFrame (hdr w1)" "r0 = SQLITE_OK"
    "rc1 = SQLITE_OK" "fst (wiHdr (mid s1)) = hdr w1"
  proof -
    have "fst (wiHdr s1) = hdr w1" using h(3) that(3) by (simp add: hdr_read_def)
    then have "mxFrame (hdr w1) \<le> nBackfill (ckptInfo (mid s1))" using mid s1 that(1,4) unfolding keeps_shm_def by metis
    then have "opened sh (w1\<lparr>readLock := 0\<rparr>) (mid s1)" using that by (simp add: opened_def r0_def walLockShared_def)
    then show ?thesis using h(2) i1 keeps_shm_ok [OF mid s1] by (simp add: attempt_result_def header_result_def idle_def)
  qed
  have "busy \<noteq> 0" by (simp add: busy_def)
  note F = fail [OF this s1] fail [OF _ keeps_shm_ok [OF mid s1], of WAL_RETRY] fail [OF _ s1]
  consider "rc1 \<noteq> SQLITE_OK" | "rc1 = SQLITE_OK" "nBackfill (ckptInfo s1) = mxFrame (hdr w1)" "r0 = SQLITE_OK"
    | "rc1 = SQLITE_OK" "nBackfill (ckptInfo s1) = mxFrame (hdr w1)" "r0 \<noteq> SQLITE_OK" "r0 \<noteq> SQLITE_BUSY"
    | "rc1 = SQLITE_OK" "nBackfill (ckptInfo s1) = mxFrame (hdr w1) \<longrightarrow> r0 = SQLITE_BUSY" by auto
  then show ?thesis
  proof cases
    case 1
    then show ?thesis unfolding u using F False by simp
  next
    case 2
    then show ?thesis unfolding u using F zero False by simp
  next
    case 3
    then show ?thesis unfolding u using F False by simp
  next
    case 4
    then have "walTryBeginRead os sh mid f w s c False cnt = map_option (\<lambda>(w, s, rc). (w, s, c1, rc))
        (lock_mark os sh mid w1 s1 (if nBackfill (ckptInfo s1) = mxFrame (hdr w1) then r0 else SQLITE_OK))" unfolding u by auto
    with lm [OF 4(1)] False show ?thesis by fastforce
  qed
qed

section \<open>All attempts\<close>

text \<open>What is relied on in every attempt.\<close>

definition attempts_ok :: "(nat \<Rightarrow> walOs) \<Rightarrow> (nat \<Rightarrow> walShm \<Rightarrow> walShm) \<Rightarrow> (nat \<Rightarrow> walShm \<Rightarrow> walShm) \<Rightarrow> (nat \<Rightarrow> u8 list) \<Rightarrow> bool" where
  "attempts_ok os others mid f \<longleftrightarrow>
     (\<forall>k. os_ok (os k) \<and> keeps_shm (others k) \<and> keeps_shm (mid k) \<and> log_file_ok (f k))"

lemma begin_read_loop_ok:
  assumes "attempts_ok os others mid f" "idle w" "shm_ok s" "cnt \<le> WAL_RETRY_PROTOCOL_LIMIT"
  shows "\<exists>w' s' c' rc k. begin_read_loop os sh others mid f w s c cnt = Some (w', s', c', rc) \<and> rc \<noteq> WAL_RETRY \<and>
    k \<le> WAL_RETRY_PROTOCOL_LIMIT + 1 \<and> attempt_result (sh k) w c w' s' c' rc"
  using assms(2-)
proof (induction "WAL_RETRY_PROTOCOL_LIMIT - cnt" arbitrary: w s c cnt rule: less_induct)
  case less
  have A: "os_ok (os (cnt + 1))" "keeps_shm (others (cnt + 1))" "keeps_shm (mid (cnt + 1))" "log_file_ok (f (cnt + 1))"
    using assms(1) by (simp_all add: attempts_ok_def)
  from walTryBeginRead_ok [OF A(1) less.prems(1) keeps_shm_ok [OF A(2) less.prems(2)] A(3,4), of "sh (cnt + 1)" c "cnt + 1"]
  obtain w1 s1 c1 rc1 where t: "walTryBeginRead (os (cnt + 1)) (sh (cnt + 1)) (mid (cnt + 1)) (f (cnt + 1)) w (others (cnt + 1) s) c False (cnt + 1) =
      Some (w1, s1, c1, rc1)" "attempt_result (sh (cnt + 1)) w c w1 s1 c1 rc1" "WAL_RETRY_PROTOCOL_LIMIT < cnt + 1 \<longrightarrow> rc1 = int SQLITE_PROTOCOL"
    by blast
  show ?case
  proof (cases "rc1 = WAL_RETRY")
    case False
    then show ?thesis using t(1,2) less.prems(3) by (subst begin_read_loop.simps) (auto intro!: exI [of _ "cnt + 1"])
  next
    case True
    have c: "cnt + 1 \<le> WAL_RETRY_PROTOCOL_LIMIT" using t(3) True less.prems(3) by (cases "WAL_RETRY_PROTOCOL_LIMIT < cnt + 1") auto
    then have d: "WAL_RETRY_PROTOCOL_LIMIT - (cnt + 1) < WAL_RETRY_PROTOCOL_LIMIT - cnt" by simp
    have i: "idle w1" "shm_ok s1" using t(2) True by (simp_all add: attempt_result_def)
    from less.hyps [OF d i c] obtain w2 s2 c2 rc2 k where
      r: "begin_read_loop os sh others mid f w1 s1 c1 (cnt + 1) = Some (w2, s2, c2, rc2)" "rc2 \<noteq> WAL_RETRY \<and> k \<le> WAL_RETRY_PROTOCOL_LIMIT + 1" "attempt_result (sh k) w1 c1 w2 s2 c2 rc2"
      by blast
    have "attempt_result (sh k) w c w2 s2 c2 rc2" using r(3) t(2) by (auto simp: attempt_result_def)
    then show ?thesis using t(1) True r(1,2) by (subst begin_read_loop.simps) auto
  qed
qed

section \<open>A reader among other connections\<close>

text \<open>Mapping a page of the index does not depend on what the index holds.\<close>

lemma walHashGet_indep:
  assumes "has_page w h"
  shows "\<exists>w' rc. walHashGet E w s h = (w', s, rc) \<and> walHashGet E w t h = (w', t, rc)"
proof -
  obtain w1 s1 rc1 where a: "walHashGet E w s h = (w1, s1, rc1)" by (cases "walHashGet E w s h") auto
  obtain w2 s2 rc2 where b: "walHashGet E w t h = (w2, s2, rc2)" by (cases "walHashGet E w t h") auto
  have "w1 = w2 \<and> rc1 = rc2"
    using a b by (auto simp: walHashGet_def walIndexPage_def walIndexPageRealloc_def Let_def split: if_splits prod.splits)
  then show ?thesis using a b walHashGet_ok(2) [OF a assms] walHashGet_ok(2) [OF b assms] by simp
qed

lemma hit_agree:
  assumes "take n fs = take n gs" "n \<le> length fs" "n \<le> length gs"
  shows "hit (seg fs h) (iZero h) n lo pgno = hit (seg gs h) (iZero h) n lo pgno"
proof
  fix x
  have "seg fs h ! (x - 1) = seg gs h ! (x - 1)" if x: "0 < x" "x \<le> wi_cap h" "x + iZero h \<le> n"
  proof -
    have "x - 1 < length (seg fs h)" "x - 1 < length (seg gs h)" using x assms(2,3) unfolding length_seg min_less_iff_conj by linarith+
    moreover have "fs ! (iZero h + (x - 1)) = gs ! (iZero h + (x - 1))"
      using assms(1) x nth_take [of "iZero h + (x - 1)" n fs] nth_take [of "iZero h + (x - 1)" n gs] by simp
    ultimately show ?thesis by (simp only: seg_nth)
  qed
  then show "hit (seg fs h) (iZero h) n lo pgno x = hit (seg gs h) (iZero h) n lo pgno x"
    using assms(2,3) by (auto simp: hit_def length_seg)
qed

lemma find_slots_agree:
  assumes "page_ok c (seg fs h) p" "page_ok c (seg gs h) q" "take n fs = take n gs" "n \<le> length fs" "n \<le> length gs"
  shows "\<exists>x. find_slots p (iZero h) n lo pgno (walHash pgno) HASHTABLE_NSLOT 0 = Some (SQLITE_OK, x) \<and>
    find_slots q (iZero h) n lo pgno (walHash pgno) HASHTABLE_NSLOT 0 = Some (SQLITE_OK, x)"
proof -
  let ?hit = "hit (seg fs h) (iZero h) n lo pgno"
  obtain x where x: "find_slots p (iZero h) n lo pgno (walHash pgno) HASHTABLE_NSLOT 0 = Some (SQLITE_OK, x)"
    "x = 0 \<and> (\<forall>y. \<not> ?hit y) \<or> (\<exists>y. ?hit y \<and> x = y + iZero h \<and> (\<forall>z. ?hit z \<longrightarrow> z \<le> y))"
    using find_slots_ok [OF assms(1) seg_short, of "iZero h" n lo pgno] by (elim exE conjE) (rule that)
  obtain x' where x': "find_slots q (iZero h) n lo pgno (walHash pgno) HASHTABLE_NSLOT 0 = Some (SQLITE_OK, x')"
    "x' = 0 \<and> (\<forall>y. \<not> ?hit y) \<or> (\<exists>y. ?hit y \<and> x' = y + iZero h \<and> (\<forall>z. ?hit z \<longrightarrow> z \<le> y))"
    using find_slots_ok [OF assms(2) seg_short, of "iZero h" n lo pgno] unfolding hit_agree [OF assms(3-5), symmetric]
    by (elim exE conjE) (rule that)
  have "y = z" if "?hit y" "\<forall>u. ?hit u \<longrightarrow> u \<le> y" "?hit z" "\<forall>u. ?hit u \<longrightarrow> u \<le> z" for y z
    using that by (intro le_antisym) simp_all
  then have "x = x'" using x(2) x'(2) by blast
  with x(1) x'(1) show ?thesis by simp
qed

lemma find_tables_agree:
  "wi_ok w s fs \<Longrightarrow> wi_ok w t gs \<Longrightarrow> n = mxFrame (hdr w) \<Longrightarrow> take n fs = take n gs \<Longrightarrow> n \<le> length fs \<Longrightarrow> n \<le> length gs \<Longrightarrow>
   (k = 0 \<or> iZero (iMin + k - 1) < n) \<Longrightarrow>
   \<exists>w' rc g. find_tables E pgno iMin k w s = Some (w', s, rc, g) \<and> find_tables E pgno iMin k w t = Some (w', t, rc, g)"
proof (induction k arbitrary: w)
  case (Suc k)
  let ?h = "iMin + k"
  have h: "iZero ?h < length fs" "iZero ?h < length gs" "iZero ?h < n" using Suc.prems(5-7) by simp_all
  obtain w1 rc where g: "walHashGet E w s ?h = (w1, s, rc)" "walHashGet E w t ?h = (w1, t, rc)"
    using walHashGet_indep [OF wi_okD(1) [OF Suc.prems(1) h(1)]] by blast
  note G = walHashGet_ok(1) [OF g(1)]
  note F = same_wal_fields [OF G]
  obtain x where x: "find_slots (wiPage s ?h) (iZero ?h) n (minFrame w) pgno (walHash pgno) HASHTABLE_NSLOT 0 = Some (SQLITE_OK, x)"
    "find_slots (wiPage t ?h) (iZero ?h) n (minFrame w) pgno (walHash pgno) HASHTABLE_NSLOT 0 = Some (SQLITE_OK, x)"
    using find_slots_agree [OF wi_okD(2) [OF Suc.prems(1) h(1)] wi_okD(2) [OF Suc.prems(2) h(2)] Suc.prems(4-6), of "minFrame w" pgno] by (elim exE conjE) (rule that)
  have k: "k = 0 \<or> iZero (iMin + k - 1) < n"
    using h(3) iZero_mono [of "iMin + k - 1" "iMin + k"] by (cases k) simp_all
  have n: "n = mxFrame (hdr w1)" using Suc.prems(3) F(7) by simp
  obtain w' rc' g' where "find_tables E pgno iMin k w1 s = Some (w', s, rc', g')" "find_tables E pgno iMin k w1 t = Some (w', t, rc', g')"
    using Suc.IH [OF wi_ok_same [OF Suc.prems(1) G] wi_ok_same [OF Suc.prems(2) G] n Suc.prems(4-6) k] by blast
  then show ?case using g x F(7,8) Suc.prems(3) by (cases "rc = SQLITE_OK"; cases "x = 0") simp_all
qed simp

lemma walFindFrame_agree:
  assumes "wi_ok w s fs" "wi_ok w t gs" "n = mxFrame (hdr w)" "take n fs = take n gs" "n \<le> length fs" "n \<le> length gs"
  shows "\<exists>w' rc g. walFindFrame E w s p = Some (w', s, rc, g) \<and> walFindFrame E w t p = Some (w', t, rc, g)"
proof (cases "n = 0 \<or> readLock w = 0 \<and> \<not> bShmUnreliable w")
  case True
  then show ?thesis using assms(3) by (auto simp: walFindFrame_def)
next
  case False
  let ?m = "walFramePage (minFrame w)" and ?l = "walFramePage n"
  let ?k = "?l + 1 - ?m"
  have "?k = 0 \<or> ?m + ?k - 1 = ?l" by linarith
  then have "?k = 0 \<or> iZero (?m + ?k - 1) < n" using page_of(1) [of n] False by auto
  from find_tables_agree [OF assms this] show ?thesis using False assms(3) by (auto simp: walFindFrame_def Let_def)
qed

text \<open>Reading from the part of a file that is the same.\<close>

lemma osRead_agree:
  assumes "take m f = take m g" "ofs + n \<le> m"
  shows "osRead os f n ofs = osRead os g n ofs"
proof -
  have l: "min (length f) m = min (length g) m" using arg_cong [OF assms(1), of length] by simp
  have t: "take n (drop ofs f) = take n (drop ofs g)"
  proof -
    have "take n (drop ofs f) = take n (drop ofs (take m f))" using assms(2) by (simp add: drop_take)
    also have "\<dots> = take n (drop ofs (take m g))" using assms(1) by simp
    also have "\<dots> = take n (drop ofs g)" using assms(2) by (simp add: drop_take)
    finally show ?thesis .
  qed
  then have "file_read f ofs n = file_read g ofs n" by (simp add: file_read_def Let_def)
  moreover have "ofs + n \<le> length f \<longleftrightarrow> ofs + n \<le> length g" using l assms(2) by linarith
  ultimately show ?thesis using t by (simp add: osRead_def)
qed

text \<open>The end of the last frame of the snapshot in the log file.\<close>

definition snapshot_end :: "Wal \<Rightarrow> nat" where
  "snapshot_end r = walFrameOffset (mxFrame (hdr r) + 1) (walPagesize r)"

lemma read_agree:
  assumes "wi_ok r s fs" "wi_ok r t gs" "take (mxFrame (hdr r)) fs = take (mxFrame (hdr r)) gs"
    "mxFrame (hdr r) \<le> length fs" "mxFrame (hdr r) \<le> length gs" "take (snapshot_end r) f = take (snapshot_end r) g"
    "readLock r \<noteq> 0"
  shows "readDbPage os r t g d p sz = readDbPage os r s f d p sz"
proof -
  obtain w' rc x where q: "walFindFrame (env os) r s p = Some (w', s, rc, x)" "walFindFrame (env os) r t p = Some (w', t, rc, x)"
    using walFindFrame_agree [OF assms(1,2) refl assms(3-5)] by blast
  have w: "hdr w' = hdr r" "rc = SQLITE_OK \<longrightarrow> x \<le> mxFrame (hdr r)"
    using walFindFrame_ok [of r s fs "env os" p] assms(1,4,7) q(1) last_frame_le same_wal_fields(7) by auto
  have "sqlite3WalReadFrame os w' g x sz = sqlite3WalReadFrame os w' f x sz" if "rc = SQLITE_OK" "x \<noteq> 0"
  proof -
    let ?z = "walPagesize r"
    have "walFrameOffset x ?z + WAL_FRAME_HDRSIZE + ?z = walFrameOffset (Suc x) ?z" using that(2) walFrameOffset_Suc [of x ?z] by simp
    also have "\<dots> \<le> snapshot_end r" using w(2) that(1) unfolding snapshot_end_def by (intro walFrameOffset_mono) simp
    finally have "walFrameOffset x ?z + WAL_FRAME_HDRSIZE + (if ?z < sz then ?z else sz) \<le> snapshot_end r" by simp
    from osRead_agree [OF assms(6) this, of os] show ?thesis
      unfolding sqlite3WalReadFrame_def Let_def w(1) walPagesize_def by simp
  qed
  then show ?thesis by (simp add: readDbPage_eq q)
qed

text \<open>
  What other connections can do while \<open>r\<close> has its read transaction, each step with the model of the code:
  \<^item> write to the log file, behind the frames that are committed;
  \<^item> enter a frame behind them in the index (\<open>walIndexAppend\<close>, which may fail);
  \<^item> cut back to a frame that is not before the last commit (\<open>sqlite3WalUndo\<close> and
    \<open>sqlite3WalSavepointUndo\<close> call \<open>walCleanupHash\<close>);
  \<^item> commit: publish a header with more frames;
  \<^item> restart the log, for which the locks of the slots 1 to 4 are needed;
  \<^item> take a read slot of their own, without the lock that \<open>r\<close> holds;
  \<^item> checkpoint, with the current header, the same page size, and requests for the lock of \<open>r\<close> refused.

  Recovery of the index by another connection is not among the steps.
  A state is the shared memory, the pages of the frames in the index, the log file and the database file.
\<close>

definition may_checkpoint :: "Wal \<Rightarrow> ckptEnv \<Rightarrow> nat \<Rightarrow> nat list \<Rightarrow> Wal \<Rightarrow> walShm \<Rightarrow> bool" where
  "may_checkpoint r ck eMode fs v s \<longleftrightarrow> checkpointer ck eMode fs v s \<and> db_laws ck \<and> lock_held ck (nat (readLock r)) \<and>
     hdr v = fst (wiHdr s) \<and> exclusiveMode v = 0 \<and> walPagesize v = walPagesize r"

type_synonym logState = "walShm \<times> nat list \<times> u8 list \<times> u8 list"

inductive others_step :: "Wal \<Rightarrow> logState \<Rightarrow> logState \<Rightarrow> bool" for r where
  log_write: "mxFrame (fst (wiHdr s)) < F \<Longrightarrow> take (walFrameOffset F (walPagesize r)) g' = take (walFrameOffset F (walPagesize r)) g \<Longrightarrow>
    others_step r (s, fs, g, d) (s, fs, g', d)"
| append: "wi_ok u s fs \<Longrightarrow> mxFrame (fst (wiHdr s)) < F \<Longrightarrow> F \<le> Suc (length fs) \<Longrightarrow> F \<le> length fs \<longrightarrow> mxFrame (hdr u) = F - 1 \<Longrightarrow>
    pg \<noteq> 0 \<Longrightarrow> walIndexAppend E u s F pg = Some (u', s', rc) \<Longrightarrow>
    others_step r (s, fs, g, d) (s', if rc = SQLITE_OK then take (F - 1) fs @ [pg] else fs, g, d)"
| undo: "wi_ok u s fs \<Longrightarrow> mxFrame (fst (wiHdr s)) \<le> mxFrame (hdr u) \<Longrightarrow> mxFrame (hdr u) \<le> length fs \<Longrightarrow>
    mapped u (walFramePage (mxFrame (hdr u))) \<Longrightarrow> walCleanupHash E u s = (u', s') \<Longrightarrow>
    others_step r (s, fs, g, d) (s', take (mxFrame (hdr u)) fs, g, d)"
| commit: "mxFrame (fst (wiHdr s)) < mxFrame (hdr u) \<Longrightarrow> walIndexWriteHdr be u s = Some (u', s') \<Longrightarrow>
    others_step r (s, fs, g, d) (s', fs, g, d)"
| restart: "readLock r = 0 \<Longrightarrow> walRestartHdr be u s salt = Some (u', s') \<Longrightarrow> others_step r (s, fs, g, d) (s', [], g, d)"
| open_read: "exclusiveMode q = 0 \<Longrightarrow> lockRc os (WAL_READ_LOCK (nat (readLock r))) 1 \<noteq> SQLITE_OK \<Longrightarrow>
    lock_mark os sh (\<lambda>s. s) q s rz = Some (q', s', rc) \<Longrightarrow> others_step r (s, fs, g, d) (s', fs, g, d)"
| checkpoint: "may_checkpoint r ck eMode fs v s \<Longrightarrow> walCheckpoint os ck eMode v s g d = Some (v', s', g', d', rc) \<Longrightarrow>
    others_step r (s, fs, g, d) (s', fs, g', d')"

text \<open>What holds of an open read transaction.\<close>

definition holds_snapshot :: "Wal \<Rightarrow> walShm \<Rightarrow> nat list \<Rightarrow> bool" where
  "holds_snapshot r s fs \<longleftrightarrow> 0 \<le> readLock r \<and> readLock r < int WAL_NREADER \<and> \<not> bShmUnreliable r \<and> shared r \<and>
     (readLock r \<noteq> 0 \<longrightarrow> wi_ok r s fs \<and> mxFrame (hdr r) \<le> length fs \<and> minFrame r \<le> nBackfill (ckptInfo s) + 1 \<and>
        aReadMark (ckptInfo s) ! nat (readLock r) \<le> mxFrame (hdr r) \<and> mxFrame (hdr r) \<le> mxFrame (fst (wiHdr s)) \<and>
        (mxFrame (hdr r) = mxFrame (fst (wiHdr s)) \<longrightarrow> nPage (hdr r) = nPage (fst (wiHdr s))))"

lemma holds_snapshot_reader:
  assumes "holds_snapshot r s fs" "may_checkpoint r ck eMode fs v s"
  shows "reader ck fs v s r (nat (readLock r))"
  using assms unfolding holds_snapshot_def may_checkpoint_def reader_def by auto

lemma opened_holds:
  assumes "opened sh r s" "\<not> bShmUnreliable r" "shared r" "readLock r \<noteq> 0 \<longrightarrow> wi_ok r s fs \<and> mxFrame (hdr r) \<le> length fs"
  shows "holds_snapshot r s fs"
  using assms by (simp add: opened_def holds_snapshot_def)

text \<open>
  All steps but the checkpoint leave the database file and the snapshot in the log and in the index alone,
  the read mark of \<open>r\<close> too, and a header that is published has more frames.
\<close>

definition snapshot_kept :: "Wal \<Rightarrow> walShm \<Rightarrow> nat list \<Rightarrow> u8 list \<Rightarrow> walShm \<Rightarrow> nat list \<Rightarrow> u8 list \<Rightarrow> bool" where
  "snapshot_kept r s fs g s' fs' g' \<longleftrightarrow> (readLock r \<noteq> 0 \<longrightarrow>
     wi_ok r s' fs' \<and> mxFrame (hdr r) \<le> length fs' \<and> take (mxFrame (hdr r)) fs' = take (mxFrame (hdr r)) fs \<and>
     take (snapshot_end r) g' = take (snapshot_end r) g \<and> nBackfill (ckptInfo s') = nBackfill (ckptInfo s) \<and>
     aReadMark (ckptInfo s') ! nat (readLock r) = aReadMark (ckptInfo s) ! nat (readLock r) \<and>
     (fst (wiHdr s') = fst (wiHdr s) \<or> mxFrame (fst (wiHdr s)) < mxFrame (fst (wiHdr s'))))"

lemma wi_ok_shared: "wi_ok u s fs \<Longrightarrow> shared r \<Longrightarrow> wi_ok r s fs"
  by (simp add: wi_ok_def has_page_def)

lemma log_write_keeps:
  assumes "holds_snapshot r s fs" "mxFrame (fst (wiHdr s)) < F"
    "take (walFrameOffset F (walPagesize r)) g' = take (walFrameOffset F (walPagesize r)) g"
  shows "snapshot_kept r s fs g s fs g'"
proof (cases "readLock r = 0")
  case False
  then have "mxFrame (hdr r) \<le> mxFrame (fst (wiHdr s))" using assms(1) by (simp add: holds_snapshot_def)
  with assms(2) have "mxFrame (hdr r) + 1 \<le> F" by linarith
  then have "snapshot_end r \<le> walFrameOffset F (walPagesize r)" unfolding snapshot_end_def by (rule walFrameOffset_mono)
  then have "take (snapshot_end r) g' = take (snapshot_end r) g"
    using arg_cong [OF assms(3), of "take (snapshot_end r)"] by (simp add: min_def)
  then show ?thesis using assms(1) by (simp add: snapshot_kept_def holds_snapshot_def)
qed (simp add: snapshot_kept_def)

lemma append_keeps:
  assumes "holds_snapshot r s fs" "wi_ok u s fs" "mxFrame (fst (wiHdr s)) < F" "F \<le> Suc (length fs)" "F \<le> length fs \<longrightarrow> mxFrame (hdr u) = F - 1"
    "pg \<noteq> 0" "walIndexAppend E u s F pg = Some (u', s', rc)"
  shows "snapshot_kept r s fs g s' (if rc = SQLITE_OK then take (F - 1) fs @ [pg] else fs) g"
proof -
  have "0 < F" using assms(3) by simp
  from walIndexAppend_ok [OF assms(2) this assms(4-6), of E] assms(7)
  have a: "wiHdr s' = wiHdr s" "ckptInfo s' = ckptInfo s" "wi_ok u' s' (if rc = SQLITE_OK then take (F - 1) fs @ [pg] else fs)"
    by (auto split: if_splits)
  have "mxFrame (hdr r) \<le> mxFrame (fst (wiHdr s))" if "readLock r \<noteq> 0" using assms(1) that by (simp add: holds_snapshot_def)
  with assms(3) have "mxFrame (hdr r) \<le> F - 1" if "readLock r \<noteq> 0" using that by fastforce
  then show ?thesis
    using a(1,2) wi_ok_shared [OF a(3)] assms(1,4) by (auto simp: snapshot_kept_def holds_snapshot_def min_def)
qed

lemma undo_keeps:
  assumes "holds_snapshot r s fs" "wi_ok u s fs" "mxFrame (fst (wiHdr s)) \<le> mxFrame (hdr u)" "mxFrame (hdr u) \<le> length fs"
    "mapped u (walFramePage (mxFrame (hdr u)))" "walCleanupHash E u s = (u', s')"
  shows "snapshot_kept r s fs g s' (take (mxFrame (hdr u)) fs) g"
proof -
  have "snd (snd (walHashGet E u s (walFramePage (mxFrame (hdr u))))) = SQLITE_OK" using walHashGet_mapped [OF assms(5)] by simp
  from walCleanupHash_ok [OF assms(2,4) this] assms(6)
  have a: "wiHdr s' = wiHdr s" "ckptInfo s' = ckptInfo s" "wi_ok u' s' (take (mxFrame (hdr u)) fs)" by auto
  have "mxFrame (hdr r) \<le> mxFrame (hdr u)" if "readLock r \<noteq> 0" using assms(1,3) that by (simp add: holds_snapshot_def)
  then show ?thesis
    using a(1,2) wi_ok_shared [OF a(3)] assms(1,4) by (auto simp: snapshot_kept_def holds_snapshot_def min_def)
qed

lemma commit_keeps:
  assumes "holds_snapshot r s fs" "mxFrame (fst (wiHdr s)) < mxFrame (hdr u)" "walIndexWriteHdr be u s = Some (u', s')"
  shows "snapshot_kept r s fs g s' fs g"
proof -
  obtain h where "s' = s\<lparr>wiHdr := (h, h)\<rparr>" "mxFrame h = mxFrame (hdr u)"
    using assms(3) by (auto simp: walIndexWriteHdr_def Let_def split: bind_splits if_splits)
  then show ?thesis using assms(1,2) by (simp add: snapshot_kept_def holds_snapshot_def wi_ok_def)
qed

lemma raise_mark_held:
  assumes "exclusiveMode q = 0" "lockRc os (WAL_READ_LOCK j) 1 \<noteq> SQLITE_OK"
  shows "raise_mark os q i k marks r0 j0 rz = (marks', x) \<Longrightarrow> marks' ! j = marks ! j"
proof (induction k arbitrary: i rz)
  case (Suc k)
  then show ?case using assms by (cases "i = j") (auto simp: walLockExclusive_def Let_def split: if_splits)
qed simp

lemma open_read_keeps:
  assumes "holds_snapshot r s fs" "exclusiveMode q = 0" "lockRc os (WAL_READ_LOCK (nat (readLock r))) 1 \<noteq> SQLITE_OK"
    "lock_mark os sh (\<lambda>s. s) q s rz = Some (q', s', rc)"
  shows "snapshot_kept r s fs g s' fs g"
proof -
  obtain z where z: "best_mark (aReadMark (ckptInfo s)) (mxFrame (hdr q)) 1 (WAL_NREADER - 1) 0 0 = Some z"
    using assms(4) by (cases "best_mark (aReadMark (ckptInfo s)) (mxFrame (hdr q)) 1 (WAL_NREADER - 1) 0 0") (simp_all add: lock_mark_def)
  obtain x y marks mr mi rc1 err where b: "best_mark (aReadMark (ckptInfo s)) (mxFrame (hdr q)) 1 (WAL_NREADER - 1) 0 0 = Some (x, y)"
    "(if \<not> bit (readOnly q) 1 \<and> (x < mxFrame (hdr q) \<or> y = 0) then raise_mark os q 1 (WAL_NREADER - 1) (aReadMark (ckptInfo s)) x y rz
      else (aReadMark (ckptInfo s), x, y, rz, False)) = (marks, mr, mi, rc1, err)"
    using z by (metis prod_cases5 surj_pair)
  have "marks ! nat (readLock r) = aReadMark (ckptInfo s) ! nat (readLock r)"
    using b(2) raise_mark_held [OF assms(2,3)] by (auto split: if_splits)
  moreover have "s' = s\<lparr>ckptInfo := (ckptInfo s)\<lparr>aReadMark := marks\<rparr>\<rparr>"
    using assms(4) unfolding lock_mark_def b(1) Option.bind.simps prod.case Let_def b(2) by (auto split: if_splits)
  ultimately show ?thesis using assms(1) by (simp add: snapshot_kept_def holds_snapshot_def wi_ok_def)
qed

lemma kept_keeps:
  assumes "snapshot_kept r s fs g s' fs' g'" "holds_snapshot r s fs"
  shows "holds_snapshot r s' fs' \<and> readDbPage os r s' g' d p sz = readDbPage os r s g d p sz"
proof (cases "readLock r = 0")
  case True
  then have "walFindFrame (env os) r u p = Some (r, u, SQLITE_OK, 0)" for u
    using assms(2) by (simp add: walFindFrame_def holds_snapshot_def)
  then show ?thesis using True assms(2) by (simp add: readDbPage_eq holds_snapshot_def)
next
  case False
  note H = assms(2) [unfolded holds_snapshot_def] and K = assms(1) [unfolded snapshot_kept_def]
  have "holds_snapshot r s' fs'" unfolding holds_snapshot_def using H K False by auto
  moreover have "readDbPage os r s' g' d p sz = readDbPage os r s g d p sz"
    using H K False by (intro read_agree [of r s fs s' fs']) auto
  ultimately show ?thesis by simp
qed

lemma checkpoint_keeps_holding:
  assumes "may_checkpoint r ck eMode fs v s" "holds_snapshot r s fs"
    "walCheckpoint os ck eMode v s g d = Some (v', s', g', d', rc)"
  shows "holds_snapshot r s' fs"
proof -
  let ?j = "nat (readLock r)"
  have M: "db_laws ck" "checkpointer ck eMode fs v s" "exclusiveMode v = 0" "lock_held ck ?j" using assms(1) by (simp_all add: may_checkpoint_def)
  note H = assms(2) [unfolded holds_snapshot_def]
  obtain n1 c where q: "pages_done os ck g fs v s d n1 c d'"
    "same_wal v v' \<and> s' = s\<lparr>ckptInfo := c\<rparr> \<and> g' = g \<or> \<not> (exclusiveMode v = 0 \<and> lock_held ck ?j \<and> 0 < ?j \<and> ?j < WAL_NREADER)"
    using walCheckpoint_ok [OF M(1,2), of os g d ?j] assms(3) by auto
  show ?thesis
  proof (cases "readLock r = 0")
    case True
    then show ?thesis using H by (simp add: holds_snapshot_def)
  next
    case False
    then have s': "s' = s\<lparr>ckptInfo := c\<rparr>" using q(2) M(3,4) H by auto
    have "aReadMark c ! ?j = aReadMark (ckptInfo s) ! ?j" "nBackfill (ckptInfo s) \<le> nBackfill c"
      using q(1) M(3,4) unfolding pages_done_def by auto
    then show ?thesis using H s' by (auto simp: holds_snapshot_def wi_ok_def)
  qed
qed

lemma others_keep:
  assumes "others_step r (s, fs, g, d) (s', fs', g', d')" "holds_snapshot r s fs"
  shows "holds_snapshot r s' fs' \<and>
    (0 < p \<and> p \<le> nPage (hdr r) \<longrightarrow> readDbPage os r s' g' d' p (walPagesize r) = readDbPage os r s g d p (walPagesize r))"
  using assms(1)
proof cases
  case (log_write F)
  have "snapshot_kept r s fs g s fs g'" by (rule log_write_keeps [OF assms(2) log_write(4,5)])
  from kept_keeps [OF this assms(2), of os d p "walPagesize r"] log_write(1-3) show ?thesis by blast
next
  case (append u F pg E u' rc)
  have "snapshot_kept r s fs g s' (if rc = SQLITE_OK then take (F - 1) fs @ [pg] else fs) g"
    by (rule append_keeps [OF assms(2) append(4-9)])
  from kept_keeps [OF this assms(2), of os d p "walPagesize r"] append(1-3) show ?thesis by simp
next
  case (undo u E u')
  have "snapshot_kept r s fs g s' (take (mxFrame (hdr u)) fs) g" by (rule undo_keeps [OF assms(2) undo(4-8)])
  from kept_keeps [OF this assms(2), of os d p "walPagesize r"] undo(1-3) show ?thesis by simp
next
  case (commit u be u')
  have "snapshot_kept r s fs g s' fs g" by (rule commit_keeps [OF assms(2) commit(4,5)])
  from kept_keeps [OF this assms(2), of os d p "walPagesize r"] commit(1-3) show ?thesis by simp
next
  case (restart be u salt u')
  have "snapshot_kept r s fs g s' [] g" using restart(4) by (simp add: snapshot_kept_def)
  from kept_keeps [OF this assms(2), of os d p "walPagesize r"] restart(1-3) show ?thesis by simp
next
  case (open_read q os2 sh rz q' rc)
  have "snapshot_kept r s fs g s' fs g" by (rule open_read_keeps [OF assms(2) open_read(4-6)])
  from kept_keeps [OF this assms(2), of os d p "walPagesize r"] open_read(1-3) show ?thesis by simp
next
  case (checkpoint ck eMode v os2 v' rc)
  then have M: "db_laws ck" "checkpointer ck eMode fs v s" "exclusiveMode v = 0" "walPagesize r = walPagesize v" by (simp_all add: may_checkpoint_def)
  have "holds_snapshot r s' fs'" using checkpoint_keeps_holding [OF checkpoint(2) assms(2) checkpoint(3)] checkpoint(1) by simp
  moreover have "readDbPage os r s' g' d' p (walPagesize r) = readDbPage os r s g d p (walPagesize r)" if "0 < p" "p \<le> nPage (hdr r)"
    using checkpoint_keeps [OF M(1-3) holds_snapshot_reader [OF assms(2) checkpoint(2)] that M(4), of os2 g d os] checkpoint(3) by auto
  ultimately show ?thesis by blast
qed

lemma others_run:
  assumes "(others_step r)\<^sup>*\<^sup>* (s, fs, g, d) \<sigma>" "holds_snapshot r s fs"
  shows "case \<sigma> of (s', fs', g', d') \<Rightarrow> holds_snapshot r s' fs' \<and>
    (0 < p \<and> p \<le> nPage (hdr r) \<longrightarrow> readDbPage os r s' g' d' p (walPagesize r) = readDbPage os r s g d p (walPagesize r))"
  using assms(1)
proof (induction rule: rtranclp_induct)
  case base
  then show ?case using assms(2) by simp
next
  case (step \<rho> \<tau>)
  obtain s1 fs1 g1 d1 s2 fs2 g2 d2 where e: "\<rho> = (s1, fs1, g1, d1)" "\<tau> = (s2, fs2, g2, d2)" by (cases \<rho>; cases \<tau>)
  from step.IH have I: "holds_snapshot r s1 fs1"
    "0 < p \<and> p \<le> nPage (hdr r) \<longrightarrow> readDbPage os r s1 g1 d1 p (walPagesize r) = readDbPage os r s g d p (walPagesize r)" by (simp_all add: e(1))
  from others_keep [OF step.hyps(2) [unfolded e] I(1), of p os] I(2) show ?case by (simp add: e(2))
qed

section \<open>Properties\<close>

text \<open>
  C4: Opening a read transaction ends, with one of the first 101 attempts and never with the internal
  code \<open>WAL_RETRY\<close>, whatever the log holds, the locks answer, and other connections do to the
  shared memory between its steps. On success the connection holds the shared lock of a read slot
  and has the header that is in the shared memory then; in slot 0 the whole log has been backfilled, in
  another one it looks at the frames after \<open>nBackfill\<close> and no mark of its slot is above its snapshot,
  so that no checkpoint goes past it. On failure it holds no lock. When \<open>*pChanged\<close> is not set, the
  header, and with it the page cache, is still that of before.
\<close>

theorem begin_read_opens:
  assumes "attempts_ok os others mid f" "readLock w < 0" "\<not> writeLock w" "\<not> ckptLock w" "\<not> bShmUnreliable w" "shm_ok s"
  shows "\<exists>w' s' c rc k. sqlite3WalBeginReadTransaction os sh others mid f w s False = Some (w', s', c, rc) \<and> rc \<noteq> WAL_RETRY \<and>
    k \<le> WAL_RETRY_PROTOCOL_LIMIT + 1 \<and> (if rc = int SQLITE_OK then opened (sh k) w' s' else readLock w' < 0 \<and> \<not> writeLock w') \<and> (\<not> c \<longrightarrow> hdr w' = hdr w)"
proof -
  have "idle w" using assms by (simp add: idle_def)
  from begin_read_loop_ok [OF assms(1) this assms(6), of 0 sh False] obtain w' s' c rc k where
    "begin_read_loop os sh others mid f w s False 0 = Some (w', s', c, rc)" "rc \<noteq> WAL_RETRY" "k \<le> WAL_RETRY_PROTOCOL_LIMIT + 1" "attempt_result (sh k) w False w' s' c rc"
    by auto
  then show ?thesis using assms(4) by (auto simp: sqlite3WalBeginReadTransaction_def attempt_result_def idle_def)
qed

text \<open>
  C5: From the moment a read transaction has been opened, in an index in shared memory that is well
  formed, nothing that other connections do to write or to checkpoint changes what it reads. In any order and number they may write to the log behind the
  last commit, enter frames in the index, roll back, commit, open read transactions of their own,
  restart the log if the transaction reads from the database file only, and checkpoint in any mode and
  with any failures, also after later commits, as long as the lock of the transaction is refused to
  them: every page of the snapshot is read with the same result as in the moment of opening. And
  every checkpoint that can come next is defined.
\<close>

theorem begin_read_protected:
  assumes "attempts_ok os others mid f" "readLock w < 0" "\<not> writeLock w" "\<not> ckptLock w" "\<not> bShmUnreliable w" "shm_ok s"
    and r: "sqlite3WalBeginReadTransaction os sh others mid f w s False = Some (r, s1, c, int SQLITE_OK)"
    and L: "shared r" "readLock r \<noteq> 0 \<longrightarrow> wi_ok r s1 fs1 \<and> mxFrame (hdr r) \<le> length fs1"
    and run: "(others_step r)\<^sup>*\<^sup>* (s1, fs1, g1, d1) (s2, fs2, g2, d2)"
    and p: "0 < p" "p \<le> nPage (hdr r)"
  shows "readDbPage os' r s2 g2 d2 p (walPagesize r) = readDbPage os' r s1 g1 d1 p (walPagesize r) \<and>
    (\<forall>os2 ck eMode v. may_checkpoint r ck eMode fs2 v s2 \<longrightarrow> walCheckpoint os2 ck eMode v s2 g2 d2 \<noteq> None)"
proof -
  have "idle w" using assms(2,3,5) by (simp add: idle_def)
  from begin_read_loop_ok [OF assms(1) this assms(6), of 0 sh False] r obtain k where
    "attempt_result (sh k) w False r s1 c 0" using assms(4) by (auto simp: sqlite3WalBeginReadTransaction_def)
  then have "opened (sh k) r s1" "\<not> bShmUnreliable r" by (simp_all add: attempt_result_def)
  from opened_holds [OF this L] have "holds_snapshot r s1 fs1" .
  from others_run [OF run this, of p os'] have "readDbPage os' r s2 g2 d2 p (walPagesize r) = readDbPage os' r s1 g1 d1 p (walPagesize r)"
    using p by simp
  moreover have "walCheckpoint os2 ck eMode v s2 g2 d2 \<noteq> None" if "may_checkpoint r ck eMode fs2 v s2" for os2 ck eMode v
  proof -
    have "db_laws ck" "checkpointer ck eMode fs2 v s2" using that by (simp_all add: may_checkpoint_def)
    from walCheckpoint_ok [OF this, of os2 g2 d2 0] show ?thesis by auto
  qed
  ultimately show ?thesis by blast
qed

section \<open>An example\<close>

definition hdr1 :: WalIndexHdr where
  "hdr1 = hdr0\<lparr>mxFrame := 1, aCksum := cksum False (hdr_bytes False (hdr0\<lparr>mxFrame := 1\<rparr>)) (0, 0)\<rparr>"

text \<open>An idle connection to a log with one frame, which holds page 5.\<close>

definition example_idle :: "Wal \<Rightarrow> walShm \<Rightarrow> bool" where
  "example_idle w s \<longleftrightarrow> wi_ok w s [5] \<and> mapped w 0 \<and> readLock w = -1 \<and> exclusiveMode w = 0 \<and> \<not> writeLock w \<and> \<not> ckptLock w \<and>
     \<not> bShmUnreliable w \<and> hdr w = hdr1 \<and> wiHdr s = (hdr1, hdr1) \<and>
     ckptInfo s = \<lparr>nBackfill = 0, aReadMark = [0, 1, 0, 0, 0], nBackfillAttempted = 0\<rparr>"

lemma example_idle: "\<exists>w s. example_idle w s"
proof -
  obtain w s where a: "wi_ok w s [5]" "same_wal wal0 w" using one_frame by blast
  let ?w = "w\<lparr>hdr := hdr1, readLock := -1, writeLock := False\<rparr>"
  let ?s = "s\<lparr>wiHdr := (hdr1, hdr1), ckptInfo := \<lparr>nBackfill = 0, aReadMark = [0, 1, 0, 0, 0], nBackfillAttempted = 0\<rparr>\<rparr>"
  have "wi_ok ?w ?s [5]" using wi_ok_cong [OF a(1), of ?w] by (simp add: wi_ok_def)
  moreover have "mapped w 0" using same_wal_mapped [OF a(2), of 0] by (simp add: mapped_def wal0_def)
  then have "mapped ?w 0" by (simp add: mapped_def)
  ultimately have "example_idle ?w ?s" using same_wal_fields [OF a(2)] by (simp add: example_idle_def wal0_def)
  then show ?thesis by blast
qed

lemma example_attempts: "attempts_ok (\<lambda>k. os0) (\<lambda>k s. s) (\<lambda>k s. s) (\<lambda>k. [])"
  by (simp add: attempts_ok_def os_ok_def keeps_shm_def os0_def env0_def no_read_errors_def map_law_def log_file_ok_def size_overflows_def)

lemma example_shm: "example_idle w s \<Longrightarrow> shm_ok s"
  by (simp add: example_idle_def shm_ok_def hdr1_def hdr0_def)

lemma example_begin:
  assumes "example_idle w s"
  shows "sqlite3WalBeginReadTransaction (\<lambda>k. os0) (\<lambda>k i. SQLITE_OK) (\<lambda>k s. s) (\<lambda>k s. s) (\<lambda>k. []) w s False =
    Some (w\<lparr>minFrame := 1, readLock := 1\<rparr>, s, False, int SQLITE_OK)"
proof -
  have m: "mapped w 0" "hdr w = hdr1" "wiHdr s = (hdr1, hdr1)" using assms by (simp_all add: example_idle_def)
  have g: "walIndexPage (env os0) w s 0 = (w, s, SQLITE_OK, True)" using m(1) by (simp add: walIndexPage_def mapped_def)
  have "length (hdr_bytes False hdr1) = 40" by (rule length_hdr_bytes) (simp add: hdr1_def hdr0_def)
  then have "walChecksumBytes False True (hdr_bytes False hdr1) None = Some (cksum False (hdr_bytes False hdr1) (0, 0))"
    by (simp add: walChecksumBytes_None walChecksumBytes_eq [of False False, simplified])
  moreover have "aCksum hdr1 = cksum False (hdr_bytes False hdr1) (0, 0)" by (simp add: hdr1_def)
  ultimately have t: "walIndexTryHdr False w s = Some (w, False, False)"
    using m unfolding walIndexTryHdr_def by (simp add: hdr1_def hdr0_def)
  have b: "\<not> bigEndian os0" "iVersion hdr1 = WAL_MAX_VERSION" by (simp_all add: os0_def hdr1_def hdr0_def)
  have h: "walIndexReadHdr os0 sh [] w s False = Some (w, s, False, SQLITE_OK)" for sh
    using m(2) b t by (simp add: walIndexReadHdr_def g)
  have "(4::nat) = Suc (Suc (Suc (Suc 0)))" by simp
  then have b1: "best_mark [0, 1, 0, 0, 0] (Suc 0) (Suc 0) 4 0 0 = Some (1, 1)" by (simp only: best_mark.simps) (simp add: rd_def)
  have l: "lock_mark os0 (\<lambda>i. SQLITE_OK) (\<lambda>s. s) w s SQLITE_OK = Some (w\<lparr>minFrame := 1, readLock := 1\<rparr>, s, int SQLITE_OK)"
    using assms b1 by (simp add: lock_mark_def example_idle_def hdr1_def hdr0_def walLockShared_def Let_def)
  have "walTryBeginRead os0 (\<lambda>i. SQLITE_OK) (\<lambda>s. s) [] w s False False 1 = Some (w\<lparr>minFrame := 1, readLock := 1\<rparr>, s, False, int SQLITE_OK)"
    using assms unfolding walTryBeginRead_def h by (simp add: h l example_idle_def hdr1_def hdr0_def)
  then show ?thesis
    using assms unfolding sqlite3WalBeginReadTransaction_def by (subst begin_read_loop.simps) (simp add: example_idle_def)
qed

theorem begin_read_opens_witness:
  "\<exists>w s. mxFrame (hdr w) = 1 \<and> (\<exists>w' s' c rc k.
     sqlite3WalBeginReadTransaction (\<lambda>k. os0) (\<lambda>k i. SQLITE_OK) (\<lambda>k s. s) (\<lambda>k s. s) (\<lambda>k. []) w s False = Some (w', s', c, rc) \<and> rc \<noteq> WAL_RETRY \<and>
    k \<le> WAL_RETRY_PROTOCOL_LIMIT + 1 \<and> (if rc = int SQLITE_OK then opened (\<lambda>i. SQLITE_OK) w' s' else readLock w' < 0 \<and> \<not> writeLock w') \<and> (\<not> c \<longrightarrow> hdr w' = hdr w))"
proof -
  obtain w s where e: "example_idle w s" using example_idle by blast
  then have "readLock w < 0" "\<not> writeLock w" "\<not> ckptLock w" "\<not> bShmUnreliable w" "mxFrame (hdr w) = 1"
    by (simp_all add: example_idle_def hdr1_def)
  with begin_read_opens [OF example_attempts this(1-4) example_shm [OF e], of "\<lambda>k i. SQLITE_OK"] show ?thesis by blast
qed

text \<open>Every lock is granted, except that of read slot 1.\<close>

definition ck1 :: ckptEnv where
  "ck1 = (ck0 SQLITE_OK)\<lparr>tryLock := (\<lambda>k l n. if l \<le> WAL_READ_LOCK 1 \<and> WAL_READ_LOCK 1 < l + n then SQLITE_BUSY else SQLITE_OK)\<rparr>"

lemma ck1_facts: "db_laws ck1" "lock_held ck1 1" "length (salt1 ck1) = 4" "busyHandler ck1 = None"
  using db_laws_ck0 [of SQLITE_OK] by (simp_all add: ck1_def db_laws_def lock_held_def ck0_def)

text \<open>
  After the transaction with one frame has been opened, another connection writes a frame for page 6,
  commits it, and checkpoints.
\<close>

lemma example_run:
  assumes "example_idle w s" "r = w\<lparr>minFrame := 1, readLock := 1\<rparr>"
  shows "\<exists>s1 s2 d2. mxFrame (fst (wiHdr s1)) = 2 \<and>
    (others_step r)\<^sup>*\<^sup>* (s, [5], replicate 600 1, []) (s1, [5, 6], replicate 600 1 @ replicate 600 2, []) \<and>
    others_step r (s1, [5, 6], replicate 600 1 @ replicate 600 2, []) (s2, [5, 6], replicate 600 1 @ replicate 600 2, d2)"
proof -
  note E = assms(1) [unfolded example_idle_def]
  let ?u = "w\<lparr>writeLock := True\<rparr>" and ?f = "replicate 600 1 @ replicate 600 (2 :: u8)"
  have u: "wi_ok ?u s [5]" "mapped ?u 0" using E wi_ok_cong [of w s "[5]" ?u] by (simp_all add: mapped_def)
  have h: "walFramePage 2 = 0" by (simp add: walFramePage_def)
  have F: "(0::nat) < 2" "2 \<le> Suc (length [5::nat])" "2 \<le> length [5::nat] \<longrightarrow> mxFrame (hdr ?u) = 2 - 1" "(6::nat) \<noteq> 0" by simp_all
  obtain u' s1 rc where "walIndexAppend env0 ?u s 2 6 = Some (u', s1, rc)" "same_wal ?u u'" "wiHdr s1 = wiHdr s" "ckptInfo s1 = ckptInfo s"
    "if rc = SQLITE_OK then wi_ok u' s1 (take (2 - 1) [5] @ [6]) else rc = snd (snd (walHashGet env0 ?u s (walFramePage 2))) \<and> wi_ok u' s1 [5]"
    using walIndexAppend_ok [OF u(1) F, of env0] by blast
  then have a: "walIndexAppend env0 ?u s 2 6 = Some (u', s1, SQLITE_OK)" "same_wal ?u u'" "wiHdr s1 = wiHdr s" "ckptInfo s1 = ckptInfo s"
    "wi_ok u' s1 [5, 6]" using walHashGet_mapped [OF u(2), of env0 s] unfolding h by (auto split: if_splits)
  have r: "mxFrame (hdr r) = 1" "readLock r = 1" "walPagesize r = 512" "mxFrame (fst (wiHdr s)) = 1"
    using E assms(2) by (simp_all add: walPagesize_def hdr1_def hdr0_def)
  have step1: "others_step r (s, [5], replicate 600 1, []) (s, [5], ?f, [])"
    by (rule log_write [where F = 2]) (simp_all add: r walFrameOffset_def)
  have "others_step r (s, [5], ?f, []) (s1, if SQLITE_OK = SQLITE_OK then take (2 - 1) [5] @ [6] else [5], ?f, [])"
    by (rule append [OF u(1) _ F(2-4) a(1)]) (simp add: r)
  then have step2: "others_step r (s, [5], ?f, []) (s1, [5, 6], ?f, [])" by simp
  let ?v = "u'\<lparr>hdr := (hdr u')\<lparr>mxFrame := 2\<rparr>\<rparr>"
  note W = same_wal_fields [OF a(2)]
  have v: "length (aSalt (hdr ?v)) = 8" "mapped ?v 0" "writeLock ?v"
    using W(4,7) E same_wal_mapped [OF a(2) u(2)] by (simp_all add: hdr1_def hdr0_def mapped_def)
  obtain c h2 where w2: "h2 = (hdr ?v)\<lparr>isInit := True, iVersion := WAL_MAX_VERSION, aCksum := c\<rparr>"
    "walIndexWriteHdr False ?v s1 = Some (?v\<lparr>hdr := h2\<rparr>, s1\<lparr>wiHdr := (h2, h2)\<rparr>)"
    using walIndexWriteHdr_ok [OF v, of False s1] by (auto simp: Let_def)
  let ?s = "s1\<lparr>wiHdr := (h2, h2)\<rparr>" and ?w = "?v\<lparr>hdr := h2\<rparr>"
  have step3: "others_step r (s1, [5, 6], ?f, []) (?s, [5, 6], ?f, [])"
    by (rule commit [OF _ w2(2)]) (simp add: a(3) r(4))
  have h2: "mxFrame h2 = 2" "hszPage h2 = 512" "length (aSalt h2) = 8" using w2(1) W(7) E by (simp_all add: hdr1_def hdr0_def)
  have z: "wi_ok ?w ?s [5, 6]" "mapped ?w 0" "exclusiveMode ?w = 0"
    using a(5) wi_ok_cong [of u' s1 "[5, 6]" ?w] v(2) W(3) E by (simp_all add: wi_ok_def mapped_def)
  have ck: "checkpointer ck1 0 [5, 6] ?w ?s"
    using z E a(4) ck1_facts h2 by (simp add: checkpointer_def gives_up_def)
  have "walPagesize ?w = walPagesize r" unfolding r using h2(2) by (simp add: walPagesize_def)
  then have m: "may_checkpoint r ck1 0 [5, 6] ?w ?s"
    using ck ck1_facts z(3) r(2) by (simp add: may_checkpoint_def)
  obtain v' s2 g2 d2 rc n1 c where q: "walCheckpoint os0 ck1 0 ?w ?s ?f [] = Some (v', s2, g2, d2, rc)" "g2 = ?f"
    using walCheckpoint_ok [OF ck1_facts(1) ck, of os0 ?f "[]" 1] ck1_facts(2) z(3) by auto
  have "others_step r (?s, [5, 6], ?f, []) (s2, [5, 6], ?f, d2)" using checkpoint [OF m q(1)] q(2) by simp
  moreover have "(others_step r)\<^sup>*\<^sup>* (s, [5], replicate 600 1, []) (?s, [5, 6], ?f, [])"
    by (rule converse_rtranclp_into_rtranclp [OF step1 converse_rtranclp_into_rtranclp [OF step2 r_into_rtranclp [of "others_step r", OF step3]]])
  moreover have "mxFrame (fst (wiHdr ?s)) = 2" using h2(1) by simp
  ultimately show ?thesis by blast
qed

theorem begin_read_protected_witness:
  "\<exists>w s r s1 s2 d2. mxFrame (hdr r) = 1 \<and> readLock r = 1 \<and> mxFrame (fst (wiHdr s1)) = 2 \<and>
    sqlite3WalBeginReadTransaction (\<lambda>k. os0) (\<lambda>k i. SQLITE_OK) (\<lambda>k s. s) (\<lambda>k s. s) (\<lambda>k. []) w s False = Some (r, s, False, int SQLITE_OK) \<and>
    (others_step r)\<^sup>*\<^sup>* (s, [5], replicate 600 1, []) (s1, [5, 6], replicate 600 1 @ replicate 600 2, []) \<and>
    others_step r (s1, [5, 6], replicate 600 1 @ replicate 600 2, []) (s2, [5, 6], replicate 600 1 @ replicate 600 2, d2) \<and>
    readDbPage os0 r s2 (replicate 600 1 @ replicate 600 2) d2 6 512 = readDbPage os0 r s (replicate 600 1) [] 6 512"
proof -
  obtain w s where e: "example_idle w s" using example_idle by blast
  define r where "r = w\<lparr>minFrame := 1, readLock := 1\<rparr>"
  obtain s1 s2 d2 where q: "mxFrame (fst (wiHdr s1)) = 2"
    "(others_step r)\<^sup>*\<^sup>* (s, [5], replicate 600 1, []) (s1, [5, 6], replicate 600 1 @ replicate 600 2, [])"
    "others_step r (s1, [5, 6], replicate 600 1 @ replicate 600 2, []) (s2, [5, 6], replicate 600 1 @ replicate 600 2, d2)"
    using example_run [OF e r_def] by blast
  have w: "readLock w < 0" "\<not> writeLock w" "\<not> ckptLock w" "\<not> bShmUnreliable w"
    using e by (simp_all add: example_idle_def)
  have r: "mxFrame (hdr r) = 1" "readLock r = 1" "nPage (hdr r) = 7" "walPagesize r = 512"
    using e by (simp_all add: r_def example_idle_def walPagesize_def hdr1_def hdr0_def)
  have sh: "shared r" using e by (simp add: shared_def r_def example_idle_def)
  have L: "readLock r \<noteq> 0 \<longrightarrow> wi_ok r s [5] \<and> mxFrame (hdr r) \<le> length [5::nat]"
    using e wi_ok_cong [of w s "[5]" r] r(1) by (simp add: example_idle_def r_def)
  have "readDbPage os0 r s2 (replicate 600 1 @ replicate 600 2) d2 6 (walPagesize r) = readDbPage os0 r s (replicate 600 1) [] 6 (walPagesize r)"
    using begin_read_protected [OF example_attempts w example_shm [OF e] example_begin [OF e, folded r_def] sh L rtranclp.rtrancl_into_rtrancl [OF q(2,3)], of 6 os0] r(3)
    by simp
  then show ?thesis unfolding r(4) using q r(1,2) example_begin [OF e, folded r_def] by blast
qed

end
