(* ===== verification/Spec2Isabelle.thy ===== *)
theory Spec2Isabelle
  imports UtilInt UtilVarint VarintFts VarintLsm Bitvec RowSet UtilText HashTable
    ByteFile MemJournal MemDb Utf Tokenize ParseLoop Complete Pattern WalIndex WalIter WalRecover
    WalCkpt WalAny WalRead
begin

text \<open>
  A verification library for the C code of this repository, which is the SQLite tree under
  \<^verbatim>\<open>src/examples/all/untitled10/lib/sqlite\<close>; file names below are relative to it. The theories
  follow the code from the integers up to the parser loop.

  \<^bold>\<open>Parts and theories.\<close>

  \<^item> \<open>Prelude\<close>: C integer types, checked signed arithmetic, bounds-checked buffer access, result
    codes. Undefined behaviour of C (a signed overflow, an access outside a buffer, a failing
    assertion, a loop that does not end) is the value \<open>None\<close>, so a theorem that a result is \<open>Some\<close>
    says that the execution is defined and ends.

  \<^item> \<open>UtilInt\<close> (\<^verbatim>\<open>src/util.c\<close>): \<open>sqlite3AddInt64\<close>, \<open>sqlite3SubInt64\<close>, \<open>sqlite3MulInt64\<close>,
    \<open>sqlite3AbsInt32\<close> and the logarithmic estimates; the first three in both compilations, the portable
    code and the GCC built-ins. \<open>Codec\<close> is the interface of an integer coding
    (a locale: what is read after what was written); \<open>UtilVarint\<close> (\<^verbatim>\<open>src/util.c\<close>),
    \<open>VarintFts\<close> (\<^verbatim>\<open>ext/fts3/fts3.c\<close>, \<^verbatim>\<open>ext/fts5/fts5_varint.c\<close>) and \<open>VarintLsm\<close>
    (\<^verbatim>\<open>ext/lsm1/lsm_varint.c\<close>) model the four codings, with their unrolled decoders as they are
    written, and interpret it. The lemmas: round trips, exact lengths, agreement of the unrolled
    decoders with byte-by-byte ones.

  \<^item> \<open>Probe\<close> is the open-addressing hash table; \<open>Bitvec\<close> (\<^verbatim>\<open>src/bitvec.c\<close>) uses it for its middle
    representation. A bitvec is a bitmap, a hash table or a node of smaller bitvecs; the invariant
    is kept through every change of representation, and the operations are those of a set.

  \<^item> \<open>RowSet\<close> (\<^verbatim>\<open>src/rowset.c\<close>): the list that is sorted on demand by a merge sort with 40 buckets,
    and the forest of search trees; sorted delivery and membership by batch.

  \<^item> \<open>HashTable\<close> (\<^verbatim>\<open>src/hash.c\<close>): the element list with explicit addresses and the buckets that
    point into it; every operation refines a map with keys up to ASCII case, with any allocator.

  \<^item> \<open>Ctype\<close> (\<^verbatim>\<open>src/global.c\<close>, \<^verbatim>\<open>src/sqliteInt.h\<close>): the character tables. \<open>UtilText\<close>
    (\<^verbatim>\<open>src/util.c\<close>): comparison, printing and parsing integers, hexadecimal, quoting.
    \<open>Utf\<close> (\<^verbatim>\<open>src/utf.c\<close>): reading and writing UTF-8 and UTF-16, and \<open>sqlite3VdbeMemTranslate\<close>: the
    output fits the buffer allocated for any input, and text survives translation. \<open>Pattern\<close>
    (\<^verbatim>\<open>src/func.c\<close>): the matcher behind LIKE and GLOB decides the meaning of the pattern.

  \<^item> \<open>ByteFile\<close> is the interface of a file of bytes (a locale: appended records are read back);
    \<open>MemJournal\<close> (\<^verbatim>\<open>src/memjournal.c\<close>), chunks that spill to a real file, and \<open>MemDb\<close>
    (\<^verbatim>\<open>src/memdb.c\<close>), databases in memory shared by connections, interpret it. For \<open>MemDb\<close> the
    states that any number of connections reach are an inductive relation whose invariant gives
    the lock table, isolation and memory safety. What the callers must respect (\<open>caller_ok\<close>: the order
    of locks of the pager, writing only with the exclusive lock) is checked, with the \<open>ALWAYS\<close> and
    \<open>NEVER\<close> macros of the code as assertions.

  \<^item> \<open>Tokenize\<close> and \<open>ParseLoop\<close> (\<^verbatim>\<open>src/tokenize.c\<close>): one token, and the loop that drives the generated
    parser; tokens fit in the text, cover it, and quoted data are one token; the loop ends and
    refines a fold of the parser over the words. \<open>Complete\<close> (\<^verbatim>\<open>src/complete.c\<close>): the table-driven
    machine accepts exactly the sequences of complete statements of a grammar.

  \<^item> The write-ahead log (\<^verbatim>\<open>src/wal.c\<close>): \<open>WalIndex\<close>, the index in shared memory with its hash tables
    (appending refines appending to a list, a lookup gives the last frame of a page); \<open>WalIter\<close>, the
    iterator of the checkpoint (each page once, in order, with its last frame); \<open>WalFrame\<close>, the
    checksum and the frame header; \<open>WalRecover\<close>, recovery of the index from the log file, which
    gives exactly the last commit of what was written, and \<open>WalAny\<close>, which shows that it leaves a
    well-formed index whatever the file holds, but for the one kind of header on which the test of
    the page size overflows; \<open>WalCkpt\<close>, the checkpoint in all its modes, which changes
    nothing that a reader sees, keeps the database file in step with \<open>nBackfill\<close> when calls fail,
    and completes when they do not; \<open>WalRead\<close>, opening a read transaction with the steps of other
    connections in between, which ends and establishes what the checkpoint relies on of a reader,
    and the run of other connections after that (\<open>others_step\<close>: writes behind the last commit,
    entries in the index, rollbacks, commits, readers, checkpoints, each with the functions of the
    model), in which every page of the snapshot stays as it was.

  \<^bold>\<open>State.\<close> A C struct is a record or datatype with the fields the code uses; a function that
  changes it returns the changed value. Memory allocation, the file system below a journal, the
  generated parser and keyword table are parameters; theorems hold for all of them, or name what
  they rely on as a hypothesis (\<open>os_laws\<close>, \<open>kw_ok\<close>).

  \<^bold>\<open>Bounds and loops.\<close> Loops are recursive functions with a measure; the loops that end only on
  well-formed input (token by token, statement by statement) are partial functions into \<open>option\<close>
  with a theorem that they return. A few loops of the code without a counter of their own are
  modelled with one, and running out is \<open>None\<close>, which the theorems exclude: \<open>sqlite3VarintLen_loop\<close> and
  \<open>fts3_len_loop\<close> with 10 rounds (64 bits have at most 10 groups of seven), the probe loops of
  \<open>Bitvec\<close> with the 124 slots of the table (one of them is always free), \<open>bv_set_at\<close> with 16 for the
  depth of the tree and the changes of representation (\<open>bv_need\<close> computes what a 32-bit size
  needs). The counters \<open>nCollide\<close> of \<open>find_slots\<close> and \<open>free_slot\<close> are those of the code. Numbers of
  frames are unbounded in the models of the log, which are exact for logs below 2 TiB (2 to
  the 32nd frames of the least size).

  \<^bold>\<open>Not modelled.\<close> The SQL compiler, the virtual machine, the b-tree, the pager and the operating
  system layers are beyond this development so far. The C++ sources of the repository outside the
  SQLite tree are sketches that do not compile and have no semantics to translate; the Python,
  JavaScript and documentation trees, the vendored C++ libraries and the SQLite test harness are
  left out.
\<close>

end
